(* ===== verification/Prelude.thy ===== *)
theory Prelude
  imports Main "HOL-Library.AList" "HOL-Library.Multiset"
begin

text \<open>
  Shared vocabulary of the development.  It holds the types every component names
  (identifiers, sizes), the error values of \<open>oqueue-core\<close>'s \<open>Error\<close> that the
  modelled code returns, the result type with its bind, and generic lemmas on
  association lists and sorting.

  Rust's \<open>Result<T, Error>\<close> is \<open>error + 'a\<close> (\<open>Inl\<close> the error); the \<open>?\<close> operator is
  \<open>bindR\<close>.  A \<open>HashMap\<close> whose iteration order or length the code uses is an
  association list with distinct keys (its list order is one of the iteration orders);
  one that is only looked up is a partial function.
\<close>

section \<open>Collections of facts\<close>

named_theorems result_simps \<open>unfolding of binds on results\<close>

section \<open>Identifiers and machine widths\<close>

type_synonym topic_id = string
type_synonym partition_id = int
type_synonym object_key = string
type_synonym offset = int
type_synonym commit_version = nat
type_synonym timestamp = int
type_synonym pkey = "topic_id \<times> partition_id"

abbreviation i64_max :: int where "i64_max \<equiv> 9223372036854775807"
abbreviation u64_max :: nat where "u64_max \<equiv> 18446744073709551615"
abbreviation i32_max :: int where "i32_max \<equiv> 2147483647"

section \<open>Errors\<close>

text \<open>
  The variants of \<open>oqueue_core::Error\<close> the modelled code constructs, with their payloads.
  The \<open>because\<close> text of \<open>SwapRefused\<close> is a value of \<open>swap_reason\<close>, one constructor per
  format string.  \<open>Panicked\<close> is not a variant of the enum: it is an out-of-bounds index,
  and the development proves that it is never the result.
\<close>

datatype swap_reason =
    RetiresNothing nat
  | InstallsNothing nat object_key
  | CoversNoOffsets object_key
  | DoesNotCover nat nat object_key
  | NotInHistory object_key

datatype error =
    NegativeOffset int
  | NegativeOffsetDelta int
  | OffsetOverflow int int
  | CommitVersionOverflow nat nat
  | NonMonotonicCommitVersion nat nat
  | EmptyByteRange
  | IndexObjectMismatch
  | EmptySpanInLog topic_id partition_id object_key
  | ManifestDoesNotMeetHistory topic_id partition_id offset offset
  | SwapRefused topic_id partition_id swap_reason
  | TrimPastEnd topic_id partition_id offset offset
  | BelowLogStart offset offset
  | InvalidIndexQuota nat nat
  | IndexQuotaExceeded topic_id partition_id nat nat
  | EmptyObjectKey
  | EmptyTopicId
  | EmptyGroupId
  | EmptyMemberId
  | IllegalGroupTransition string string
  | NegativePartitionId int
  | NegativeProducerId int
  | NegativeProducerEpoch int
  | NegativeTimestamp int
  | MalformedMetadataSegment nat
  | ObjectNotFound object_key
  | PreconditionFailed object_key
  | ByteRangeOutOfBounds object_key nat nat nat
  | EmptyKeyId
  | InvalidKeyId string
  | RegionEnvelopeLength string nat
  | RegionEnvelopeMismatch bool
  | RegionNotEncrypted
  | EmptyRegion
  | EmptyBundle
  | UnboundedRegion
  | BundleTooLarge
  | BundleTailTooShort nat nat
  | MalformedBundleFooter nat
  | UnknownBundleFormat nat
  | UnknownRegionAlg nat
  | RegionKeyDomainMismatch bool
  | MalformedWriterId
  | BundleSequenceExhausted
  | OverlappingCompactionPlans
  | CompactionRoundTooLarge int int
  | GcInequalityViolated int int
  | Permanent
  | SlowDown
  | Throttled
  | Transient
  | Panicked

type_synonym 'a result = "error + 'a"

section \<open>Results\<close>

definition bindR :: "('e + 'a) \<Rightarrow> ('a \<Rightarrow> 'e + 'b) \<Rightarrow> 'e + 'b" where
  "bindR r f = (case r of Inl e \<Rightarrow> Inl e | Inr x \<Rightarrow> f x)"

definition map_errR :: "('e \<Rightarrow> 'f) \<Rightarrow> ('e + 'a) \<Rightarrow> 'f + 'a" where
  "map_errR g r = (case r of Inl e \<Rightarrow> Inl (g e) | Inr x \<Rightarrow> Inr x)"

definition is_ok :: "('e + 'a) \<Rightarrow> bool" where
  "is_ok r = (case r of Inl _ \<Rightarrow> False | Inr _ \<Rightarrow> True)"

lemma bindR_simps [simp, result_simps]:
  "bindR (Inl e) f = Inl e" "bindR (Inr x) f = f x"
  by (simp_all add: bindR_def)

lemma map_errR_simps [simp, result_simps]:
  "map_errR g (Inl e) = Inl (g e)" "map_errR g (Inr x) = Inr x"
  by (simp_all add: map_errR_def)

lemma is_ok_simps [simp]: "\<not> is_ok (Inl e)" "is_ok (Inr x)"
  by (simp_all add: is_ok_def)

lemma is_ok_iff: "is_ok r \<longleftrightarrow> (\<exists>x. r = Inr x)"
  by (cases r) auto

lemma bindR_Inr_iff: "bindR r f = Inr y \<longleftrightarrow> (\<exists>x. r = Inr x \<and> f x = Inr y)"
  by (cases r) auto

lemma bindR_InrE [elim]:
  assumes "bindR r f = Inr y"
  obtains x where "r = Inr x" "f x = Inr y"
  using assms by (cases r) auto

lemma bindR_assoc: "bindR (bindR r f) g = bindR r (\<lambda>x. bindR (f x) g)"
  by (cases r) auto

lemma map_errR_Inr_iff [simp]: "map_errR g r = Inr y \<longleftrightarrow> r = Inr y"
  by (cases r) auto

text \<open>A fallible left fold: Rust's \<open>for x in xs { s = f(s, x)?; }\<close>.\<close>

fun foldR :: "('s \<Rightarrow> 'a \<Rightarrow> 'e + 's) \<Rightarrow> 's \<Rightarrow> 'a list \<Rightarrow> 'e + 's" where
  "foldR f s [] = Inr s"
| "foldR f s (x # xs) = bindR (f s x) (\<lambda>s'. foldR f s' xs)"

lemma foldR_append: "foldR f s (xs @ ys) = bindR (foldR f s xs) (\<lambda>s'. foldR f s' ys)"
  by (induction xs arbitrary: s) (auto simp: bindR_assoc)

lemma foldR_snoc: "foldR f s (xs @ [x]) = bindR (foldR f s xs) (\<lambda>s'. f s' x)"
proof -
  have "bindR (f t x) (\<lambda>s'. Inr s') = f t x" for t
    by (cases "f t x") auto
  then show ?thesis by (simp add: foldR_append)
qed

lemma foldR_invariant:
  assumes "foldR f s xs = Inr t" "P s"
    and "\<And>s x s'. x \<in> set xs \<Longrightarrow> P s \<Longrightarrow> f s x = Inr s' \<Longrightarrow> P s'"
  shows "P t"
  using assms
proof (induction xs arbitrary: s)
  case Nil
  then show ?case by simp
next
  case (Cons x xs)
  from Cons.prems(1) obtain s' where s': "f s x = Inr s'" "foldR f s' xs = Inr t"
    by (auto simp: bindR_Inr_iff)
  have "P s'"
    using Cons.prems(3)[of x s s'] Cons.prems(2) s'(1) by simp
  moreover have "P b" if "y \<in> set xs" "P a" "f a y = Inr b" for a y b
    by (rule Cons.prems(3) [OF _ that(2,3)]) (simp add: that(1))
  ultimately show ?case
    using Cons.IH s'(2) by blast
qed

section \<open>Association lists\<close>

text \<open>
  \<open>get_or d al k\<close> is \<open>map.get(k).copied().unwrap_or(d)\<close>.
\<close>

definition get_or :: "'v \<Rightarrow> ('k \<times> 'v) list \<Rightarrow> 'k \<Rightarrow> 'v" where
  "get_or d al k = (case map_of al k of Some v \<Rightarrow> v | None \<Rightarrow> d)"

lemma map_of_update [simp]: "map_of (AList.update k v al) = (map_of al)(k \<mapsto> v)"
  by (rule AList.update_conv')

lemma map_of_delete [simp]: "map_of (AList.delete k al) = (map_of al)(k := None)"
  by (rule AList.delete_conv')

lemma get_or_update [simp]:
  "get_or d (AList.update k v al) k' = (if k' = k then v else get_or d al k')"
  by (simp add: get_or_def)

lemma get_or_Nil [simp]: "get_or d [] k = d"
  by (simp add: get_or_def)

lemma distinct_keys_update [simp]:
  "distinct (map fst al) \<Longrightarrow> distinct (map fst (AList.update k v al))"
  by (rule AList.distinct_update)

lemma update_Some_keys:
  assumes "map_of al k = Some w"
  shows "map fst (AList.update k v al) = map fst al"
  using assms by (induction al) (auto split: if_splits)

lemma update_None_snoc:
  assumes "map_of al k = None"
  shows "AList.update k v al = al @ [(k, v)]"
  using assms by (induction al) (auto split: if_splits)

lemma dom_map_of_keys: "dom (map_of al) = set (map fst al)"
  by (simp add: dom_map_of_conv_image_fst)

lemma distinct_alist_set_iff:
  "distinct (map fst al) \<Longrightarrow> (k, v) \<in> set al \<longleftrightarrow> map_of al k = Some v"
  by simp

section \<open>Sorting\<close>

lemma filter_eq_replicate: "filter (\<lambda>x. x = k) zs = replicate (count (mset zs) k) k"
  by (induction zs) auto

lemma sort_key_permutation_unique:
  assumes perm: "mset ys = mset xs" and sorted: "sorted (map f ys)" and inj: "inj_on f (set ys)"
  shows "sort_key f xs = ys"
proof (rule properties_for_sort_key [OF perm _ sorted])
  fix k assume k: "k \<in> set ys"
  have same: "set xs = set ys" using perm by (metis set_mset_mset)
  have "filter (\<lambda>x. f k = f x) zs = filter (\<lambda>x. x = k) zs" if "set zs = set ys" for zs
    using k inj that by (auto intro!: filter_cong dest: inj_onD)
  from this[of xs] this[of ys] same perm
  show "filter (\<lambda>x. f k = f x) ys = filter (\<lambda>x. f k = f x) xs"
    by (simp add: filter_eq_replicate)
qed

lemma sorted_filter_partition:
  assumes "sorted_wrt (\<lambda>x y. P y \<longrightarrow> P x) xs"
  shows "takeWhile P xs = filter P xs" "dropWhile P xs = filter (\<lambda>x. \<not> P x) xs"
proof -
  show "takeWhile P xs = filter P xs"
    using assms
  proof (induction xs)
    case (Cons x xs)
    then show ?case
      by (cases "P x") (auto simp: filter_empty_conv)
  qed simp
  show "dropWhile P xs = filter (\<lambda>x. \<not> P x) xs"
    using assms
  proof (induction xs)
    case (Cons x xs)
    show ?case
    proof (cases "P x")
      case True
      with Cons show ?thesis by simp
    next
      case False
      with Cons.prems have "\<forall>y\<in>set xs. \<not> P y" by auto
      then have "filter (\<lambda>x. \<not> P x) xs = xs" by (simp add: filter_id_conv)
      with False show ?thesis by simp
    qed
  qed simp
qed

end
