(* ===== verification/Bytes.thy ===== *)
theory Bytes
  imports Prelude "HOL-Library.Word"
begin

text \<open>
  Bytes as the durable formats use them: big-endian integers (Rust's \<open>to_be_bytes\<close> and
  \<open>from_be_bytes\<close>), UTF-8 strings (\<open>as_bytes\<close> and \<open>core::str::from_utf8\<close>), the
  bounds-checked read position of \<open>metadata_segment.rs\<close> (\<open>Cursor\<close>), and the contract that
  an encoder and a decoder share, the locale \<open>codec\<close>.

  A byte is an \<open>8 word\<close>.  A Rust string is its UTF-8 bytes, as a list of \<open>char\<close>; that the
  bytes are valid UTF-8 (\<open>utf8 s\<close>) is the type's invariant.  An unsigned integer is a
  \<open>nat\<close> and a signed one an \<open>int\<close>, within its width.
\<close>

section \<open>Big-endian integers\<close>

type_synonym byte = "8 word"

primrec be_bytes :: "nat \<Rightarrow> nat \<Rightarrow> byte list" where
  "be_bytes 0 n = []"
| "be_bytes (Suc k) n = be_bytes k (n div 256) @ [word_of_nat n]"

definition of_be :: "byte list \<Rightarrow> nat" where
  "of_be bs = foldl (\<lambda>acc b. acc * 256 + unat b) 0 bs"

definition be_int :: "nat \<Rightarrow> int \<Rightarrow> byte list" where
  "be_int k i = be_bytes k (nat (i mod 256 ^ k))"

definition of_be_int :: "byte list \<Rightarrow> int" where
  "of_be_int bs =
     (let n = int (of_be bs) in if 2 * n < 256 ^ length bs then n else n - 256 ^ length bs)"

definition fits_int :: "nat \<Rightarrow> int \<Rightarrow> bool" where
  "fits_int k i \<longleftrightarrow> - (256 ^ k) \<le> 2 * i \<and> 2 * i < 256 ^ k"

lemma length_be_bytes [simp]: "length (be_bytes k n) = k"
  by (induction k arbitrary: n) auto

lemma length_be_int [simp]: "length (be_int k i) = k"
  by (simp add: be_int_def)

lemma of_be_snoc [simp]: "of_be (bs @ [b]) = of_be bs * 256 + unat b"
  by (simp add: of_be_def)

lemma of_be_Nil [simp]: "of_be [] = 0"
  by (simp add: of_be_def)

lemma unat_byte_less: "unat (b :: byte) < 256"
  using unsigned_less [of b, where ?'a = nat] by simp

lemma of_be_less: "of_be bs < 256 ^ length bs"
proof (induction bs rule: rev_induct)
  case (snoc b bs)
  have "of_be bs * 256 + unat b < (of_be bs + 1) * 256" using unat_byte_less [of b] by simp
  also have "\<dots> \<le> 256 ^ length bs * 256" using snoc by (intro mult_right_mono) simp_all
  finally show ?case by simp
qed simp

lemma of_be_bytes: "of_be (be_bytes k n) = n mod 256 ^ k"
proof (induction k arbitrary: n)
  case (Suc k)
  have "of_be (be_bytes (Suc k) n) = (n div 256) mod 256 ^ k * 256 + n mod 256"
    using Suc by (simp add: unat_of_nat)
  also have "\<dots> = n mod 256 ^ Suc k" by (simp add: mod_mult2_eq)
  finally show ?case .
qed simp

lemma of_be_bytes_fits [simp]: "n < 256 ^ k \<Longrightarrow> of_be (be_bytes k n) = n"
  by (simp add: of_be_bytes)

lemma be_bytes_of_be: "be_bytes (length bs) (of_be bs) = bs"
proof (induction bs rule: rev_induct)
  case (snoc b bs)
  have "(of_be bs * 256 + unat b) div 256 = of_be bs" using unat_byte_less [of b] by simp
  moreover have "word_of_nat (of_be bs * 256 + unat b) = b"
    by (rule unsigned_word_eqI [where ?'a = nat]) (simp add: unat_of_nat unat_byte_less del: of_nat_add of_nat_mult)
  ultimately show ?case using snoc by (simp del: of_nat_add of_nat_mult)
qed simp

lemma be_int_of_be: "be_int (length bs) (of_be_int bs) = bs"
proof -
  have "of_be_int bs mod 256 ^ length bs = int (of_be bs)"
    using of_be_less [of bs] by (auto simp: of_be_int_def Let_def mod_pos_pos_trivial)
  then show ?thesis by (simp add: be_int_def be_bytes_of_be)
qed

lemma fits_of_be_int: "fits_int (length bs) (of_be_int bs)"
proof -
  have "int (of_be bs) < 256 ^ length bs" using of_be_less [of bs] by (simp flip: of_nat_power)
  moreover have "- m \<le> 2 * (if 2 * n < m then n else n - m) \<and> 2 * (if 2 * n < m then n else n - m) < m"
    if "0 \<le> n" "n < m" for n m :: int using that by auto
  ultimately show ?thesis unfolding of_be_int_def fits_int_def Let_def by (meson of_nat_0_le_iff)
qed

lemma of_be_int_bytes [simp]:
  assumes "fits_int k i"
  shows "of_be_int (be_int k i) = i"
proof -
  let ?m = "256 ^ k :: int"
  have m: "0 < ?m" by simp
  have "nat (i mod ?m) < 256 ^ k" using m by (simp add: nat_less_iff)
  then have n: "int (of_be (be_int k i)) = i mod ?m" using m by (simp add: be_int_def)
  show ?thesis
  proof (cases "0 \<le> i")
    case True
    with assms have "i mod ?m = i" by (simp add: fits_int_def)
    with n assms True show ?thesis by (simp add: of_be_int_def fits_int_def Let_def)
  next
    case False
    have "i mod ?m = (i + ?m) mod ?m" by simp
    also have "\<dots> = i + ?m" using assms False by (intro mod_pos_pos_trivial) (auto simp: fits_int_def)
    finally show ?thesis using n assms False by (simp add: of_be_int_def fits_int_def Let_def)
  qed
qed

section \<open>Strings\<close>

definition as_bytes :: "string \<Rightarrow> byte list" where
  "as_bytes s = map (\<lambda>c. word_of_nat (of_char c)) s"

definition of_bytes :: "byte list \<Rightarrow> string" where
  "of_bytes bs = map (\<lambda>b. char_of (unat b)) bs"

definition continuation :: "byte \<Rightarrow> bool" where
  "continuation b \<longleftrightarrow> 0x80 \<le> b \<and> b \<le> 0xBF"

text \<open>The well-formed UTF-8 byte sequences, as \<open>core::str::from_utf8\<close> accepts them.\<close>

fun utf8_bytes :: "byte list \<Rightarrow> bool" where
  "utf8_bytes [] = True"
| "utf8_bytes (b # bs) =
     (if b < 0x80 then utf8_bytes bs
      else if 0xC2 \<le> b \<and> b \<le> 0xDF then
        (case bs of c # rest \<Rightarrow> continuation c \<and> utf8_bytes rest | _ \<Rightarrow> False)
      else if 0xE0 \<le> b \<and> b \<le> 0xEF then
        (case bs of
           c # d # rest \<Rightarrow>
             (if b = 0xE0 then 0xA0 else 0x80) \<le> c \<and> c \<le> (if b = 0xED then 0x9F else 0xBF) \<and>
             continuation d \<and> utf8_bytes rest
         | _ \<Rightarrow> False)
      else if 0xF0 \<le> b \<and> b \<le> 0xF4 then
        (case bs of
           c # d # e # rest \<Rightarrow>
             (if b = 0xF0 then 0x90 else 0x80) \<le> c \<and> c \<le> (if b = 0xF4 then 0x8F else 0xBF) \<and>
             continuation d \<and> continuation e \<and> utf8_bytes rest
         | _ \<Rightarrow> False)
      else False)"

abbreviation utf8 :: "string \<Rightarrow> bool" where
  "utf8 s \<equiv> utf8_bytes (as_bytes s)"

definition from_utf8 :: "byte list \<Rightarrow> string option" where
  "from_utf8 raw = (if utf8_bytes raw then Some (of_bytes raw) else None)"

lemma length_as_bytes [simp]: "length (as_bytes s) = length s"
  by (simp add: as_bytes_def)

lemma of_bytes_as_bytes [simp]: "of_bytes (as_bytes s) = s"
proof -
  have "char_of (unat (word_of_nat (of_char c) :: byte)) = c" for c :: char
    by (simp add: unat_of_nat)
  then show ?thesis by (simp add: of_bytes_def as_bytes_def o_def)
qed

lemma as_bytes_of_bytes [simp]: "as_bytes (of_bytes bs) = bs"
proof -
  have "word_of_nat (of_char (char_of (unat b))) = b" for b :: byte
    using unat_byte_less [of b] by (simp add: of_char_of)
  then show ?thesis by (simp add: of_bytes_def as_bytes_def o_def)
qed

lemma as_bytes_inject: "as_bytes s = as_bytes t \<longleftrightarrow> s = t"
  by (metis of_bytes_as_bytes)

lemma from_utf8_as_bytes [simp]: "from_utf8 (as_bytes s) = (if utf8 s then Some s else None)"
  by (simp add: from_utf8_def)

lemma from_utf8_Some_iff: "from_utf8 raw = Some s \<longleftrightarrow> raw = as_bytes s \<and> utf8 s"
  by (auto simp: from_utf8_def)

lemma utf8_ascii: "\<forall>b\<in>set bs. b < 0x80 \<Longrightarrow> utf8_bytes bs"
  by (induction bs) auto

end
