(* ===== verification/Core_Types.thy ===== *)
theory Core_Types
  imports Prelude
begin

text \<open>
  The value types of \<open>oqueue-core\<close> that the metadata path is built from: offsets and
  commit versions with arithmetic that refuses to wrap (\<open>offset.rs\<close>,
  \<open>commit_version.rs\<close>), byte ranges (\<open>byte_range.rs\<close>), commit-time extents
  (\<open>time_span.rs\<close>), the index entries (\<open>object_ref.rs\<close>) and the check that a
  compaction swap keeps every offset (\<open>coverage.rs\<close>).

  An \<open>Offset\<close> is an \<open>int\<close> (Rust's \<open>i64\<close>, never negative), a \<open>CommitVersion\<close> a \<open>nat\<close>
  (Rust's \<open>u64\<close>); the checked additions carry the width explicitly.
\<close>

section \<open>Offsets and versions\<close>

definition offset_new :: "int \<Rightarrow> offset result" where
  "offset_new value = (if value < 0 then Inl (NegativeOffset value) else Inr value)"

definition offset_add :: "offset \<Rightarrow> int \<Rightarrow> offset result" where
  "offset_add self delta =
     (if delta < 0 then Inl (NegativeOffsetDelta delta)
      else if self + delta \<le> i64_max then Inr (self + delta)
      else Inl (OffsetOverflow self delta))"

definition version_advance :: "commit_version \<Rightarrow> nat \<Rightarrow> commit_version result" where
  "version_advance self delta =
     (if self + delta \<le> u64_max then Inr (self + delta)
      else Inl (CommitVersionOverflow self delta))"

lemma offset_add_Inr_iff:
  "offset_add b d = Inr n \<longleftrightarrow> 0 \<le> d \<and> b + d \<le> i64_max \<and> n = b + d"
  by (auto simp: offset_add_def)

lemma offset_add_monotonic: "offset_add b d = Inr n \<Longrightarrow> b \<le> n"
  by (simp add: offset_add_Inr_iff)

lemma version_advance_Inr_iff:
  "version_advance v d = Inr n \<longleftrightarrow> v + d \<le> u64_max \<and> n = v + d"
  by (auto simp: version_advance_def)

section \<open>Byte ranges\<close>

datatype byte_range = Full | Bounded (br_offset: nat) (br_length: nat)

definition byte_range_bounded :: "nat \<Rightarrow> nat \<Rightarrow> byte_range result" where
  "byte_range_bounded off len = (if len = 0 then Inl EmptyByteRange else Inr (Bounded off len))"

section \<open>Commit-time extents\<close>

record time_span =
  ts_min :: timestamp
  ts_max :: timestamp

definition time_span_at :: "timestamp \<Rightarrow> time_span" where
  "time_span_at when = \<lparr>ts_min = when, ts_max = when\<rparr>"

definition widened :: "time_span \<Rightarrow> time_span \<Rightarrow> time_span" where
  "widened self other =
     \<lparr>ts_min = min (ts_min self) (ts_min other), ts_max = max (ts_max self) (ts_max other)\<rparr>"

lemma widened_assoc: "widened (widened a b) c = widened a (widened b c)"
  by (simp add: widened_def min.assoc max.assoc)

lemma widened_idem [simp]: "widened a a = a"
  by (simp add: widened_def)

section \<open>Index entries\<close>

record object_ref =
  or_object :: object_key
  or_base :: offset
  or_count :: nat

definition ref_end_offset :: "object_ref \<Rightarrow> offset result" where
  "ref_end_offset self = offset_add (or_base self) (int (or_count self))"

definition ref_contains :: "object_ref \<Rightarrow> offset \<Rightarrow> bool result" where
  "ref_contains self off =
     (if off \<ge> or_base self then bindR (ref_end_offset self) (\<lambda>end. Inr (off < end))
      else Inr False)"

record tail_entry =
  te_ref :: object_ref
  te_bytes :: byte_range

definition demote :: "tail_entry \<Rightarrow> object_ref" where
  "demote self = te_ref self"

datatype indexed_batch = Inline tail_entry | Footer object_ref

definition batch_reference :: "indexed_batch \<Rightarrow> object_ref" where
  "batch_reference self = (case self of Inline entry \<Rightarrow> te_ref entry | Footer reference \<Rightarrow> reference)"

definition batch_bytes :: "indexed_batch \<Rightarrow> byte_range option" where
  "batch_bytes self = (case self of Inline entry \<Rightarrow> Some (te_bytes entry) | Footer _ \<Rightarrow> None)"

definition known_len :: "indexed_batch \<Rightarrow> nat option" where
  "known_len self = (case batch_bytes self of Some (Bounded _ len) \<Rightarrow> Some len | _ \<Rightarrow> None)"

lemma batch_simps [simp]:
  "batch_reference (Inline e) = te_ref e" "batch_reference (Footer r) = r"
  by (simp_all add: batch_reference_def)

text \<open>The offset just past an entry, as plain arithmetic: what \<open>ref_end_offset\<close> returns
  when it does not overflow.\<close>

abbreviation or_end :: "object_ref \<Rightarrow> offset" where
  "or_end r \<equiv> or_base r + int (or_count r)"

lemma ref_end_offset_Inr_iff:
  "ref_end_offset r = Inr n \<longleftrightarrow> or_end r \<le> i64_max \<and> n = or_end r"
  by (auto simp: ref_end_offset_def offset_add_Inr_iff)

section \<open>Coverage\<close>

text \<open>The loop of \<open>contiguous_span\<close> over the references in ascending base order.\<close>

fun span_walk :: "(offset \<times> offset) option \<Rightarrow> object_ref list \<Rightarrow> (offset \<times> offset) option result" where
  "span_walk span [] = Inr span"
| "span_walk span (reference # ordered) =
     bindR (ref_end_offset reference) (\<lambda>end.
       if end = or_base reference then Inl IndexObjectMismatch
       else case span of
              None \<Rightarrow> span_walk (Some (or_base reference, end)) ordered
            | Some (low, high) \<Rightarrow>
                if or_base reference \<noteq> high then Inl IndexObjectMismatch
                else span_walk (Some (low, end)) ordered)"

definition contiguous_span :: "object_ref list \<Rightarrow> (offset \<times> offset) option result" where
  "contiguous_span refs = span_walk None (sort_key or_base refs)"

definition covers :: "object_ref list \<Rightarrow> object_ref list \<Rightarrow> unit result" where
  "covers retiring installing =
     bindR (contiguous_span retiring) (\<lambda>retired.
     bindR (contiguous_span installing) (\<lambda>installed.
       case (retired, installed) of
         (Some from, Some to) \<Rightarrow> if from = to then Inr () else Inl IndexObjectMismatch
       | _ \<Rightarrow> Inl IndexObjectMismatch))"

section \<open>Dense runs\<close>

text \<open>
  \<open>dense a rs b\<close>: the references \<open>rs\<close>, in this order, cover exactly \<open>[a, b)\<close> with no
  gap, no overlap and nothing empty.  It is what \<open>contiguous_span\<close> tests after sorting.
\<close>

fun dense :: "offset \<Rightarrow> object_ref list \<Rightarrow> offset \<Rightarrow> bool" where
  "dense a [] b = (a = b)"
| "dense a (r # rs) b = (or_base r = a \<and> 0 < or_count r \<and> dense (or_end r) rs b)"

lemma dense_append:
  "dense a (xs @ ys) b \<longleftrightarrow> (\<exists>m. dense a xs m \<and> dense m ys b)"
  by (induction xs arbitrary: a) auto

lemma dense_le: "dense a rs b \<Longrightarrow> a \<le> b"
  by (induction rs arbitrary: a) (auto, fastforce)

lemma dense_bounds:
  assumes "dense a rs b" "r \<in> set rs"
  shows "a \<le> or_base r" "or_base r < or_end r" "or_end r \<le> b"
proof -
  from assms have "a \<le> or_base r \<and> or_base r < or_end r \<and> or_end r \<le> b"
  proof (induction rs arbitrary: a)
    case (Cons x rs)
    from Cons.prems have d: "dense (or_end x) rs b" "or_base x = a" "0 < or_count x" by auto
    from dense_le [OF d(1)] Cons.IH [OF d(1)] d(2,3) Cons.prems(2) show ?case
      by fastforce
  qed simp
  then show "a \<le> or_base r" "or_base r < or_end r" "or_end r \<le> b" by auto
qed

lemma dense_strictly_ascending: "dense a rs b \<Longrightarrow> sorted_wrt (\<lambda>x y. or_end x \<le> or_base y) rs"
proof (induction rs arbitrary: a)
  case (Cons r rs)
  then have d: "dense (or_end r) rs b" by auto
  with Cons.IH dense_bounds(1) [OF d] show ?case by auto
qed simp

lemma dense_sorted: "dense a rs b \<Longrightarrow> sorted (map or_base rs)"
proof (induction rs arbitrary: a)
  case (Cons r rs)
  then have d: "dense (or_end r) rs b" by auto
  with Cons.IH dense_bounds(1) [OF d] show ?case by fastforce
qed simp

lemma dense_inj: "dense a rs b \<Longrightarrow> inj_on or_base (set rs)"
proof (induction rs arbitrary: a)
  case (Cons r rs)
  then have d: "dense (or_end r) rs b" "0 < or_count r" by auto
  have "or_base r < or_base y" if "y \<in> set rs" for y
    using dense_bounds(1) [OF d(1) that] d(2) by linarith
  then show ?case using Cons.IH [OF d(1)] by (fastforce simp: inj_on_def)
qed simp

lemma dense_distinct: "dense a rs b \<Longrightarrow> distinct rs"
proof (induction rs arbitrary: a)
  case (Cons r rs)
  then have d: "dense (or_end r) rs b" "0 < or_count r" by auto
  have "r \<notin> set rs"
    using dense_bounds(1) [OF d(1), of r] d(2) by auto
  then show ?case using Cons.IH [OF d(1)] by simp
qed simp

text \<open>Every offset of a dense run is in exactly one of its entries.\<close>

lemma dense_holder:
  assumes "dense a rs b" "a \<le> off" "off < b"
  shows "\<exists>!r. r \<in> set rs \<and> or_base r \<le> off \<and> off < or_end r"
  using assms
proof (induction rs arbitrary: a)
  case (Cons r rs)
  from Cons.prems(1) have d: "or_base r = a" "0 < or_count r" "dense (or_end r) rs b" by auto
  show ?case
  proof (cases "off < or_end r")
    case True
    then have "\<not> or_base y \<le> off" if "y \<in> set rs" for y
      using dense_bounds(1) [OF d(3) that] by linarith
    with True Cons.prems(2) d(1) show ?thesis by auto
  next
    case False
    with Cons.IH [OF d(3) _ Cons.prems(3)] show ?thesis by auto
  qed
qed simp

lemma dense_functional: "dense a rs b \<Longrightarrow> dense a rs c \<Longrightarrow> b = c"
  by (induction rs arbitrary: a) auto

text \<open>\<open>contiguous_span\<close> succeeds exactly on dense runs whose end is representable.\<close>

lemma span_walk_Some:
  "span_walk (Some (low, high)) rs = Inr s \<longleftrightarrow>
     (\<exists>b. s = Some (low, b) \<and> dense high rs b \<and> (rs \<noteq> [] \<longrightarrow> b \<le> i64_max))"
proof (induction rs arbitrary: high)
  case (Cons r rs)
  show ?case
  proof (cases "or_end r \<le> i64_max \<and> or_end r \<noteq> or_base r \<and> or_base r = high")
    case True
    then have "span_walk (Some (low, high)) (r # rs) = span_walk (Some (low, or_end r)) rs"
      by (auto simp: ref_end_offset_def offset_add_def)
    moreover have "b \<le> i64_max" if "dense (or_end r) rs b" "rs = []" for b
      using True that by simp
    ultimately show ?thesis using True Cons.IH by auto
  next
    case False
    then have "\<not> is_ok (span_walk (Some (low, high)) (r # rs))"
      by (auto simp: ref_end_offset_def offset_add_def)
    moreover have "\<not> (dense high (r # rs) b \<and> b \<le> i64_max)" for b
      using False dense_le [of "or_end r" rs b] by auto
    ultimately show ?thesis by (auto simp: is_ok_iff)
  qed
qed auto

lemma span_walk_None:
  "span_walk None rs = Inr s \<longleftrightarrow>
     (if rs = [] then s = None
      else \<exists>a b. s = Some (a, b) \<and> dense a rs b \<and> b \<le> i64_max)"
proof (cases rs)
  case (Cons r rs')
  show ?thesis
  proof (cases "or_end r \<le> i64_max \<and> or_end r \<noteq> or_base r")
    case True
    then have "span_walk None rs = span_walk (Some (or_base r, or_end r)) rs'"
      by (auto simp: Cons ref_end_offset_def offset_add_def)
    moreover have "b \<le> i64_max" if "dense (or_end r) rs' b" "rs' = []" for b
      using True that by simp
    ultimately show ?thesis using True Cons by (auto simp: span_walk_Some)
  next
    case False
    then have "\<not> is_ok (span_walk None rs)"
      by (auto simp: Cons ref_end_offset_def offset_add_def)
    moreover have "\<not> (dense a rs b \<and> b \<le> i64_max)" for a b
      using False Cons dense_le [of "or_end r" rs' b] by auto
    ultimately show ?thesis using Cons by (auto simp: is_ok_iff)
  qed
qed auto

lemma contiguous_span_Some_iff:
  "contiguous_span refs = Inr (Some (a, b)) \<longleftrightarrow>
     refs \<noteq> [] \<and> dense a (sort_key or_base refs) b \<and> b \<le> i64_max"
proof -
  have "sort_key or_base refs = [] \<longleftrightarrow> refs = []"
    by (metis length_0_conv length_sort)
  then show ?thesis by (auto simp: contiguous_span_def span_walk_None)
qed

lemma covers_ok_iff:
  "covers retiring installing = Inr () \<longleftrightarrow>
     (\<exists>a b. retiring \<noteq> [] \<and> installing \<noteq> [] \<and> b \<le> i64_max \<and>
        dense a (sort_key or_base retiring) b \<and> dense a (sort_key or_base installing) b)"
  (is "?l \<longleftrightarrow> ?r")
proof
  assume ?l
  then obtain ab where "contiguous_span retiring = Inr (Some ab)"
      "contiguous_span installing = Inr (Some ab)"
    by (auto simp: covers_def bindR_Inr_iff split: option.splits if_splits)
  then show ?r by (cases ab) (auto simp: contiguous_span_Some_iff)
next
  assume ?r
  then obtain a b where "contiguous_span retiring = Inr (Some (a, b))"
      "contiguous_span installing = Inr (Some (a, b))"
    by (auto simp: contiguous_span_Some_iff)
  then show ?l by (simp add: covers_def)
qed

section \<open>Coverage, offset by offset\<close>

text \<open>\<open>exact_run refs a b\<close>: every reference covers something, and each offset of \<open>[a, b)\<close> is in
  exactly one reference, each other offset in none.\<close>

definition holds_offset :: "offset \<Rightarrow> object_ref \<Rightarrow> bool" where
  "holds_offset off r \<longleftrightarrow> or_base r \<le> off \<and> off < or_end r"

definition exact_run :: "object_ref list \<Rightarrow> offset \<Rightarrow> offset \<Rightarrow> bool" where
  "exact_run refs a b \<longleftrightarrow>
     a \<le> b \<and> (\<forall>r\<in>set refs. 0 < or_count r) \<and>
     (\<forall>off. length (filter (holds_offset off) refs) = (if a \<le> off \<and> off < b then 1 else 0))"

lemma dense_exact: "dense a rs b \<Longrightarrow> exact_run rs a b"
proof (induction rs arbitrary: a)
  case (Cons r rs)
  then have d: "or_base r = a" "0 < or_count r" "exact_run rs (or_end r) b" by auto
  then have le: "or_end r \<le> b" and pos: "\<forall>y\<in>set rs. 0 < or_count y"
    and num: "\<And>off. length (filter (holds_offset off) rs) = (if or_end r \<le> off \<and> off < b then 1 else 0)"
    by (simp_all add: exact_run_def)
  have "length (filter (holds_offset off) (r # rs)) = (if a \<le> off \<and> off < b then 1 else 0)" for off
    using num [of off] le d(1,2) by (auto simp: holds_offset_def split: if_splits)
  with d(1,2) le pos show ?case by (simp add: exact_run_def del: filter.simps)
qed (simp add: exact_run_def)

lemma exact_dense:
  assumes "exact_run rs a b" "sorted (map or_base rs)"
  shows "dense a rs b"
  using assms
proof (induction rs arbitrary: a)
  case Nil
  then have "\<not> (a \<le> a \<and> a < b)" "a \<le> b" by (auto simp: exact_run_def split: if_splits)
  then show ?case by simp
next
  case (Cons r rs)
  from Cons.prems have pos: "0 < or_count r" "\<forall>y\<in>set rs. 0 < or_count y" "\<forall>y\<in>set rs. or_base r \<le> or_base y"
    and num: "\<And>off. length (filter (holds_offset off) (r # rs)) = (if a \<le> off \<and> off < b then 1 else 0)"
    by (auto simp: exact_run_def)
  have inside: "a \<le> off \<and> off < b" "filter (holds_offset off) rs = []" if "holds_offset off r" for off
    using num [of off] that by (auto split: if_splits)
  have first: "holds_offset (or_base r) r" "holds_offset (or_end r - 1) r"
    using pos(1) by (auto simp: holds_offset_def)
  have base: "or_base r = a"
  proof (rule ccontr)
    assume "or_base r \<noteq> a"
    with inside(1) [OF first(1)] have "a < or_base r" "a < b" by auto
    moreover from this pos(3) have "filter (holds_offset a) (r # rs) = []"
      by (fastforce simp: filter_empty_conv holds_offset_def)
    ultimately show False using num [of a] by simp
  qed
  have "or_end r \<le> b" using inside(1) [OF first(2)] by simp
  moreover have "length (filter (holds_offset off) rs) = (if or_end r \<le> off \<and> off < b then 1 else 0)" for off
  proof (cases "holds_offset off r")
    case True
    with inside(2) [OF True] show ?thesis by (simp add: holds_offset_def)
  next
    case False
    with num [of off] base pos(1) \<open>or_end r \<le> b\<close> show ?thesis by (auto simp: holds_offset_def)
  qed
  ultimately have "exact_run rs (or_end r) b" using pos by (simp add: exact_run_def)
  with Cons.IH Cons.prems(2) base pos(1) show ?case by simp
qed

lemma exact_run_mset: "mset xs = mset ys \<Longrightarrow> exact_run xs a b \<longleftrightarrow> exact_run ys a b"
proof -
  assume eq: "mset xs = mset ys"
  then have "set xs = set ys" by (rule mset_eq_setD)
  moreover have "length (filter P xs) = length (filter P ys)" for P
    using eq by (metis mset_filter size_mset)
  ultimately show ?thesis by (simp add: exact_run_def)
qed

lemma dense_sort_iff: "dense a (sort_key or_base rs) b \<longleftrightarrow> exact_run rs a b"
  using dense_exact exact_dense exact_run_mset [of "sort_key or_base rs" rs]
  by (metis mset_sort sorted_sort_key)

text \<open>\<open>covers\<close>, which sorts both sides and walks them once, decides the offset-level property
  a compaction swap needs: it accepts exactly when both sides are non-empty and there is one
  representable interval such that every offset of it is in exactly one retired and in exactly one
  installed reference, every other offset in none, and no reference is hollow.\<close>

lemma covers_iff_same_offsets:
  "covers retiring installing = Inr () \<longleftrightarrow>
     retiring \<noteq> [] \<and> installing \<noteq> [] \<and>
     (\<exists>a b. b \<le> i64_max \<and> exact_run retiring a b \<and> exact_run installing a b)"
  by (auto simp: covers_ok_iff dense_sort_iff)

end
