(* ===== verification/Codec.thy ===== *)
theory Codec
  imports Bytes Core_Types
begin

text \<open>
  The read position of \<open>metadata_segment.rs\<close> (\<open>Cursor\<close>) with its bounds-checked reads, the
  \<open>put_*\<close> writers beside it, and the contract one field's writer and reader share: the
  locale \<open>codec\<close>.  A writer takes the bytes written so far (their length is what an error
  reports) and returns them extended, or refuses.

  The contract has two halves.  What a writer wrote, the reader reads back from any position,
  consuming exactly those bytes; and what a reader accepts is a well-formed value whose
  writer produces exactly the bytes consumed.  A format built from such fields is therefore
  a bijection between the values it can carry and the bytes it accepts.
\<close>

section \<open>Constructors of the identifier types\<close>

definition object_key_new :: "string \<Rightarrow> object_key result" where
  "object_key_new key = (if key = [] then Inl EmptyObjectKey else Inr key)"

definition topic_id_new :: "string \<Rightarrow> topic_id result" where
  "topic_id_new name = (if name = [] then Inl EmptyTopicId else Inr name)"

definition partition_id_new :: "int \<Rightarrow> partition_id result" where
  "partition_id_new index = (if index < 0 then Inl (NegativePartitionId index) else Inr index)"

definition producer_id_new :: "int \<Rightarrow> int result" where
  "producer_id_new value = (if value < 0 then Inl (NegativeProducerId value) else Inr value)"

definition producer_epoch_new :: "int \<Rightarrow> int result" where
  "producer_epoch_new value = (if value < 0 then Inl (NegativeProducerEpoch value) else Inr value)"

definition timestamp_from_millis :: "int \<Rightarrow> timestamp result" where
  "timestamp_from_millis millis = (if millis < 0 then Inl (NegativeTimestamp millis) else Inr millis)"

section \<open>The cursor\<close>

record cursor =
  cur_bytes :: "byte list"
  cur_at :: nat

type_synonym 'a reader_of = "cursor \<Rightarrow> ('a \<times> cursor) result"
type_synonym 'a writer_of = "byte list \<Rightarrow> 'a \<Rightarrow> byte list result"

definition cur_malformed :: "cursor \<Rightarrow> error" where
  "cur_malformed self = MalformedMetadataSegment (cur_at self)"

definition cur_checked :: "cursor \<Rightarrow> 'a result \<Rightarrow> 'a result" where
  "cur_checked self value = map_errR (\<lambda>_. cur_malformed self) value"

definition cur_take :: "nat \<Rightarrow> byte list reader_of" where
  "cur_take len self =
     (let end = cur_at self + len
      in if end \<le> length (cur_bytes self)
         then Inr (take len (drop (cur_at self) (cur_bytes self)), self\<lparr>cur_at := end\<rparr>)
         else Inl (cur_malformed self))"

definition cur_uint :: "nat \<Rightarrow> nat reader_of" where
  "cur_uint width self = bindR (cur_take width self) (\<lambda>(raw, self). Inr (of_be raw, self))"

definition cur_int :: "nat \<Rightarrow> int reader_of" where
  "cur_int width self = bindR (cur_take width self) (\<lambda>(raw, self). Inr (of_be_int raw, self))"

abbreviation cur_u8 :: "nat reader_of" where "cur_u8 \<equiv> cur_uint 1"
abbreviation cur_u16 :: "nat reader_of" where "cur_u16 \<equiv> cur_uint 2"
abbreviation cur_u32 :: "nat reader_of" where "cur_u32 \<equiv> cur_uint 4"
abbreviation cur_u64 :: "nat reader_of" where "cur_u64 \<equiv> cur_uint 8"
abbreviation cur_i64 :: "int reader_of" where "cur_i64 \<equiv> cur_int 8"

definition cur_string :: "string reader_of" where
  "cur_string self =
     bindR (cur_u16 self) (\<lambda>(len, self).
     bindR (cur_take len self) (\<lambda>(raw, self).
       case from_utf8 raw of Some s \<Rightarrow> Inr (s, self) | None \<Rightarrow> Inl (cur_malformed self)))"

definition cur_key :: "object_key reader_of" where
  "cur_key self =
     bindR (cur_string self) (\<lambda>(raw, self).
     bindR (cur_checked self (object_key_new raw)) (\<lambda>key. Inr (key, self)))"

definition cur_topic :: "topic_id reader_of" where
  "cur_topic self =
     bindR (cur_string self) (\<lambda>(raw, self).
     bindR (cur_checked self (topic_id_new raw)) (\<lambda>topic. Inr (topic, self)))"

definition cur_offset :: "offset reader_of" where
  "cur_offset self =
     bindR (cur_i64 self) (\<lambda>(raw, self).
     bindR (cur_checked self (offset_new raw)) (\<lambda>off. Inr (off, self)))"

definition cur_partition :: "pkey reader_of" where
  "cur_partition self =
     bindR (cur_string self) (\<lambda>(raw, self).
     bindR (cur_checked self (topic_id_new raw)) (\<lambda>topic.
     bindR (cur_int 4 self) (\<lambda>(index, self).
     bindR (cur_checked self (partition_id_new index)) (\<lambda>part. Inr ((topic, part), self)))))"

text \<open>\<open>for _ in 0..count { xs.push(read(cur)?) }\<close>.\<close>

primrec cur_repeat :: "'a reader_of \<Rightarrow> nat \<Rightarrow> 'a list reader_of" where
  "cur_repeat get 0 self = Inr ([], self)"
| "cur_repeat get (Suc n) self =
     bindR (get self) (\<lambda>(x, self).
     bindR (cur_repeat get n self) (\<lambda>(xs, self). Inr (x # xs, self)))"

definition cur_ref :: "object_ref reader_of" where
  "cur_ref self =
     bindR (cur_key self) (\<lambda>(object, self).
     bindR (cur_offset self) (\<lambda>(base, self).
     bindR (cur_u32 self) (\<lambda>(records, self).
       Inr (\<lparr>or_object = object, or_base = base, or_count = records\<rparr>, self))))"

definition cur_refs :: "object_ref list reader_of" where
  "cur_refs self = bindR (cur_u32 self) (\<lambda>(count, self). cur_repeat cur_ref count self)"

section \<open>The writers\<close>

definition put_uint :: "nat \<Rightarrow> nat writer_of" where
  "put_uint width out n = Inr (out @ be_bytes width n)"

definition put_int :: "nat \<Rightarrow> int writer_of" where
  "put_int width out i = Inr (out @ be_int width i)"

definition put_len32 :: "nat writer_of" where
  "put_len32 out len =
     (if len < 2 ^ 32 then Inr (out @ be_bytes 4 len)
      else Inl (MalformedMetadataSegment (length out)))"

definition put_len16 :: "nat writer_of" where
  "put_len16 out len =
     (if len < 2 ^ 16 then Inr (out @ be_bytes 2 len)
      else Inl (MalformedMetadataSegment (length out)))"

definition put_str :: "string writer_of" where
  "put_str out value =
     (if length value < 2 ^ 16 then Inr (out @ be_bytes 2 (length value) @ as_bytes value)
      else Inl (MalformedMetadataSegment (length out)))"

definition put_partition :: "pkey writer_of" where
  "put_partition out key = bindR (put_str out (fst key)) (\<lambda>out. put_int 4 out (snd key))"

definition put_ref :: "object_ref writer_of" where
  "put_ref out reference =
     bindR (put_str out (or_object reference)) (\<lambda>out.
     bindR (put_int 8 out (or_base reference)) (\<lambda>out.
       put_uint 4 out (or_count reference)))"

definition put_refs :: "object_ref list writer_of" where
  "put_refs out refs =
     bindR (put_len32 out (length refs)) (\<lambda>out. foldR put_ref out refs)"

section \<open>The contract\<close>

definition writes :: "'a writer_of \<Rightarrow> 'a \<Rightarrow> byte list \<Rightarrow> bool" where
  "writes put x bs \<longleftrightarrow> (\<forall>out. put out x = Inr (out @ bs))"

definition reads :: "'a reader_of \<Rightarrow> 'a \<Rightarrow> byte list \<Rightarrow> bool" where
  "reads get x bs \<longleftrightarrow>
     (\<forall>pre post. get \<lparr>cur_bytes = pre @ bs @ post, cur_at = length pre\<rparr> =
        Inr (x, \<lparr>cur_bytes = pre @ bs @ post, cur_at = length (pre @ bs)\<rparr>))"

definition consumed :: "cursor \<Rightarrow> cursor \<Rightarrow> byte list \<Rightarrow> bool" where
  "consumed c c' bs \<longleftrightarrow>
     cur_bytes c' = cur_bytes c \<and> cur_at c' = cur_at c + length bs \<and>
     cur_at c' \<le> length (cur_bytes c) \<and> take (length bs) (drop (cur_at c) (cur_bytes c)) = bs"

locale codec =
  fixes put :: "'a writer_of"
    and get :: "'a reader_of"
    and valid :: "'a \<Rightarrow> bool"
  assumes written_is_read:
      "valid x \<Longrightarrow> is_ok (put out x) \<Longrightarrow> \<exists>bs. writes put x bs \<and> reads get x bs"
    and read_is_written:
      "get c = Inr (x, c') \<Longrightarrow> valid x \<and> (\<exists>bs. consumed c c' bs \<and> writes put x bs)"

section \<open>Sequencing\<close>

lemma reads_bind:
  assumes "reads get x a" "reads (f x) y b"
  shows "reads (\<lambda>c. bindR (get c) (\<lambda>(x, c). f x c)) y (a @ b)"
  unfolding reads_def
proof (intro allI)
  fix pre post
  have "get \<lparr>cur_bytes = pre @ (a @ b) @ post, cur_at = length pre\<rparr> =
      Inr (x, \<lparr>cur_bytes = pre @ (a @ b) @ post, cur_at = length (pre @ a)\<rparr>)"
    using assms(1) [unfolded reads_def, rule_format, of pre "b @ post"] by simp
  moreover have "f x \<lparr>cur_bytes = pre @ (a @ b) @ post, cur_at = length (pre @ a)\<rparr> =
      Inr (y, \<lparr>cur_bytes = pre @ (a @ b) @ post, cur_at = length (pre @ a @ b)\<rparr>)"
    using assms(2) [unfolded reads_def, rule_format, of "pre @ a" post] by simp
  ultimately show "bindR (get \<lparr>cur_bytes = pre @ (a @ b) @ post, cur_at = length pre\<rparr>) (\<lambda>(x, c). f x c) =
      Inr (y, \<lparr>cur_bytes = pre @ (a @ b) @ post, cur_at = length (pre @ a @ b)\<rparr>)" by simp
qed

lemma reads_return: "reads get x a \<Longrightarrow> reads (\<lambda>c. bindR (get c) (\<lambda>(x, c). Inr (f x, c))) (f x) a"
  by (simp add: reads_def)

lemma consumed_trans: "consumed c c1 a \<Longrightarrow> consumed c1 c2 b \<Longrightarrow> consumed c c2 (a @ b)"
  by (auto simp: consumed_def take_add add.commute)

lemma writes_bind:
  assumes "writes put x a" "writes put' y b"
  shows "bindR (put out x) (\<lambda>out. put' out y) = Inr (out @ a @ b)"
  using assms by (simp add: writes_def)

lemma writes_ok: "writes put x bs \<Longrightarrow> is_ok (put out x)"
  by (simp add: writes_def)

section \<open>Fixed-width fields\<close>

lemma take_reads: "length bs = n \<Longrightarrow> reads (cur_take n) bs bs"
  by (auto simp: reads_def cur_take_def Let_def)

lemma take_consumed: "cur_take n c = Inr (raw, c') \<Longrightarrow> consumed c c' raw \<and> length raw = n"
  by (auto simp: cur_take_def consumed_def Let_def split: if_splits)

lemma uint_reads: "n < 256 ^ w \<Longrightarrow> reads (cur_uint w) n (be_bytes w n)"
  using reads_return [OF take_reads [of "be_bytes w n" w], of of_be] by (simp add: cur_uint_def [abs_def])

interpretation uint: codec "put_uint w" "cur_uint w" "\<lambda>n. n < 256 ^ w" for w
proof unfold_locales
  fix out :: "byte list" and x :: nat
  assume "x < 256 ^ w"
  then have "writes (put_uint w) x (be_bytes w x)" "reads (cur_uint w) x (be_bytes w x)"
    using uint_reads by (simp_all add: writes_def put_uint_def)
  then show "\<exists>bs. writes (put_uint w) x bs \<and> reads (cur_uint w) x bs" by blast
next
  fix c x c'
  assume "cur_uint w c = Inr (x, c')"
  then obtain raw where r: "cur_take w c = Inr (raw, c')" "x = of_be raw"
    by (auto simp: cur_uint_def)
  have "writes (put_uint w) x raw"
    using take_consumed [OF r(1)] r(2) be_bytes_of_be [of raw] by (auto simp: writes_def put_uint_def)
  then show "x < 256 ^ w \<and> (\<exists>bs. consumed c c' bs \<and> writes (put_uint w) x bs)"
    using take_consumed [OF r(1)] r(2) of_be_less [of raw] by auto
qed

interpretation sint: codec "put_int w" "cur_int w" "fits_int w" for w
proof unfold_locales
  fix x out
  assume "fits_int w x"
  then have "writes (put_int w) x (be_int w x)" "reads (cur_int w) x (be_int w x)"
    using reads_return [OF take_reads [of "be_int w x" w], of of_be_int]
    by (simp_all add: writes_def put_int_def cur_int_def [abs_def])
  then show "\<exists>bs. writes (put_int w) x bs \<and> reads (cur_int w) x bs" by blast
next
  fix c x c'
  assume "cur_int w c = Inr (x, c')"
  then obtain raw where r: "cur_take w c = Inr (raw, c')" "x = of_be_int raw"
    by (auto simp: cur_int_def)
  have "writes (put_int w) x raw"
    using take_consumed [OF r(1)] r(2) be_int_of_be [of raw] by (auto simp: writes_def put_int_def)
  then show "fits_int w x \<and> (\<exists>bs. consumed c c' bs \<and> writes (put_int w) x bs)"
    using take_consumed [OF r(1)] r(2) fits_of_be_int [of raw] by auto
qed

section \<open>Building codecs from codecs\<close>

lemma cur_checked_Inr_iff [simp]: "cur_checked c r = Inr y \<longleftrightarrow> r = Inr y"
  by (simp add: cur_checked_def)

lemma cur_checked_ok [simp]: "cur_checked c (Inr y) = Inr y"
  by (simp add: cur_checked_def)

text \<open>A field read as one type and checked into another (a constructor, or a plain conversion).\<close>

lemma codec_checked:
  assumes "codec put get valid" and inv: "\<forall>x y. valid x \<longrightarrow> check x = Inr y \<longrightarrow> raw_of y = x"
  shows "codec (\<lambda>out y. put out (raw_of y))
    (\<lambda>c. bindR (get c) (\<lambda>(x, c). bindR (cur_checked c (check x)) (\<lambda>y. Inr (y, c))))
    (\<lambda>y. valid (raw_of y) \<and> check (raw_of y) = Inr y)"
proof unfold_locales
  fix y out
  assume w: "valid (raw_of y) \<and> check (raw_of y) = Inr y" and ok: "is_ok (put out (raw_of y))"
  from codec.written_is_read [OF assms(1), of "raw_of y" out] w ok
  obtain bs where bs: "writes put (raw_of y) bs" "reads get (raw_of y) bs" by blast
  with w show "\<exists>bs. writes (\<lambda>out y. put out (raw_of y)) y bs \<and>
      reads (\<lambda>c. bindR (get c) (\<lambda>(x, c). bindR (cur_checked c (check x)) (\<lambda>y. Inr (y, c)))) y bs"
    by (intro exI [of _ bs]) (simp add: writes_def reads_def)
next
  fix c y c'
  assume "bindR (get c) (\<lambda>(x, c). bindR (cur_checked c (check x)) (\<lambda>y. Inr (y, c))) = Inr (y, c')"
  then obtain x where r: "get c = Inr (x, c')" "check x = Inr y" by (auto simp: bindR_Inr_iff)
  from codec.read_is_written [OF assms(1) r(1)] obtain bs
    where bs: "valid x" "consumed c c' bs" "writes put x bs" by blast
  with inv r(2) have "raw_of y = x" by blast
  with bs r(2) show "(valid (raw_of y) \<and> check (raw_of y) = Inr y) \<and>
      (\<exists>bs. consumed c c' bs \<and> writes (\<lambda>out y. put out (raw_of y)) y bs)" by (auto simp: writes_def)
qed

lemma codec_pair:
  assumes a: "codec putA getA validA" and b: "codec putB getB validB"
  shows "codec (\<lambda>out p. bindR (putA out (fst p)) (\<lambda>out. putB out (snd p)))
    (\<lambda>c. bindR (getA c) (\<lambda>(x, c). bindR (getB c) (\<lambda>(y, c). Inr ((x, y), c))))
    (\<lambda>p. validA (fst p) \<and> validB (snd p))"
proof (unfold_locales)
  fix p out
  assume w: "validA (fst p) \<and> validB (snd p)"
    and ok: "is_ok (bindR (putA out (fst p)) (\<lambda>out. putB out (snd p)))"
  from ok obtain out' where "putA out (fst p) = Inr out'" and okB: "is_ok (putB out' (snd p))"
    by (auto simp: is_ok_iff bindR_Inr_iff)
  then have "is_ok (putA out (fst p))" by simp
  from codec.written_is_read [OF a _ this] w
  obtain s where s: "writes putA (fst p) s" "reads getA (fst p) s" by blast
  from codec.written_is_read [OF b _ okB] w
  obtain t where t: "writes putB (snd p) t" "reads getB (snd p) t" by blast
  have "reads (\<lambda>c. bindR (getA c) (\<lambda>(x, c). bindR (getB c) (\<lambda>(y, c). Inr ((x, y), c)))) p (s @ t)"
    using reads_bind [OF s(2) reads_return [OF t(2)], of "\<lambda>x y. (x, y)"] by simp
  moreover have "writes (\<lambda>out p. bindR (putA out (fst p)) (\<lambda>out. putB out (snd p))) p (s @ t)"
    using writes_bind [OF s(1) t(1)] by (simp add: writes_def [of _ p])
  ultimately show "\<exists>bs. writes (\<lambda>out p. bindR (putA out (fst p)) (\<lambda>out. putB out (snd p))) p bs \<and>
      reads (\<lambda>c. bindR (getA c) (\<lambda>(x, c). bindR (getB c) (\<lambda>(y, c). Inr ((x, y), c)))) p bs" by blast
next
  fix c p c'
  assume "bindR (getA c) (\<lambda>(x, c). bindR (getB c) (\<lambda>(y, c). Inr ((x, y), c))) = Inr (p, c')"
  then obtain x d y where r: "getA c = Inr (x, d)" "getB d = Inr (y, c')" "p = (x, y)"
    by (auto simp: bindR_Inr_iff)
  from codec.read_is_written [OF a r(1)] obtain s where s: "validA x" "consumed c d s" "writes putA x s" by blast
  from codec.read_is_written [OF b r(2)] obtain t where t: "validB y" "consumed d c' t" "writes putB y t" by blast
  have "writes (\<lambda>out p. bindR (putA out (fst p)) (\<lambda>out. putB out (snd p))) p (s @ t)"
    unfolding writes_def using writes_bind [OF s(3) t(3)] r(3) by simp
  with consumed_trans [OF s(2) t(2)] s(1) t(1) r(3)
  show "(validA (fst p) \<and> validB (snd p)) \<and> (\<exists>bs. consumed c c' bs \<and>
      writes (\<lambda>out p. bindR (putA out (fst p)) (\<lambda>out. putB out (snd p))) p bs)" by auto
qed

context codec
begin

text \<open>Elements one after the other, as many as asked for.\<close>

lemma elements_read_back:
  assumes "\<forall>x\<in>set xs. valid x" "is_ok (foldR put out xs)"
  shows "\<exists>bs. (\<forall>out. foldR put out xs = Inr (out @ bs)) \<and> reads (cur_repeat get (length xs)) xs bs"
  using assms
proof (induction xs arbitrary: out)
  case Nil
  then show ?case by (simp add: reads_def)
next
  case (Cons x xs)
  from Cons.prems(2) obtain out' where o: "put out x = Inr out'" "is_ok (foldR put out' xs)"
    by (auto simp: is_ok_iff bindR_Inr_iff)
  then obtain a where a: "writes put x a" "reads get x a"
    using written_is_read [of x out] Cons.prems(1) by auto
  from Cons.IH [OF _ o(2)] Cons.prems(1)
  obtain b where b: "\<forall>out. foldR put out xs = Inr (out @ b)" "reads (cur_repeat get (length xs)) xs b"
    by auto
  have "reads (cur_repeat get (length (x # xs))) (x # xs) (a @ b)"
    using reads_bind [OF a(2) reads_return [OF b(2)], of "(#)"] by (simp add: cur_repeat.simps [abs_def])
  moreover have "\<forall>out. foldR put out (x # xs) = Inr (out @ a @ b)"
    using a(1) b(1) by (simp add: writes_def)
  ultimately show ?case by blast
qed

lemma elements_written_back:
  assumes "cur_repeat get n c = Inr (xs, c')" "cur_at c \<le> length (cur_bytes c)"
  shows "length xs = n \<and> (\<forall>x\<in>set xs. valid x) \<and>
    (\<exists>bs. consumed c c' bs \<and> (\<forall>out. foldR put out xs = Inr (out @ bs)))"
  using assms
proof (induction n arbitrary: c xs)
  case 0
  then show ?case by (auto simp: consumed_def)
next
  case (Suc n)
  then obtain x d ys where r: "get c = Inr (x, d)" "cur_repeat get n d = Inr (ys, c')" "xs = x # ys"
    by (auto simp: bindR_Inr_iff)
  from read_is_written [OF r(1)] obtain a where a: "valid x" "consumed c d a" "writes put x a" by blast
  then have "cur_at d \<le> length (cur_bytes d)" by (simp add: consumed_def)
  from Suc.IH [OF r(2) this] obtain b where b: "length ys = n" "\<forall>x\<in>set ys. valid x"
    "consumed d c' b" "\<forall>out. foldR put out ys = Inr (out @ b)" by blast
  from a b r(3) have "\<forall>out. foldR put out xs = Inr (out @ a @ b)" by (simp add: writes_def)
  with consumed_trans [OF a(2) b(3)] a(1) b(1,2) r(3) show ?case by auto
qed

text \<open>A counted list: a count of \<open>w\<close> bytes, refused when it does not fit, then that many elements.\<close>

lemma counted:
  assumes "\<forall>out n. put_count out n =
    (if n < 256 ^ w then Inr (out @ be_bytes w n) else Inl (MalformedMetadataSegment (length out)))"
  shows "codec (\<lambda>out xs. bindR (put_count out (length xs)) (\<lambda>out. foldR put out xs))
     (\<lambda>c. bindR (cur_uint w c) (\<lambda>(n, c). cur_repeat get n c)) (\<lambda>xs. \<forall>x\<in>set xs. valid x)"
proof unfold_locales
  fix xs out
  assume w: "\<forall>x\<in>set xs. valid x"
    and ok: "is_ok (bindR (put_count out (length xs)) (\<lambda>out. foldR put out xs))"
  then have len: "length xs < 256 ^ w" by (auto simp: is_ok_iff bindR_Inr_iff assms split: if_splits)
  with ok have "is_ok (foldR put (out @ be_bytes w (length xs)) xs)" by (simp add: assms)
  from elements_read_back [OF w this] obtain bs
    where bs: "\<forall>out. foldR put out xs = Inr (out @ bs)" "reads (cur_repeat get (length xs)) xs bs" by blast
  from reads_bind [where f = "cur_repeat get", OF uint_reads [OF len] bs(2)] bs(1) len
  show "\<exists>bs. writes (\<lambda>out xs. bindR (put_count out (length xs)) (\<lambda>out. foldR put out xs)) xs bs \<and>
      reads (\<lambda>c. bindR (cur_uint w c) (\<lambda>(n, c). cur_repeat get n c)) xs bs"
    by (auto simp: writes_def assms)
next
  fix c xs c'
  assume "bindR (cur_uint w c) (\<lambda>(n, c). cur_repeat get n c) = Inr (xs, c')"
  then obtain n d where r: "cur_uint w c = Inr (n, d)" "cur_repeat get n d = Inr (xs, c')"
    by (auto simp: bindR_Inr_iff)
  from uint.read_is_written [OF r(1)] obtain a
    where a: "n < 256 ^ w" "consumed c d a" "writes (put_uint w) n a" by blast
  then have "cur_at d \<le> length (cur_bytes d)" by (simp add: consumed_def)
  from elements_written_back [OF r(2) this] obtain b where b: "length xs = n" "\<forall>x\<in>set xs. valid x"
    "consumed d c' b" "\<forall>out. foldR put out xs = Inr (out @ b)" by blast
  have "writes (\<lambda>out xs. bindR (put_count out (length xs)) (\<lambda>out. foldR put out xs)) xs (a @ b)"
    using a(1,3) b(1,4) by (simp add: writes_def assms put_uint_def)
  with consumed_trans [OF a(2) b(3)] b(2)
  show "(\<forall>x\<in>set xs. valid x) \<and> (\<exists>bs. consumed c c' bs \<and>
      writes (\<lambda>out xs. bindR (put_count out (length xs)) (\<lambda>out. foldR put out xs)) xs bs)" by blast
qed

lemma counted_list:
  "codec (\<lambda>out xs. bindR (put_len32 out (length xs)) (\<lambda>out. foldR put out xs))
     (\<lambda>c. bindR (cur_u32 c) (\<lambda>(n, c). cur_repeat get n c)) (\<lambda>xs. \<forall>x\<in>set xs. valid x)"
  by (rule counted) (simp add: put_len32_def)

lemma counted_list16:
  "codec (\<lambda>out xs. bindR (put_len16 out (length xs)) (\<lambda>out. foldR put out xs))
     (\<lambda>c. bindR (cur_u16 c) (\<lambda>(n, c). cur_repeat get n c)) (\<lambda>xs. \<forall>x\<in>set xs. valid x)"
  by (rule counted) (simp add: put_len16_def)

end

section \<open>The fields of the segment format\<close>

interpretation str: codec put_str cur_string utf8
proof unfold_locales
  fix s and out :: "byte list"
  assume u: "utf8 s" and "is_ok (put_str out s)"
  then have len: "length s < 2 ^ 16" by (simp add: put_str_def split: if_splits)
  let ?n = "be_bytes 2 (length s)"
  have "reads (\<lambda>c. bindR (cur_take (length s) c) (\<lambda>(raw, c).
      case from_utf8 raw of Some s \<Rightarrow> Inr (s, c) | None \<Rightarrow> Inl (cur_malformed c))) s (as_bytes s)"
    using u take_reads [of "as_bytes s" "length s"] by (simp add: reads_def)
  moreover from len have "reads (cur_uint 2) (length s) ?n"
    by (intro uint_reads) simp
  ultimately have "reads cur_string s (?n @ as_bytes s)"
    unfolding cur_string_def [abs_def] by (rule reads_bind [rotated])
  moreover have "writes put_str s (?n @ as_bytes s)" using len by (simp add: writes_def put_str_def)
  ultimately show "\<exists>bs. writes put_str s bs \<and> reads cur_string s bs" by blast
next
  fix c s c'
  assume "cur_string c = Inr (s, c')"
  then obtain n d raw where r: "cur_u16 c = Inr (n, d)" "cur_take n d = Inr (raw, c')" "from_utf8 raw = Some s"
    by (auto simp: cur_string_def bindR_Inr_iff split: option.splits)
  from uint.read_is_written [OF r(1)] obtain a
    where a: "n < 256 ^ 2" "consumed c d a" "writes (put_uint 2) n a" by blast
  from take_consumed [OF r(2)] have b: "consumed d c' raw" "length raw = n" by simp_all
  from r(3) have s: "raw = as_bytes s" "utf8 s" by (simp_all add: from_utf8_Some_iff)
  with a(1,3) b(2) have "writes put_str s (a @ raw)" by (simp add: writes_def put_str_def put_uint_def)
  with consumed_trans [OF a(2) b(1)] s(2)
  show "utf8 s \<and> (\<exists>bs. consumed c c' bs \<and> writes put_str s bs)" by blast
qed

abbreviation valid_name :: "string \<Rightarrow> bool" where
  "valid_name s \<equiv> utf8 s \<and> s \<noteq> []"

abbreviation fits_u :: "nat \<Rightarrow> nat \<Rightarrow> bool" where
  "fits_u w n \<equiv> n < 256 ^ w"

abbreviation valid_nonneg :: "nat \<Rightarrow> int \<Rightarrow> bool" where
  "valid_nonneg w i \<equiv> 0 \<le> i \<and> 2 * i < 256 ^ w"

text \<open>The same combinators, for definitions that are equal to what they build.\<close>

lemma codec_cong:
  assumes "codec put get valid" "\<forall>out x. put' out x = put out x" "\<forall>c. get' c = get c" "\<forall>x. valid' x = valid x"
  shows "codec put' get' valid'"
proof -
  from assms(2-4) have "put' = put" "get' = get" "valid' = valid" by (simp_all add: fun_eq_iff)
  with assms(1) show ?thesis by simp
qed

lemma codec_checkedI:
  assumes "codec put get valid" "\<forall>x y. valid x \<longrightarrow> check x = Inr y \<longrightarrow> raw_of y = x"
    and "\<forall>out y. put' out y = put out (raw_of y)"
    and "\<forall>c. get' c = bindR (get c) (\<lambda>(x, c). bindR (cur_checked c (check x)) (\<lambda>y. Inr (y, c)))"
    and "\<forall>y. valid' y \<longleftrightarrow> valid (raw_of y) \<and> check (raw_of y) = Inr y"
  shows "codec put' get' valid'"
  by (rule codec_cong [OF codec_checked [OF assms(1,2)]]) (use assms(3-5) in simp_all)

text \<open>A record of two fields.\<close>

lemma codec_recordI:
  assumes "codec putA getA validA" "codec putB getB validB"
    and "\<forall>a b. validA a \<longrightarrow> validB b \<longrightarrow> fst_of (build a b) = a \<and> snd_of (build a b) = b"
    and "\<forall>r. build (fst_of r) (snd_of r) = r"
    and "\<forall>out r. put' out r = bindR (putA out (fst_of r)) (\<lambda>out. putB out (snd_of r))"
    and "\<forall>c. get' c = bindR (getA c) (\<lambda>(x, c). bindR (getB c) (\<lambda>(y, c). Inr (build x y, c)))"
    and "\<forall>r. valid' r \<longleftrightarrow> validA (fst_of r) \<and> validB (snd_of r)"
  shows "codec put' get' valid'"
proof (rule codec_checkedI [OF codec_pair [OF assms(1,2)]])
  show "\<forall>x y. validA (fst x) \<and> validB (snd x) \<longrightarrow> Inr (build (fst x) (snd x)) = Inr y \<longrightarrow>
      (fst_of y, snd_of y) = x" using assms(3) by auto
  show "\<forall>c. get' c = bindR (bindR (getA c) (\<lambda>(x, c). bindR (getB c) (\<lambda>(y, c). Inr ((x, y), c))))
      (\<lambda>(x, c). bindR (cur_checked c (Inr (build (fst x) (snd x)))) (\<lambda>y. Inr (y, c)))"
    using assms(6) by (simp add: bindR_assoc split_def)
qed (use assms(4,5,7) in simp_all)

lemma key_codec: "codec put_str cur_key valid_name"
  by (rule codec_checkedI [OF str.codec_axioms, of object_key_new "\<lambda>k. k"])
    (auto simp: object_key_new_def cur_key_def split: if_splits)

lemma topic_codec: "codec put_str cur_topic valid_name"
  by (rule codec_checkedI [OF str.codec_axioms, of topic_id_new "\<lambda>k. k"])
    (auto simp: topic_id_new_def cur_topic_def split: if_splits)

lemma offset_codec: "codec (put_int 8) cur_offset (valid_nonneg 8)"
  by (rule codec_checkedI [OF sint.codec_axioms, where check = offset_new and raw_of = "\<lambda>k. k"])
    (auto simp: offset_new_def cur_offset_def fits_int_def split: if_splits)

lemma partition_codec:
  "codec put_partition cur_partition (\<lambda>k. valid_name (fst k) \<and> valid_nonneg 4 (snd k))"
proof (rule codec_recordI [OF topic_codec, where build = Pair and fst_of = fst and snd_of = snd])
  show "codec (put_int 4) (\<lambda>c. bindR (cur_int 4 c) (\<lambda>(x, c).
      bindR (cur_checked c (partition_id_new x)) (\<lambda>y. Inr (y, c)))) (valid_nonneg 4)"
    by (rule codec_checkedI [OF sint.codec_axioms, where check = partition_id_new and raw_of = "\<lambda>k. k"])
      (auto simp: partition_id_new_def fits_int_def split: if_splits)
qed (auto simp: put_partition_def cur_partition_def cur_topic_def bindR_assoc split_def)

definition valid_ref :: "object_ref \<Rightarrow> bool" where
  "valid_ref r \<longleftrightarrow> valid_name (or_object r) \<and> valid_nonneg 8 (or_base r) \<and> fits_u 4 (or_count r)"

lemma ref_codec: "codec put_ref cur_ref valid_ref"
proof (rule codec_recordI [OF key_codec codec_pair [OF offset_codec uint.codec_axioms],
      where build = "\<lambda>object (base, records). \<lparr>or_object = object, or_base = base, or_count = records\<rparr>"
        and fst_of = or_object and snd_of = "\<lambda>r. (or_base r, or_count r)"])
qed (auto simp: put_ref_def cur_ref_def valid_ref_def bindR_assoc split_def)

lemma refs_codec: "codec put_refs cur_refs (\<lambda>rs. \<forall>r\<in>set rs. valid_ref r)"
  using codec.counted_list [OF ref_codec] by (simp add: put_refs_def [abs_def] cur_refs_def [abs_def])

section \<open>Formats that report other errors\<close>

text \<open>The contract speaks of what is accepted only, so it carries over to a writer and a reader that accept
  the same and refuse with other errors.\<close>

lemma codec_same_ok:
  assumes "codec put get valid" "\<forall>out x y. valid x \<longrightarrow> (put' out x = Inr y \<longleftrightarrow> put out x = Inr y)"
    and "\<forall>c x c'. get' c = Inr (x, c') \<longleftrightarrow> get c = Inr (x, c')"
  shows "codec put' get' valid"
proof -
  have put: "put' out x = Inr y \<longleftrightarrow> put out x = Inr y" if "valid x" for out x y
    using assms(2) that by blast
  have get: "get' c = Inr y \<longleftrightarrow> get c = Inr y" for c y using assms(3) by (cases y) simp
  have w: "writes put' x bs \<longleftrightarrow> writes put x bs" if "valid x" for x bs by (simp add: writes_def put [OF that])
  have r: "reads get' x bs \<longleftrightarrow> reads get x bs" for x bs by (simp add: reads_def get)
  show ?thesis
  proof unfold_locales
    fix x out
    assume v: "valid x" and "is_ok (put' out x)"
    then have "is_ok (put out x)" using put by (auto simp: is_ok_iff)
    from codec.written_is_read [OF assms(1) v this] show "\<exists>bs. writes put' x bs \<and> reads get' x bs" by (simp add: w [OF v] r)
  next
    fix c x c'
    assume "get' c = Inr (x, c')"
    with codec.read_is_written [OF assms(1)] get show "valid x \<and> (\<exists>bs. consumed c c' bs \<and> writes put' x bs)"
      using w by blast
  qed
qed

section \<open>Raw bytes\<close>

definition put_raw :: "byte list writer_of" where
  "put_raw out raw = Inr (out @ raw)"

lemma raw_codec: "codec put_raw (cur_take n) (\<lambda>raw. length raw = n)"
proof unfold_locales
  fix raw out :: "byte list"
  assume "length raw = n"
  then show "\<exists>bs. writes put_raw raw bs \<and> reads (cur_take n) raw bs"
    using take_reads [of raw n] by (auto simp: writes_def put_raw_def)
next
  fix c raw c'
  assume "cur_take n c = Inr (raw, c')"
  with take_consumed [OF this] show "length raw = n \<and> (\<exists>bs. consumed c c' bs \<and> writes put_raw raw bs)"
    by (auto simp: writes_def put_raw_def)
qed

text \<open>A 32-bit length and that many bytes.\<close>

definition put_blob :: "byte list writer_of" where
  "put_blob out raw = bindR (put_len32 out (length raw)) (\<lambda>out. put_raw out raw)"

definition cur_blob :: "byte list reader_of" where
  "cur_blob c = bindR (cur_u32 c) (\<lambda>(len, c). cur_take len c)"

lemma blob_codec: "codec put_blob cur_blob (\<lambda>_. True)"
proof unfold_locales
  fix raw out
  assume "is_ok (put_blob out raw)"
  then have len: "length raw < 2 ^ 32" by (auto simp: put_blob_def put_len32_def split: if_splits)
  then have "reads (cur_uint 4) (length raw) (be_bytes 4 (length raw))" by (intro uint_reads) simp
  from reads_bind [where f = cur_take, OF this take_reads [of raw]]
  have "reads cur_blob raw (be_bytes 4 (length raw) @ raw)" by (simp add: cur_blob_def [abs_def])
  moreover have "writes put_blob raw (be_bytes 4 (length raw) @ raw)"
    using len by (simp add: writes_def put_blob_def put_len32_def put_raw_def)
  ultimately show "\<exists>bs. writes put_blob raw bs \<and> reads cur_blob raw bs" by blast
next
  fix c raw c'
  assume "cur_blob c = Inr (raw, c')"
  then obtain n d where r: "cur_u32 c = Inr (n, d)" "cur_take n d = Inr (raw, c')"
    by (auto simp: cur_blob_def bindR_Inr_iff)
  from uint.read_is_written [OF r(1)] obtain a
    where a: "n < 256 ^ 4" "consumed c d a" "writes (put_uint 4) n a" by blast
  from take_consumed [OF r(2)] have b: "consumed d c' raw" "length raw = n" by simp_all
  from a(1,3) b(2) have "writes put_blob raw (a @ raw)"
    by (simp add: writes_def put_blob_def put_len32_def put_uint_def put_raw_def)
  with consumed_trans [OF a(2) b(1)] show "True \<and> (\<exists>bs. consumed c c' bs \<and> writes put_blob raw bs)" by blast
qed

end
