(* ===== verification/Object_Store.thy ===== *)
theory Object_Store
  imports Codec
begin

text \<open>
  The object-storage seam: the in-memory store of \<open>store/fake.rs\<close> with its conditional
  writes and its faults (\<open>store.rs\<close>, \<open>fault.rs\<close>), and the asynchronous code that runs over it.

  An \<open>async fn\<close> over the store is a value of the type \<open>io\<close>: it returns, or it performs one
  effect (reads the clock, reads or updates the state behind its mutex, gets, puts or deletes
  objects) and goes on with the answer.  Every effect is one atomic step, so any other task
  may run between two of them; \<open>io_step\<close> is that step, with every fault the store can show,
  and \<open>io_run\<close> runs a program alone on a store with none.
\<close>

section \<open>The store\<close>

datatype precondition = IfAbsent | IfMatches nat

record key_slot =
  ks_payload :: "byte list option"
  ks_generation :: nat

type_synonym store = "object_key \<Rightarrow> key_slot option"

definition payload_at :: "store \<Rightarrow> object_key \<Rightarrow> byte list option" where
  "payload_at slots key = (case slots key of Some slot \<Rightarrow> ks_payload slot | None \<Rightarrow> None)"

definition slice_range :: "object_key \<Rightarrow> byte list \<Rightarrow> byte_range \<Rightarrow> byte list result" where
  "slice_range key payload bytes =
     (case bytes of
        Full \<Rightarrow> Inr payload
      | Bounded off len \<Rightarrow>
          if off + len \<le> length payload then Inr (take len (drop off payload))
          else Inl (ByteRangeOutOfBounds key off len (length payload)))"

definition store_get :: "store \<Rightarrow> object_key \<Rightarrow> byte_range \<Rightarrow> byte list result" where
  "store_get slots key bytes =
     (case payload_at slots key of
        Some payload \<Rightarrow> slice_range key payload bytes
      | None \<Rightarrow> Inl (ObjectNotFound key))"

text \<open>A token is the generation it renders; \<open>ObjectMeta\<close> is reduced to its token, the part the
  callers keep.\<close>

definition precondition_holds :: "store \<Rightarrow> object_key \<Rightarrow> precondition option \<Rightarrow> bool" where
  "precondition_holds slots key pre =
     (case pre of
        None \<Rightarrow> True
      | Some IfAbsent \<Rightarrow> payload_at slots key = None
      | Some (IfMatches token) \<Rightarrow>
          (case slots key of
             Some slot \<Rightarrow> ks_payload slot \<noteq> None \<and> ks_generation slot = token
           | None \<Rightarrow> False))"

definition store_put ::
  "store \<Rightarrow> object_key \<Rightarrow> byte list \<Rightarrow> precondition option \<Rightarrow> nat result \<times> store" where
  "store_put slots key payload pre =
     (if \<not> precondition_holds slots key pre then (Inl (PreconditionFailed key), slots)
      else
        let generation = (case slots key of Some slot \<Rightarrow> ks_generation slot | None \<Rightarrow> 0) + 1
        in (Inr generation, slots(key \<mapsto> \<lparr>ks_payload = Some payload, ks_generation = generation\<rparr>)))"

definition store_delete :: "store \<Rightarrow> object_key list \<Rightarrow> store" where
  "store_delete slots keys =
     (\<lambda>key. if key \<in> set keys then map_option (ks_payload_update (\<lambda>_. None)) (slots key) else slots key)"

lemma payload_put:
  "store_put slots key payload pre = (Inr token, slots') \<Longrightarrow>
     payload_at slots' k = (if k = key then Some payload else payload_at slots k)"
  by (auto simp: store_put_def payload_at_def Let_def split: if_splits)

lemma put_refused: "store_put slots key payload pre = (Inl e, slots') \<Longrightarrow> slots' = slots \<and> e = PreconditionFailed key"
  by (auto simp: store_put_def Let_def split: if_splits)

lemma put_if_absent_iff:
  "(\<exists>token slots'. store_put slots key payload (Some IfAbsent) = (Inr token, slots')) \<longleftrightarrow>
     payload_at slots key = None"
  by (auto simp: store_put_def precondition_holds_def Let_def)

lemma payload_delete:
  "payload_at (store_delete slots keys) k = (if k \<in> set keys then None else payload_at slots k)"
  by (auto simp: store_delete_def payload_at_def split: option.splits)

lemma get_full: "store_get slots key Full =
    (case payload_at slots key of Some payload \<Rightarrow> Inr payload | None \<Rightarrow> Inl (ObjectNotFound key))"
  by (simp add: store_get_def slice_range_def split: option.splits)

section \<open>Keys in sequence\<close>

text \<open>\<open>format!("{prefix}/dir/{n:020}")\<close>: a decimal number padded with zeros to twenty digits.\<close>

fun decimal :: "nat \<Rightarrow> string" where
  "decimal n = (if n < 10 then [char_of (48 + n)] else decimal (n div 10) @ [char_of (48 + n mod 10)])"

definition pad20 :: "nat \<Rightarrow> string" where
  "pad20 n = replicate (20 - length (decimal n)) CHR ''0'' @ decimal n"

definition seq_key :: "string \<Rightarrow> string \<Rightarrow> nat \<Rightarrow> object_key" where
  "seq_key prefix dir n = prefix @ ''/'' @ dir @ ''/'' @ pad20 n"

definition of_decimal :: "string \<Rightarrow> nat" where
  "of_decimal s = foldl (\<lambda>acc c. acc * 10 + (of_char c - 48)) 0 s"

declare decimal.simps [simp del]

lemma of_decimal_snoc [simp]: "of_decimal (s @ [c]) = of_decimal s * 10 + (of_char c - 48)"
  by (simp add: of_decimal_def)

lemma of_decimal_decimal: "of_decimal (decimal n) = n"
proof (induction n rule: decimal.induct)
  case (1 n)
  then show ?case
    by (cases "n < 10") (simp_all add: decimal.simps [of n] of_decimal_def [of "[_]"])
qed

lemma of_decimal_zeros: "of_decimal (replicate k CHR ''0'' @ s) = of_decimal s"
proof -
  have "foldl (\<lambda>acc c. acc * 10 + (of_char c - 48)) (0::nat) (replicate k CHR ''0'') = 0"
    by (induction k) simp_all
  then show ?thesis by (simp add: of_decimal_def)
qed

lemma pad20_inject: "pad20 m = pad20 n \<longleftrightarrow> m = n"
  by (metis pad20_def of_decimal_zeros of_decimal_decimal)

lemma seq_key_inject [simp]: "seq_key prefix dir m = seq_key prefix dir n \<longleftrightarrow> m = n"
  by (simp add: seq_key_def pad20_inject)

lemma seq_key_ok [simp]: "object_key_new (seq_key prefix dir n) = Inr (seq_key prefix dir n)"
  by (simp add: object_key_new_def seq_key_def)

section \<open>Asynchronous programs\<close>

datatype ('s, 'a) io =
    Return 'a
  | Now "timestamp \<Rightarrow> ('s, 'a) io"
  | Load "'s \<Rightarrow> ('s, 'a) io"
  | Modify "'s \<Rightarrow> 's" "('s, 'a) io"
  | Get object_key "byte list result \<Rightarrow> ('s, 'a) io"
  | Put object_key "byte list" "precondition option" "nat result \<Rightarrow> ('s, 'a) io"
  | Delete "object_key list" "unit result \<Rightarrow> ('s, 'a) io"

primrec bind_io :: "('s, 'a) io \<Rightarrow> ('a \<Rightarrow> ('s, 'b) io) \<Rightarrow> ('s, 'b) io" where
  "bind_io (Return x) f = f x"
| "bind_io (Now k) f = Now (\<lambda>t. bind_io (k t) f)"
| "bind_io (Load k) f = Load (\<lambda>s. bind_io (k s) f)"
| "bind_io (Modify g p) f = Modify g (bind_io p f)"
| "bind_io (Get key k) f = Get key (\<lambda>r. bind_io (k r) f)"
| "bind_io (Put key payload pre k) f = Put key payload pre (\<lambda>r. bind_io (k r) f)"
| "bind_io (Delete keys k) f = Delete keys (\<lambda>r. bind_io (k r) f)"

text \<open>\<open>let x = p.await?; f(x)\<close>, and \<open>let x = r?; f(x)\<close> for a plain result.\<close>

definition await_io :: "('s, 'a result) io \<Rightarrow> ('a \<Rightarrow> ('s, 'b result) io) \<Rightarrow> ('s, 'b result) io" where
  "await_io p f = bind_io p (\<lambda>r. case r of Inl e \<Rightarrow> Return (Inl e) | Inr x \<Rightarrow> f x)"

definition try_io :: "'a result \<Rightarrow> ('a \<Rightarrow> ('s, 'b result) io) \<Rightarrow> ('s, 'b result) io" where
  "try_io r f = (case r of Inl e \<Rightarrow> Return (Inl e) | Inr x \<Rightarrow> f x)"

lemma await_io_cong [fundef_cong]:
  "p = q \<Longrightarrow> (\<And>x. f x = g x) \<Longrightarrow> await_io p f = await_io q g"
  by presburger

lemma try_io_cong [fundef_cong]:
  "r = s \<Longrightarrow> (\<And>x. s = Inr x \<Longrightarrow> f x = g x) \<Longrightarrow> try_io r f = try_io s g"
  by (cases s) (simp_all add: try_io_def)

lemma await_io_simps [simp]:
  "await_io (Return (Inl e)) f = Return (Inl e)"
  "await_io (Return (Inr x)) f = f x"
  "await_io (Now k) f = Now (\<lambda>t. await_io (k t) f)"
  "await_io (Load k') f = Load (\<lambda>s. await_io (k' s) f)"
  "await_io (Modify g p) f = Modify g (await_io p f)"
  "await_io (Get key k'') f = Get key (\<lambda>r. await_io (k'' r) f)"
  "await_io (Put key payload pre k''') f = Put key payload pre (\<lambda>r. await_io (k''' r) f)"
  "await_io (Delete keys k'''') f = Delete keys (\<lambda>r. await_io (k'''' r) f)"
  by (simp_all add: await_io_def)

lemma try_io_simps [simp]: "try_io (Inl e) f = Return (Inl e)" "try_io (Inr x) f = f x"
  by (simp_all add: try_io_def)

section \<open>A program alone\<close>

text \<open>Without faults, at one moment of the clock.\<close>

primrec io_run :: "timestamp \<Rightarrow> ('s, 'a) io \<Rightarrow> store \<Rightarrow> 's \<Rightarrow> 'a \<times> store \<times> 's" where
  "io_run now (Return x) \<sigma> s = (x, \<sigma>, s)"
| "io_run now (Now k) \<sigma> s = io_run now (k now) \<sigma> s"
| "io_run now (Load k) \<sigma> s = io_run now (k s) \<sigma> s"
| "io_run now (Modify g p) \<sigma> s = io_run now p \<sigma> (g s)"
| "io_run now (Get key k) \<sigma> s = io_run now (k (store_get \<sigma> key Full)) \<sigma> s"
| "io_run now (Put key payload pre k) \<sigma> s =
     (case store_put \<sigma> key payload pre of (r, \<sigma>') \<Rightarrow> io_run now (k r) \<sigma>' s)"
| "io_run now (Delete keys k) \<sigma> s = io_run now (k (Inr ())) (store_delete \<sigma> keys) s"

lemma io_run_bind:
  "io_run now (bind_io p f) \<sigma> s =
     (case io_run now p \<sigma> s of (x, \<sigma>', s') \<Rightarrow> io_run now (f x) \<sigma>' s')"
  by (induction p arbitrary: \<sigma> s) (auto split: prod.splits)

lemma io_run_await:
  "io_run now (await_io p f) \<sigma> s =
     (case io_run now p \<sigma> s of
        (Inl e, \<sigma>', s') \<Rightarrow> (Inl e, \<sigma>', s')
      | (Inr x, \<sigma>', s') \<Rightarrow> io_run now (f x) \<sigma>' s')"
  by (simp add: await_io_def io_run_bind split: prod.splits sum.splits)

section \<open>Steps, with faults\<close>

text \<open>
  One effect of a program, at the clock reading \<open>now\<close>.  A call may fail with a storm error
  and no effect; a put may land and its answer be lost; a batch delete that fails may have
  deleted some of its keys.
\<close>

definition storm :: "error set" where
  "storm = {SlowDown, Throttled, Transient}"

inductive io_step ::
  "timestamp \<Rightarrow> store \<times> 's \<times> ('s, 'a) io \<Rightarrow> store \<times> 's \<times> ('s, 'a) io \<Rightarrow> bool" for now
where
  step_now: "io_step now (\<sigma>, s, Now k) (\<sigma>, s, k now)"
| step_load: "io_step now (\<sigma>, s, Load k) (\<sigma>, s, k s)"
| step_modify: "io_step now (\<sigma>, s, Modify g p) (\<sigma>, g s, p)"
| step_get: "io_step now (\<sigma>, s, Get key k) (\<sigma>, s, k (store_get \<sigma> key Full))"
| step_get_storm: "e \<in> storm \<Longrightarrow> io_step now (\<sigma>, s, Get key k) (\<sigma>, s, k (Inl e))"
| step_put: "store_put \<sigma> key payload pre = (r, \<sigma>') \<Longrightarrow>
    io_step now (\<sigma>, s, Put key payload pre k) (\<sigma>', s, k r)"
| step_put_storm: "e \<in> storm \<Longrightarrow> io_step now (\<sigma>, s, Put key payload pre k) (\<sigma>, s, k (Inl e))"
| step_put_lost: "store_put \<sigma> key payload pre = (Inr token, \<sigma>') \<Longrightarrow>
    io_step now (\<sigma>, s, Put key payload pre k) (\<sigma>', s, k (Inl Transient))"
| step_delete: "io_step now (\<sigma>, s, Delete keys k) (store_delete \<sigma> keys, s, k (Inr ()))"
| step_delete_storm: "e \<in> storm \<Longrightarrow> set some \<subseteq> set keys \<Longrightarrow>
    io_step now (\<sigma>, s, Delete keys k) (store_delete \<sigma> some, s, k (Inl e))"

inductive_cases io_step_returnE [elim]: "io_step now (\<sigma>, s, Return x) c"
inductive_cases io_step_nowE [elim]: "io_step now (\<sigma>, s, Now k) c"
inductive_cases io_step_loadE [elim]: "io_step now (\<sigma>, s, Load k) c"
inductive_cases io_step_modifyE [elim]: "io_step now (\<sigma>, s, Modify g p) c"
inductive_cases io_step_getE [elim]: "io_step now (\<sigma>, s, Get key k) c"
inductive_cases io_step_putE [elim]: "io_step now (\<sigma>, s, Put key payload pre k) c"
inductive_cases io_step_deleteE [elim]: "io_step now (\<sigma>, s, Delete keys k) c"

lemma io_run_steps:
  "io_run now p \<sigma> s = (x, \<sigma>', s') \<Longrightarrow> (io_step now)\<^sup>*\<^sup>* (\<sigma>, s, p) (\<sigma>', s', Return x)"
proof (induction p arbitrary: \<sigma> s)
  case (Put key payload pre k)
  obtain r \<tau> where "store_put \<sigma> key payload pre = (r, \<tau>)" by fastforce
  with Put show ?case by (fastforce intro: converse_rtranclp_into_rtranclp io_step.intros)
qed (auto intro: converse_rtranclp_into_rtranclp io_step.intros)

section \<open>Finding the newest of a sequence\<close>

text \<open>
  Base generations and lease terms are written contiguously from zero, so the newest is found
  by doubling until one is absent and then bisecting: the loop of \<open>read_base\<close>
  (\<open>object_store_log/base.rs\<close>) and of \<open>newest\<close> (\<open>lease.rs\<close>), over the probe each uses.
  The doubled bound is a power of two, \<open>2 ^ k\<close>.
\<close>

definition SEARCH_PROBES :: nat where
  "SEARCH_PROBES = 128"

primrec search_bisect ::
  "(nat \<Rightarrow> ('s, 'b option result) io) \<Rightarrow> nat \<Rightarrow> nat \<Rightarrow> nat \<Rightarrow> 'b \<Rightarrow> ('s, (nat \<times> 'b) result) io" where
  "search_bisect probe 0 present absent found = Return (Inl (MalformedMetadataSegment 0))"
| "search_bisect probe (Suc n) present absent found =
     (if absent - present \<le> 1 then Return (Inr (present, found))
      else
        let middle = present + (absent - present) div 2
        in await_io (probe middle) (\<lambda>r.
             case r of
               Some base \<Rightarrow> search_bisect probe n middle absent base
             | None \<Rightarrow> search_bisect probe n present middle found))"

lemma double_bound: "(2::nat) ^ k * 2 \<le> u64_max \<Longrightarrow> k < 63"
proof (rule ccontr)
  assume a: "(2::nat) ^ k * 2 \<le> u64_max" "\<not> k < 63"
  from a(2) have "(2::nat) ^ 63 \<le> 2 ^ k" by (intro power_increasing) auto
  with a(1) show False by simp
qed

function search_double ::
  "(nat \<Rightarrow> ('s, 'b option result) io) \<Rightarrow> nat \<Rightarrow> nat \<Rightarrow> 'b \<Rightarrow> ('s, (nat \<times> 'b) result) io" where
  "search_double probe k present found =
     (let absent = 2 ^ k
      in await_io (probe absent) (\<lambda>r.
           case r of
             None \<Rightarrow> search_bisect probe SEARCH_PROBES present absent found
           | Some base \<Rightarrow>
               if absent * 2 \<le> u64_max then search_double probe (Suc k) absent base
               else Return (Inl (CommitVersionOverflow absent absent))))"
  by pat_completeness auto

termination
  by (relation "measure (\<lambda>(probe, k, present, found). 64 - k)") (auto dest: double_bound)

declare search_double.simps [simp del]

definition search_newest ::
  "(nat \<Rightarrow> ('s, 'b option result) io) \<Rightarrow> ('s, (nat \<times> 'b) option result) io" where
  "search_newest probe =
     await_io (probe 0) (\<lambda>r.
       case r of
         None \<Rightarrow> Return (Inr None)
       | Some found \<Rightarrow>
           await_io (search_double probe 0 0 found) (\<lambda>newest. Return (Inr (Some newest))))"

text \<open>A probe that only reads, and answers \<open>ans\<close>.\<close>

definition answers ::
  "timestamp \<Rightarrow> store \<Rightarrow> 's \<Rightarrow> (nat \<Rightarrow> ('s, 'b option result) io) \<Rightarrow> (nat \<Rightarrow> 'b option) \<Rightarrow> bool" where
  "answers now \<sigma> s probe ans \<longleftrightarrow> (\<forall>t. io_run now (probe t) \<sigma> s = (Inr (ans t), \<sigma>, s))"

lemma answers_await:
  "answers now \<sigma> s probe ans \<Longrightarrow> io_run now (await_io (probe t) f) \<sigma> s = io_run now (f (ans t)) \<sigma> s"
  by (simp add: answers_def io_run_await)

lemma bisect_finds:
  assumes "answers now \<sigma> s probe ans" "\<forall>t. ans t \<noteq> None \<longleftrightarrow> t \<le> n"
    and "present \<le> n" "n < absent" "absent - present \<le> 2 ^ m" "m < fuel" "ans present = Some found"
  shows "io_run now (search_bisect probe fuel present absent found) \<sigma> s = (Inr (n, the (ans n)), \<sigma>, s)"
  using assms(3-)
proof (induction fuel arbitrary: present absent found m)
  case (Suc fuel)
  show ?case
  proof (cases "absent - present \<le> 1")
    case True
    with Suc.prems have "present = n" by simp
    with True Suc.prems(5) show ?thesis by simp
  next
    case False
    define middle where "middle = present + (absent - present) div 2"
    from False have mid: "present < middle" "middle < absent" unfolding middle_def by auto
    from False Suc.prems(3) obtain m' where m: "m = Suc m'" by (cases m) auto
    with Suc.prems(3) have half: "middle - present \<le> 2 ^ m'" "absent - middle \<le> 2 ^ m'"
      unfolding middle_def by auto
    show ?thesis
    proof (cases "ans middle")
      case None
      with assms(2) have "n < middle" by (metis not_le)
      from Suc.IH [OF Suc.prems(1) this half(1) _ Suc.prems(5)] Suc.prems(4) m False None
      show ?thesis by (simp add: Let_def middle_def [symmetric] answers_await [OF assms(1)])
    next
      case (Some b)
      with assms(2) have "middle \<le> n" by (metis option.distinct(1))
      from Suc.IH [OF this Suc.prems(2) half(2) _ Some] Suc.prems(4) m False Some
      show ?thesis by (simp add: Let_def middle_def [symmetric] answers_await [OF assms(1)])
    qed
  qed
qed simp

lemma double_finds:
  assumes "answers now \<sigma> s probe ans" "\<forall>t. ans t \<noteq> None \<longleftrightarrow> t \<le> n" "n < 2 ^ 63"
    and "present \<le> n" "present \<le> 2 ^ k" "ans present = Some found" "k \<le> 63"
  shows "io_run now (search_double probe k present found) \<sigma> s = (Inr (n, the (ans n)), \<sigma>, s)"
  using assms(4-)
proof (induction "64 - k" arbitrary: k present found)
  case (Suc x)
  show ?case
  proof (cases "ans (2 ^ k)")
    case None
    with assms(2) have "n < 2 ^ k" by (metis not_le)
    with bisect_finds [OF assms(1,2) Suc.prems(1) this, of k SEARCH_PROBES] Suc.prems None show ?thesis
      by (simp add: search_double.simps Let_def answers_await [OF assms(1)] SEARCH_PROBES_def)
  next
    case (Some b)
    with assms(2) have le: "2 ^ k \<le> n" by (metis option.distinct(1))
    with assms(3) have "(2::nat) ^ k < 2 ^ 63" by linarith
    then have k: "k < 63" by (rule power_less_imp_less_exp [rotated]) simp
    then have "(2::nat) ^ k * 2 \<le> 2 ^ 63" using power_increasing [of "Suc k" 63 "2::nat"] by simp
    then have fits: "(2::nat) ^ k * 2 \<le> u64_max" by simp
    from Suc.hyps(2) have "x = 64 - Suc k" by simp
    from Suc.hyps(1) [OF this le _ Some] k Some fits show ?thesis
      by (simp add: search_double.simps [of probe k] Let_def answers_await [OF assms(1)])
  qed
qed simp

text \<open>The search returns the newest of fewer than \<open>2 ^ 63\<close> contiguous entries, within its probes.\<close>

lemma search_finds:
  assumes "answers now \<sigma> s probe ans" "\<forall>t. ans t \<noteq> None \<longleftrightarrow> t < n" "n \<le> 2 ^ 63"
  shows "io_run now (search_newest probe) \<sigma> s =
    (Inr (if n = 0 then None else Some (n - 1, the (ans (n - 1)))), \<sigma>, s)"
proof (cases n)
  case 0
  with assms(2) have "ans 0 = None" by simp
  with 0 show ?thesis by (simp add: search_newest_def answers_await [OF assms(1)])
next
  case (Suc m)
  with assms(2) obtain b where b: "ans 0 = Some b" by (metis not_None_eq zero_less_Suc)
  have "\<forall>t. ans t \<noteq> None \<longleftrightarrow> t \<le> m" using assms(2) Suc by (simp add: less_Suc_eq_le)
  from double_finds [OF assms(1) this _ _ _ b, of 0] assms(3) Suc b show ?thesis
    using assms(1) by (simp add: search_newest_def answers_def io_run_await)
qed

end
