(* ===== verification/Lease.thy ===== *)
theory Lease
  imports Object_Store
begin

text \<open>
  The leadership lease in object storage (\<open>lease.rs\<close>): terms are create-only objects, the
  holder of the newest renews it, and a challenger takes the next term once the recorded
  expiry and the clock skew have passed on its own clock.

  \<open>acquire\<close> and \<open>renew\<close> are programs over the store; \<open>lease_system\<close> is any number of nodes
  running them, one call at a time each (\<open>keep_lease\<close>), interleaved effect by effect, with
  every fault of the store and with clocks that may disagree by the assumed skew.
\<close>

section \<open>The lease\<close>

definition LEASE_TTL_MS :: int where "LEASE_TTL_MS = 10000"
definition LEASE_RENEW_MS :: int where "LEASE_RENEW_MS = 3333"
definition LEASE_SKEW_MS :: int where "LEASE_SKEW_MS = 1000"

definition LEASE_MAGIC :: "byte list" where
  "LEASE_MAGIC = as_bytes ''OQLS''"

abbreviation i64_min :: int where "i64_min \<equiv> - 9223372036854775808"

definition sat64 :: "int \<Rightarrow> int" where
  "sat64 i = max i64_min (min i64_max i)"

record lease_handle =
  ls_prefix :: string
  ls_holder :: string

record held =
  hd_term :: "nat option"
  hd_write_handle :: "nat option"
  hd_valid_until :: int

definition held_default :: held where
  "held_default = \<lparr>hd_term = None, hd_write_handle = None, hd_valid_until = 0\<rparr>"

definition is_held :: "timestamp \<Rightarrow> held \<Rightarrow> bool" where
  "is_held now h \<longleftrightarrow> now < hd_valid_until h"

definition lease_key :: "lease_handle \<Rightarrow> nat \<Rightarrow> object_key result" where
  "lease_key self trm = object_key_new (seq_key (ls_prefix self) ''lease'' trm)"

definition lease_body :: "lease_handle \<Rightarrow> int \<Rightarrow> byte list" where
  "lease_body self expires = LEASE_MAGIC @ be_int 8 expires @ as_bytes (ls_holder self)"

definition lease_expiry :: "byte list \<Rightarrow> int result" where
  "lease_expiry bytes =
     (if \<not> (4 \<le> length bytes \<and> take 4 bytes = LEASE_MAGIC) then Inl (MalformedMetadataSegment 0)
      else if length bytes < 12 then Inl (MalformedMetadataSegment 0)
      else Inr (of_be_int (take 8 (drop 4 bytes))))"

definition lease_read :: "lease_handle \<Rightarrow> nat \<Rightarrow> (held, int option result) io" where
  "lease_read self trm =
     try_io (lease_key self trm) (\<lambda>key.
       Get key (\<lambda>r.
         case r of
           Inr bytes \<Rightarrow> try_io (lease_expiry bytes) (\<lambda>expires. Return (Inr (Some expires)))
         | Inl (ObjectNotFound _) \<Rightarrow> Return (Inr None)
         | Inl other \<Rightarrow> Return (Inl other)))"

definition lease_newest :: "lease_handle \<Rightarrow> (held, (nat \<times> int) option result) io" where
  "lease_newest self = search_newest (lease_read self)"

definition lose :: "held \<Rightarrow> held" where
  "lose h = h\<lparr>hd_valid_until := i64_min, hd_write_handle := None, hd_term := None\<rparr>"

definition take_term :: "lease_handle \<Rightarrow> timestamp \<Rightarrow> nat \<Rightarrow> (held, bool result) io" where
  "take_term self started next_term =
     (let body = lease_body self (sat64 (started + LEASE_TTL_MS))
      in try_io (lease_key self next_term) (\<lambda>key.
           Put key body (Some IfAbsent) (\<lambda>r.
             case r of
               Inr token \<Rightarrow>
                 Modify (\<lambda>h. h\<lparr>hd_term := Some next_term, hd_write_handle := Some token,
                               hd_valid_until := sat64 (started + LEASE_TTL_MS)\<rparr>)
                   (Return (Inr True))
             | Inl (PreconditionFailed _) \<Rightarrow> Return (Inr False)
             | Inl other \<Rightarrow> Return (Inl other))))"

definition acquire :: "lease_handle \<Rightarrow> (held, bool result) io" where
  "acquire self =
     Now (\<lambda>started.
       await_io (lease_newest self) (\<lambda>newest.
         case newest of
           None \<Rightarrow> take_term self started 0
         | Some (trm, expires) \<Rightarrow>
             if started < sat64 (expires + LEASE_SKEW_MS) then Return (Inr False)
             else try_io (version_advance trm 1) (\<lambda>next_term. take_term self started next_term)))"

definition extend_term :: "lease_handle \<Rightarrow> timestamp \<Rightarrow> nat \<Rightarrow> nat \<Rightarrow> int \<Rightarrow> (held, bool result) io" where
  "extend_term self started trm token deadline =
     (let body = lease_body self (sat64 (started + LEASE_TTL_MS))
      in try_io (lease_key self trm) (\<lambda>key.
           Put key body (Some (IfMatches token)) (\<lambda>r.
             case r of
               Inr token' \<Rightarrow>
                 Now (\<lambda>finished.
                   Modify (\<lambda>h. h\<lparr>hd_write_handle := Some token',
                       hd_valid_until := (if finished < sat64 (deadline - LEASE_SKEW_MS)
                                          then sat64 (started + LEASE_TTL_MS) else hd_valid_until h)\<rparr>)
                     (Return (Inr True)))
             | Inl (PreconditionFailed _) \<Rightarrow> Modify lose (Return (Inr False))
             | Inl other \<Rightarrow> Return (Inl other))))"

definition renew :: "lease_handle \<Rightarrow> (held, bool result) io" where
  "renew self =
     Now (\<lambda>started.
       Load (\<lambda>h.
         case (hd_term h, hd_write_handle h) of
           (Some trm, Some token) \<Rightarrow>
             let deadline = hd_valid_until h
             in if started \<ge> deadline then Modify lose (Return (Inr False))
                else try_io (version_advance trm 1) (\<lambda>successor.
                  await_io (lease_read self successor) (\<lambda>found.
                    if found \<noteq> None then Modify lose (Return (Inr False))
                    else extend_term self started trm token deadline))
         | _ \<Rightarrow> Return (Inr False)))"

section \<open>Nodes\<close>

text \<open>
  A node is its clock, its state behind the mutex, and the call it is in, if any.  The holders'
  names may be anything; the prefix is shared.
\<close>

record lease_system =
  sy_store :: store
  sy_clock :: "nat \<Rightarrow> timestamp"
  sy_held :: "nat \<Rightarrow> held"
  sy_call :: "nat \<Rightarrow> (held, bool result) io option"

definition clocks_ok :: "(nat \<Rightarrow> timestamp) \<Rightarrow> bool" where
  "clocks_ok clk \<longleftrightarrow>
     (\<forall>i. 0 \<le> clk i \<and> clk i \<le> i64_max - LEASE_TTL_MS - LEASE_SKEW_MS) \<and>
     (\<forall>i j. clk i \<le> clk j + LEASE_SKEW_MS)"

inductive lease_step :: "(nat \<Rightarrow> lease_handle) \<Rightarrow> lease_system \<Rightarrow> lease_system \<Rightarrow> bool" for handle where
  tick: "clocks_ok clk \<Longrightarrow> (\<And>i. sy_clock S i \<le> clk i) \<Longrightarrow>
    lease_step handle S (S\<lparr>sy_clock := clk\<rparr>)"
| call_acquire: "sy_call S i = None \<Longrightarrow>
    lease_step handle S (S\<lparr>sy_call := (sy_call S)(i \<mapsto> acquire (handle i))\<rparr>)"
| call_renew: "sy_call S i = None \<Longrightarrow>
    lease_step handle S (S\<lparr>sy_call := (sy_call S)(i \<mapsto> renew (handle i))\<rparr>)"
| effect: "sy_call S i = Some p \<Longrightarrow> io_step (sy_clock S i) (sy_store S, sy_held S i, p) (\<sigma>, h, p') \<Longrightarrow>
    lease_step handle S
      (S\<lparr>sy_store := \<sigma>, sy_held := (sy_held S)(i := h), sy_call := (sy_call S)(i \<mapsto> p')\<rparr>)"
| returned: "sy_call S i = Some (Return r) \<Longrightarrow>
    lease_step handle S (S\<lparr>sy_call := (sy_call S)(i := None)\<rparr>)"
| crash: "lease_step handle S
      (S\<lparr>sy_held := (sy_held S)(i := held_default), sy_call := (sy_call S)(i := None)\<rparr>)"

definition lease_start :: "lease_system \<Rightarrow> bool" where
  "lease_start S \<longleftrightarrow>
     sy_store S = (\<lambda>_. None) \<and> clocks_ok (sy_clock S) \<and>
     sy_held S = (\<lambda>_. held_default) \<and> sy_call S = (\<lambda>_. None)"

definition lease_reachable :: "(nat \<Rightarrow> lease_handle) \<Rightarrow> lease_system \<Rightarrow> bool" where
  "lease_reachable handle S \<longleftrightarrow> (\<exists>S0. lease_start S0 \<and> (lease_step handle)\<^sup>*\<^sup>* S0 S)"

end
