(* ===== verification/Lease_Safety.thy ===== *)
theory Lease_Safety
  imports Lease
begin

text \<open>
  Mutual exclusion of the lease.  The proof is a rely-guarantee argument over the programs
  \<open>acquire\<close> and \<open>renew\<close>: a ghost view of the store (which terms exist, who took them, what
  expiry each records, which have run out on their owner's clock) evolves under every node's
  steps, \<open>rely\<close> is what a node may assume of the others, and \<open>safe\<close> says that from here on a
  program keeps its node's invariant whatever the others do.
\<close>

section \<open>The ghost view\<close>

record view =
  vw_rec :: "nat \<Rightarrow> int option"
  vw_own :: "nat \<Rightarrow> nat"
  vw_exp :: "nat set"
  vw_clk :: "nat \<Rightarrow> timestamp"

definition view_ok :: "view \<Rightarrow> bool" where
  "view_ok V \<longleftrightarrow>
     clocks_ok (vw_clk V) \<and>
     (\<forall>t E. vw_rec V t = Some E \<longrightarrow>
        0 \<le> E \<and> E \<le> vw_clk V (vw_own V t) + LEASE_TTL_MS \<and>
        (E \<le> vw_clk V (vw_own V t) \<longrightarrow> t \<in> vw_exp V)) \<and>
     (\<forall>t. vw_rec V (Suc t) \<noteq> None \<longrightarrow> vw_rec V t \<noteq> None \<and> t \<in> vw_exp V) \<and>
     (\<forall>t\<in>vw_exp V. vw_rec V t \<noteq> None)"

definition shows_view :: "string \<Rightarrow> store \<Rightarrow> view \<Rightarrow> bool" where
  "shows_view prefix \<sigma> V \<longleftrightarrow>
     (\<forall>t. case vw_rec V t of
            None \<Rightarrow> payload_at \<sigma> (seq_key prefix ''lease'' t) = None
          | Some E \<Rightarrow> (\<exists>who. payload_at \<sigma> (seq_key prefix ''lease'' t) = Some (LEASE_MAGIC @ be_int 8 E @ who)))"

text \<open>What node \<open>i\<close> may assume of everything that happens between two of its own steps.\<close>

definition rely :: "nat \<Rightarrow> view \<Rightarrow> view \<Rightarrow> bool" where
  "rely i V V' \<longleftrightarrow>
     (\<forall>t. vw_rec V t \<noteq> None \<longrightarrow> vw_rec V' t \<noteq> None \<and> vw_own V' t = vw_own V t) \<and>
     (\<forall>t. vw_rec V t \<noteq> None \<longrightarrow> vw_own V t = i \<longrightarrow> vw_rec V' t = vw_rec V t) \<and>
     vw_exp V \<subseteq> vw_exp V' \<and>
     (\<forall>t E. vw_rec V t = Some E \<longrightarrow> vw_own V t = i \<longrightarrow> t \<in> vw_exp V' \<longrightarrow> t \<notin> vw_exp V \<longrightarrow> E \<le> vw_clk V' i) \<and>
     (\<forall>j. vw_clk V j \<le> vw_clk V' j)"

lemma rely_refl [simp]: "rely i V V"
  by (simp add: rely_def)

lemma rely_clock: "rely i V V' \<Longrightarrow> vw_clk V j \<le> vw_clk V' j"
  by (simp add: rely_def)

lemma rely_expired: "rely i V V' \<Longrightarrow> t \<in> vw_exp V \<Longrightarrow> t \<in> vw_exp V'"
  by (auto simp: rely_def)

lemma rely_exists: "rely i V V' \<Longrightarrow> vw_rec V t \<noteq> None \<Longrightarrow> vw_rec V' t \<noteq> None \<and> vw_own V' t = vw_own V t"
  by (simp add: rely_def)

lemma rely_mine: "rely i V V' \<Longrightarrow> vw_rec V t = Some E \<Longrightarrow> vw_own V t = i \<Longrightarrow>
    vw_rec V' t = Some E \<and> vw_own V' t = i \<and> (t \<in> vw_exp V' \<longrightarrow> t \<in> vw_exp V \<or> E \<le> vw_clk V' i)"
  unfolding rely_def by fastforce

lemma rely_trans:
  assumes a: "rely i V V'" and b: "rely i V' V''"
  shows "rely i V V''"
proof -
  have clk: "vw_clk V j \<le> vw_clk V'' j" for j
    using rely_clock [OF a, of j] rely_clock [OF b, of j] by simp
  have ran_out: "E \<le> vw_clk V'' i"
    if "vw_rec V t = Some E" "vw_own V t = i" "t \<in> vw_exp V''" "t \<notin> vw_exp V" for t E
    using rely_mine [OF a that(1,2)] rely_mine [OF b, of t E] rely_clock [OF b, of i] that(3,4) by fastforce
  have mine: "vw_rec V'' t = vw_rec V t" if "vw_rec V t \<noteq> None" "vw_own V t = i" for t
    using that rely_mine [OF a, of t] rely_mine [OF b, of t] by fastforce
  have same: "vw_rec V'' t \<noteq> None \<and> vw_own V'' t = vw_own V t" if "vw_rec V t \<noteq> None" for t
    using rely_exists [OF a that] rely_exists [OF b, of t] by simp
  show ?thesis
    unfolding rely_def using clk ran_out mine same rely_expired [OF a] rely_expired [OF b] by blast
qed

section \<open>A node's invariant\<close>

text \<open>A node that may act owns the newest term, and will stop before anyone can take the next.\<close>

definition holds_safely :: "nat \<Rightarrow> view \<Rightarrow> held \<Rightarrow> bool" where
  "holds_safely i V h \<longleftrightarrow>
     (case hd_term h of
        None \<Rightarrow> hd_valid_until h \<le> 0
      | Some t \<Rightarrow> (\<exists>E. vw_rec V t = Some E \<and> vw_own V t = i \<and> hd_valid_until h \<le> E \<and>
                        (t \<in> vw_exp V \<longrightarrow> hd_valid_until h \<le> vw_clk V i)))"

lemma holds_safely_stable:
  assumes "holds_safely i V h" "rely i V V'"
  shows "holds_safely i V' h"
proof (cases "hd_term h")
  case (Some t)
  with assms(1) obtain E where E: "vw_rec V t = Some E" "vw_own V t = i" "hd_valid_until h \<le> E"
    "t \<in> vw_exp V \<longrightarrow> hd_valid_until h \<le> vw_clk V i" by (auto simp: holds_safely_def)
  with rely_mine [OF assms(2) E(1,2)] rely_clock [OF assms(2), of i] Some show ?thesis
    by (fastforce simp: holds_safely_def)
qed (use assms(1) in \<open>simp add: holds_safely_def\<close>)

section \<open>Safe programs\<close>

definition guarantee :: "nat \<Rightarrow> view \<Rightarrow> view \<Rightarrow> bool" where
  "guarantee i V V' \<longleftrightarrow> vw_clk V' = vw_clk V \<and> (\<forall>j. j \<noteq> i \<longrightarrow> rely j V V')"

type_synonym 'a post = "'a \<Rightarrow> view \<Rightarrow> held \<Rightarrow> bool"

primrec safe :: "string \<Rightarrow> nat \<Rightarrow> 'a post \<Rightarrow> (held, 'a) io \<Rightarrow> view \<Rightarrow> held \<Rightarrow> bool" where
  "safe prefix i Q (Return x) V h \<longleftrightarrow> holds_safely i V h \<and>
     (\<forall>V'. rely i V V' \<and> view_ok V' \<longrightarrow> Q x V' h)"
| "safe prefix i Q (Now k) V h \<longleftrightarrow> holds_safely i V h \<and>
     (\<forall>V'. rely i V V' \<and> view_ok V' \<longrightarrow> safe prefix i Q (k (vw_clk V' i)) V' h)"
| "safe prefix i Q (Load k) V h \<longleftrightarrow> holds_safely i V h \<and>
     (\<forall>V'. rely i V V' \<and> view_ok V' \<longrightarrow> safe prefix i Q (k h) V' h)"
| "safe prefix i Q (Modify g p) V h \<longleftrightarrow> holds_safely i V h \<and>
     (\<forall>V'. rely i V V' \<and> view_ok V' \<longrightarrow> safe prefix i Q p V' (g h))"
| "safe prefix i Q (Get key k) V h \<longleftrightarrow> holds_safely i V h \<and>
     (\<forall>V' \<sigma>. rely i V V' \<and> view_ok V' \<and> shows_view prefix \<sigma> V' \<longrightarrow>
        safe prefix i Q (k (store_get \<sigma> key Full)) V' h \<and>
        (\<forall>e. e \<in> storm \<longrightarrow> safe prefix i Q (k (Inl e)) V' h))"
| "safe prefix i Q (Put key payload pre k) V h \<longleftrightarrow> holds_safely i V h \<and>
     (\<forall>V' \<sigma>. rely i V V' \<and> view_ok V' \<and> shows_view prefix \<sigma> V' \<longrightarrow>
        (\<forall>e. e \<in> storm \<longrightarrow> safe prefix i Q (k (Inl e)) V' h) \<and>
        (\<forall>r \<sigma>'. store_put \<sigma> key payload pre = (r, \<sigma>') \<longrightarrow>
           (\<exists>V''. guarantee i V' V'' \<and> view_ok V'' \<and> shows_view prefix \<sigma>' V'' \<and>
              safe prefix i Q (k r) V'' h \<and> (is_ok r \<longrightarrow> safe prefix i Q (k (Inl Transient)) V'' h))))"
| "safe prefix i Q (Delete keys k) V h \<longleftrightarrow> False"

lemma safe_holds: "safe prefix i Q p V h \<Longrightarrow> holds_safely i V h"
  by (cases p) auto

lemma safe_stable:
  assumes "safe prefix i Q p V h" "rely i V V'"
  shows "safe prefix i Q p V' h"
  using assms rely_trans [OF assms(2)] holds_safely_stable [OF safe_holds [OF assms(1)] assms(2)]
  by (cases p) (simp_all, blast+)

lemma safe_bind:
  "safe prefix i (\<lambda>x. safe prefix i Q (f x)) p V h \<Longrightarrow> view_ok V \<Longrightarrow> safe prefix i Q (bind_io p f) V h"
proof (induction p arbitrary: V h)
  case (Put key payload pre k)
  have IH: "safe prefix i Q (bind_io (k r) f) W g"
    if "safe prefix i (\<lambda>x. safe prefix i Q (f x)) (k r) W g" "view_ok W" for r W g
    by (rule Put.IH [OF rangeI that])
  show ?case using Put.prems(1) by (simp, blast intro: IH)
qed (auto dest: spec [where x = V for V])

lemma safe_mono:
  "safe prefix i R p V h \<Longrightarrow> view_ok V \<Longrightarrow>
   (\<forall>x V h. R x V h \<and> holds_safely i V h \<and> view_ok V \<longrightarrow> Q x V h) \<Longrightarrow> safe prefix i Q p V h"
proof (induction p arbitrary: V h)
  case (Return x)
  then show ?case using holds_safely_stable by auto
next
  case (Put key payload pre k)
  have IH: "safe prefix i Q (k r) W g" if "safe prefix i R (k r) W g" "view_ok W" for r W g
    by (rule Put.IH [OF rangeI that Put.prems(3)])
  show ?case using Put.prems(1) by (simp, blast intro: IH)
qed (auto dest: spec [where x = V for V])

lemma safe_await:
  assumes "safe prefix i R p V h" "view_ok V"
    and "\<forall>r V h. R r V h \<and> holds_safely i V h \<and> view_ok V \<longrightarrow>
      safe prefix i Q (case r of Inl e \<Rightarrow> Return (Inl e) | Inr x \<Rightarrow> f x) V h"
  shows "safe prefix i Q (await_io p f) V h"
  unfolding await_io_def by (intro safe_bind safe_mono [OF assms]) (rule assms(2))

abbreviation no_post :: "'a post" where
  "no_post \<equiv> \<lambda>_ _ _. True"

section \<open>Reading terms\<close>

lemma clock_bounds: "clocks_ok clk \<Longrightarrow> 0 \<le> clk i \<and> clk i \<le> i64_max - LEASE_TTL_MS - LEASE_SKEW_MS \<and> clk i \<le> clk j + LEASE_SKEW_MS"
  by (simp add: clocks_ok_def)

lemma view_okD:
  assumes "view_ok V" "vw_rec V t = Some E"
  shows "0 \<le> E \<and> E \<le> vw_clk V (vw_own V t) + LEASE_TTL_MS \<and> E \<le> i64_max - LEASE_SKEW_MS \<and>
    (E \<le> vw_clk V (vw_own V t) \<longrightarrow> t \<in> vw_exp V)"
proof -
  from assms have "0 \<le> E \<and> E \<le> vw_clk V (vw_own V t) + LEASE_TTL_MS \<and> (E \<le> vw_clk V (vw_own V t) \<longrightarrow> t \<in> vw_exp V)"
    unfolding view_ok_def by blast
  moreover have "vw_clk V (vw_own V t) \<le> i64_max - LEASE_TTL_MS - LEASE_SKEW_MS"
    using assms(1) unfolding view_ok_def clocks_ok_def by blast
  ultimately show ?thesis by auto
qed

lemma view_okI:
  assumes "clocks_ok (vw_clk V)"
    and "\<And>t E. vw_rec V t = Some E \<Longrightarrow> 0 \<le> E \<and> E \<le> vw_clk V (vw_own V t) + LEASE_TTL_MS \<and>
        (E \<le> vw_clk V (vw_own V t) \<longrightarrow> t \<in> vw_exp V)"
    and "\<And>t. vw_rec V (Suc t) \<noteq> None \<Longrightarrow> vw_rec V t \<noteq> None \<and> t \<in> vw_exp V"
    and "\<And>t. t \<in> vw_exp V \<Longrightarrow> vw_rec V t \<noteq> None"
  shows "view_ok V"
  using assms unfolding view_ok_def by blast

lemma view_ok_before: "view_ok V \<Longrightarrow> vw_rec V (Suc t) \<noteq> None \<Longrightarrow> vw_rec V t \<noteq> None \<and> t \<in> vw_exp V"
  unfolding view_ok_def by blast

lemma view_ok_expired: "view_ok V \<Longrightarrow> t \<in> vw_exp V \<Longrightarrow> vw_rec V t \<noteq> None"
  unfolding view_ok_def by blast

lemma view_ok_clocks: "view_ok V \<Longrightarrow> clocks_ok (vw_clk V)"
  unfolding view_ok_def by blast

lemma expiry_of_body:
  assumes "0 \<le> E" "E \<le> i64_max"
  shows "lease_expiry (LEASE_MAGIC @ be_int 8 E @ who) = Inr E"
proof -
  have "fits_int 8 E" using assms by (simp add: fits_int_def)
  then show ?thesis by (simp add: lease_expiry_def LEASE_MAGIC_def)
qed

text \<open>What a node that read expiry \<open>E\<close> in term \<open>t\<close>, after its clock showed \<open>started\<close>, knows from then on.\<close>

definition known :: "timestamp \<Rightarrow> view \<Rightarrow> nat \<Rightarrow> int \<Rightarrow> bool" where
  "known started V t E \<longleftrightarrow>
     vw_rec V t \<noteq> None \<and> 0 \<le> E \<and> E \<le> i64_max - LEASE_SKEW_MS \<and>
     (E + LEASE_SKEW_MS \<le> started \<longrightarrow> t \<in> vw_exp V)"

lemma known_stable: "known started V t E \<Longrightarrow> rely i V V' \<Longrightarrow> known started V' t E"
  unfolding known_def using rely_exists rely_expired by blast

lemma read_is_known:
  assumes "view_ok V" "vw_rec V t = Some E" "started \<le> vw_clk V i"
  shows "known started V t E"
proof -
  have "vw_clk V i \<le> vw_clk V (vw_own V t) + LEASE_SKEW_MS"
    using assms(1) by (simp add: view_ok_def clocks_ok_def)
  with view_okD [OF assms(1,2)] assms(2,3) show ?thesis by (auto simp: known_def)
qed

definition reading :: "nat \<Rightarrow> timestamp \<Rightarrow> held \<Rightarrow> (view \<Rightarrow> 'b \<Rightarrow> bool) \<Rightarrow> ('b result) post" where
  "reading i started h K r V h' \<longleftrightarrow>
     h' = h \<and> started \<le> vw_clk V i \<and> (\<forall>x. r = Inr x \<longrightarrow> K V x)"

lemma reading_return:
  assumes "holds_safely i V h" "started \<le> vw_clk V i" "\<forall>x. r = Inr x \<longrightarrow> K V x"
    and "\<forall>x V V'. K V x \<longrightarrow> rely i V V' \<longrightarrow> K V' x"
  shows "safe prefix i (reading i started h K) (Return r) V h"
  using assms order_trans [OF assms(2) rely_clock] by (auto simp: reading_def)

lemma lease_read_safe:
  assumes "ls_prefix self = prefix" "holds_safely i V h" "started \<le> vw_clk V i"
    and F: "F V" "\<forall>V V'. F V \<longrightarrow> rely i V V' \<longrightarrow> F V'"
  shows "safe prefix i (reading i started h (\<lambda>V found. F V \<and> (\<forall>E. found = Some E \<longrightarrow> known started V t E)))
    (lease_read self t) V h"
proof -
  let ?Q = "reading i started h (\<lambda>V found. F V \<and> (\<forall>E. found = Some E \<longrightarrow> known started V t E))"
  have ends: "safe prefix i ?Q (Return r) V' h"
    if "rely i V V'" "\<forall>E. r = Inr (Some E) \<longrightarrow> known started V' t E" for r V'
  proof (rule reading_return)
    show "started \<le> vw_clk V' i" using assms(3) rely_clock [OF that(1), of i] by simp
    show "holds_safely i V' h" by (rule holds_safely_stable [OF assms(2) that(1)])
    show "\<forall>x. r = Inr x \<longrightarrow> F V' \<and> (\<forall>E. x = Some E \<longrightarrow> known started V' t E)" using that F by blast
  qed (use F(2) known_stable in blast)
  have "safe prefix i ?Q (case store_get \<sigma> (seq_key prefix ''lease'' t) Full of
           Inr bytes \<Rightarrow> try_io (lease_expiry bytes) (\<lambda>expires. Return (Inr (Some expires)))
         | Inl (ObjectNotFound _) \<Rightarrow> Return (Inr None)
         | Inl other \<Rightarrow> Return (Inl other)) V' h"
    if v: "rely i V V'" "view_ok V'" "shows_view prefix \<sigma> V'" for V' \<sigma>
  proof (cases "vw_rec V' t")
    case None
    with v(3) have "payload_at \<sigma> (seq_key prefix ''lease'' t) = None"
      unfolding shows_view_def by (auto dest!: spec [of _ t])
    with ends [OF v(1), of "Inr None"] show ?thesis by (simp add: get_full)
  next
    case (Some E)
    with v(3) obtain who where "payload_at \<sigma> (seq_key prefix ''lease'' t) = Some (LEASE_MAGIC @ be_int 8 E @ who)"
      unfolding shows_view_def by (auto dest!: spec [of _ t])
    moreover have "lease_expiry (LEASE_MAGIC @ be_int 8 E @ who) = Inr E"
      using view_okD [OF v(2) Some] by (intro expiry_of_body) (auto simp: LEASE_SKEW_MS_def)
    moreover have "known started V' t E"
      by (rule read_is_known [OF v(2) Some order_trans [OF assms(3) rely_clock [OF v(1), of i]]])
    ultimately show ?thesis using ends [OF v(1), of "Inr (Some E)"] by (simp add: get_full)
  qed
  moreover have "safe prefix i ?Q (case Inl e of
           Inr bytes \<Rightarrow> try_io (lease_expiry bytes) (\<lambda>expires. Return (Inr (Some expires)))
         | Inl (ObjectNotFound _) \<Rightarrow> Return (Inr None)
         | Inl other \<Rightarrow> Return (Inl other)) V' h" if "e \<in> storm" "rely i V V'" for e V'
    using that(1) ends [OF that(2), of "Inl e"] by (auto simp: storm_def)
  ultimately show ?thesis
    using assms(1,2) by (simp add: lease_read_def lease_key_def)
qed

lemma lease_read_await:
  assumes "ls_prefix self = prefix" "view_ok V" "holds_safely i V h" "started \<le> vw_clk V i"
    and F: "F V" "\<forall>V V'. F V \<longrightarrow> rely i V V' \<longrightarrow> F V'"
    and go_on: "\<And>V' found. view_ok V' \<Longrightarrow> holds_safely i V' h \<Longrightarrow> started \<le> vw_clk V' i \<Longrightarrow> F V' \<Longrightarrow>
      (\<forall>E. found = Some E \<longrightarrow> known started V' t E) \<Longrightarrow> safe prefix i Q (f found) V' h"
    and fail: "\<And>V' e. holds_safely i V' h \<Longrightarrow> started \<le> vw_clk V' i \<Longrightarrow> safe prefix i Q (Return (Inl e)) V' h"
  shows "safe prefix i Q (await_io (lease_read self t) f) V h"
proof (rule safe_await [OF lease_read_safe [OF assms(1,3,4) F] assms(2)], intro allI impI, elim conjE)
  fix r V' h'
  assume r: "reading i started h (\<lambda>V found. F V \<and> (\<forall>E. found = Some E \<longrightarrow> known started V t E)) r V' h'"
    "holds_safely i V' h'" "view_ok V'"
  show "safe prefix i Q (case r of Inl e \<Rightarrow> Return (Inl e) | Inr x \<Rightarrow> f x) V' h'"
  proof (cases r)
    case (Inl e)
    with r fail show ?thesis by (simp add: reading_def del: safe.simps)
  next
    case (Inr found)
    with r go_on [of V' found] show ?thesis by (simp add: reading_def)
  qed
qed

section \<open>Searching for the newest term\<close>

definition newest_known :: "timestamp \<Rightarrow> view \<Rightarrow> nat \<times> int \<Rightarrow> bool" where
  "newest_known started V x = known started V (fst x) (snd x)"

lemma newest_known_stable: "\<forall>x V V'. newest_known started V x \<longrightarrow> rely i V V' \<longrightarrow> newest_known started V' x"
  using known_stable unfolding newest_known_def by blast

lemmas newest_return = reading_return [OF _ _ _ newest_known_stable]

lemma bisect_safe:
  assumes "ls_prefix self = prefix"
  shows "view_ok V \<Longrightarrow> holds_safely i V h \<Longrightarrow> started \<le> vw_clk V i \<Longrightarrow> known started V present found \<Longrightarrow>
    safe prefix i (reading i started h (newest_known started))
      (search_bisect (lease_read self) n present absent found) V h"
proof (induction n arbitrary: V present absent found)
  case 0
  then show ?case unfolding search_bisect.simps by (intro newest_return) simp_all
next
  case (Suc n)
  show ?case
  proof (cases "absent - present \<le> 1")
    case True
    with Suc.prems have "safe prefix i (reading i started h (newest_known started)) (Return (Inr (present, found))) V h"
      by (intro newest_return) (simp_all add: newest_known_def)
    with True show ?thesis by simp
  next
    case False
    have "safe prefix i (reading i started h (newest_known started))
      (await_io (lease_read self middle) (\<lambda>r. case r of
           Some base \<Rightarrow> search_bisect (lease_read self) n middle absent base
         | None \<Rightarrow> search_bisect (lease_read self) n present middle found)) V h" for middle
    proof (rule lease_read_await [OF assms Suc.prems(1-3), where F = "\<lambda>V. known started V present found"])
      show "\<forall>V V'. known started V present found \<longrightarrow> rely i V V' \<longrightarrow> known started V' present found"
        using known_stable by blast
    qed (use Suc.prems(4) in \<open>auto intro: Suc.IH newest_return simp del: safe.simps split: option.split\<close>)
    with False show ?thesis by (simp add: Let_def)
  qed
qed

lemma double_safe:
  assumes "ls_prefix self = prefix"
  shows "view_ok V \<Longrightarrow> holds_safely i V h \<Longrightarrow> started \<le> vw_clk V i \<Longrightarrow> known started V present found \<Longrightarrow>
    safe prefix i (reading i started h (newest_known started))
      (search_double (lease_read self) k present found) V h"
proof (induction "64 - k" arbitrary: k V present found rule: less_induct)
  case less
  show ?case
    unfolding search_double.simps [of _ k] Let_def
  proof (rule lease_read_await [OF assms less.prems(1-3), where F = "\<lambda>V. known started V present found"])
    show "\<forall>V V'. known started V present found \<longrightarrow> rely i V V' \<longrightarrow> known started V' present found"
      using known_stable by blast
    fix V' and found' :: "int option"
    assume v: "view_ok V'" "holds_safely i V' h" "started \<le> vw_clk V' i" "known started V' present found"
      "\<forall>E. found' = Some E \<longrightarrow> known started V' (2 ^ k) E"
    show "safe prefix i (reading i started h (newest_known started))
        (case found' of None \<Rightarrow> search_bisect (lease_read self) SEARCH_PROBES present (2 ^ k) found
         | Some base \<Rightarrow> if 2 ^ k * 2 \<le> u64_max then search_double (lease_read self) (Suc k) (2 ^ k) base
             else Return (Inl (CommitVersionOverflow (2 ^ k) (2 ^ k)))) V' h"
    proof (cases found')
      case None
      with bisect_safe [OF assms v(1-4)] show ?thesis by simp
    next
      case (Some base)
      have "64 - Suc k < 64 - k" if "2 ^ k * 2 \<le> u64_max" using double_bound [OF that] by simp
      with less.hyps [OF _ v(1-3)] newest_return [OF v(2,3)] v(5) Some show ?thesis
        by (auto simp del: safe.simps)
    qed
  qed (use less.prems(4) in \<open>auto intro: newest_return simp del: safe.simps\<close>)
qed

lemma newest_safe:
  assumes "ls_prefix self = prefix" "view_ok V" "holds_safely i V h" "started \<le> vw_clk V i"
  shows "safe prefix i (reading i started h (\<lambda>V newest. \<forall>x. newest = Some x \<longrightarrow> newest_known started V x))
    (lease_newest self) V h"
proof -
  let ?Q = "reading i started h (\<lambda>V newest. \<forall>x. newest = Some x \<longrightarrow> newest_known started V x)"
  have ends: "safe prefix i ?Q (Return r) V' h"
    if "holds_safely i V' h" "started \<le> vw_clk V' i" "\<forall>x. r = Inr (Some x) \<longrightarrow> newest_known started V' x" for r V'
    by (rule reading_return) (use that newest_known_stable in blast)+
  have doubled: "safe prefix i ?Q (await_io (search_double (lease_read self) 0 0 found)
      (\<lambda>newest. Return (Inr (Some newest)))) V' h"
    if "view_ok V'" "holds_safely i V' h" "started \<le> vw_clk V' i" "known started V' 0 found" for V' found
    by (rule safe_await [OF double_safe [OF assms(1) that] that(1)])
      (auto simp: reading_def simp del: safe.simps split_paired_All intro: ends split: sum.split)
  show ?thesis
    unfolding lease_newest_def search_newest_def
    by (rule lease_read_await [OF assms, where F = "\<lambda>_. True"])
      (auto intro: ends doubled simp del: safe.simps split_paired_All split: option.split)
qed

section \<open>Taking and extending a term\<close>

lemma sat_deadline:
  assumes "clocks_ok clk" "0 \<le> started" "started \<le> clk i"
  shows "sat64 (started + LEASE_TTL_MS) = started + LEASE_TTL_MS"
proof -
  have "clk i \<le> i64_max - LEASE_TTL_MS - LEASE_SKEW_MS" using assms(1) by (simp add: clocks_ok_def)
  with assms(2,3) show ?thesis by (simp add: sat64_def LEASE_TTL_MS_def LEASE_SKEW_MS_def)
qed

lemma safe_return [simp]: "safe prefix i no_post (Return x) V h \<longleftrightarrow> holds_safely i V h"
  by simp

lemma shows_view_update:
  assumes "shows_view prefix \<sigma> V" "store_put \<sigma> (seq_key prefix ''lease'' t) (LEASE_MAGIC @ be_int 8 E @ who) pre = (Inr token, \<sigma>')"
    and "vw_rec V' = (vw_rec V)(t \<mapsto> E)"
  shows "shows_view prefix \<sigma>' V'"
  unfolding shows_view_def
proof
  fix u
  show "case vw_rec V' u of None \<Rightarrow> payload_at \<sigma>' (seq_key prefix ''lease'' u) = None
      | Some E \<Rightarrow> \<exists>who. payload_at \<sigma>' (seq_key prefix ''lease'' u) = Some (LEASE_MAGIC @ be_int 8 E @ who)"
    using assms(1) [unfolded shows_view_def, rule_format, of u] assms(3) payload_put [OF assms(2)]
    by (cases "u = t") (auto split: option.splits)
qed

lemma safe_putI:
  assumes "holds_safely i V h"
    and "\<And>V' e. rely i V V' \<Longrightarrow> e \<in> storm \<Longrightarrow> safe prefix i Q (k (Inl e)) V' h"
    and "\<And>V' \<sigma> r \<sigma>'. rely i V V' \<Longrightarrow> view_ok V' \<Longrightarrow> shows_view prefix \<sigma> V' \<Longrightarrow>
      store_put \<sigma> key payload pre = (r, \<sigma>') \<Longrightarrow>
      \<exists>V''. guarantee i V' V'' \<and> view_ok V'' \<and> shows_view prefix \<sigma>' V'' \<and>
        safe prefix i Q (k r) V'' h \<and> (is_ok r \<longrightarrow> safe prefix i Q (k (Inl Transient)) V'' h)"
  shows "safe prefix i Q (Put key payload pre k) V h"
  unfolding safe.simps using assms by blast

text \<open>A node may create term \<open>next_term\<close> when the one before it has run out.\<close>

definition may_create :: "view \<Rightarrow> nat \<Rightarrow> bool" where
  "may_create V next_term \<longleftrightarrow>
     (case next_term of 0 \<Rightarrow> True | Suc t \<Rightarrow> vw_rec V t \<noteq> None \<and> t \<in> vw_exp V)"

lemma may_create_stable: "may_create V t \<Longrightarrow> rely i V V' \<Longrightarrow> may_create V' t"
  unfolding may_create_def using rely_exists rely_expired by (fastforce split: nat.splits)

definition with_term :: "view \<Rightarrow> nat \<Rightarrow> nat \<Rightarrow> int \<Rightarrow> view" where
  "with_term V i t E =
     V\<lparr>vw_rec := (vw_rec V)(t \<mapsto> E), vw_own := (vw_own V)(t := i),
       vw_exp := vw_exp V \<union> (if E \<le> vw_clk V i then {t} else {})\<rparr>"

lemma create_term:
  assumes "view_ok V" "vw_rec V t = None" "may_create V t" "0 \<le> E" "E \<le> vw_clk V i + LEASE_TTL_MS"
  shows "guarantee i V (with_term V i t E)" and "view_ok (with_term V i t E)"
proof -
  show "guarantee i V (with_term V i t E)"
    using assms(2) by (auto simp: guarantee_def rely_def with_term_def split: if_splits)
  let ?W = "with_term V i t E"
  have rec: "0 \<le> F \<and> F \<le> vw_clk ?W (vw_own ?W u) + LEASE_TTL_MS \<and> (F \<le> vw_clk ?W (vw_own ?W u) \<longrightarrow> u \<in> vw_exp ?W)"
    if "vw_rec ?W u = Some F" for u F
    using that assms(4,5) view_okD [OF assms(1), of u F] by (cases "u = t") (auto simp: with_term_def)
  have before: "vw_rec ?W u \<noteq> None \<and> u \<in> vw_exp ?W" if "vw_rec ?W (Suc u) \<noteq> None" for u
    using that assms(2,3) view_ok_before [OF assms(1), of u]
    by (cases "Suc u = t") (auto simp: with_term_def may_create_def)
  have expired: "vw_rec ?W u \<noteq> None" if "u \<in> vw_exp ?W" for u
    using that view_ok_expired [OF assms(1), of u] by (auto simp: with_term_def split: if_splits)
  have "clocks_ok (vw_clk ?W)" using view_ok_clocks [OF assms(1)] by (simp add: with_term_def)
  then show "view_ok ?W" using rec before expired by (rule view_okI)
qed

lemma holds_with_term:
  "vw_rec V t = None \<Longrightarrow> holds_safely i V h \<Longrightarrow> holds_safely i (with_term V j t E) h"
  by (auto simp: holds_safely_def with_term_def split: option.splits if_splits)

text \<open>A node that has just written expiry \<open>E\<close> in its term may act until \<open>E\<close>.\<close>

lemma holds_new_term:
  assumes "vw_rec V t = Some E" "vw_own V t = i" "t \<in> vw_exp V \<longrightarrow> E \<le> vw_clk V i" "rely i V V'"
    and "hd_term h = Some t" "hd_valid_until h = E"
  shows "holds_safely i V' h"
  using rely_mine [OF assms(4,1,2)] assms(3,5,6) rely_clock [OF assms(4), of i]
  by (fastforce simp: holds_safely_def)

lemma take_term_safe:
  assumes "ls_prefix self = prefix" "view_ok V" "holds_safely i V h" "0 \<le> started" "started \<le> vw_clk V i"
    and "may_create V next_term"
  shows "safe prefix i no_post (take_term self started next_term) V h"
proof -
  let ?E = "started + LEASE_TTL_MS" and ?key = "seq_key prefix ''lease'' next_term"
  let ?k = "\<lambda>r. case r of
      Inr token \<Rightarrow> Modify (\<lambda>h. h\<lparr>hd_term := Some next_term, hd_write_handle := Some token,
        hd_valid_until := ?E\<rparr>) (Return (Inr True))
    | Inl (PreconditionFailed _) \<Rightarrow> Return (Inr False) | Inl other \<Rightarrow> Return (Inl other)"
  have "\<exists>V''. guarantee i V' V'' \<and> view_ok V'' \<and> shows_view prefix \<sigma>' V'' \<and>
      safe prefix i no_post (?k r) V'' h \<and> (is_ok r \<longrightarrow> safe prefix i no_post (?k (Inl Transient)) V'' h)"
    if v: "rely i V V'" "view_ok V'" "shows_view prefix \<sigma> V'"
      and put: "store_put \<sigma> ?key (lease_body self ?E) (Some IfAbsent) = (r, \<sigma>')" for V' \<sigma> r \<sigma>'
  proof (cases r)
    case (Inl e)
    with put_refused put have "\<sigma>' = \<sigma>" "e = PreconditionFailed ?key" by blast+
    with v Inl holds_safely_stable [OF assms(3) v(1)] show ?thesis
      by (intro exI [of _ V']) (simp add: guarantee_def)
  next
    case (Inr token)
    let ?W = "with_term V' i next_term ?E"
    have "payload_at \<sigma> ?key = None" using put Inr put_if_absent_iff by blast
    with v(3) have new: "vw_rec V' next_term = None"
      unfolding shows_view_def by (auto dest!: spec [of _ next_term] split: option.splits)
    have clk: "started \<le> vw_clk V' i" using assms(5) rely_clock [OF v(1), of i] by simp
    have ok: "guarantee i V' ?W" "view_ok ?W"
      using create_term [OF v(2) new may_create_stable [OF assms(6) v(1)], of ?E i] clk assms(4)
      by (simp_all add: LEASE_TTL_MS_def)
    have "shows_view prefix \<sigma>' ?W"
      using shows_view_update [OF v(3), of next_term ?E] put Inr by (simp add: lease_body_def with_term_def)
    moreover have h: "holds_safely i ?W h"
      by (rule holds_with_term [OF new holds_safely_stable [OF assms(3) v(1)]])
    moreover have "safe prefix i no_post (?k r) ?W h"
    proof -
      have "vw_rec ?W next_term = Some ?E" "vw_own ?W next_term = i"
        "next_term \<in> vw_exp ?W \<longrightarrow> ?E \<le> vw_clk ?W i"
        using new view_ok_expired [OF v(2), of next_term] by (auto simp: with_term_def)
      from holds_new_term [OF this] h Inr show ?thesis by simp
    qed
    ultimately show ?thesis using ok by (intro exI [of _ ?W]) simp
  qed
  moreover have "safe prefix i no_post (?k (Inl e)) V' h" if "e \<in> storm" "rely i V V'" for e V'
    using that holds_safely_stable [OF assms(3)] by (auto simp: storm_def)
  moreover have "sat64 ?E = ?E" by (rule sat_deadline [OF view_ok_clocks [OF assms(2)] assms(4,5)])
  moreover have "take_term self started next_term = Put ?key (lease_body self ?E) (Some IfAbsent) ?k"
    using \<open>sat64 ?E = ?E\<close> assms(1) by (simp add: take_term_def Let_def lease_key_def)
  ultimately show ?thesis using assms(3) by (auto simp only: intro!: safe_putI)
qed

lemma renew_term:
  assumes "view_ok V" "vw_rec V t = Some E0" "vw_own V t = i" "E0 \<le> E" "E \<le> vw_clk V i + LEASE_TTL_MS"
    and W: "W = V\<lparr>vw_rec := (vw_rec V)(t \<mapsto> E)\<rparr>"
  shows "guarantee i V W" and "view_ok W"
proof -
  show "guarantee i V W" using assms(3) by (auto simp: guarantee_def rely_def W)
  show "view_ok W"
  proof (rule view_okI)
    show "clocks_ok (vw_clk W)" using view_ok_clocks [OF assms(1)] by (simp add: W)
    show "0 \<le> F \<and> F \<le> vw_clk W (vw_own W u) + LEASE_TTL_MS \<and> (F \<le> vw_clk W (vw_own W u) \<longrightarrow> u \<in> vw_exp W)"
      if "vw_rec W u = Some F" for u F
      using that assms(2-5) view_okD [OF assms(1), of u F] view_okD [OF assms(1,2)]
      by (cases "u = t") (auto simp: W)
    show "vw_rec W u \<noteq> None \<and> u \<in> vw_exp W" if "vw_rec W (Suc u) \<noteq> None" for u
      using that view_ok_before [OF assms(1), of u] assms(2) by (auto simp: W split: if_splits)
    show "vw_rec W u \<noteq> None" if "u \<in> vw_exp W" for u
      using that view_ok_expired [OF assms(1), of u] by (auto simp: W)
  qed
qed

lemma sat_below: "finished < sat64 (deadline - LEASE_SKEW_MS) \<Longrightarrow> 0 \<le> finished \<Longrightarrow> finished < deadline"
  by (auto simp: sat64_def LEASE_SKEW_MS_def min_def max_def split: if_splits)

text \<open>The renewal that landed: the new deadline counts only if the clock shows it landed in time.\<close>

lemma renewal_counts:
  assumes "holds_safely i V h" "hd_term h = Some t" "deadline = hd_valid_until h"
    and "vw_rec V t = Some E" "vw_own V t = i" "E = started + LEASE_TTL_MS" "clocks_ok (vw_clk V)"
  shows "safe prefix i no_post
    (Now (\<lambda>finished. Modify (\<lambda>h. h\<lparr>hd_write_handle := Some token,
       hd_valid_until := (if finished < sat64 (deadline - LEASE_SKEW_MS) then E else hd_valid_until h)\<rparr>)
       (Return (Inr True)))) V h"
proof -
  let ?new = "\<lambda>finished. h\<lparr>hd_write_handle := Some token,
       hd_valid_until := (if finished < sat64 (deadline - LEASE_SKEW_MS) then E else hd_valid_until h)\<rparr>"
  have "holds_safely i V'' (?new (vw_clk V' i))" if v: "rely i V V'" "view_ok V'" "rely i V' V''" for V' V''
  proof (cases "vw_clk V' i < sat64 (deadline - LEASE_SKEW_MS)")
    case False
    have "holds_safely i V'' h" by (rule holds_safely_stable [OF assms(1) rely_trans [OF v(1,3)]])
    with False show ?thesis by (auto simp: holds_safely_def split: option.splits)
  next
    case True
    have "0 \<le> vw_clk V' i" using view_ok_clocks [OF v(2)] by (simp add: clocks_ok_def)
    with True have "vw_clk V' i < deadline" by (rule sat_below)
    then have "vw_clk V i < deadline" using rely_clock [OF v(1), of i] by simp
    with assms(1-3) have "t \<notin> vw_exp V" by (auto simp: holds_safely_def)
    with holds_new_term [OF assms(4,5) _ rely_trans [OF v(1,3)], of "?new (vw_clk V' i)"] True assms(2)
    show ?thesis by simp
  qed
  then show ?thesis
    using assms(1) holds_safely_stable [OF assms(1)] by simp
qed

lemma holds_lose: "holds_safely i V (lose h)"
  by (simp add: holds_safely_def lose_def)

lemma extend_safe:
  assumes "ls_prefix self = prefix" "view_ok V" "holds_safely i V h" "0 \<le> started" "started \<le> vw_clk V i"
    and "hd_term h = Some trm" "vw_rec V trm = Some E0" "vw_own V trm = i" "E0 \<le> started + LEASE_TTL_MS"
  shows "safe prefix i no_post (extend_term self started trm token (hd_valid_until h)) V h"
proof -
  let ?E = "started + LEASE_TTL_MS" and ?key = "seq_key prefix ''lease'' trm"
  let ?k = "\<lambda>r. case r of
      Inr token' \<Rightarrow> Now (\<lambda>finished. Modify (\<lambda>h'. h'\<lparr>hd_write_handle := Some token',
         hd_valid_until := (if finished < sat64 (hd_valid_until h - LEASE_SKEW_MS) then ?E else hd_valid_until h')\<rparr>)
         (Return (Inr True)))
    | Inl (PreconditionFailed _) \<Rightarrow> Modify lose (Return (Inr False))
    | Inl other \<Rightarrow> Return (Inl other)"
  have lost: "safe prefix i no_post (Modify lose (Return (Inr False :: bool result))) V' h" if "holds_safely i V' h" for V'
    using that holds_lose by simp
  have "sat64 ?E = ?E" by (rule sat_deadline [OF view_ok_clocks [OF assms(2)] assms(4,5)])
  then have "extend_term self started trm token (hd_valid_until h) =
      Put ?key (lease_body self ?E) (Some (IfMatches token)) ?k"
    using assms(1) by (simp add: extend_term_def Let_def lease_key_def cong: if_cong)
  moreover have "safe prefix i no_post (Put ?key (lease_body self ?E) (Some (IfMatches token)) ?k) V h"
  proof (rule safe_putI [OF assms(3)])
    show "safe prefix i no_post (?k (Inl e)) V' h" if "rely i V V'" "e \<in> storm" for e V'
      using that holds_safely_stable [OF assms(3)] by (auto simp: storm_def)
    fix V' \<sigma> r \<sigma>'
    assume v: "rely i V V'" "view_ok V'" "shows_view prefix \<sigma> V'"
      and put: "store_put \<sigma> ?key (lease_body self ?E) (Some (IfMatches token)) = (r, \<sigma>')"
    note h = holds_safely_stable [OF assms(3) v(1)] and mine = rely_mine [OF v(1) assms(7,8)]
    show "\<exists>V''. guarantee i V' V'' \<and> view_ok V'' \<and> shows_view prefix \<sigma>' V'' \<and>
        safe prefix i no_post (?k r) V'' h \<and> (is_ok r \<longrightarrow> safe prefix i no_post (?k (Inl Transient)) V'' h)"
    proof (cases r)
      case (Inl e)
      with put_refused put have "\<sigma>' = \<sigma>" "e = PreconditionFailed ?key" by blast+
      with v Inl lost [OF h] show ?thesis
        by (intro exI [of _ V']) (simp add: guarantee_def del: safe.simps)
    next
      case (Inr token')
      define W where "W = V'\<lparr>vw_rec := (vw_rec V')(trm \<mapsto> ?E)\<rparr>"
      have clk: "started \<le> vw_clk V' i" using assms(5) rely_clock [OF v(1), of i] by simp
      have ok: "guarantee i V' W" "view_ok W"
        using renew_term [OF v(2) _ _ assms(9) _ W_def] mine clk by auto
      have W: "vw_rec W trm = Some ?E" "vw_own W trm = i" using mine by (simp_all add: W_def)
      have hW: "holds_safely i W h" using h mine assms(6,9) by (auto simp: holds_safely_def W_def)
      have "shows_view prefix \<sigma>' W"
        using shows_view_update [OF v(3), of trm ?E] put Inr by (simp add: lease_body_def W_def)
      moreover have "safe prefix i no_post (?k r) W h"
        using renewal_counts [OF hW assms(6) refl W refl view_ok_clocks [OF ok(2)]] Inr by simp
      ultimately show ?thesis using ok hW by (intro exI [of _ W]) (simp del: safe.simps(2-))
    qed
  qed
  ultimately show ?thesis by (simp only:)
qed

section \<open>The two calls\<close>

lemma acquire_safe:
  assumes "ls_prefix self = prefix" "holds_safely i V h"
  shows "safe prefix i no_post (acquire self) V h"
proof -
  have "safe prefix i no_post (await_io (lease_newest self) (\<lambda>newest. case newest of
       None \<Rightarrow> take_term self started 0
     | Some (trm, expires) \<Rightarrow>
         if started < sat64 (expires + LEASE_SKEW_MS) then Return (Inr False)
         else try_io (version_advance trm 1) (\<lambda>next_term. take_term self started next_term))) V' h"
    if v: "rely i V V'" "view_ok V'" "started = vw_clk V' i" for V' started
  proof (rule safe_await [OF newest_safe [OF assms(1) v(2) holds_safely_stable [OF assms(2) v(1)]] v(2)])
    show "started \<le> vw_clk V' i" using v(3) by simp
    have pos: "0 \<le> started" using view_ok_clocks [OF v(2)] v(3) by (simp add: clocks_ok_def)
    have take: "safe prefix i no_post (take_term self started next_term) W h"
      if "view_ok W" "holds_safely i W h" "started \<le> vw_clk W i" "may_create W next_term" for W next_term
      by (rule take_term_safe [OF assms(1) that(1,2) pos that(3,4)])
    have nxt: "may_create W (Suc trm)"
      if "newest_known started W (trm, expires)" "\<not> started < sat64 (expires + LEASE_SKEW_MS)" for W trm expires
      using that by (auto simp: newest_known_def known_def may_create_def sat64_def LEASE_SKEW_MS_def
          min_def max_def split: if_splits)
    show "\<forall>r W h'. reading i started h (\<lambda>V newest. \<forall>x. newest = Some x \<longrightarrow> newest_known started V x) r W h' \<and>
        holds_safely i W h' \<and> view_ok W \<longrightarrow>
        safe prefix i no_post (case r of Inl e \<Rightarrow> Return (Inl e) | Inr x \<Rightarrow> case x of
             None \<Rightarrow> take_term self started 0
           | Some (trm, expires) \<Rightarrow>
               if started < sat64 (expires + LEASE_SKEW_MS) then Return (Inr False)
               else try_io (version_advance trm 1) (\<lambda>next_term. take_term self started next_term)) W h'"
      by (auto simp: reading_def version_advance_def may_create_def [of _ 0] split: sum.split option.split
          intro!: take nxt)
  qed
  then show ?thesis using assms(2) by (simp add: acquire_def)
qed

lemma renew_safe:
  assumes "ls_prefix self = prefix" "holds_safely i V h"
  shows "safe prefix i no_post (renew self) V h"
proof -
  have "safe prefix i no_post
     (case (hd_term h, hd_write_handle h) of
        (Some trm, Some token) \<Rightarrow>
          let deadline = hd_valid_until h
          in if started \<ge> deadline then Modify lose (Return (Inr False))
             else try_io (version_advance trm 1) (\<lambda>successor.
               await_io (lease_read self successor) (\<lambda>found.
                 if found \<noteq> None then Modify lose (Return (Inr False))
                 else extend_term self started trm token deadline))
      | _ \<Rightarrow> Return (Inr False)) W h"
    if v: "rely i V V'" "view_ok V'" "started = vw_clk V' i" "rely i V' W" "view_ok W" for V' W started
  proof (cases "hd_term h = None \<or> hd_write_handle h = None")
    case True
    have "holds_safely i W h" by (rule holds_safely_stable [OF assms(2) rely_trans [OF v(1,4)]])
    with True show ?thesis by (auto split: option.splits)
  next
    case False
    then obtain trm token where t: "hd_term h = Some trm" "hd_write_handle h = Some token" by auto
    have h: "holds_safely i W h" by (rule holds_safely_stable [OF assms(2) rely_trans [OF v(1,4)]])
    have lost: "safe prefix i no_post (Modify lose (Return (Inr False :: bool result))) W' h" if "holds_safely i W' h" for W'
      using that holds_lose by simp
    from holds_safely_stable [OF assms(2) v(1)] t(1) obtain E0
      where E0: "vw_rec V' trm = Some E0" "vw_own V' trm = i" by (auto simp: holds_safely_def)
    have E0': "E0 \<le> started + LEASE_TTL_MS" using view_okD [OF v(2) E0(1)] E0(2) v(3) by simp
    have pos: "0 \<le> started" using view_ok_clocks [OF v(2)] v(3) by (simp add: clocks_ok_def)
    have clk: "started \<le> vw_clk W i" using rely_clock [OF v(4), of i] v(3) by simp
    have "safe prefix i no_post (await_io (lease_read self successor) (\<lambda>found.
        if found \<noteq> None then Modify lose (Return (Inr False))
        else extend_term self started trm token (hd_valid_until h))) W h" for successor
    proof (rule lease_read_await [OF assms(1) v(5) h clk,
          where F = "\<lambda>V. vw_rec V trm = Some E0 \<and> vw_own V trm = i"])
      show "vw_rec W trm = Some E0 \<and> vw_own W trm = i" using rely_mine [OF v(4) E0] by blast
      show "\<forall>V V'. vw_rec V trm = Some E0 \<and> vw_own V trm = i \<longrightarrow> rely i V V' \<longrightarrow>
          vw_rec V' trm = Some E0 \<and> vw_own V' trm = i" using rely_mine by blast
      fix W' and found :: "int option"
      assume w: "view_ok W'" "holds_safely i W' h" "started \<le> vw_clk W' i"
        "vw_rec W' trm = Some E0 \<and> vw_own W' trm = i"
      with extend_safe [OF assms(1) w(1,2) pos w(3) t(1), of E0 token] E0' lost [OF w(2)]
      show "safe prefix i no_post (if found \<noteq> None then Modify lose (Return (Inr False))
          else extend_term self started trm token (hd_valid_until h)) W' h"
        by (cases found) (simp_all del: safe.simps)
    qed (simp del: safe.simps(2-))
    with lost [OF h] h t show ?thesis by (simp add: Let_def try_io_def split: sum.split del: safe.simps(2-))
  qed
  then show ?thesis
    unfolding renew_def safe.simps using assms(2) holds_safely_stable [OF assms(2)] by blast
qed


section \<open>The system\<close>

definition node_ok :: "string \<Rightarrow> view \<Rightarrow> nat \<Rightarrow> (held, bool result) io option \<Rightarrow> held \<Rightarrow> bool" where
  "node_ok prefix V i call h =
     (case call of None \<Rightarrow> holds_safely i V h | Some p \<Rightarrow> safe prefix i no_post p V h)"

definition lease_inv :: "string \<Rightarrow> lease_system \<Rightarrow> view \<Rightarrow> bool" where
  "lease_inv prefix S V \<longleftrightarrow>
     view_ok V \<and> shows_view prefix (sy_store S) V \<and> vw_clk V = sy_clock S \<and>
     (\<forall>i. node_ok prefix V i (sy_call S i) (sy_held S i))"

lemma node_ok_simps [simp]:
  "node_ok prefix V i None h = holds_safely i V h"
  "node_ok prefix V i (Some p) h = safe prefix i no_post p V h"
  by (simp_all add: node_ok_def)

lemma inv_node: "lease_inv prefix S V \<Longrightarrow> node_ok prefix V i (sy_call S i) (sy_held S i)"
  by (simp add: lease_inv_def)

lemma inv_holds: "lease_inv prefix S V \<Longrightarrow> holds_safely i V (sy_held S i)"
  using inv_node [of prefix S V i] safe_holds by (cases "sy_call S i") auto

lemma inv_safe: "lease_inv prefix S V \<Longrightarrow> sy_call S i = Some p \<Longrightarrow> safe prefix i no_post p V (sy_held S i)"
  using inv_node [of prefix S V i] by simp

text \<open>Whatever leaves a node alone keeps what the invariant says of it.\<close>

lemma node_ok_stable: "node_ok prefix V j call h \<Longrightarrow> rely j V V' \<Longrightarrow> node_ok prefix V' j call h"
  using holds_safely_stable safe_stable by (cases call) auto

lemmas inv_stable = node_ok_stable [OF inv_node]

definition ticked :: "view \<Rightarrow> (nat \<Rightarrow> timestamp) \<Rightarrow> view" where
  "ticked V clk = V\<lparr>vw_clk := clk,
     vw_exp := vw_exp V \<union> {t. \<exists>E. vw_rec V t = Some E \<and> E \<le> clk (vw_own V t)}\<rparr>"

lemma tick_view:
  assumes "view_ok V" "clocks_ok clk" "\<And>i. vw_clk V i \<le> clk i"
  shows "view_ok (ticked V clk)" and "rely i V (ticked V clk)"
proof -
  show "rely i V (ticked V clk)" using assms(3) by (auto simp: rely_def ticked_def)
  show "view_ok (ticked V clk)"
  proof (rule view_okI)
    show "0 \<le> E \<and> E \<le> vw_clk (ticked V clk) (vw_own (ticked V clk) t) + LEASE_TTL_MS \<and>
        (E \<le> vw_clk (ticked V clk) (vw_own (ticked V clk) t) \<longrightarrow> t \<in> vw_exp (ticked V clk))"
      if "vw_rec (ticked V clk) t = Some E" for t E
      using that view_okD [OF assms(1), of t E] assms(3) [of "vw_own V t"] by (auto simp: ticked_def)
    show "clocks_ok (vw_clk (ticked V clk))" using assms(2) by (simp add: ticked_def)
    show "vw_rec (ticked V clk) t \<noteq> None \<and> t \<in> vw_exp (ticked V clk)" if "vw_rec (ticked V clk) (Suc t) \<noteq> None" for t
      using that view_ok_before [OF assms(1), of t] by (simp add: ticked_def)
    show "vw_rec (ticked V clk) t \<noteq> None" if "t \<in> vw_exp (ticked V clk)" for t
      using that view_ok_expired [OF assms(1), of t] by (auto simp: ticked_def)
  qed
qed

lemma inv_start: "lease_start S \<Longrightarrow>
    lease_inv prefix S \<lparr>vw_rec = (\<lambda>_. None), vw_own = (\<lambda>_. 0), vw_exp = {}, vw_clk = sy_clock S\<rparr>"
  by (auto simp: lease_start_def lease_inv_def view_ok_def shows_view_def payload_at_def holds_safely_def
      held_default_def)

text \<open>One effect of one node.\<close>

lemma effect_keeps:
  assumes "safe prefix i no_post p V h" "view_ok V" "shows_view prefix \<sigma> V"
    and "io_step (vw_clk V i) (\<sigma>, h, p) (\<sigma>', h', p')"
  shows "\<exists>V'. view_ok V' \<and> shows_view prefix \<sigma>' V' \<and> guarantee i V V' \<and> safe prefix i no_post p' V' h'"
proof -
  have same: "guarantee i V V" by (simp add: guarantee_def)
  show ?thesis
  proof (cases p)
    case (Put key payload pre k)
    with assms(4) consider e where "e \<in> storm" "\<sigma>' = \<sigma>" "h' = h" "p' = k (Inl e)"
      | r where "store_put \<sigma> key payload pre = (r, \<sigma>')" "h' = h" "p' = k r \<or> is_ok r \<and> p' = k (Inl Transient)"
      by (auto simp: is_ok_iff)
    then show ?thesis
    proof cases
      case 1
      with assms(1-3) Put same show ?thesis unfolding Put safe.simps by (intro exI [of _ V]) auto
    next
      case 2
      with assms(1-3) have "\<exists>V'. guarantee i V V' \<and> view_ok V' \<and> shows_view prefix \<sigma>' V' \<and>
          safe prefix i no_post (k r) V' h \<and> (is_ok r \<longrightarrow> safe prefix i no_post (k (Inl Transient)) V' h)"
        unfolding Put safe.simps using rely_refl by blast
      with 2 show ?thesis by blast
    qed
  qed (use assms same in \<open>fastforce intro!: exI [of _ V]\<close>)+
qed

lemma inv_step:
  assumes "lease_step handle S S'" "lease_inv prefix S V" "\<And>i. ls_prefix (handle i) = prefix"
  shows "\<exists>V'. lease_inv prefix S' V'"
  using assms(1)
proof cases
  case (tick clk)
  have V: "view_ok V" "vw_clk V = sy_clock S" "shows_view prefix (sy_store S) V"
    using assms(2) by (auto simp: lease_inv_def)
  have clk: "vw_clk V i \<le> clk i" for i using tick(3) V(2) by simp
  have "shows_view prefix (sy_store S) (ticked V clk)" using V(3) by (simp add: shows_view_def ticked_def)
  moreover have "vw_clk (ticked V clk) = clk" by (simp add: ticked_def)
  ultimately show ?thesis using tick(1) tick_view [OF V(1) tick(2) clk] inv_stable [OF assms(2)]
    by (intro exI [of _ "ticked V clk"]) (simp add: lease_inv_def)
next
  case (call_acquire i)
  with assms(2) acquire_safe [OF assms(3) inv_holds [OF assms(2)]] show ?thesis
    by (intro exI [of _ V]) (auto simp: lease_inv_def)
next
  case (call_renew i)
  with assms(2) renew_safe [OF assms(3) inv_holds [OF assms(2)]] show ?thesis
    by (intro exI [of _ V]) (auto simp: lease_inv_def)
next
  case (effect i p \<sigma> h p')
  have V: "view_ok V" "vw_clk V = sy_clock S" "shows_view prefix (sy_store S) V"
    using assms(2) by (auto simp: lease_inv_def)
  have "io_step (vw_clk V i) (sy_store S, sy_held S i, p) (\<sigma>, h, p')" using effect(3) V(2) by simp
  from effect_keeps [OF inv_safe [OF assms(2) effect(2)] V(1,3) this] obtain V'
    where V': "view_ok V'" "shows_view prefix \<sigma> V'" "guarantee i V V'" "safe prefix i no_post p' V' h"
    by auto
  then have "rely j V V'" if "j \<noteq> i" for j using that by (simp add: guarantee_def)
  with V' inv_stable [OF assms(2)] effect(1) V(2) show ?thesis
    by (intro exI [of _ V']) (auto simp: lease_inv_def guarantee_def)
next
  case (returned i r)
  with assms(2) inv_holds [OF assms(2), of i] show ?thesis
    by (intro exI [of _ V]) (auto simp: lease_inv_def)
next
  case (crash i)
  with assms(2) show ?thesis
    by (intro exI [of _ V]) (auto simp: lease_inv_def holds_safely_def held_default_def)
qed

lemma inv_reachable:
  assumes "lease_reachable handle S" "\<And>i. ls_prefix (handle i) = prefix"
  shows "\<exists>V. lease_inv prefix S V"
proof -
  from assms(1) obtain S0 where "lease_start S0" "(lease_step handle)\<^sup>*\<^sup>* S0 S" by (auto simp: lease_reachable_def)
  from this(2,1) show ?thesis
  proof (induction rule: rtranclp_induct)
    case base
    then show ?case using inv_start by blast
  next
    case (step S1 S2)
    then show ?case using inv_step [OF step(2) _ assms(2)] by blast
  qed
qed

lemma older_expired:
  assumes "view_ok V" "t < u" "vw_rec V u \<noteq> None"
  shows "t \<in> vw_exp V"
  using assms(2,3)
proof (induction u)
  case (Suc u)
  then show ?case using view_ok_before [OF assms(1), of u] by (cases "t = u") auto
qed simp

lemma one_holder:
  assumes "lease_inv prefix S V" "is_held (sy_clock S i) (sy_held S i)" "is_held (sy_clock S j) (sy_held S j)"
  shows "i = j"
proof -
  have V: "view_ok V" "vw_clk V = sy_clock S" using assms(1) by (simp_all add: lease_inv_def)
  have clk: "0 \<le> sy_clock S k" for k using view_ok_clocks [OF V(1)] V(2) by (simp add: clocks_ok_def)
  have owns: "\<exists>t. vw_rec V t \<noteq> None \<and> vw_own V t = k \<and> t \<notin> vw_exp V"
    if "is_held (sy_clock S k) (sy_held S k)" for k
    using that inv_holds [OF assms(1), of k] clk [of k] V(2)
    by (fastforce simp: is_held_def holds_safely_def split: option.splits)
  from owns [OF assms(2)] owns [OF assms(3)] obtain t u where
    "vw_rec V t \<noteq> None" "vw_own V t = i" "t \<notin> vw_exp V" "vw_rec V u \<noteq> None" "vw_own V u = j" "u \<notin> vw_exp V"
    by blast
  then show ?thesis using older_expired [OF V(1)] by (metis nat_neq_iff)
qed


section \<open>One call alone\<close>

lemma read_answers:
  assumes "\<forall>t. payload_at \<sigma> (seq_key (ls_prefix self) ''lease'' t) =
      (if t < n then Some (lease_body (writer t) (expires t)) else None)"
    and "\<forall>t<n. 0 \<le> expires t \<and> expires t \<le> i64_max"
  shows "answers now \<sigma> h (lease_read self) (\<lambda>t. if t < n then Some (expires t) else None)"
  using assms expiry_of_body by (simp add: answers_def lease_read_def lease_key_def get_full lease_body_def)

lemma acquire_runs:
  assumes "\<forall>t. payload_at \<sigma> (seq_key (ls_prefix self) ''lease'' t) =
      (if t < n then Some (lease_body (writer t) (expires t)) else None)"
    and "\<forall>t<n. 0 \<le> expires t \<and> expires t \<le> i64_max - LEASE_SKEW_MS"
    and "n \<le> 2 ^ 63" "0 \<le> now" "now \<le> i64_max - LEASE_TTL_MS"
  shows "\<exists>token \<sigma>'. io_run now (acquire self) \<sigma> h =
    (if n = 0 \<or> expires (n - 1) + LEASE_SKEW_MS \<le> now
     then (Inr True, \<sigma>', h\<lparr>hd_term := Some n, hd_write_handle := Some token, hd_valid_until := now + LEASE_TTL_MS\<rparr>)
     else (Inr False, \<sigma>, h)) \<and>
    (\<forall>k. payload_at \<sigma>' k = (if k = seq_key (ls_prefix self) ''lease'' n
       then Some (lease_body self (now + LEASE_TTL_MS)) else payload_at \<sigma> k))"
proof -
  let ?key = "seq_key (ls_prefix self) ''lease'' n" and ?body = "lease_body self (now + LEASE_TTL_MS)"
  have sat: "sat64 (now + LEASE_TTL_MS) = now + LEASE_TTL_MS"
    using assms(4,5) by (simp add: sat64_def LEASE_TTL_MS_def)
  obtain token \<sigma>' where put: "store_put \<sigma> ?key ?body (Some IfAbsent) = (Inr token, \<sigma>')"
    using assms(1) put_if_absent_iff [of \<sigma> ?key ?body] by auto
  have take: "io_run now (take_term self now n) \<sigma> h =
      (Inr True, \<sigma>', h\<lparr>hd_term := Some n, hd_write_handle := Some token, hd_valid_until := now + LEASE_TTL_MS\<rparr>)"
    using put sat by (simp add: take_term_def Let_def lease_key_def)
  have ans: "answers now \<sigma> h (lease_read self) (\<lambda>t. if t < n then Some (expires t) else None)"
    using assms(2) by (intro read_answers [OF assms(1)]) (auto simp: LEASE_SKEW_MS_def)
  have newest: "io_run now (lease_newest self) \<sigma> h =
      (Inr (if n = 0 then None else Some (n - 1, expires (n - 1))), \<sigma>, h)"
    unfolding lease_newest_def using search_finds [OF ans _ assms(3)] by simp
  have "io_run now (acquire self) \<sigma> h =
    (if n = 0 \<or> expires (n - 1) + LEASE_SKEW_MS \<le> now
     then (Inr True, \<sigma>', h\<lparr>hd_term := Some n, hd_write_handle := Some token, hd_valid_until := now + LEASE_TTL_MS\<rparr>)
     else (Inr False, \<sigma>, h))"
  proof (cases n)
    case 0
    with newest take show ?thesis by (simp add: acquire_def io_run_await)
  next
    case (Suc m)
    have "sat64 (expires m + LEASE_SKEW_MS) = expires m + LEASE_SKEW_MS"
      using assms(2) Suc by (auto simp: sat64_def LEASE_SKEW_MS_def)
    moreover have "version_advance m 1 = Inr n" using assms(3) Suc by (simp add: version_advance_def)
    ultimately show ?thesis using newest take Suc by (auto simp: acquire_def io_run_await)
  qed
  with payload_put [OF put] show ?thesis by (intro exI [of _ token] exI [of _ \<sigma>']) simp
qed

section \<open>Properties\<close>

text \<open>C5. At most one node may act as leader.  In every state the nodes of a shard can reach, acquiring and
  renewing in any interleaving, with lost answers, failed calls, crashes and clocks that disagree by at
  most the assumed skew, two nodes that both hold the lease on their own clocks are the same node.\<close>

theorem lease_is_exclusive:
  assumes "lease_reachable handle S" "\<And>i. ls_prefix (handle i) = prefix"
    and "is_held (sy_clock S i) (sy_held S i)" "is_held (sy_clock S j) (sy_held S j)"
  shows "i = j"
  using inv_reachable [OF assms(1,2)] one_holder [OF _ assms(3,4)] by blast

lemma steps_lift:
  assumes "(io_step (sy_clock S i))\<^sup>*\<^sup>* c (\<sigma>, h, p)" "c = (sy_store S, sy_held S i, q)" "sy_call S i = Some q"
  shows "(lease_step handle)\<^sup>*\<^sup>* S
    (S\<lparr>sy_store := \<sigma>, sy_held := (sy_held S)(i := h), sy_call := (sy_call S)(i \<mapsto> p)\<rparr>)"
  using assms
proof (induction "(\<sigma>, h, p)" arbitrary: \<sigma> h p rule: rtranclp_induct)
  case base
  then have "S\<lparr>sy_store := \<sigma>, sy_held := (sy_held S)(i := h), sy_call := (sy_call S)(i \<mapsto> p)\<rparr> = S"
    by (cases S) (auto simp: fun_upd_idem)
  then show ?case by (simp only: rtranclp.rtrancl_refl)
next
  case (step y)
  obtain \<sigma>1 h1 p1 where y: "y = (\<sigma>1, h1, p1)" by (cases y)
  let ?T = "S\<lparr>sy_store := \<sigma>1, sy_held := (sy_held S)(i := h1), sy_call := (sy_call S)(i \<mapsto> p1)\<rparr>"
  have "(lease_step handle)\<^sup>*\<^sup>* S ?T" using step(3) [OF y step(4,5)] .
  moreover have "lease_step handle ?T (?T\<lparr>sy_store := \<sigma>, sy_held := (sy_held ?T)(i := h), sy_call := (sy_call ?T)(i \<mapsto> p)\<rparr>)"
    using step(2) y by (intro lease_step.effect) simp_all
  ultimately show ?case by simp
qed

theorem lease_is_exclusive_witness:
  "\<exists>S. lease_reachable (\<lambda>_. \<lparr>ls_prefix = ''s'', ls_holder = ''n''\<rparr>) S \<and> is_held (sy_clock S 0) (sy_held S 0) \<and>
     (\<forall>j. is_held (sy_clock S j) (sy_held S j) \<longrightarrow> j = 0)"
proof -
  let ?h = "\<lparr>ls_prefix = ''s'', ls_holder = ''n''\<rparr>"
  define S0 where "S0 = \<lparr>sy_store = (\<lambda>_. None), sy_clock = (\<lambda>_. 5), sy_held = (\<lambda>_. held_default), sy_call = (\<lambda>_. None)\<rparr>"
  have "clocks_ok (\<lambda>_. 5)" by (simp add: clocks_ok_def LEASE_TTL_MS_def LEASE_SKEW_MS_def)
  then have start: "lease_start S0" by (simp add: lease_start_def S0_def)
  from acquire_runs [of "\<lambda>_. None" ?h 0 "\<lambda>_. ?h" "\<lambda>_. 0" 5 held_default] obtain token \<sigma>
    where "io_run 5 (acquire ?h) (\<lambda>_. None) held_default = (Inr True, \<sigma>,
      held_default\<lparr>hd_term := Some 0, hd_write_handle := Some token, hd_valid_until := 5 + LEASE_TTL_MS\<rparr>)"
    by (auto simp: payload_at_def LEASE_TTL_MS_def)
  from io_run_steps [OF this]
  have run: "(io_step 5)\<^sup>*\<^sup>* (\<lambda>_. None, held_default, acquire ?h) (\<sigma>, held_default\<lparr>hd_term := Some 0,
      hd_write_handle := Some token, hd_valid_until := 5 + LEASE_TTL_MS\<rparr>, Return (Inr True))" .
  let ?S1 = "S0\<lparr>sy_call := (sy_call S0)(0 \<mapsto> acquire ?h)\<rparr>"
  have "lease_step (\<lambda>_. ?h) S0 ?S1" using lease_step.call_acquire [of S0 0 "\<lambda>_. ?h"] by (simp add: S0_def)
  moreover obtain S where "(lease_step (\<lambda>_. ?h))\<^sup>*\<^sup>* ?S1 S" and S: "is_held (sy_clock S 0) (sy_held S 0)"
    using steps_lift [of ?S1 0 "(\<lambda>_. None, held_default, acquire ?h)"] run
    by (fastforce simp: S0_def is_held_def LEASE_TTL_MS_def)
  ultimately have reach: "lease_reachable (\<lambda>_. ?h) S" using start unfolding lease_reachable_def
    by (meson converse_rtranclp_into_rtranclp)
  with lease_is_exclusive [OF reach, of "''s''"] S show ?thesis by auto
qed


text \<open>C27. Acquiring always ends, and takes the lease exactly when it is free.  Against any store that records
  terms \<open>0\<close> to \<open>n - 1\<close>, with no other node running, \<open>acquire\<close> finds the newest by its doubling and
  bisecting search; it takes term \<open>n\<close>, records its expiry and may act until then if there is no term yet
  or the newest has been expired for the clock skew, and otherwise changes nothing and says so.\<close>

theorem acquire_takes_a_free_lease:
  assumes "\<forall>t. payload_at \<sigma> (seq_key (ls_prefix self) ''lease'' t) =
      (if t < n then Some (lease_body (writer t) (expires t)) else None)"
    and "\<forall>t<n. 0 \<le> expires t \<and> expires t \<le> i64_max - LEASE_SKEW_MS"
    and "n \<le> 2 ^ 63" "0 \<le> now" "now \<le> i64_max - LEASE_TTL_MS"
  shows "\<exists>token \<sigma>'. io_run now (acquire self) \<sigma> h =
    (if n = 0 \<or> expires (n - 1) + LEASE_SKEW_MS \<le> now
     then (Inr True, \<sigma>', h\<lparr>hd_term := Some n, hd_write_handle := Some token, hd_valid_until := now + LEASE_TTL_MS\<rparr>)
     else (Inr False, \<sigma>, h)) \<and>
    (\<forall>k. payload_at \<sigma>' k = (if k = seq_key (ls_prefix self) ''lease'' n
       then Some (lease_body self (now + LEASE_TTL_MS)) else payload_at \<sigma> k))"
  by (rule acquire_runs [OF assms])

theorem acquire_takes_a_free_lease_witness:
  "\<exists>token \<sigma>'. io_run 20000 (acquire \<lparr>ls_prefix = ''s'', ls_holder = ''n''\<rparr>)
     [seq_key ''s'' ''lease'' 0 \<mapsto>
        \<lparr>ks_payload = Some (lease_body \<lparr>ls_prefix = ''s'', ls_holder = ''m''\<rparr> 10000), ks_generation = 1\<rparr>]
     held_default =
     (Inr True, \<sigma>', \<lparr>hd_term = Some 1, hd_write_handle = Some token, hd_valid_until = 30000\<rparr>)"
proof -
  let ?\<sigma> = "[seq_key ''s'' ''lease'' 0 \<mapsto>
        \<lparr>ks_payload = Some (lease_body \<lparr>ls_prefix = ''s'', ls_holder = ''m''\<rparr> 10000), ks_generation = 1\<rparr>]"
  have "\<forall>t. payload_at ?\<sigma> (seq_key ''s'' ''lease'' t) =
      (if t < 1 then Some (lease_body \<lparr>ls_prefix = ''s'', ls_holder = ''m''\<rparr> 10000) else None)"
    by (simp add: payload_at_def)
  from acquire_takes_a_free_lease [of ?\<sigma> "\<lparr>ls_prefix = ''s'', ls_holder = ''n''\<rparr>" 1
      "\<lambda>_. \<lparr>ls_prefix = ''s'', ls_holder = ''m''\<rparr>" "\<lambda>_. 10000" 20000 held_default] this
  show ?thesis by (auto simp: LEASE_TTL_MS_def LEASE_SKEW_MS_def held_default_def)
qed

end
