(* ===== verification/Segment_Log.thy ===== *)
theory Segment_Log
  imports Object_Store
begin

text \<open>
  The log that lives in object storage (\<open>object_store_log.rs\<close>, \<open>object_store_log/base.rs\<close>): one
  create-only segment object per append, a base generation that says where the log begins, and a
  checkpoint that folds every live segment into a snapshot and prunes what it replaced.

  The code is generic over the record format (\<open>SegmentFormat\<close>), and so is the model: \<open>'e
  segment_format\<close> is the trait.  A \<open>Segments\<close> handle's state behind its mutex is \<open>log_state\<close>; the
  \<open>Lazy\<close> wrapper, opened on first use, is that state or nothing yet.
\<close>

section \<open>The format seam\<close>

record 'e segment_format =
  sf_encode :: "'e list \<Rightarrow> byte list result"
  sf_decode :: "byte list \<Rightarrow> 'e list result"
  sf_version :: "'e \<Rightarrow> commit_version"

definition last_of :: "'e segment_format \<Rightarrow> 'e list \<Rightarrow> commit_version option" where
  "last_of F entries = (if entries = [] then None else Some (sf_version F (last entries)))"

fun validate_log :: "'e segment_format \<Rightarrow> 'e list \<Rightarrow> commit_version option \<Rightarrow> unit result" where
  "validate_log F [] previous = Inr ()"
| "validate_log F (entry # entries) previous =
     (let version = sf_version F entry
      in case previous of
           Some prev \<Rightarrow>
             if version \<le> prev then Inl (NonMonotonicCommitVersion prev version)
             else validate_log F entries (Some version)
         | None \<Rightarrow> validate_log F entries (Some version))"

definition log_next :: "nat \<Rightarrow> nat result" where
  "log_next seq = (if seq < u64_max then Inr (seq + 1) else Inl (CommitVersionOverflow seq 1))"

definition segment_key :: "string \<Rightarrow> nat \<Rightarrow> object_key result" where
  "segment_key prefix seq = object_key_new (seq_key prefix ''log'' seq)"

section \<open>The base\<close>

record log_base =
  lb_seq :: nat
  lb_snapshot :: "object_key option"

definition BASE_MAGIC :: "byte list" where
  "BASE_MAGIC = as_bytes ''OQMB''"

definition base_encode :: "log_base \<Rightarrow> byte list result" where
  "base_encode self =
     (let key = (case lb_snapshot self of Some k \<Rightarrow> k | None \<Rightarrow> [])
      in if length key < 2 ^ 16
         then Inr (BASE_MAGIC @ be_bytes 8 (lb_seq self) @ be_bytes 2 (length key) @ as_bytes key)
         else Inl (MalformedMetadataSegment 12))"

definition base_decode :: "byte list \<Rightarrow> log_base result" where
  "base_decode bytes =
     (if \<not> (4 \<le> length bytes \<and> take 4 bytes = BASE_MAGIC) then Inl (MalformedMetadataSegment 0)
      else if length bytes < 12 then Inl (MalformedMetadataSegment 4)
      else if length bytes < 14 then Inl (MalformedMetadataSegment 12)
      else if length (drop 14 bytes) \<noteq> of_be (take 2 (drop 12 bytes)) then Inl (MalformedMetadataSegment 14)
      else
        case from_utf8 (drop 14 bytes) of
          None \<Rightarrow> Inl (MalformedMetadataSegment 14)
        | Some key \<Rightarrow>
            let seq = of_be (take 8 (drop 4 bytes))
            in if key = [] then Inr \<lparr>lb_seq = seq, lb_snapshot = None\<rparr>
               else bindR (map_errR (\<lambda>_. MalformedMetadataSegment 14) (object_key_new key)) (\<lambda>key.
                      Inr \<lparr>lb_seq = seq, lb_snapshot = Some key\<rparr>))"

definition base_key :: "string \<Rightarrow> nat \<Rightarrow> object_key result" where
  "base_key prefix generation = object_key_new (seq_key prefix ''base'' generation)"

definition base_probe :: "string \<Rightarrow> nat \<Rightarrow> ('s, log_base option result) io" where
  "base_probe prefix generation =
     try_io (base_key prefix generation) (\<lambda>key.
       Get key (\<lambda>r.
         case r of
           Inr bytes \<Rightarrow> try_io (base_decode bytes) (\<lambda>base. Return (Inr (Some base)))
         | Inl (ObjectNotFound _) \<Rightarrow> Return (Inr None)
         | Inl other \<Rightarrow> Return (Inl other)))"

definition read_base :: "string \<Rightarrow> ('s, (nat option \<times> log_base) result) io" where
  "read_base prefix =
     await_io (search_newest (base_probe prefix)) (\<lambda>newest.
       Return (Inr (case newest of
                      None \<Rightarrow> (None, \<lparr>lb_seq = 0, lb_snapshot = None\<rparr>)
                    | Some (present, found) \<Rightarrow> (Some present, found))))"

section \<open>Opening\<close>

record 'e log_state =
  ls_next_seq :: nat
  ls_entries :: "'e list"
  ls_generation :: "nat option"
  ls_base_seq :: nat
  ls_snapshot :: "object_key option"
  ls_unsnapshotted_bytes :: nat

lemma Get_cong [fundef_cong]: "key = key' \<Longrightarrow> (\<And>r. k r = k' r) \<Longrightarrow> Get key k = Get key' k'"
  by presburger

function walk_segments ::
  "'e segment_format \<Rightarrow> string \<Rightarrow> nat \<Rightarrow> 'e list \<Rightarrow> ('s, ('e list \<times> nat) result) io" where
  "walk_segments F prefix seq entries =
     try_io (segment_key prefix seq) (\<lambda>key.
       Get key (\<lambda>r.
         case r of
           Inr bytes \<Rightarrow>
             try_io (sf_decode F bytes) (\<lambda>segment.
             try_io (validate_log F segment (last_of F entries)) (\<lambda>_.
             try_io (log_next seq) (\<lambda>seq'.
               walk_segments F prefix seq' (entries @ segment))))
         | Inl (ObjectNotFound _) \<Rightarrow> Return (Inr (entries, seq))
         | Inl other \<Rightarrow> Return (Inl other)))"
  by pat_completeness auto

termination
  by (relation "measure (\<lambda>(F, prefix, seq, entries). u64_max + 1 - seq)")
    (auto simp: log_next_def split: if_splits)

declare walk_segments.simps [simp del]

definition walk :: "'e segment_format \<Rightarrow> string \<Rightarrow> log_base \<Rightarrow> ('s, ('e list \<times> nat) result) io" where
  "walk F prefix base =
     (case lb_snapshot base of
        None \<Rightarrow> walk_segments F prefix (lb_seq base) []
      | Some snapshot \<Rightarrow>
          Get snapshot (\<lambda>r.
            try_io (bindR r (sf_decode F)) (\<lambda>entries.
            try_io (validate_log F entries None) (\<lambda>_.
              walk_segments F prefix (lb_seq base) entries))))"

text \<open>One turn of the loop of \<open>Segments::open\<close>; nothing when the base moved under it and it starts over.
  \<open>segments_open n\<close> allows \<open>n\<close> turns; alone on the store, one is enough.\<close>

definition open_turn :: "'e segment_format \<Rightarrow> string \<Rightarrow> ('s, 'e log_state option result) io" where
  "open_turn F prefix =
     await_io (read_base prefix) (\<lambda>(generation, base).
     await_io (walk F prefix base) (\<lambda>(entries, seq).
     await_io (read_base prefix) (\<lambda>(again, _).
       if again \<noteq> generation then Return (Inr None)
       else Return (Inr (Some \<lparr>ls_next_seq = seq, ls_entries = entries, ls_generation = generation,
              ls_base_seq = lb_seq base, ls_snapshot = lb_snapshot base, ls_unsnapshotted_bytes = 0\<rparr>)))))"

primrec segments_open :: "'e segment_format \<Rightarrow> string \<Rightarrow> nat \<Rightarrow> ('s, 'e log_state option result) io" where
  "segments_open F prefix 0 = Return (Inr None)"
| "segments_open F prefix (Suc n) =
     await_io (open_turn F prefix) (\<lambda>opened.
       case opened of
         Some state \<Rightarrow> Return (Inr (Some state))
       | None \<Rightarrow> segments_open F prefix n)"

section \<open>Appending and reading\<close>

type_synonym 'e lazy = "'e log_state option"

text \<open>\<open>self.opened.get()\<close> and the lock on the state behind it.\<close>

definition with_log :: "('e log_state \<Rightarrow> ('e lazy, 'a result) io) \<Rightarrow> ('e lazy, 'a result) io" where
  "with_log f = Load (\<lambda>opened. case opened of Some state \<Rightarrow> f state | None \<Rightarrow> Return (Inl (MalformedMetadataSegment 0)))"

definition segments_append :: "'e segment_format \<Rightarrow> string \<Rightarrow> 'e list \<Rightarrow> ('e lazy, unit result) io" where
  "segments_append F prefix entries =
     (if entries = [] then Return (Inr ())
      else with_log (\<lambda>state.
        let seq = ls_next_seq state; lst = last_of F (ls_entries state)
        in try_io (validate_log F entries lst) (\<lambda>_.
           try_io (sf_encode F entries) (\<lambda>payload.
           try_io (segment_key prefix seq) (\<lambda>key.
             Put key payload (Some IfAbsent) (\<lambda>r.
               try_io r (\<lambda>_.
               try_io (log_next seq) (\<lambda>seq'.
                 Modify (map_option (\<lambda>state. state\<lparr>ls_next_seq := seq',
                     ls_entries := ls_entries state @ entries,
                     ls_unsnapshotted_bytes := min u64_max (ls_unsnapshotted_bytes state + length payload)\<rparr>))
                   (Return (Inr ()))))))))))"

definition segments_read_from :: "'e segment_format \<Rightarrow> 'e log_state \<Rightarrow> commit_version \<Rightarrow> nat \<Rightarrow> 'e list" where
  "segments_read_from F state start max_entries =
     take max_entries (filter (\<lambda>entry. sf_version F entry \<ge> start) (ls_entries state))"

definition segments_last_version :: "'e segment_format \<Rightarrow> 'e log_state \<Rightarrow> commit_version option" where
  "segments_last_version F state = last_of F (ls_entries state)"

section \<open>Checkpoints\<close>

definition put_if_absent :: "object_key \<Rightarrow> byte list \<Rightarrow> ('s, unit result) io" where
  "put_if_absent key payload =
     Put key payload (Some IfAbsent) (\<lambda>r.
       case r of
         Inr _ \<Rightarrow> Return (Inr ())
       | Inl (PreconditionFailed _) \<Rightarrow> Return (Inr ())
       | Inl other \<Rightarrow> Return (Inl other))"

definition still_the_tail :: "string \<Rightarrow> nat \<Rightarrow> ('s, unit result) io" where
  "still_the_tail prefix seq =
     try_io (segment_key prefix seq) (\<lambda>tail.
       Get tail (\<lambda>r.
         case r of
           Inl (ObjectNotFound _) \<Rightarrow> Return (Inr ())
         | Inr _ \<Rightarrow> Return (Inl (PreconditionFailed tail))
         | Inl other \<Rightarrow> Return (Inl other)))"

definition retired_keys :: "string \<Rightarrow> nat \<Rightarrow> nat \<Rightarrow> object_key option \<Rightarrow> object_key \<Rightarrow> object_key list" where
  "retired_keys prefix old_base seq old_snapshot snapshot =
     map (seq_key prefix ''log'') [old_base..<seq] @
     (case old_snapshot of Some old \<Rightarrow> if old = snapshot then [] else [old] | None \<Rightarrow> [])"

definition segments_checkpoint :: "'e segment_format \<Rightarrow> string \<Rightarrow> ('e lazy, bool result) io" where
  "segments_checkpoint F prefix =
     with_log (\<lambda>state.
       case last_of F (ls_entries state) of
         None \<Rightarrow> Return (Inr False)
       | Some lst \<Rightarrow>
           if ls_next_seq state = ls_base_seq state then Return (Inr False)
           else
             let seq = ls_next_seq state
             in try_io (case ls_generation state of None \<Rightarrow> Inr 0 | Some g \<Rightarrow> log_next g) (\<lambda>generation.
                try_io (sf_encode F (ls_entries state)) (\<lambda>payload.
                try_io (object_key_new (seq_key prefix ''snap'' lst)) (\<lambda>snapshot.
                await_io (put_if_absent snapshot payload) (\<lambda>_.
                with_log (\<lambda>now.
                await_io (still_the_tail prefix (ls_next_seq now)) (\<lambda>_.
                try_io (base_key prefix generation) (\<lambda>key.
                try_io (base_encode \<lparr>lb_seq = seq, lb_snapshot = Some snapshot\<rparr>) (\<lambda>body.
                  Put key body (Some IfAbsent) (\<lambda>r.
                    try_io r (\<lambda>_.
                      Modify (map_option (\<lambda>state. state\<lparr>ls_generation := Some generation, ls_base_seq := seq,
                          ls_snapshot := Some snapshot, ls_unsnapshotted_bytes := 0\<rparr>))
                        (Delete (retired_keys prefix (ls_base_seq state) seq (ls_snapshot state) snapshot) (\<lambda>d.
                           try_io d (\<lambda>_. Return (Inr True)))))))))))))))"

section \<open>The lazy wrapper\<close>

definition lazy_get :: "'e segment_format \<Rightarrow> string \<Rightarrow> nat \<Rightarrow> ('e lazy, unit result) io" where
  "lazy_get F prefix turns =
     Load (\<lambda>opened.
       case opened of
         Some _ \<Rightarrow> Return (Inr ())
       | None \<Rightarrow>
           await_io (segments_open F prefix turns) (\<lambda>fresh.
             Modify (\<lambda>opened. case opened of None \<Rightarrow> fresh | Some _ \<Rightarrow> opened) (with_log (\<lambda>_. Return (Inr ())))))"

definition lazy_append :: "'e segment_format \<Rightarrow> string \<Rightarrow> nat \<Rightarrow> 'e list \<Rightarrow> ('e lazy, unit result) io" where
  "lazy_append F prefix turns entries = await_io (lazy_get F prefix turns) (\<lambda>_. segments_append F prefix entries)"

definition lazy_read_from ::
  "'e segment_format \<Rightarrow> string \<Rightarrow> nat \<Rightarrow> commit_version \<Rightarrow> nat \<Rightarrow> ('e lazy, 'e list result) io" where
  "lazy_read_from F prefix turns start max_entries =
     await_io (lazy_get F prefix turns) (\<lambda>_.
       with_log (\<lambda>state. Return (Inr (segments_read_from F state start max_entries))))"

definition lazy_checkpoint :: "'e segment_format \<Rightarrow> string \<Rightarrow> nat \<Rightarrow> ('e lazy, bool result) io" where
  "lazy_checkpoint F prefix turns = await_io (lazy_get F prefix turns) (\<lambda>_. segments_checkpoint F prefix)"

end
