(* ===== verification/Segment_Frame.thy ===== *)
theory Segment_Frame
  imports Codec
begin

text \<open>
  What the binary formats of the repository share beyond their fields: alternatives behind a tag byte, a
  field that may be absent, a frame of magic, format version and body with nothing behind it, and the
  promise that a decoder never reads outside its input.  \<open>metadata_segment.rs\<close> and
  \<open>group_segment.rs\<close> are each written out in full; the lemmas here are the ones both need.
\<close>

section \<open>Tagged alternatives\<close>

lemma u8_reads: "t < 256 \<Longrightarrow> reads cur_u8 t (be_bytes 1 t)"
  by (rule uint_reads) simp

lemma tagged_written:
  assumes "codec putX getX validX" "validX r" "is_ok (put out r)" "t < 256"
    and put: "\<forall>out. put out r = bindR (put_uint 1 out t) (\<lambda>out. putX out r)"
    and get: "\<forall>c. get c = bindR (cur_u8 c) (\<lambda>(tag, c'). pick (cur_at c) tag c')"
    and pick: "\<forall>at c. pick at t c = getX c"
  shows "\<exists>bs. writes put r bs \<and> reads get r bs"
proof -
  from assms(3) put have "is_ok (putX (out @ be_bytes 1 t) r)" by (simp add: put_uint_def)
  with codec.written_is_read [OF assms(1,2)] obtain bs where bs: "writes putX r bs" "reads getX r bs" by blast
  have "reads (\<lambda>c. bindR (cur_u8 c) (\<lambda>(tag, c). getX c)) r (be_bytes 1 t @ bs)"
    using reads_bind [OF u8_reads [OF assms(4)], of "\<lambda>tag. getX"] bs(2) by simp
  then have "reads get r (be_bytes 1 t @ bs)"
    using u8_reads [OF assms(4)] get pick by (auto simp: reads_def)
  moreover have "writes put r (be_bytes 1 t @ bs)" using put bs(1) by (simp add: writes_def put_uint_def)
  ultimately show ?thesis by blast
qed

lemma tagged_read:
  assumes "codec putX getX validX" "cur_u8 c = Inr (t, d)" "getX d = Inr (r, c')"
    and put: "\<forall>out r. validX r \<longrightarrow> put out r = bindR (put_uint 1 out t) (\<lambda>out. putX out r)"
  shows "validX r \<and> (\<exists>bs. consumed c c' bs \<and> writes put r bs)"
proof -
  from uint.read_is_written [OF assms(2)] obtain a where a: "consumed c d a" "writes (put_uint 1) t a" by blast
  from codec.read_is_written [OF assms(1,3)] obtain b
    where b: "validX r" "consumed d c' b" "writes putX r b" by blast
  have "writes put r (a @ b)" using put b(1,3) a(2) by (simp add: writes_def)
  with consumed_trans [OF a(1) b(2)] b(1) show ?thesis by blast
qed

text \<open>A field that may be absent: a zero byte, or a one byte and the value.\<close>

lemma codec_optionI:
  assumes "codec put get valid"
    and put: "\<forall>out. put' out None = put_uint 1 out 0"
      "\<forall>out x. put' out (Some x) = bindR (put_uint 1 out 1) (\<lambda>out. put out x)"
    and get: "\<forall>c. get' c = bindR (cur_u8 c) (\<lambda>(tag, c). if tag = 0 then Inr (None, c)
        else if tag = 1 then bindR (get c) (\<lambda>(x, c). Inr (Some x, c)) else Inl (cur_malformed c))"
    and valid: "\<forall>x. valid' x \<longleftrightarrow> (\<forall>y. x = Some y \<longrightarrow> valid y)"
  shows "codec put' get' valid'"
proof -
  let ?pick = "\<lambda>at tag c. if tag = 0 then Inr (None, c)
        else if tag = 1 then bindR (get c) (\<lambda>(x, c). Inr (Some x, c)) else Inl (cur_malformed c)"
  have some: "codec (\<lambda>out x. put out (the x)) (\<lambda>c. bindR (get c) (\<lambda>(x, c). Inr (Some x, c)))
      (\<lambda>x. x \<noteq> None \<and> valid (the x))"
    by (rule codec_checkedI [OF assms(1), of "\<lambda>x. Inr (Some x)" the]) (simp_all, metis option.exhaust_sel option.distinct(1))
  have none: "reads (\<lambda>c. bindR (cur_u8 c) (\<lambda>(tag, c). ?pick 0 tag c)) None (be_bytes 1 0)"
    using u8_reads [of 0] by (simp add: reads_def)
  show ?thesis
  proof unfold_locales
    fix x out
    assume v: "valid' x" and ok: "is_ok (put' out x)"
    show "\<exists>bs. writes put' x bs \<and> reads get' x bs"
    proof (cases x)
      case None
      moreover have "writes put' None (be_bytes 1 0)" using put(1) by (simp add: writes_def put_uint_def)
      moreover have "reads get' None (be_bytes 1 0)" using none get by (simp add: reads_def)
      ultimately show ?thesis by blast
    next
      case (Some y)
      then show ?thesis
        using tagged_written [where put = put' and get = get' and pick = ?pick and t = 1, OF some _ ok] v valid put(2) get
        by simp
    qed
  next
    fix c x c'
    assume r: "get' c = Inr (x, c')"
    with get obtain tag d where t: "cur_u8 c = Inr (tag, d)" "?pick 0 tag d = Inr (x, c')"
      by (auto simp: bindR_Inr_iff)
    show "valid' x \<and> (\<exists>bs. consumed c c' bs \<and> writes put' x bs)"
    proof (cases "tag = 0")
      case True
      with t uint.read_is_written [OF t(1)] put(1) valid show ?thesis by (auto simp: writes_def)
    next
      case False
      with t have "tag = 1" "bindR (get d) (\<lambda>(x, c). Inr (Some x, c)) = Inr (x, c')"
        by (auto split: if_splits)
      moreover from this t(1) have "cur_u8 c = Inr (1, d)" by simp
      moreover have "\<forall>out r. r \<noteq> None \<and> valid (the r) \<longrightarrow>
          put' out r = bindR (put_uint 1 out 1) (\<lambda>out. put out (the r))" using put(2) by auto
      ultimately have "(x \<noteq> None \<and> valid (the x)) \<and> (\<exists>bs. consumed c c' bs \<and> writes put' x bs)"
        using tagged_read [OF some] by blast
      with valid show ?thesis by auto
    qed
  qed
qed

section \<open>Framed bodies\<close>

definition framed_put :: "byte list \<Rightarrow> nat \<Rightarrow> 'a writer_of \<Rightarrow> 'a \<Rightarrow> byte list result" where
  "framed_put magic format put body = put (magic @ be_bytes 1 format) body"

definition framed_get :: "byte list \<Rightarrow> nat \<Rightarrow> 'a reader_of \<Rightarrow> byte list \<Rightarrow> 'a result" where
  "framed_get magic format get bytes =
     bindR (cur_take 4 \<lparr>cur_bytes = bytes, cur_at = 0\<rparr>) (\<lambda>(found, cur).
       if found \<noteq> magic then Inl (cur_malformed cur)
       else bindR (cur_u8 cur) (\<lambda>(version, cur).
         if version \<noteq> format then Inl (cur_malformed cur)
         else bindR (get cur) (\<lambda>(body, cur).
           if cur_at cur \<noteq> length bytes then Inl (cur_malformed cur) else Inr body)))"

lemma framed_reads:
  assumes "reads get body bs" and m: "length magic = 4" and "format < 256"
  shows "framed_get magic format get (magic @ be_bytes 1 format @ bs) = Inr body"
proof -
  let ?bytes = "magic @ be_bytes 1 format @ bs"
  have "cur_take 4 \<lparr>cur_bytes = ?bytes, cur_at = 0\<rparr> = Inr (magic, \<lparr>cur_bytes = ?bytes, cur_at = 4\<rparr>)"
    using m by (simp add: cur_take_def Let_def)
  moreover have "cur_u8 \<lparr>cur_bytes = ?bytes, cur_at = 4\<rparr> = Inr (format, \<lparr>cur_bytes = ?bytes, cur_at = 5\<rparr>)"
    using u8_reads [OF assms(3), unfolded reads_def, rule_format, of magic bs] m by simp
  moreover have "get \<lparr>cur_bytes = ?bytes, cur_at = 5\<rparr> = Inr (body, \<lparr>cur_bytes = ?bytes, cur_at = length ?bytes\<rparr>)"
    using assms(1) [unfolded reads_def, rule_format, of "magic @ be_bytes 1 format" "[]"] m by simp
  ultimately show ?thesis unfolding framed_get_def by (simp del: be_bytes.simps)
qed

lemma framed_encodes:
  assumes "codec put get valid" "framed_get magic format get bytes = Inr body"
  shows "framed_put magic format put body = Inr bytes \<and> valid body"
proof -
  let ?c0 = "\<lparr>cur_bytes = bytes, cur_at = 0\<rparr>"
  from assms(2) obtain c1 c2 c3 where r: "cur_take 4 ?c0 = Inr (magic, c1)"
    "cur_u8 c1 = Inr (format, c2)" "cur_at c3 = length bytes" "get c2 = Inr (body, c3)"
    unfolding framed_get_def by (auto simp: bindR_Inr_iff split: if_splits)
  from uint.read_is_written [OF r(2)] obtain a where a: "consumed c1 c2 a" "writes (put_uint 1) format a" by blast
  from codec.read_is_written [OF assms(1) r(4)] obtain b
    where b: "valid body" "consumed c2 c3 b" "writes put body b" by blast
  from a(2) have "a = be_bytes 1 format" by (simp add: writes_def put_uint_def)
  moreover have "consumed ?c0 c3 (magic @ a @ b)"
    using consumed_trans take_consumed [OF r(1)] a(1) b(2) by blast
  with r(3) have "bytes = magic @ a @ b" by (simp add: consumed_def) (metis order_refl take_all)
  ultimately have "framed_put magic format put body = Inr bytes"
    using b(3) unfolding framed_put_def writes_def by simp
  with b(1) show ?thesis by blast
qed

lemma framed_iff:
  assumes "codec put get valid" "length magic = 4" "format < 256"
  shows "framed_get magic format get bytes = Inr body \<longleftrightarrow> framed_put magic format put body = Inr bytes \<and> valid body"
proof
  assume w: "framed_put magic format put body = Inr bytes \<and> valid body"
  then have "is_ok (put (magic @ be_bytes 1 format) body)" by (simp add: framed_put_def)
  from codec.written_is_read [OF assms(1) _ this] w
  obtain bs where bs: "writes put body bs" "reads get body bs" by blast
  from bs(1) w have "bytes = magic @ be_bytes 1 format @ bs" unfolding framed_put_def writes_def by auto
  with framed_reads [OF bs(2) assms(2,3)] show "framed_get magic format get bytes = Inr body" by simp
qed (rule framed_encodes [OF assms(1)])

section \<open>Refusals\<close>

text \<open>A reader is \<open>tame\<close> when, started inside the input, it either refuses with a position inside the
  input or moves forward and stays inside it.\<close>

fun inside :: "cursor \<Rightarrow> ('a \<times> cursor) result \<Rightarrow> bool" where
  "inside c (Inl e) \<longleftrightarrow>
     (\<exists>at. e = MalformedMetadataSegment at \<and> cur_at c \<le> at \<and> at \<le> length (cur_bytes c))"
| "inside c (Inr (_, c')) \<longleftrightarrow>
     cur_bytes c' = cur_bytes c \<and> cur_at c \<le> cur_at c' \<and> cur_at c' \<le> length (cur_bytes c)"

definition tame :: "'a reader_of \<Rightarrow> bool" where
  "tame get \<longleftrightarrow> (\<forall>c. cur_at c \<le> length (cur_bytes c) \<longrightarrow> inside c (get c))"

lemma inside_later:
  "inside d r \<Longrightarrow> cur_bytes d = cur_bytes c \<Longrightarrow> cur_at c \<le> cur_at d \<Longrightarrow> inside c r"
  by (cases "(d, r)" rule: inside.cases) auto

named_theorems tame_intros \<open>readers that stay inside their input\<close>

lemma tame_take [tame_intros]: "tame (cur_take n)"
  by (auto simp: tame_def cur_take_def cur_malformed_def Let_def)

lemma tame_return [tame_intros]: "tame (\<lambda>c. Inr (x, c))"
  by (simp add: tame_def)

lemma tame_refuse [tame_intros]: "tame (\<lambda>c. Inl (cur_malformed c))"
  by (simp add: tame_def cur_malformed_def)

lemma tame_checked [tame_intros]:
  "(\<And>y. tame (f y)) \<Longrightarrow> tame (\<lambda>c. bindR (cur_checked c r) (\<lambda>y. f y c))"
  by (cases r) (auto simp: tame_def cur_checked_def cur_malformed_def)

lemma tame_bind [tame_intros]:
  assumes "tame get" "\<And>x. tame (f x)"
  shows "tame (\<lambda>c. bindR (get c) (\<lambda>(x, c). f x c))"
  unfolding tame_def
proof (intro allI impI)
  fix c :: cursor
  assume c: "cur_at c \<le> length (cur_bytes c)"
  with assms(1) have g: "inside c (get c)" by (simp add: tame_def)
  show "inside c (bindR (get c) (\<lambda>(x, c). f x c))"
  proof (cases "get c")
    case (Inl e)
    with g show ?thesis by simp
  next
    case (Inr p)
    then obtain x d where d: "get c = Inr (x, d)" by (cases p) auto
    with g have "cur_bytes d = cur_bytes c" "cur_at c \<le> cur_at d" "cur_at d \<le> length (cur_bytes c)"
      by simp_all
    with assms(2) [of x] inside_later [of d "f x d" c] show ?thesis by (simp add: tame_def d)
  qed
qed

lemma tame_if [tame_intros]: "(b \<Longrightarrow> tame f) \<Longrightarrow> (\<not> b \<Longrightarrow> tame g) \<Longrightarrow> tame (\<lambda>c. if b then f c else g c)"
  by (cases b) simp_all

lemma tame_prod [tame_intros]: "(\<And>a b. tame (f a b)) \<Longrightarrow> tame (case p of (a, b) \<Rightarrow> f a b)"
  by (cases p) simp

lemma tame_utf8 [tame_intros]: "tame (\<lambda>c. case from_utf8 raw of Some s \<Rightarrow> Inr (s, c) | None \<Rightarrow> Inl (cur_malformed c))"
  by (cases "from_utf8 raw") (auto intro: tame_intros)

lemma tame_repeat [tame_intros]:
  assumes "tame get"
  shows "tame (cur_repeat get n)"
proof (induction n)
  case (Suc n)
  have "tame (\<lambda>c. bindR (get c) (\<lambda>(x, c). bindR (cur_repeat get n c) (\<lambda>(xs, c). Inr (x # xs, c))))"
    by (intro tame_intros assms Suc)
  then show ?case by (simp add: cur_repeat.simps [abs_def])
qed (simp add: tame_def)

lemma tame_fields [tame_intros]:
  "tame (cur_uint w)" "tame (cur_int w)" "tame cur_string" "tame cur_key" "tame cur_topic" "tame cur_offset"
  "tame cur_partition" "tame cur_ref" "tame cur_refs"
proof -
  show u: "tame (cur_uint w)" for w unfolding cur_uint_def [abs_def] by (intro tame_intros)
  show i: "tame (cur_int w)" for w unfolding cur_int_def [abs_def] by (intro tame_intros)
  show s: "tame cur_string" unfolding cur_string_def [abs_def] by (intro tame_intros u)
  show k: "tame cur_key" unfolding cur_key_def [abs_def] by (intro tame_intros s)
  show "tame cur_topic" unfolding cur_topic_def [abs_def] by (intro tame_intros s)
  show o: "tame cur_offset" unfolding cur_offset_def [abs_def] by (intro tame_intros i)
  show "tame cur_partition" unfolding cur_partition_def [abs_def] by (intro tame_intros s i)
  show r: "tame cur_ref" unfolding cur_ref_def [abs_def] by (intro tame_intros k o u)
  show "tame cur_refs" unfolding cur_refs_def [abs_def] by (intro tame_intros r u)
qed

lemma tame_tuple_bind [tame_intros]:
  assumes "tame get" "\<And>a b. tame (f a b)"
  shows "tame (\<lambda>c. bindR (get c) (\<lambda>((a, b), c). f a b c))"
  using tame_bind [OF assms(1), of "\<lambda>(a, b). f a b"] assms(2) by (simp add: split_def)

lemma tame_tagged:
  assumes "\<And>c. get c = bindR (cur_u8 c) (\<lambda>(tag, c'). pick (cur_at c) tag c')"
    and "\<And>at tag c d. cur_at c = at \<Longrightarrow> cur_bytes d = cur_bytes c \<Longrightarrow> at \<le> cur_at d \<Longrightarrow>
      cur_at d \<le> length (cur_bytes d) \<Longrightarrow> inside c (pick at tag d)"
  shows "tame get"
  unfolding tame_def
proof (intro allI impI)
  fix c :: cursor
  assume c: "cur_at c \<le> length (cur_bytes c)"
  have u: "inside c (cur_u8 c)" using tame_fields(1) c by (simp add: tame_def)
  show "inside c (get c)"
  proof (cases "cur_u8 c")
    case (Inl e)
    with u show ?thesis by (simp add: assms(1))
  next
    case (Inr p)
    then obtain tag d where d: "cur_u8 c = Inr (tag, d)" by (cases p) auto
    with u have "cur_bytes d = cur_bytes c" "cur_at c \<le> cur_at d" "cur_at d \<le> length (cur_bytes d)" by auto
    from assms(2) [OF refl this] d show ?thesis by (simp add: assms(1))
  qed
qed

lemma tame_inside:
  "tame get \<Longrightarrow> cur_bytes d = cur_bytes c \<Longrightarrow> cur_at c \<le> cur_at d \<Longrightarrow> cur_at d \<le> length (cur_bytes d) \<Longrightarrow> inside c (get d)"
  using inside_later [of d "get d" c] by (simp add: tame_def)

lemma framed_refuses:
  assumes "tame get"
  shows "(\<exists>body. framed_get magic format get bytes = Inr body) \<or>
    (\<exists>at\<le>length bytes. framed_get magic format get bytes = Inl (MalformedMetadataSegment at))"
proof -
  let ?c = "\<lparr>cur_bytes = bytes, cur_at = 0\<rparr>"
  have "tame (\<lambda>c. bindR (cur_take 4 c) (\<lambda>(found, cur).
       if found \<noteq> magic then Inl (cur_malformed cur)
       else bindR (cur_u8 cur) (\<lambda>(version, cur).
         if version \<noteq> format then Inl (cur_malformed cur) else get cur)))" (is "tame ?get")
    by (intro tame_intros assms)
  then have "inside ?c (?get ?c)" by (simp add: tame_def)
  moreover have "framed_get magic format get bytes = bindR (?get ?c) (\<lambda>(body, cur).
      if cur_at cur \<noteq> length bytes then Inl (cur_malformed cur) else Inr body)"
    unfolding framed_get_def bindR_assoc by (auto simp: bindR_def split: sum.splits)
  ultimately show ?thesis
    by (cases "(?c, ?get ?c)" rule: inside.cases) (auto simp: cur_malformed_def)
qed

end
