(* ===== verification/Metadata_Log.thy ===== *)
theory Metadata_Log
  imports Core_Types
begin

text \<open>
  The metadata log: what one entry is (\<open>metadata_record.rs\<close>), the seam every log
  implementation honours and the in-memory log beside it (\<open>metadata_log.rs\<close>).

  The trait's guarantees are the locale \<open>metadata_log\<close>; its abstraction \<open>entries\<close> is the
  list of durable entries.  The in-memory log interprets it.  The clients (the log applier
  and the coordinator) are proved against the locale only.
\<close>

section \<open>Records\<close>

record producer_identity =
  pid_id :: int
  pid_epoch :: int
  pid_sequence :: int

record committed_span =
  cs_topic :: topic_id
  cs_partition :: partition_id
  cs_count :: nat
  cs_bytes :: byte_range
  cs_producer :: "producer_identity option"

abbreviation cs_key :: "committed_span \<Rightarrow> pkey" where
  "cs_key span \<equiv> (cs_topic span, cs_partition span)"

datatype metadata_record =
    BatchCommitted object_key "committed_span list" timestamp
  | ManifestPublished topic_id partition_id object_key offset
  | RangeCompacted topic_id partition_id "object_ref list" "object_ref list"
  | Trimmed topic_id partition_id offset
  | EpochChanged nat
  | TopicRetentionChanged topic_id "int option"

record metadata_entry =
  me_version :: commit_version
  me_record :: metadata_record

section \<open>The in-memory log\<close>

text \<open>\<open>FakeMetadataLog::validate\<close>: the whole batch is checked before any of it is stored.\<close>

fun validate :: "commit_version option \<Rightarrow> metadata_entry list \<Rightarrow> unit result" where
  "validate previous [] = Inr ()"
| "validate previous (entry # entries) =
     (case previous of
        Some prev \<Rightarrow>
          if me_version entry \<le> prev then Inl (NonMonotonicCommitVersion prev (me_version entry))
          else validate (Some (me_version entry)) entries
      | None \<Rightarrow> validate (Some (me_version entry)) entries)"

type_synonym fake_log = "metadata_entry list"

definition fake_last_version :: "fake_log \<Rightarrow> commit_version option" where
  "fake_last_version held = (if held = [] then None else Some (me_version (last held)))"

definition fake_append :: "fake_log \<Rightarrow> metadata_entry list \<Rightarrow> unit result \<times> fake_log" where
  "fake_append held entries =
     (case validate (fake_last_version held) entries of
        Inl e \<Rightarrow> (Inl e, held)
      | Inr _ \<Rightarrow> (Inr (), held @ entries))"

definition fake_read_from :: "fake_log \<Rightarrow> commit_version \<Rightarrow> nat \<Rightarrow> metadata_entry list result" where
  "fake_read_from held start max_entries =
     Inr (take max_entries (filter (\<lambda>entry. me_version entry \<ge> start) held))"

section \<open>Strictly increasing versions\<close>

definition ascending :: "commit_version option \<Rightarrow> metadata_entry list \<Rightarrow> bool" where
  "ascending previous es \<longleftrightarrow>
     sorted_wrt (<) (map me_version es) \<and>
     (\<forall>p. previous = Some p \<longrightarrow> (\<forall>e\<in>set es. p < me_version e))"

lemma ascending_Nil [simp]: "ascending p []"
  by (simp add: ascending_def)

lemma ascending_Cons:
  "ascending previous (e # es) \<longleftrightarrow>
     (\<forall>p. previous = Some p \<longrightarrow> p < me_version e) \<and> ascending (Some (me_version e)) es"
  by (force simp: ascending_def)

definition last_version_of :: "commit_version option \<Rightarrow> metadata_entry list \<Rightarrow> commit_version option" where
  "last_version_of previous es = (if es = [] then previous else Some (me_version (last es)))"

lemma last_version_of_simps [simp]:
  "last_version_of p [] = p"
  "last_version_of p (e # es) = last_version_of (Some (me_version e)) es"
  by (auto simp: last_version_of_def)

lemma last_version_of_append [simp]:
  "last_version_of p (xs @ ys) = last_version_of (last_version_of p xs) ys"
  by (induction xs arbitrary: p) auto

lemma ascending_append:
  "ascending p (xs @ ys) \<longleftrightarrow> ascending p xs \<and> ascending (last_version_of p xs) ys"
  by (induction xs arbitrary: p) (auto simp: ascending_Cons)

lemma ascending_weaken: "ascending p es \<Longrightarrow> ascending None es"
  by (simp add: ascending_def)

lemma ascending_filter: "ascending p es \<Longrightarrow> ascending p (filter P es)"
  by (simp add: ascending_def sorted_wrt_map sorted_wrt_filter)

lemma ascending_last_ge:
  assumes "ascending None es" "e \<in> set es" "last_version_of None es = Some v"
  shows "me_version e \<le> v"
  using assms
proof (induction es rule: rev_induct)
  case (snoc x xs)
  then show ?case
    by (auto simp: ascending_append ascending_Cons last_version_of_def ascending_def sorted_wrt_append
        intro: less_imp_le split: if_splits)
qed simp

lemma validate_ok_iff: "validate previous es = Inr () \<longleftrightarrow> ascending previous es"
  by (induction previous es rule: validate.induct)
    (auto simp: ascending_Cons split: option.splits)

lemma ascending_suffix_from:
  assumes asc: "ascending None (xs @ ys)"
    and start: "case last_version_of None xs of None \<Rightarrow> start = 0 | Some v \<Rightarrow> start = v + 1"
  shows "filter (\<lambda>e. me_version e \<ge> start) (xs @ ys) = ys"
proof -
  from asc have a: "ascending None xs" "ascending (last_version_of None xs) ys"
    by (simp_all add: ascending_append)
  have "filter (\<lambda>e. me_version e \<ge> start) xs = []"
  proof (cases "last_version_of None xs")
    case None
    then have "xs = []" by (simp add: last_version_of_def split: if_splits)
    then show ?thesis by simp
  next
    case (Some v)
    with start have "start = v + 1" by simp
    moreover have "\<forall>e\<in>set xs. me_version e \<le> v"
      using ascending_last_ge [OF a(1) _ Some] by blast
    ultimately show ?thesis by (auto simp: filter_empty_conv)
  qed
  moreover have "filter (\<lambda>e. me_version e \<ge> start) ys = ys"
    using a(2) start
    by (cases "last_version_of None xs") (auto simp: filter_id_conv ascending_def)
  ultimately show ?thesis by simp
qed

section \<open>The seam\<close>

locale metadata_log =
  fixes log_entries :: "'l \<Rightarrow> metadata_entry list"
    and log_append :: "'l \<Rightarrow> metadata_entry list \<Rightarrow> unit result \<times> 'l"
    and log_read_from :: "'l \<Rightarrow> commit_version \<Rightarrow> nat \<Rightarrow> metadata_entry list result"
    and log_invar :: "'l \<Rightarrow> bool"
  assumes append_stores:
      "log_invar l \<Longrightarrow> log_append l es = (Inr (), l') \<Longrightarrow> log_entries l' = log_entries l @ es"
    and append_refused:
      "log_invar l \<Longrightarrow> log_append l es = (Inl e, l') \<Longrightarrow> log_entries l' = log_entries l"
    and append_invar: "log_invar l \<Longrightarrow> log_invar (snd (log_append l es))"
    and append_monotonic:
      "log_invar l \<Longrightarrow> log_append l es = (Inr (), l') \<Longrightarrow>
         ascending (last_version_of None (log_entries l)) es"
    and entries_ascending: "log_invar l \<Longrightarrow> ascending None (log_entries l)"
    and read_page:
      "log_invar l \<Longrightarrow> log_read_from l start n = Inr page \<Longrightarrow>
         page = take n (filter (\<lambda>e. me_version e \<ge> start) (log_entries l))"
begin

text \<open>What a client that has folded the prefix \<open>xs\<close> reads next: the entries after it.\<close>

lemma read_after_prefix:
  assumes "log_invar l" "log_entries l = xs @ ys" "log_read_from l start n = Inr page"
    and "case last_version_of None xs of None \<Rightarrow> start = 0 | Some v \<Rightarrow> start = v + 1"
  shows "page = take n ys"
  using read_page [OF assms(1,3)] ascending_suffix_from [OF _ assms(4), of ys]
    entries_ascending [OF assms(1)] assms(2)
  by (simp del: filter_append)

end

lemma fake_last_version_eq: "fake_last_version held = last_version_of None held"
  by (simp add: fake_last_version_def last_version_of_def)

interpretation fake: metadata_log "\<lambda>l. l" fake_append fake_read_from "ascending None"
proof unfold_locales
  fix l es l' e
  show "fake_append l es = (Inr (), l') \<Longrightarrow> l' = l @ es"
    by (auto simp: fake_append_def split: sum.splits)
  show "fake_append l es = (Inl e, l') \<Longrightarrow> l' = l"
    by (auto simp: fake_append_def split: sum.splits)
  show "ascending None l \<Longrightarrow> ascending None (snd (fake_append l es))"
    using validate_ok_iff [of "fake_last_version l" es]
    by (auto simp: fake_append_def ascending_append fake_last_version_eq split: sum.splits)
  show "fake_append l es = (Inr (), l') \<Longrightarrow> ascending (last_version_of None l) es"
    using validate_ok_iff [of "fake_last_version l" es]
    by (auto simp: fake_append_def fake_last_version_eq split: sum.splits)
qed (auto simp: fake_read_from_def)

end
