(* ===== verification/Metadata_Segment.thy ===== *)
theory Metadata_Segment
  imports Segment_Frame Metadata_Log
begin

text \<open>
  The bytes of one metadata-log segment (\<open>metadata_segment.rs\<close>): every record's encoder and
  decoder, built on the fields of \<^term>\<open>cur_key\<close> and its kind.  The theorems are the two
  directions of the round trip: a segment decodes to the entries that were encoded, and the
  only bytes the decoder accepts for them are the encoder's own.
\<close>

section \<open>Spans\<close>

definition encode_bytes :: "byte_range writer_of" where
  "encode_bytes out bytes =
     (case bytes of
        Full \<Rightarrow> put_uint 1 out 0
      | Bounded off len \<Rightarrow>
          bindR (put_uint 1 out 1) (\<lambda>out.
          bindR (put_uint 8 out off) (\<lambda>out. put_uint 8 out len)))"

definition encode_producer :: "producer_identity option writer_of" where
  "encode_producer out producer =
     (case producer of
        None \<Rightarrow> put_uint 1 out 0
      | Some p \<Rightarrow>
          bindR (put_uint 1 out 1) (\<lambda>out.
          bindR (put_int 8 out (pid_id p)) (\<lambda>out.
          bindR (put_int 2 out (pid_epoch p)) (\<lambda>out. put_int 4 out (pid_sequence p)))))"

definition encode_span :: "committed_span writer_of" where
  "encode_span out span =
     bindR (put_partition out (cs_key span)) (\<lambda>out.
     bindR (put_uint 4 out (cs_count span)) (\<lambda>out.
     bindR (encode_bytes out (cs_bytes span)) (\<lambda>out.
       encode_producer out (cs_producer span))))"

definition decode_bytes :: "byte_range reader_of" where
  "decode_bytes cur =
     bindR (cur_u8 cur) (\<lambda>(tag, cur).
       if tag = 0 then Inr (Full, cur)
       else if tag = 1 then
         bindR (cur_u64 cur) (\<lambda>(off, cur).
         bindR (cur_u64 cur) (\<lambda>(len, cur).
         bindR (cur_checked cur (byte_range_bounded off len)) (\<lambda>range. Inr (range, cur))))
       else Inl (cur_malformed cur))"

definition decode_producer :: "producer_identity option reader_of" where
  "decode_producer cur =
     bindR (cur_u8 cur) (\<lambda>(tag, cur).
       if tag = 0 then Inr (None, cur)
       else if tag = 1 then
         bindR (cur_i64 cur) (\<lambda>(raw_id, cur).
         bindR (cur_checked cur (producer_id_new raw_id)) (\<lambda>id.
         bindR (cur_int 2 cur) (\<lambda>(raw_epoch, cur).
         bindR (cur_checked cur (producer_epoch_new raw_epoch)) (\<lambda>epoch.
         bindR (cur_int 4 cur) (\<lambda>(sequence, cur).
           Inr (Some \<lparr>pid_id = id, pid_epoch = epoch, pid_sequence = sequence\<rparr>, cur))))))
       else Inl (cur_malformed cur))"

definition decode_span :: "committed_span reader_of" where
  "decode_span cur =
     bindR (cur_partition cur) (\<lambda>((topic, part), cur).
     bindR (cur_u32 cur) (\<lambda>(records, cur).
     bindR (decode_bytes cur) (\<lambda>(bytes, cur).
     bindR (decode_producer cur) (\<lambda>(producer, cur).
       Inr (\<lparr>cs_topic = topic, cs_partition = part, cs_count = records, cs_bytes = bytes,
             cs_producer = producer\<rparr>, cur)))))"

section \<open>Records\<close>

definition TAG_BATCH :: nat where "TAG_BATCH = 1"
definition TAG_MANIFEST :: nat where "TAG_MANIFEST = 2"
definition TAG_COMPACTED :: nat where "TAG_COMPACTED = 3"
definition TAG_TRIMMED :: nat where "TAG_TRIMMED = 4"
definition TAG_EPOCH :: nat where "TAG_EPOCH = 5"
definition TAG_RETENTION :: nat where "TAG_RETENTION = 6"

lemmas tag_defs = TAG_BATCH_def TAG_MANIFEST_def TAG_COMPACTED_def TAG_TRIMMED_def TAG_EPOCH_def
  TAG_RETENTION_def

definition encode_batch :: "byte list \<Rightarrow> object_key \<Rightarrow> committed_span list \<Rightarrow> timestamp \<Rightarrow> byte list result" where
  "encode_batch out object spans written_at =
     bindR (put_uint 1 out TAG_BATCH) (\<lambda>out.
     bindR (put_str out object) (\<lambda>out.
     bindR (put_int 8 out written_at) (\<lambda>out.
     bindR (put_len32 out (length spans)) (\<lambda>out. foldR encode_span out spans))))"

definition encode_manifest :: "byte list \<Rightarrow> pkey \<Rightarrow> object_key \<Rightarrow> offset \<Rightarrow> byte list result" where
  "encode_manifest out key manifest up_to =
     bindR (put_uint 1 out TAG_MANIFEST) (\<lambda>out.
     bindR (put_partition out key) (\<lambda>out.
     bindR (put_str out manifest) (\<lambda>out. put_int 8 out up_to)))"

definition encode_compacted ::
  "byte list \<Rightarrow> pkey \<Rightarrow> object_ref list \<Rightarrow> object_ref list \<Rightarrow> byte list result" where
  "encode_compacted out key retiring installing =
     bindR (put_uint 1 out TAG_COMPACTED) (\<lambda>out.
     bindR (put_partition out key) (\<lambda>out.
     bindR (put_refs out retiring) (\<lambda>out. put_refs out installing)))"

definition encode_trimmed :: "byte list \<Rightarrow> pkey \<Rightarrow> offset \<Rightarrow> byte list result" where
  "encode_trimmed out key start =
     bindR (put_uint 1 out TAG_TRIMMED) (\<lambda>out.
     bindR (put_partition out key) (\<lambda>out. put_int 8 out start))"

definition encode_epoch :: "byte list \<Rightarrow> nat \<Rightarrow> byte list result" where
  "encode_epoch out epoch =
     bindR (put_uint 1 out TAG_EPOCH) (\<lambda>out. put_uint 8 out epoch)"

definition put_retention :: "int option writer_of" where
  "put_retention out retention_ms =
     (case retention_ms of
        Some value \<Rightarrow> bindR (put_uint 1 out 1) (\<lambda>out. put_int 8 out value)
      | None \<Rightarrow> put_uint 1 out 0)"

definition encode_retention :: "byte list \<Rightarrow> topic_id \<Rightarrow> int option \<Rightarrow> byte list result" where
  "encode_retention out topic retention_ms =
     bindR (put_uint 1 out TAG_RETENTION) (\<lambda>out.
     bindR (put_str out topic) (\<lambda>out. put_retention out retention_ms))"

definition encode_record :: "metadata_record writer_of" where
  "encode_record out rec =
     (case rec of
        BatchCommitted object spans written_at \<Rightarrow> encode_batch out object spans written_at
      | ManifestPublished topic part manifest up_to \<Rightarrow> encode_manifest out (topic, part) manifest up_to
      | RangeCompacted topic part retiring installing \<Rightarrow>
          encode_compacted out (topic, part) retiring installing
      | Trimmed topic part start \<Rightarrow> encode_trimmed out (topic, part) start
      | EpochChanged epoch \<Rightarrow> encode_epoch out epoch
      | TopicRetentionChanged topic retention_ms \<Rightarrow> encode_retention out topic retention_ms)"

definition decode_batch :: "metadata_record reader_of" where
  "decode_batch cur =
     bindR (cur_key cur) (\<lambda>(object, cur).
     bindR (cur_i64 cur) (\<lambda>(millis, cur).
     bindR (cur_checked cur (timestamp_from_millis millis)) (\<lambda>written_at.
     bindR (cur_u32 cur) (\<lambda>(count, cur).
     bindR (cur_repeat decode_span count cur) (\<lambda>(spans, cur).
       Inr (BatchCommitted object spans written_at, cur))))))"

definition decode_manifest :: "metadata_record reader_of" where
  "decode_manifest cur =
     bindR (cur_partition cur) (\<lambda>((topic, part), cur).
     bindR (cur_key cur) (\<lambda>(manifest, cur).
     bindR (cur_offset cur) (\<lambda>(up_to, cur).
       Inr (ManifestPublished topic part manifest up_to, cur))))"

definition decode_compacted :: "metadata_record reader_of" where
  "decode_compacted cur =
     bindR (cur_partition cur) (\<lambda>((topic, part), cur).
     bindR (cur_refs cur) (\<lambda>(retiring, cur).
     bindR (cur_refs cur) (\<lambda>(installing, cur).
       Inr (RangeCompacted topic part retiring installing, cur))))"

definition decode_trimmed :: "metadata_record reader_of" where
  "decode_trimmed cur =
     bindR (cur_partition cur) (\<lambda>((topic, part), cur).
     bindR (cur_offset cur) (\<lambda>(start, cur). Inr (Trimmed topic part start, cur)))"

definition decode_epoch :: "metadata_record reader_of" where
  "decode_epoch cur = bindR (cur_u64 cur) (\<lambda>(epoch, cur). Inr (EpochChanged epoch, cur))"

definition get_retention :: "int option reader_of" where
  "get_retention cur =
     bindR (cur_u8 cur) (\<lambda>(tag, cur).
       if tag = 0 then Inr (None, cur)
       else if tag = 1 then bindR (cur_i64 cur) (\<lambda>(value, cur). Inr (Some value, cur))
       else Inl (cur_malformed cur))"

definition decode_retention :: "metadata_record reader_of" where
  "decode_retention cur =
     bindR (cur_topic cur) (\<lambda>(topic, cur).
     bindR (get_retention cur) (\<lambda>(retention_ms, cur).
       Inr (TopicRetentionChanged topic retention_ms, cur)))"

definition decode_record :: "metadata_record reader_of" where
  "decode_record cur =
     (let at = cur_at cur
      in bindR (cur_u8 cur) (\<lambda>(tag, cur).
           if tag = TAG_BATCH then decode_batch cur
           else if tag = TAG_MANIFEST then decode_manifest cur
           else if tag = TAG_COMPACTED then decode_compacted cur
           else if tag = TAG_TRIMMED then decode_trimmed cur
           else if tag = TAG_EPOCH then decode_epoch cur
           else if tag = TAG_RETENTION then decode_retention cur
           else Inl (MalformedMetadataSegment at)))"

section \<open>Segments\<close>

definition SEGMENT_MAGIC :: "byte list" where
  "SEGMENT_MAGIC = as_bytes ''OQML''"

definition SEGMENT_FORMAT :: nat where
  "SEGMENT_FORMAT = 1"

definition encode_entry :: "metadata_entry writer_of" where
  "encode_entry out entry =
     bindR (put_uint 8 out (me_version entry)) (\<lambda>out. encode_record out (me_record entry))"

definition encode_segment :: "metadata_entry list \<Rightarrow> byte list result" where
  "encode_segment entries =
     bindR (put_uint 1 SEGMENT_MAGIC SEGMENT_FORMAT) (\<lambda>out.
     bindR (put_len32 out (length entries)) (\<lambda>out. foldR encode_entry out entries))"

definition decode_entry :: "metadata_entry reader_of" where
  "decode_entry cur =
     bindR (cur_u64 cur) (\<lambda>(version, cur).
     bindR (decode_record cur) (\<lambda>(rec, cur).
       Inr (\<lparr>me_version = version, me_record = rec\<rparr>, cur)))"

text \<open>\<open>cur.take(4)? != MAGIC || cur.u8()? != FORMAT\<close>: a wrong magic is reported before the
  version byte is read, a wrong version after it.\<close>

definition decode_segment :: "byte list \<Rightarrow> metadata_entry list result" where
  "decode_segment bytes =
     bindR (cur_take 4 \<lparr>cur_bytes = bytes, cur_at = 0\<rparr>) (\<lambda>(magic, cur).
       if magic \<noteq> SEGMENT_MAGIC then Inl (cur_malformed cur)
       else bindR (cur_u8 cur) (\<lambda>(format, cur).
         if format \<noteq> SEGMENT_FORMAT then Inl (cur_malformed cur)
         else bindR (cur_u32 cur) (\<lambda>(count, cur).
           bindR (cur_repeat decode_entry count cur) (\<lambda>(entries, cur).
             if cur_at cur \<noteq> length bytes then Inl (cur_malformed cur) else Inr entries))))"

section \<open>Spans read back\<close>

definition valid_bytes :: "byte_range \<Rightarrow> bool" where
  "valid_bytes bytes \<longleftrightarrow>
     (case bytes of Full \<Rightarrow> True | Bounded off len \<Rightarrow> fits_u 8 off \<and> fits_u 8 len \<and> len \<noteq> 0)"

definition valid_producer :: "producer_identity \<Rightarrow> bool" where
  "valid_producer p \<longleftrightarrow>
     valid_nonneg 8 (pid_id p) \<and> valid_nonneg 2 (pid_epoch p) \<and> fits_int 4 (pid_sequence p)"

definition valid_span :: "committed_span \<Rightarrow> bool" where
  "valid_span s \<longleftrightarrow>
     valid_name (cs_topic s) \<and> valid_nonneg 4 (cs_partition s) \<and> fits_u 4 (cs_count s) \<and>
     valid_bytes (cs_bytes s) \<and> (\<forall>p. cs_producer s = Some p \<longrightarrow> valid_producer p)"

lemma bounded_codec:
  "codec (\<lambda>out r. bindR (put_uint 8 out (br_offset r)) (\<lambda>out. put_uint 8 out (br_length r)))
     (\<lambda>c. bindR (cur_u64 c) (\<lambda>(off, c). bindR (cur_u64 c) (\<lambda>(len, c).
        bindR (cur_checked c (byte_range_bounded off len)) (\<lambda>r. Inr (r, c)))))
     (\<lambda>r. r \<noteq> Full \<and> valid_bytes r)"
proof -
  let ?build = "\<lambda>p. byte_range_bounded (fst p) (snd p)" and ?raw = "\<lambda>r. (br_offset r, br_length r)"
  show ?thesis
  proof (rule codec_checkedI [OF codec_pair [OF uint.codec_axioms uint.codec_axioms],
        where check = ?build and raw_of = ?raw])
    show "\<forall>r. (r \<noteq> Full \<and> valid_bytes r) \<longleftrightarrow> (fits_u 8 (fst (?raw r)) \<and> fits_u 8 (snd (?raw r))) \<and>
        ?build (?raw r) = Inr r"
      by (auto simp: byte_range_bounded_def valid_bytes_def split: byte_range.splits)
    show "\<forall>p r. fits_u 8 (fst p) \<and> fits_u 8 (snd p) \<longrightarrow> ?build p = Inr r \<longrightarrow> ?raw r = p"
      by (auto simp: byte_range_bounded_def split: if_splits)
  qed (simp_all add: bindR_assoc split_def)
qed

lemma bytes_codec: "codec encode_bytes decode_bytes valid_bytes"
proof -
  from codec_optionI [OF bounded_codec]
  have opt: "codec (\<lambda>out x. case x of None \<Rightarrow> put_uint 1 out 0 | Some r \<Rightarrow>
        bindR (put_uint 1 out 1) (\<lambda>out. bindR (put_uint 8 out (br_offset r)) (\<lambda>out. put_uint 8 out (br_length r))))
      (\<lambda>c. bindR (cur_u8 c) (\<lambda>(tag, c). if tag = 0 then Inr (None, c)
        else if tag = 1 then bindR (bindR (cur_u64 c) (\<lambda>(off, c). bindR (cur_u64 c) (\<lambda>(len, c).
         bindR (cur_checked c (byte_range_bounded off len)) (\<lambda>r. Inr (r, c)))))
         (\<lambda>(x, c). Inr (Some x, c)) else Inl (cur_malformed c)))
      (\<lambda>x. \<forall>r. x = Some r \<longrightarrow> r \<noteq> Full \<and> valid_bytes r)" by simp
  show ?thesis
    by (rule codec_checkedI [OF opt, of "\<lambda>x. Inr (case x of None \<Rightarrow> Full | Some r \<Rightarrow> r)"
          "\<lambda>r. case r of Full \<Rightarrow> None | _ \<Rightarrow> Some r"])
      (auto simp: encode_bytes_def decode_bytes_def bindR_assoc split_def valid_bytes_def
        split: byte_range.splits option.splits intro!: arg_cong2 [where f = bindR])
qed

lemma producer_id_codec: "codec (put_int 8) (\<lambda>c. bindR (cur_i64 c) (\<lambda>(x, c).
    bindR (cur_checked c (producer_id_new x)) (\<lambda>y. Inr (y, c)))) (valid_nonneg 8)"
  by (rule codec_checkedI [OF sint.codec_axioms, where check = producer_id_new and raw_of = "\<lambda>k. k"])
    (auto simp: producer_id_new_def fits_int_def split: if_splits)

lemma producer_epoch_codec: "codec (put_int 2) (\<lambda>c. bindR (cur_int 2 c) (\<lambda>(x, c).
    bindR (cur_checked c (producer_epoch_new x)) (\<lambda>y. Inr (y, c)))) (valid_nonneg 2)"
  by (rule codec_checkedI [OF sint.codec_axioms, where check = producer_epoch_new and raw_of = "\<lambda>k. k"])
    (auto simp: producer_epoch_new_def fits_int_def split: if_splits)

lemma timestamp_codec: "codec (put_int 8) (\<lambda>c. bindR (cur_i64 c) (\<lambda>(x, c).
    bindR (cur_checked c (timestamp_from_millis x)) (\<lambda>y. Inr (y, c)))) (valid_nonneg 8)"
  by (rule codec_checkedI [OF sint.codec_axioms, where check = timestamp_from_millis and raw_of = "\<lambda>k. k"])
    (auto simp: timestamp_from_millis_def fits_int_def split: if_splits)

lemma identity_codec:
  "codec (\<lambda>out p. bindR (put_int 8 out (pid_id p)) (\<lambda>out.
       bindR (put_int 2 out (pid_epoch p)) (\<lambda>out. put_int 4 out (pid_sequence p))))
     (\<lambda>cur. bindR (cur_i64 cur) (\<lambda>(raw_id, cur).
       bindR (cur_checked cur (producer_id_new raw_id)) (\<lambda>id.
       bindR (cur_int 2 cur) (\<lambda>(raw_epoch, cur).
       bindR (cur_checked cur (producer_epoch_new raw_epoch)) (\<lambda>epoch.
       bindR (cur_int 4 cur) (\<lambda>(sequence, cur).
         Inr (\<lparr>pid_id = id, pid_epoch = epoch, pid_sequence = sequence\<rparr>, cur)))))))
     valid_producer"
  by (rule codec_recordI [OF producer_id_codec codec_pair [OF producer_epoch_codec sint.codec_axioms],
        where build = "\<lambda>id (epoch, sequence). \<lparr>pid_id = id, pid_epoch = epoch, pid_sequence = sequence\<rparr>"
          and fst_of = pid_id and snd_of = "\<lambda>p. (pid_epoch p, pid_sequence p)"])
    (auto simp: bindR_assoc split_def valid_producer_def)

lemma producer_codec:
  "codec encode_producer decode_producer (\<lambda>x. \<forall>p. x = Some p \<longrightarrow> valid_producer p)"
  by (rule codec_optionI [OF identity_codec])
    (simp_all add: encode_producer_def decode_producer_def bindR_assoc split_def cong: if_cong)

lemma span_codec: "codec encode_span decode_span valid_span"
  by (rule codec_recordI [OF partition_codec
        codec_pair [OF uint.codec_axioms codec_pair [OF bytes_codec producer_codec]],
        where build = "\<lambda>(topic, part) (records, bytes, producer).
            \<lparr>cs_topic = topic, cs_partition = part, cs_count = records, cs_bytes = bytes, cs_producer = producer\<rparr>"
          and fst_of = "\<lambda>s. (cs_topic s, cs_partition s)" and snd_of = "\<lambda>s. (cs_count s, cs_bytes s, cs_producer s)"])
    (auto simp: encode_span_def decode_span_def bindR_assoc split_def valid_span_def)

lemma spans_codec:
  "codec (\<lambda>out xs. bindR (put_len32 out (length xs)) (\<lambda>out. foldR encode_span out xs))
     (\<lambda>c. bindR (cur_u32 c) (\<lambda>(n, c). cur_repeat decode_span n c)) (\<lambda>xs. \<forall>x\<in>set xs. valid_span x)"
  by (rule codec.counted_list [OF span_codec])

lemma retention_codec: "codec put_retention get_retention (\<lambda>x. \<forall>y. x = Some y \<longrightarrow> fits_int 8 y)"
  by (rule codec_optionI [OF sint.codec_axioms [of 8]]) (simp_all add: put_retention_def get_retention_def)

section \<open>Records read back\<close>

definition valid_record :: "metadata_record \<Rightarrow> bool" where
  "valid_record rec =
     (case rec of
        BatchCommitted object spans written_at \<Rightarrow>
          valid_name object \<and> (\<forall>s\<in>set spans. valid_span s) \<and> valid_nonneg 8 written_at
      | ManifestPublished topic part manifest up_to \<Rightarrow>
          valid_name topic \<and> valid_nonneg 4 part \<and> valid_name manifest \<and> valid_nonneg 8 up_to
      | RangeCompacted topic part retiring installing \<Rightarrow>
          valid_name topic \<and> valid_nonneg 4 part \<and>
          (\<forall>r\<in>set retiring. valid_ref r) \<and> (\<forall>r\<in>set installing. valid_ref r)
      | Trimmed topic part start \<Rightarrow> valid_name topic \<and> valid_nonneg 4 part \<and> valid_nonneg 8 start
      | EpochChanged epoch \<Rightarrow> fits_u 8 epoch
      | TopicRetentionChanged topic retention_ms \<Rightarrow>
          valid_name topic \<and> (\<forall>ms. retention_ms = Some ms \<longrightarrow> fits_int 8 ms))"

text \<open>One codec per alternative, on the records of that alternative: the fields after the tag.\<close>

definition batch_fields :: "metadata_record \<Rightarrow> object_key \<times> timestamp \<times> committed_span list" where
  "batch_fields rec = (case rec of BatchCommitted object spans written_at \<Rightarrow> (object, written_at, spans)
     | _ \<Rightarrow> ([], 0, []))"

definition manifest_fields :: "metadata_record \<Rightarrow> pkey \<times> object_key \<times> offset" where
  "manifest_fields rec = (case rec of ManifestPublished topic part manifest up_to \<Rightarrow>
     ((topic, part), manifest, up_to) | _ \<Rightarrow> (([], 0), [], 0))"

definition compacted_fields :: "metadata_record \<Rightarrow> pkey \<times> object_ref list \<times> object_ref list" where
  "compacted_fields rec = (case rec of RangeCompacted topic part retiring installing \<Rightarrow>
     ((topic, part), retiring, installing) | _ \<Rightarrow> (([], 0), [], []))"

definition trimmed_fields :: "metadata_record \<Rightarrow> pkey \<times> offset" where
  "trimmed_fields rec = (case rec of Trimmed topic part start \<Rightarrow> ((topic, part), start) | _ \<Rightarrow> (([], 0), 0))"

definition epoch_field :: "metadata_record \<Rightarrow> nat" where
  "epoch_field rec = (case rec of EpochChanged epoch \<Rightarrow> epoch | _ \<Rightarrow> 0)"

definition retention_fields :: "metadata_record \<Rightarrow> topic_id \<times> int option" where
  "retention_fields rec = (case rec of TopicRetentionChanged topic ms \<Rightarrow> (topic, ms) | _ \<Rightarrow> ([], None))"

lemmas field_defs = batch_fields_def manifest_fields_def compacted_fields_def trimmed_fields_def
  epoch_field_def retention_fields_def

lemma batch_codec:
  "codec (\<lambda>out r. bindR (put_str out (fst (batch_fields r))) (\<lambda>out.
       bindR (put_int 8 out (fst (snd (batch_fields r)))) (\<lambda>out.
       bindR (put_len32 out (length (snd (snd (batch_fields r))))) (\<lambda>out.
         foldR encode_span out (snd (snd (batch_fields r)))))))
     decode_batch (\<lambda>r. valid_record r \<and> (\<exists>object spans at. r = BatchCommitted object spans at))"
  by (rule codec_checkedI [OF codec_pair [OF key_codec codec_pair [OF timestamp_codec spans_codec]],
        where check = "\<lambda>(object, at, spans). Inr (BatchCommitted object spans at)" and raw_of = batch_fields])
    (auto simp: batch_fields_def decode_batch_def bindR_assoc split_def valid_record_def
      split: metadata_record.splits)


lemma manifest_codec:
  "codec (\<lambda>out r. bindR (put_partition out (fst (manifest_fields r))) (\<lambda>out.
       bindR (put_str out (fst (snd (manifest_fields r)))) (\<lambda>out. put_int 8 out (snd (snd (manifest_fields r))))))
     decode_manifest (\<lambda>r. valid_record r \<and> (\<exists>t p m u. r = ManifestPublished t p m u))"
  by (rule codec_checkedI [OF codec_pair [OF partition_codec codec_pair [OF key_codec offset_codec]],
        where check = "\<lambda>((topic, part), manifest, up_to). Inr (ManifestPublished topic part manifest up_to)"
          and raw_of = manifest_fields])
    (auto simp: manifest_fields_def decode_manifest_def bindR_assoc split_def valid_record_def
      split: metadata_record.splits)

lemma compacted_codec:
  "codec (\<lambda>out r. bindR (put_partition out (fst (compacted_fields r))) (\<lambda>out.
       bindR (put_refs out (fst (snd (compacted_fields r)))) (\<lambda>out. put_refs out (snd (snd (compacted_fields r))))))
     decode_compacted (\<lambda>r. valid_record r \<and> (\<exists>t p a b. r = RangeCompacted t p a b))"
  by (rule codec_checkedI [OF codec_pair [OF partition_codec codec_pair [OF refs_codec refs_codec]],
        where check = "\<lambda>((topic, part), retiring, installing). Inr (RangeCompacted topic part retiring installing)"
          and raw_of = compacted_fields])
    (auto simp: compacted_fields_def decode_compacted_def bindR_assoc split_def valid_record_def
      split: metadata_record.splits)

lemma trimmed_codec:
  "codec (\<lambda>out r. bindR (put_partition out (fst (trimmed_fields r))) (\<lambda>out.
       put_int 8 out (snd (trimmed_fields r))))
     decode_trimmed (\<lambda>r. valid_record r \<and> (\<exists>t p s. r = Trimmed t p s))"
  by (rule codec_checkedI [OF codec_pair [OF partition_codec offset_codec],
        where check = "\<lambda>((topic, part), start). Inr (Trimmed topic part start)" and raw_of = trimmed_fields])
    (auto simp: trimmed_fields_def decode_trimmed_def bindR_assoc split_def valid_record_def
      split: metadata_record.splits)

lemma epoch_codec:
  "codec (\<lambda>out r. put_uint 8 out (epoch_field r)) decode_epoch
     (\<lambda>r. valid_record r \<and> (\<exists>e. r = EpochChanged e))"
  by (rule codec_checkedI [OF uint.codec_axioms [of 8],
        where check = "\<lambda>epoch. Inr (EpochChanged epoch)" and raw_of = epoch_field])
    (auto simp: epoch_field_def decode_epoch_def valid_record_def split: metadata_record.splits)

lemma retention_record_codec:
  "codec (\<lambda>out r. bindR (put_str out (fst (retention_fields r))) (\<lambda>out.
       put_retention out (snd (retention_fields r))))
     decode_retention (\<lambda>r. valid_record r \<and> (\<exists>t ms. r = TopicRetentionChanged t ms))"
  by (rule codec_checkedI [OF codec_pair [OF topic_codec retention_codec],
        where check = "\<lambda>(topic, ms). Inr (TopicRetentionChanged topic ms)" and raw_of = retention_fields])
    (auto simp: retention_fields_def decode_retention_def bindR_assoc split_def valid_record_def
      split: metadata_record.splits)

definition decode_tagged :: "nat \<Rightarrow> nat \<Rightarrow> metadata_record reader_of" where
  "decode_tagged at tag cur =
     (if tag = TAG_BATCH then decode_batch cur
      else if tag = TAG_MANIFEST then decode_manifest cur
      else if tag = TAG_COMPACTED then decode_compacted cur
      else if tag = TAG_TRIMMED then decode_trimmed cur
      else if tag = TAG_EPOCH then decode_epoch cur
      else if tag = TAG_RETENTION then decode_retention cur
      else Inl (MalformedMetadataSegment at))"

lemma decode_record_tagged:
  "\<forall>c. decode_record c = bindR (cur_u8 c) (\<lambda>(tag, c'). decode_tagged (cur_at c) tag c')"
  by (simp add: decode_record_def decode_tagged_def Let_def)

lemmas encode_alternatives = encode_record_def encode_batch_def encode_manifest_def encode_compacted_def
  encode_trimmed_def encode_epoch_def encode_retention_def

lemma alternative_written:
  assumes "codec putX getX validX" "validX r" "is_ok (encode_record out r)" "t < 256"
    and "\<forall>out. encode_record out r = bindR (put_uint 1 out t) (\<lambda>out. putX out r)"
    and "\<forall>at c. decode_tagged at t c = getX c"
  shows "\<exists>bs. writes encode_record r bs \<and> reads decode_record r bs"
  by (rule tagged_written [where put = encode_record and get = decode_record and pick = decode_tagged,
        OF assms(1-5) decode_record_tagged assms(6)])

lemma alternative_read:
  assumes "codec putX getX validX" "cur_u8 c = Inr (t, d)" "getX d = Inr (r, c')"
    and "\<forall>out r. validX r \<longrightarrow> encode_record out r = bindR (put_uint 1 out t) (\<lambda>out. putX out r)"
    and "\<forall>r. validX r \<longrightarrow> valid_record r"
  shows "valid_record r \<and> (\<exists>bs. consumed c c' bs \<and> writes encode_record r bs)"
  using tagged_read [where put = encode_record, OF assms(1-4)] assms(5) by blast

lemmas alternative_simps = encode_alternatives decode_tagged_def tag_defs field_defs

lemma record_written:
  assumes "valid_record r" and ok: "is_ok (encode_record out r)"
  shows "\<exists>bs. writes encode_record r bs \<and> reads decode_record r bs"
proof (cases r)
  case BatchCommitted
  with assms show ?thesis
    by (intro alternative_written [OF batch_codec _ ok, of TAG_BATCH]) (simp_all add: alternative_simps)
next
  case ManifestPublished
  with assms show ?thesis
    by (intro alternative_written [OF manifest_codec _ ok, of TAG_MANIFEST]) (simp_all add: alternative_simps)
next
  case RangeCompacted
  with assms show ?thesis
    by (intro alternative_written [OF compacted_codec _ ok, of TAG_COMPACTED]) (simp_all add: alternative_simps)
next
  case Trimmed
  with assms show ?thesis
    by (intro alternative_written [OF trimmed_codec _ ok, of TAG_TRIMMED]) (simp_all add: alternative_simps)
next
  case EpochChanged
  with assms show ?thesis
    by (intro alternative_written [OF epoch_codec _ ok, of TAG_EPOCH]) (simp_all add: alternative_simps)
next
  case TopicRetentionChanged
  with assms show ?thesis
    by (intro alternative_written [OF retention_record_codec _ ok, of TAG_RETENTION]) (simp_all add: alternative_simps)
qed

lemma decode_taggedE:
  assumes "decode_tagged at tag d = Inr (r, c')"
  obtains "tag = TAG_BATCH" "decode_batch d = Inr (r, c')"
    | "tag = TAG_MANIFEST" "decode_manifest d = Inr (r, c')"
    | "tag = TAG_COMPACTED" "decode_compacted d = Inr (r, c')"
    | "tag = TAG_TRIMMED" "decode_trimmed d = Inr (r, c')"
    | "tag = TAG_EPOCH" "decode_epoch d = Inr (r, c')"
    | "tag = TAG_RETENTION" "decode_retention d = Inr (r, c')"
  using assms unfolding decode_tagged_def by (auto split: if_splits)

lemma record_read:
  assumes "decode_record c = Inr (r, c')"
  shows "valid_record r \<and> (\<exists>bs. consumed c c' bs \<and> writes encode_record r bs)"
proof -
  from assms obtain tag d where u: "cur_u8 c = Inr (tag, d)" and "decode_tagged (cur_at c) tag d = Inr (r, c')"
    by (auto simp: decode_record_tagged bindR_Inr_iff)
  from this(2) show ?thesis
  proof (cases rule: decode_taggedE)
    case 1
    show ?thesis
      by (rule alternative_read [OF batch_codec u 1(2)]) (auto simp: alternative_simps 1(1))
  next
    case 2
    show ?thesis
      by (rule alternative_read [OF manifest_codec u 2(2)]) (auto simp: alternative_simps 2(1))
  next
    case 3
    show ?thesis
      by (rule alternative_read [OF compacted_codec u 3(2)]) (auto simp: alternative_simps 3(1))
  next
    case 4
    show ?thesis
      by (rule alternative_read [OF trimmed_codec u 4(2)]) (auto simp: alternative_simps 4(1))
  next
    case 5
    show ?thesis
      by (rule alternative_read [OF epoch_codec u 5(2)]) (auto simp: alternative_simps 5(1))
  next
    case 6
    show ?thesis
      by (rule alternative_read [OF retention_record_codec u 6(2)]) (auto simp: alternative_simps 6(1))
  qed
qed

interpretation rec_codec: codec encode_record decode_record valid_record
  by unfold_locales (use record_written record_read in blast)+

definition valid_entry :: "metadata_entry \<Rightarrow> bool" where
  "valid_entry e \<longleftrightarrow> fits_u 8 (me_version e) \<and> valid_record (me_record e)"

lemma entry_codec: "codec encode_entry decode_entry valid_entry"
  by (rule codec_recordI [OF uint.codec_axioms [of 8] rec_codec.codec_axioms,
        where build = "\<lambda>version rec. \<lparr>me_version = version, me_record = rec\<rparr>"
          and fst_of = me_version and snd_of = me_record])
    (auto simp: encode_entry_def decode_entry_def valid_entry_def)

section \<open>The round trip\<close>

definition get_entries :: "metadata_entry list reader_of" where
  "get_entries c = bindR (cur_u32 c) (\<lambda>(n, c). cur_repeat decode_entry n c)"

definition put_entries :: "metadata_entry list writer_of" where
  "put_entries out xs = bindR (put_len32 out (length xs)) (\<lambda>out. foldR encode_entry out xs)"

lemma entries_codec: "codec put_entries get_entries (\<lambda>xs. \<forall>x\<in>set xs. valid_entry x)"
  using codec.counted_list [OF entry_codec] by (simp add: get_entries_def [abs_def] put_entries_def [abs_def])

lemma segment_framed:
  "encode_segment entries = framed_put SEGMENT_MAGIC SEGMENT_FORMAT put_entries entries"
  "decode_segment bytes = framed_get SEGMENT_MAGIC SEGMENT_FORMAT get_entries bytes"
  by (simp add: encode_segment_def framed_put_def put_entries_def put_uint_def)
    (simp only: decode_segment_def framed_get_def get_entries_def bindR_assoc split_def)

lemma segment_head: "length SEGMENT_MAGIC = 4" "SEGMENT_FORMAT < 256"
  by (simp_all add: SEGMENT_MAGIC_def SEGMENT_FORMAT_def)

lemma segment_iff:
  "decode_segment bytes = Inr entries \<longleftrightarrow> encode_segment entries = Inr bytes \<and> (\<forall>e\<in>set entries. valid_entry e)"
  unfolding segment_framed by (rule framed_iff [OF entries_codec segment_head])

lemma segment_decodes:
  "\<forall>e\<in>set entries. valid_entry e \<Longrightarrow> encode_segment entries = Inr bytes \<Longrightarrow> decode_segment bytes = Inr entries"
  by (simp add: segment_iff)

text \<open>C24. The segment format is a bijection: the decoder accepts exactly the bytes the encoder writes.
  Bytes decode to a list of entries if and only if that list, every field within its type's range,
  encodes to those bytes; so decoding loses nothing, no segment has two readings, and no entry list
  has two encodings.\<close>

theorem segment_round_trip:
  "decode_segment bytes = Inr entries \<longleftrightarrow>
     encode_segment entries = Inr bytes \<and> list_all valid_entry entries"
  by (simp add: segment_iff list_all_iff)

section \<open>Refusals\<close>

lemma tame_records:
  shows tame_bytes: "tame decode_bytes" and tame_producer: "tame decode_producer"
    and tame_retention: "tame get_retention"
  unfolding decode_bytes_def [abs_def] decode_producer_def [abs_def] get_retention_def [abs_def]
  by (intro tame_intros)+

lemma tame_span: "tame decode_span"
  unfolding decode_span_def [abs_def] by (intro tame_intros tame_records)

lemma tame_alternatives:
  "tame decode_batch" "tame decode_manifest" "tame decode_compacted" "tame decode_trimmed"
  "tame decode_epoch" "tame decode_retention"
  unfolding decode_batch_def [abs_def] decode_manifest_def [abs_def] decode_compacted_def [abs_def]
    decode_trimmed_def [abs_def] decode_epoch_def [abs_def] decode_retention_def [abs_def]
  by (intro tame_intros tame_span tame_retention)+

lemma tame_record: "tame decode_record"
  by (rule tame_tagged [where pick = decode_tagged])
    (auto simp: decode_record_tagged decode_tagged_def tame_alternatives intro!: tame_inside)

lemma tame_entries: "tame get_entries"
  unfolding get_entries_def [abs_def] decode_entry_def [abs_def] by (intro tame_intros tame_record)

text \<open>The decoder refuses cleanly: on any bytes at all it returns entries or a malformed-segment
  error whose position lies inside the input; no read is out of bounds and no other error escapes.\<close>

lemma segment_refusals_are_positions:
  "(\<exists>entries. decode_segment bytes = Inr entries) \<or>
   (\<exists>at\<le>length bytes. decode_segment bytes = Inl (MalformedMetadataSegment at))"
  unfolding segment_framed by (rule framed_refuses [OF tame_entries])

end
