(* ===== verification/Segment_Durability.thy ===== *)
theory Segment_Durability
  imports Segment_Log Metadata_Segment
begin

text \<open>
  What the object-store log keeps.  \<open>log_at\<close> says that a store holds the log \<open>L\<close>: its base
  generations, the snapshot the newest names, the live segments after it.  Opening such a store
  reads \<open>L\<close>; an append extends it; a checkpoint moves its layout and keeps its contents, at every
  one of its steps, whatever fails.

  The format is the locale \<open>segment_codec\<close>: what is encoded decodes.  The metadata segments
  interpret it.
\<close>

section \<open>Increasing versions\<close>

definition rising :: "'e segment_format \<Rightarrow> commit_version option \<Rightarrow> 'e list \<Rightarrow> bool" where
  "rising F previous es \<longleftrightarrow>
     sorted_wrt (<) (map (sf_version F) es) \<and>
     (\<forall>p. previous = Some p \<longrightarrow> (\<forall>e\<in>set es. p < sf_version F e))"

lemma rising_Nil [simp]: "rising F p []"
  by (simp add: rising_def)

lemma rising_Cons:
  "rising F previous (e # es) \<longleftrightarrow>
     (\<forall>p. previous = Some p \<longrightarrow> p < sf_version F e) \<and> rising F (Some (sf_version F e)) es"
  by (force simp: rising_def)

lemma validate_log_iff: "validate_log F es previous = Inr () \<longleftrightarrow> rising F previous es"
  by (induction F es previous rule: validate_log.induct)
    (auto simp: rising_Cons Let_def split: option.splits)

lemma rising_append: "rising F None (xs @ ys) \<longleftrightarrow> rising F None xs \<and> rising F (last_of F xs) ys"
proof (induction xs rule: rev_induct)
  case (snoc x xs)
  have "rising F None ((xs @ [x]) @ ys) \<longleftrightarrow> rising F None (xs @ [x]) \<and> rising F (Some (sf_version F x)) ys"
    by (fastforce simp: rising_def sorted_wrt_append)
  then show ?case by (simp add: last_of_def)
qed (simp add: last_of_def)

lemma rising_prefix_last:
  assumes "rising F None (xs @ ys)" "last_of F xs = last_of F (xs @ ys)"
  shows "ys = []"
proof (rule ccontr)
  assume "ys \<noteq> []"
  then have "last ys \<in> set ys" by simp
  moreover from assms(1) have "rising F (last_of F xs) ys" by (simp add: rising_append)
  ultimately show False using assms(2) \<open>ys \<noteq> []\<close> by (auto simp: last_of_def rising_def)
qed

section \<open>The base round trip\<close>

lemma base_round_trip:
  assumes "base_encode base = Inr bytes" "lb_seq base \<le> u64_max"
    and "\<forall>k. lb_snapshot base = Some k \<longrightarrow> k \<noteq> [] \<and> utf8 k"
  shows "base_decode bytes = Inr base"
proof -
  define key where "key = (case lb_snapshot base of Some k \<Rightarrow> k | None \<Rightarrow> [])"
  have k: "length key < 2 ^ 16" "utf8 key"
    "bytes = BASE_MAGIC @ be_bytes 8 (lb_seq base) @ be_bytes 2 (length key) @ as_bytes key"
    using assms(1,3) by (auto simp: base_encode_def key_def Let_def as_bytes_def split: if_splits option.splits)
  have m: "length BASE_MAGIC = 4" by (simp add: BASE_MAGIC_def)
  have "take 4 bytes = BASE_MAGIC" "take 8 (drop 4 bytes) = be_bytes 8 (lb_seq base)"
    "take 2 (drop 12 bytes) = be_bytes 2 (length key)" "drop 14 bytes = as_bytes key"
    "length bytes = 14 + length key"
    using m by (simp_all add: k(3))
  moreover have "lb_seq base < 256 ^ 8" "length key < 256 ^ 2" using assms(2) k(1) by simp_all
  moreover have "\<lparr>lb_seq = lb_seq base, lb_snapshot = (if key = [] then None else Some key)\<rparr> = base"
    using assms(3) by (cases base) (auto simp: key_def split: option.splits)
  ultimately show ?thesis
    using k(1,2) by (auto simp: base_decode_def Let_def object_key_new_def m split: if_splits)
qed

section \<open>A store that holds a log\<close>

definition newest_base :: "log_base list \<Rightarrow> log_base" where
  "newest_base gens = (if gens = [] then \<lparr>lb_seq = 0, lb_snapshot = None\<rparr> else last gens)"

definition base_generation :: "log_base list \<Rightarrow> nat option" where
  "base_generation gens = (if gens = [] then None else Some (length gens - 1))"

definition log_at ::
  "'e segment_format \<Rightarrow> string \<Rightarrow> store \<Rightarrow> log_base list \<Rightarrow> 'e list \<Rightarrow> 'e list list \<Rightarrow> 'e list \<Rightarrow> bool" where
  "log_at F prefix \<sigma> gens snap segs L \<longleftrightarrow>
     (\<forall>g. if g < length gens
          then \<exists>bytes. payload_at \<sigma> (seq_key prefix ''base'' g) = Some bytes \<and> base_decode bytes = Inr (gens ! g)
          else payload_at \<sigma> (seq_key prefix ''base'' g) = None) \<and>
     (case lb_snapshot (newest_base gens) of
        None \<Rightarrow> snap = []
      | Some key \<Rightarrow> (\<exists>v bytes. key = seq_key prefix ''snap'' v \<and>
          payload_at \<sigma> key = Some bytes \<and> sf_decode F bytes = Inr snap)) \<and>
     (\<forall>i<length segs. \<exists>bytes. payload_at \<sigma> (seq_key prefix ''log'' (lb_seq (newest_base gens) + i)) = Some bytes \<and>
        sf_decode F bytes = Inr (segs ! i)) \<and>
     (\<forall>i\<ge>length segs. payload_at \<sigma> (seq_key prefix ''log'' (lb_seq (newest_base gens) + i)) = None) \<and>
     L = snap @ concat segs \<and> rising F None L \<and>
     length gens \<le> 2 ^ 63 \<and> lb_seq (newest_base gens) + length segs \<le> u64_max \<and>
     (\<forall>v bytes. payload_at \<sigma> (seq_key prefix ''snap'' v) = Some bytes \<longrightarrow>
        (\<exists>pre post. sf_decode F bytes = Inr pre \<and> L = pre @ post \<and> last_of F pre = Some v))"

lemma log_atI:
  assumes "\<And>g. if g < length gens
      then \<exists>bytes. payload_at \<sigma> (seq_key prefix ''base'' g) = Some bytes \<and> base_decode bytes = Inr (gens ! g)
      else payload_at \<sigma> (seq_key prefix ''base'' g) = None"
    and "case lb_snapshot (newest_base gens) of
        None \<Rightarrow> snap = []
      | Some key \<Rightarrow> (\<exists>v bytes. key = seq_key prefix ''snap'' v \<and>
          payload_at \<sigma> key = Some bytes \<and> sf_decode F bytes = Inr snap)"
    and "\<And>i. i < length segs \<Longrightarrow> \<exists>bytes. payload_at \<sigma> (seq_key prefix ''log'' (lb_seq (newest_base gens) + i)) = Some bytes \<and>
        sf_decode F bytes = Inr (segs ! i)"
    and "\<And>i. i \<ge> length segs \<Longrightarrow> payload_at \<sigma> (seq_key prefix ''log'' (lb_seq (newest_base gens) + i)) = None"
    and "L = snap @ concat segs \<and> rising F None L"
    and "length gens \<le> 2 ^ 63 \<and> lb_seq (newest_base gens) + length segs \<le> u64_max"
    and "\<And>v bytes. payload_at \<sigma> (seq_key prefix ''snap'' v) = Some bytes \<Longrightarrow>
        \<exists>pre post. sf_decode F bytes = Inr pre \<and> L = pre @ post \<and> last_of F pre = Some v"
  shows "log_at F prefix \<sigma> gens snap segs L"
  unfolding log_at_def using assms by blast

definition opened_state :: "log_base list \<Rightarrow> 'e list list \<Rightarrow> 'e list \<Rightarrow> nat \<Rightarrow> 'e log_state" where
  "opened_state gens segs L bytes =
     \<lparr>ls_next_seq = lb_seq (newest_base gens) + length segs, ls_entries = L,
      ls_generation = base_generation gens, ls_base_seq = lb_seq (newest_base gens),
      ls_snapshot = lb_snapshot (newest_base gens), ls_unsnapshotted_bytes = bytes\<rparr>"

lemma log_at_base:
  "log_at F prefix \<sigma> gens snap segs L \<Longrightarrow>
     if g < length gens
     then \<exists>bytes. payload_at \<sigma> (seq_key prefix ''base'' g) = Some bytes \<and> base_decode bytes = Inr (gens ! g)
     else payload_at \<sigma> (seq_key prefix ''base'' g) = None"
  unfolding log_at_def by blast

lemma log_at_rising: "log_at F prefix \<sigma> gens snap segs L \<Longrightarrow> L = snap @ concat segs \<and> rising F None L"
  unfolding log_at_def by blast

lemma log_at_bounds:
  "log_at F prefix \<sigma> gens snap segs L \<Longrightarrow> length gens \<le> 2 ^ 63 \<and> lb_seq (newest_base gens) + length segs \<le> u64_max"
  unfolding log_at_def by blast

lemma log_at_segment:
  "log_at F prefix \<sigma> gens snap segs L \<Longrightarrow> i < length segs \<Longrightarrow>
     \<exists>bytes. payload_at \<sigma> (seq_key prefix ''log'' (lb_seq (newest_base gens) + i)) = Some bytes \<and>
       sf_decode F bytes = Inr (segs ! i)"
  unfolding log_at_def by blast

lemma log_at_tail:
  "log_at F prefix \<sigma> gens snap segs L \<Longrightarrow> i \<ge> length segs \<Longrightarrow>
     payload_at \<sigma> (seq_key prefix ''log'' (lb_seq (newest_base gens) + i)) = None"
  unfolding log_at_def by blast

lemma log_at_snapshot:
  "log_at F prefix \<sigma> gens snap segs L \<Longrightarrow>
     case lb_snapshot (newest_base gens) of
        None \<Rightarrow> snap = []
      | Some key \<Rightarrow> (\<exists>v bytes. key = seq_key prefix ''snap'' v \<and>
          payload_at \<sigma> key = Some bytes \<and> sf_decode F bytes = Inr snap)"
  unfolding log_at_def by blast

lemma log_at_snaps:
  "log_at F prefix \<sigma> gens snap segs L \<Longrightarrow> payload_at \<sigma> (seq_key prefix ''snap'' v) = Some bytes \<Longrightarrow>
     \<exists>pre post. sf_decode F bytes = Inr pre \<and> L = pre @ post \<and> last_of F pre = Some v"
  unfolding log_at_def by blast

section \<open>Opening reads it\<close>

lemma read_base_reads:
  assumes "log_at F prefix \<sigma> gens snap segs L"
  shows "io_run now (read_base prefix) \<sigma> s = (Inr (base_generation gens, newest_base gens), \<sigma>, s)"
proof -
  have "io_run now (base_probe prefix g) \<sigma> s = (Inr (if g < length gens then Some (gens ! g) else None), \<sigma>, s)" for g
    using log_at_base [OF assms, of g] by (auto simp: base_probe_def base_key_def get_full split: if_splits)
  then have "answers now \<sigma> s (base_probe prefix) (\<lambda>g. if g < length gens then Some (gens ! g) else None)"
    by (simp add: answers_def)
  from search_finds [OF this, of "length gens"] log_at_bounds [OF assms] show ?thesis
    by (auto simp: read_base_def io_run_await base_generation_def newest_base_def last_conv_nth)
qed

lemma walk_reads:
  assumes "log_at F prefix \<sigma> gens snap segs L" "i \<le> length segs"
  shows "io_run now (walk_segments F prefix (lb_seq (newest_base gens) + i) (snap @ concat (take i segs))) \<sigma> s =
    (Inr (L, lb_seq (newest_base gens) + length segs), \<sigma>, s)"
  using assms(2)
proof (induction "length segs - i" arbitrary: i)
  case 0
  then have "i = length segs" by simp
  with log_at_tail [OF assms(1), of "length segs"] log_at_rising [OF assms(1)] show ?case
    by (auto simp: walk_segments.simps [of F prefix "lb_seq (newest_base gens) + length segs"] segment_key_def get_full)
next
  case (Suc n)
  then have i: "i < length segs" "n = length segs - Suc i" "Suc i \<le> length segs" by simp_all
  from log_at_segment [OF assms(1) i(1)] obtain bytes
    where b: "payload_at \<sigma> (seq_key prefix ''log'' (lb_seq (newest_base gens) + i)) = Some bytes"
      "sf_decode F bytes = Inr (segs ! i)" by blast
  have split: "L = (snap @ concat (take i segs) @ segs ! i) @ concat (drop (Suc i) segs)"
  proof -
    have "segs = take i segs @ segs ! i # drop (Suc i) segs" by (rule id_take_nth_drop [OF i(1)])
    then have "concat segs = concat (take i segs) @ segs ! i @ concat (drop (Suc i) segs)"
      by (metis concat.simps(2) concat_append)
    with log_at_rising [OF assms(1)] show ?thesis by simp
  qed
  have "rising F (last_of F (snap @ concat (take i segs))) (segs ! i)"
  proof -
    have "rising F None ((snap @ concat (take i segs) @ segs ! i) @ concat (drop (Suc i) segs))"
      unfolding split [symmetric] using log_at_rising [OF assms(1)] by blast
    then have "rising F None (snap @ concat (take i segs) @ segs ! i)"
      using rising_append [of F "snap @ concat (take i segs) @ segs ! i"] by blast
    then show ?thesis using rising_append [of F "snap @ concat (take i segs)"] by auto
  qed
  then have v: "validate_log F (segs ! i) (last_of F (snap @ concat (take i segs))) = Inr ()"
    by (simp add: validate_log_iff)
  have n: "log_next (lb_seq (newest_base gens) + i) = Inr (lb_seq (newest_base gens) + Suc i)"
    using log_at_bounds [OF assms(1)] i(1) by (simp add: log_next_def)
  from Suc.hyps(1) [OF i(2,3)] i(1) show ?case
    by (simp add: walk_segments.simps [of F prefix "lb_seq (newest_base gens) + i"] segment_key_def get_full b v n
        take_Suc_conv_app_nth)
qed

lemma open_reads:
  assumes "log_at F prefix \<sigma> gens snap segs L"
  shows "io_run now (open_turn F prefix) \<sigma> s = (Inr (Some (opened_state gens segs L 0)), \<sigma>, s)"
proof -
  have "rising F None (snap @ concat segs)" using log_at_rising [OF assms] by auto
  then have "rising F None snap" unfolding rising_append by blast
  then have "validate_log F snap None = Inr ()" by (simp add: validate_log_iff)
  with log_at_snapshot [OF assms] walk_reads [OF assms, of 0]
  have "io_run now (walk F prefix (newest_base gens)) \<sigma> s = (Inr (L, lb_seq (newest_base gens) + length segs), \<sigma>, s)"
    by (auto simp: walk_def get_full split: option.splits)
  then show ?thesis by (simp add: open_turn_def io_run_await read_base_reads [OF assms] opened_state_def)
qed


section \<open>Programs that keep a property of the store\<close>

text \<open>\<open>keeps P Q p\<close>: run alone, with every fault, \<open>p\<close> has \<open>P\<close> of the store before and after each of its
  effects, and \<open>Q\<close> of what it returns.\<close>

primrec keeps ::
  "(store \<Rightarrow> bool) \<Rightarrow> ('a \<Rightarrow> store \<Rightarrow> 's \<Rightarrow> bool) \<Rightarrow> ('s, 'a) io \<Rightarrow> store \<Rightarrow> 's \<Rightarrow> bool" where
  "keeps P Q (Return x) \<sigma> s \<longleftrightarrow> P \<sigma> \<and> Q x \<sigma> s"
| "keeps P Q (Now k) \<sigma> s \<longleftrightarrow> P \<sigma> \<and> (\<forall>t. keeps P Q (k t) \<sigma> s)"
| "keeps P Q (Load k) \<sigma> s \<longleftrightarrow> P \<sigma> \<and> keeps P Q (k s) \<sigma> s"
| "keeps P Q (Modify g p) \<sigma> s \<longleftrightarrow> P \<sigma> \<and> keeps P Q p \<sigma> (g s)"
| "keeps P Q (Get key k) \<sigma> s \<longleftrightarrow> P \<sigma> \<and> keeps P Q (k (store_get \<sigma> key Full)) \<sigma> s \<and>
     (\<forall>e. e \<in> storm \<longrightarrow> keeps P Q (k (Inl e)) \<sigma> s)"
| "keeps P Q (Put key payload pre k) \<sigma> s \<longleftrightarrow> P \<sigma> \<and> (\<forall>e. e \<in> storm \<longrightarrow> keeps P Q (k (Inl e)) \<sigma> s) \<and>
     (\<forall>r \<sigma>'. store_put \<sigma> key payload pre = (r, \<sigma>') \<longrightarrow>
        keeps P Q (k r) \<sigma>' s \<and> (is_ok r \<longrightarrow> keeps P Q (k (Inl Transient)) \<sigma>' s))"
| "keeps P Q (Delete keys k) \<sigma> s \<longleftrightarrow> P \<sigma> \<and> keeps P Q (k (Inr ())) (store_delete \<sigma> keys) s \<and>
     (\<forall>e some. e \<in> storm \<longrightarrow> set some \<subseteq> set keys \<longrightarrow> keeps P Q (k (Inl e)) (store_delete \<sigma> some) s)"

definition some_step :: "store \<times> 's \<times> ('s, 'a) io \<Rightarrow> store \<times> 's \<times> ('s, 'a) io \<Rightarrow> bool" where
  "some_step c c' \<longleftrightarrow> (\<exists>now. io_step now c c')"

lemma keeps_now: "keeps P Q p \<sigma> s \<Longrightarrow> P \<sigma>"
  by (cases p) simp_all

lemma keeps_step:
  assumes "keeps P Q p \<sigma> s" "some_step (\<sigma>, s, p) (\<sigma>', s', p')"
  shows "keeps P Q p' \<sigma>' s'"
  using assms by (cases p) (auto simp: some_step_def)

lemma keeps_steps:
  assumes "some_step\<^sup>*\<^sup>* (\<sigma>, s, p) (\<sigma>', s', p')" "keeps P Q p \<sigma> s"
  shows "P \<sigma>' \<and> (\<forall>x. p' = Return x \<longrightarrow> Q x \<sigma>' s')"
proof -
  have "keeps P Q p' \<sigma>' s'"
    using assms by (induction "(\<sigma>', s', p')" arbitrary: \<sigma>' s' p' rule: rtranclp_induct) (auto intro: keeps_step)
  then show ?thesis using keeps_now by auto
qed

lemma run_some_steps:
  assumes "io_run now p \<sigma> s = (x, \<sigma>', s')"
  shows "some_step\<^sup>*\<^sup>* (\<sigma>, s, p) (\<sigma>', s', Return x)"
proof -
  have "io_step now \<le> some_step" by (rule predicate2I) (auto simp only: some_step_def)
  from predicate2D [OF rtranclp_mono [OF this] io_run_steps [OF assms]] show ?thesis .
qed

lemma keeps_run:
  assumes "keeps P Q p \<sigma> s" "io_run now p \<sigma> s = (x, \<sigma>', s')"
  shows "P \<sigma>' \<and> Q x \<sigma>' s'"
  using keeps_steps [OF run_some_steps [OF assms(2)] assms(1)] by simp

lemma keeps_await:
  "keeps P (\<lambda>r. keeps P Q (case r of Inl e \<Rightarrow> Return (Inl e) | Inr x \<Rightarrow> f x)) p \<sigma> s \<Longrightarrow>
     keeps P Q (await_io p f) \<sigma> s"
  unfolding await_io_def by (induction p arbitrary: \<sigma> s) auto

section \<open>Keys of different kinds\<close>

lemma seq_key_kinds [simp]:
  "seq_key prefix ''log'' a \<noteq> seq_key prefix ''base'' b" "seq_key prefix ''base'' b \<noteq> seq_key prefix ''log'' a"
  "seq_key prefix ''log'' a \<noteq> seq_key prefix ''snap'' b" "seq_key prefix ''snap'' b \<noteq> seq_key prefix ''log'' a"
  "seq_key prefix ''base'' a \<noteq> seq_key prefix ''snap'' b" "seq_key prefix ''snap'' b \<noteq> seq_key prefix ''base'' a"
  by (simp_all add: seq_key_def)

section \<open>Appending extends it\<close>

lemma log_at_append:
  assumes L: "log_at F prefix \<sigma> gens snap segs L"
    and other: "\<forall>k. k \<noteq> seq_key prefix ''log'' (lb_seq (newest_base gens) + length segs) \<longrightarrow>
      payload_at \<sigma>' k = payload_at \<sigma> k"
    and new: "payload_at \<sigma>' (seq_key prefix ''log'' (lb_seq (newest_base gens) + length segs)) = Some bytes"
      "sf_decode F bytes = Inr es" "rising F (last_of F L) es"
    and room: "lb_seq (newest_base gens) + length segs < u64_max"
  shows "log_at F prefix \<sigma>' gens snap (segs @ [es]) (L @ es)"
proof -
  have base: "payload_at \<sigma>' (seq_key prefix ''base'' g) = payload_at \<sigma> (seq_key prefix ''base'' g)"
    and snap: "payload_at \<sigma>' (seq_key prefix ''snap'' v) = payload_at \<sigma> (seq_key prefix ''snap'' v)" for g v
    using other by simp_all
  have seg: "\<exists>bytes. payload_at \<sigma>' (seq_key prefix ''log'' (lb_seq (newest_base gens) + i)) = Some bytes \<and>
      sf_decode F bytes = Inr ((segs @ [es]) ! i)" if "i < length (segs @ [es])" for i
    using that log_at_segment [OF L, of i] other new(1,2) by (cases "i = length segs") (auto simp: nth_append)
  have tail: "payload_at \<sigma>' (seq_key prefix ''log'' (lb_seq (newest_base gens) + i)) = None"
    if "i \<ge> length (segs @ [es])" for i
    using that log_at_tail [OF L, of i] other by simp
  have rise: "rising F None (L @ es)" using rising_append [of F L es] log_at_rising [OF L] new(3) by blast
  have snaps: "\<exists>pre post. sf_decode F b = Inr pre \<and> L @ es = pre @ post \<and> last_of F pre = Some v"
    if "payload_at \<sigma>' (seq_key prefix ''snap'' v) = Some b" for v b
    using log_at_snaps [OF L, of v b] that snap by auto
  have "case lb_snapshot (newest_base gens) of None \<Rightarrow> snap = []
      | Some key \<Rightarrow> \<exists>v b. key = seq_key prefix ''snap'' v \<and> payload_at \<sigma>' key = Some b \<and> sf_decode F b = Inr snap"
    using log_at_snapshot [OF L] snap by (auto split: option.splits)
  then show ?thesis
    unfolding log_at_def
    using log_at_base [OF L] base seg tail rise snaps log_at_bounds [OF L] log_at_rising [OF L] room by auto
qed

section \<open>Strings that concatenate\<close>

text \<open>One character at a time: the length of its encoding is that of its first byte.\<close>

lemma utf8_two:
  "\<not> b < 0x80 \<Longrightarrow> 0xC2 \<le> b \<and> b \<le> 0xDF \<Longrightarrow>
     utf8_bytes (b # bs) \<longleftrightarrow> (\<exists>c rest. bs = c # rest \<and> continuation c \<and> utf8_bytes rest)"
  by (auto split: list.splits)

lemma utf8_three:
  "\<not> b < 0x80 \<Longrightarrow> \<not> (0xC2 \<le> b \<and> b \<le> 0xDF) \<Longrightarrow> 0xE0 \<le> b \<and> b \<le> 0xEF \<Longrightarrow>
     utf8_bytes (b # bs) \<longleftrightarrow> (\<exists>c d rest. bs = c # d # rest \<and> (if b = 0xE0 then 0xA0 else 0x80) \<le> c \<and>
       c \<le> (if b = 0xED then 0x9F else 0xBF) \<and> continuation d \<and> utf8_bytes rest)"
  by (subst utf8_bytes.simps(2)) (simp only: if_True if_False simp_thms split: list.splits, auto)

lemma utf8_four:
  "\<not> b < 0x80 \<Longrightarrow> \<not> (0xC2 \<le> b \<and> b \<le> 0xDF) \<Longrightarrow> \<not> (0xE0 \<le> b \<and> b \<le> 0xEF) \<Longrightarrow>
     utf8_bytes (b # bs) \<longleftrightarrow> 0xF0 \<le> b \<and> b \<le> 0xF4 \<and> (\<exists>c d e rest. bs = c # d # e # rest \<and>
       (if b = 0xF0 then 0x90 else 0x80) \<le> c \<and> c \<le> (if b = 0xF4 then 0x8F else 0xBF) \<and>
       continuation d \<and> continuation e \<and> utf8_bytes rest)"
  by (subst utf8_bytes.simps(2)) (simp only: if_True if_False simp_thms split: list.splits, auto)

lemma utf8_append: "utf8_bytes xs \<Longrightarrow> utf8_bytes ys \<Longrightarrow> utf8_bytes (xs @ ys)"
proof (induction xs rule: utf8_bytes.induct)
  case (2 b bs)
  consider "b < 0x80" | "\<not> b < 0x80" "0xC2 \<le> b \<and> b \<le> 0xDF"
    | "\<not> b < 0x80" "\<not> (0xC2 \<le> b \<and> b \<le> 0xDF)" "0xE0 \<le> b \<and> b \<le> 0xEF"
    | "\<not> b < 0x80" "\<not> (0xC2 \<le> b \<and> b \<le> 0xDF)" "\<not> (0xE0 \<le> b \<and> b \<le> 0xEF)" by blast
  then show ?case
  proof cases
    case 1
    with 2 show ?thesis by simp
  next
    case b: 2
    note two = utf8_two [OF b]
    from "2.prems"(1) obtain c rest where c: "bs = c # rest" "continuation c" "utf8_bytes rest"
      unfolding two by blast
    with "2.IH"(2) [OF b c(1)] "2.prems"(2) show ?thesis by (simp only: append_Cons two) blast
  next
    case b: 3
    note three = utf8_three [OF b]
    from "2.prems"(1) obtain c d rest where c: "bs = c # d # rest" "continuation d" "utf8_bytes rest"
      "(if b = 0xE0 then 0xA0 else 0x80) \<le> c" "c \<le> (if b = 0xED then 0x9F else 0xBF)"
      unfolding three by blast
    have "utf8_bytes (rest @ ys)" using "2.IH"(3) [OF b c(1) refl c(3) "2.prems"(2)] .
    with c show ?thesis by (simp only: append_Cons three) blast
  next
    case b: 4
    note four = utf8_four [OF b]
    from "2.prems"(1) obtain c d e rest where c: "bs = c # d # e # rest" "continuation d" "continuation e" "utf8_bytes rest"
      "(if b = 0xF0 then 0x90 else 0x80) \<le> c" "c \<le> (if b = 0xF4 then 0x8F else 0xBF)"
      and f: "0xF0 \<le> b \<and> b \<le> 0xF4"
      unfolding four by blast
    have "utf8_bytes (rest @ ys)" using "2.IH"(4) [OF b f c(1) refl refl c(4) "2.prems"(2)] .
    with c f show ?thesis by (simp only: append_Cons four) blast
  qed
qed simp

lemma decimal_digits: "\<forall>c\<in>set (decimal n). of_char c < (0x80 :: nat)"
proof (induction n rule: decimal.induct)
  case (1 n)
  have digit: "of_char (char_of (48 + k) :: char) < (0x80 :: nat)" if "k < 10" for k :: nat
    using that by simp
  from 1 show ?case
    by (cases "n < 10") (auto simp: decimal.simps [of n] digit simp del: of_char_of)
qed

lemma seq_key_utf8:
  assumes "utf8 prefix" "dir \<in> {''log'', ''base'', ''snap'', ''lease''}"
  shows "utf8 (seq_key prefix dir n)"
proof -
  have "\<forall>c\<in>set (''/'' @ dir @ ''/'' @ pad20 n). of_char c < (0x80 :: nat)"
    using assms(2) decimal_digits [of n] by (auto simp: pad20_def)
  then have "\<forall>b\<in>set (as_bytes (''/'' @ dir @ ''/'' @ pad20 n)). b < 0x80"
    by (auto simp: as_bytes_def word_less_nat_alt unat_of_nat)
  from utf8_append [OF assms(1) utf8_ascii [OF this]] show ?thesis
    by (simp add: seq_key_def as_bytes_def)
qed

section \<open>Checkpoints keep it\<close>

text \<open>A snapshot of the log, or of a part of it that a stale handle still sees, under the name of its last
  version.\<close>

lemma log_at_new_snapshot:
  assumes L: "log_at F prefix \<sigma> gens snap segs L" "L = part @ rest" "last_of F part = Some lst"
    and other: "\<forall>k. k \<noteq> seq_key prefix ''snap'' lst \<longrightarrow> payload_at \<sigma>' k = payload_at \<sigma> k"
    and new: "payload_at \<sigma> (seq_key prefix ''snap'' lst) = None"
      "payload_at \<sigma>' (seq_key prefix ''snap'' lst) = Some bytes" "sf_decode F bytes = Inr part"
  shows "log_at F prefix \<sigma>' gens snap segs L"
proof -
  have same: "payload_at \<sigma>' (seq_key prefix ''base'' g) = payload_at \<sigma> (seq_key prefix ''base'' g)"
    "payload_at \<sigma>' (seq_key prefix ''log'' g) = payload_at \<sigma> (seq_key prefix ''log'' g)" for g
    using other by simp_all
  have snapshot: "case lb_snapshot (newest_base gens) of None \<Rightarrow> snap = []
      | Some key \<Rightarrow> \<exists>v b. key = seq_key prefix ''snap'' v \<and> payload_at \<sigma>' key = Some b \<and> sf_decode F b = Inr snap"
  proof (cases "lb_snapshot (newest_base gens)")
    case (Some key)
    with log_at_snapshot [OF L(1)] obtain v b where k: "key = seq_key prefix ''snap'' v" "payload_at \<sigma> key = Some b"
      "sf_decode F b = Inr snap" by auto
    with new(1) have "key \<noteq> seq_key prefix ''snap'' lst" by auto
    with other k Some show ?thesis by auto
  qed (use log_at_snapshot [OF L(1)] in simp)
  have snaps: "\<exists>pre post. sf_decode F b = Inr pre \<and> L = pre @ post \<and> last_of F pre = Some v"
    if "payload_at \<sigma>' (seq_key prefix ''snap'' v) = Some b" for v b
    using log_at_snaps [OF L(1), of v b] that other new L(2,3) by (cases "v = lst") auto
  show ?thesis
  proof (rule log_atI [OF _ snapshot])
    show "if g < length gens
      then \<exists>bytes. payload_at \<sigma>' (seq_key prefix ''base'' g) = Some bytes \<and> base_decode bytes = Inr (gens ! g)
      else payload_at \<sigma>' (seq_key prefix ''base'' g) = None" for g
      using log_at_base [OF L(1), of g] by (simp only: same)
    show "\<exists>bytes. payload_at \<sigma>' (seq_key prefix ''log'' (lb_seq (newest_base gens) + i)) = Some bytes \<and>
        sf_decode F bytes = Inr (segs ! i)" if "i < length segs" for i
      using log_at_segment [OF L(1) that] by (simp only: same)
    show "payload_at \<sigma>' (seq_key prefix ''log'' (lb_seq (newest_base gens) + i)) = None" if "i \<ge> length segs" for i
      using log_at_tail [OF L(1) that] by (simp only: same)
  qed (fact log_at_rising [OF L(1)] | fact log_at_bounds [OF L(1)] | rule snaps, assumption)+
qed

text \<open>A base that names that snapshot, and no segment after it yet.\<close>

lemma log_at_new_base:
  fixes F :: "'e segment_format"
  assumes L: "log_at F prefix \<sigma> gens snap segs L"
    and base: "base = \<lparr>lb_seq = lb_seq (newest_base gens) + length segs, lb_snapshot = Some (seq_key prefix ''snap'' lst)\<rparr>"
    and other: "\<forall>k. k \<noteq> seq_key prefix ''base'' (length gens) \<longrightarrow> payload_at \<sigma>' k = payload_at \<sigma> k"
    and new: "payload_at \<sigma>' (seq_key prefix ''base'' (length gens)) = Some bytes" "base_decode bytes = Inr base"
    and snap: "payload_at \<sigma> (seq_key prefix ''snap'' lst) = Some b" "sf_decode F b = Inr L"
    and room: "length gens < 2 ^ 63"
  shows "log_at F prefix \<sigma>' (gens @ [base]) L [] L"
proof -
  have nb: "newest_base (gens @ [base]) = base" by (simp add: newest_base_def)
  have gens: "if g < length (gens @ [base])
      then \<exists>bytes. payload_at \<sigma>' (seq_key prefix ''base'' g) = Some bytes \<and> base_decode bytes = Inr ((gens @ [base]) ! g)
      else payload_at \<sigma>' (seq_key prefix ''base'' g) = None" for g
    using log_at_base [OF L, of g] other new by (cases "g = length gens") (auto simp: nth_append less_Suc_eq)
  have tail: "payload_at \<sigma>' (seq_key prefix ''log'' (lb_seq base + i)) = None" for i
    using log_at_tail [OF L, of "length segs + i"] other by (simp add: base add.assoc)
  have snaps: "\<exists>pre post. sf_decode F b = Inr pre \<and> L = pre @ post \<and> last_of F pre = Some v"
    if "payload_at \<sigma>' (seq_key prefix ''snap'' v) = Some b" for v b
    using log_at_snaps [OF L, of v b] that other by simp
  have "payload_at \<sigma>' (seq_key prefix ''snap'' lst) = Some b" using other snap(1) by simp
  then have snapshot: "case lb_snapshot base of None \<Rightarrow> L = []
      | Some key \<Rightarrow> \<exists>v b. key = seq_key prefix ''snap'' v \<and> payload_at \<sigma>' key = Some b \<and> sf_decode F b = Inr L"
    using snap(2) by (auto simp: base)
  have "length (gens @ [base]) \<le> 2 ^ 63 \<and> lb_seq base + length ([] :: 'e list list) \<le> u64_max"
    using log_at_bounds [OF L] room by (simp add: base)
  moreover have "rising F None L" using log_at_rising [OF L] by blast
  ultimately show ?thesis
    using gens snapshot tail snaps by (intro log_atI) (unfold nb, simp_all)
qed

text \<open>What the snapshot replaced may go, all of it or any part.\<close>

lemma log_at_prune:
  assumes L: "log_at F prefix \<sigma> gens L [] L" and base: "lb_snapshot (newest_base gens) = Some snapshot"
    and retired: "set some \<subseteq> set (retired_keys prefix old_base (lb_seq (newest_base gens)) old_snapshot snapshot)"
    and old: "\<forall>k. old_snapshot = Some k \<longrightarrow> (\<exists>v. k = seq_key prefix ''snap'' v)"
  shows "log_at F prefix (store_delete \<sigma> some) gens L [] L"
proof -
  have some: "(\<exists>i<lb_seq (newest_base gens). k = seq_key prefix ''log'' i) \<or> (\<exists>v. k = seq_key prefix ''snap'' v \<and> k \<noteq> snapshot)"
    if "k \<in> set some" for k
    using that retired old by (fastforce simp: retired_keys_def split: option.splits if_splits)
  have "seq_key prefix ''base'' g \<notin> set some" for g using some by fastforce
  then have gens: "payload_at (store_delete \<sigma> some) (seq_key prefix ''base'' g) = payload_at \<sigma> (seq_key prefix ''base'' g)" for g
    by (simp add: payload_delete)
  have snapshot: "payload_at (store_delete \<sigma> some) snapshot = payload_at \<sigma> snapshot"
  proof -
    obtain v where "snapshot = seq_key prefix ''snap'' v" using log_at_snapshot [OF L] base by auto
    then have "snapshot \<notin> set some" using some by fastforce
    then show ?thesis by (simp add: payload_delete)
  qed
  have fewer: "payload_at (store_delete \<sigma> some) k = Some b \<Longrightarrow> payload_at \<sigma> k = Some b"
    "payload_at \<sigma> k = None \<Longrightarrow> payload_at (store_delete \<sigma> some) k = None" for k b
    by (auto simp: payload_delete split: if_splits)
  show ?thesis
  proof (rule log_atI, unfold gens)
    show "case lb_snapshot (newest_base gens) of None \<Rightarrow> L = []
      | Some key \<Rightarrow> \<exists>v b. key = seq_key prefix ''snap'' v \<and> payload_at (store_delete \<sigma> some) key = Some b \<and> sf_decode F b = Inr L"
      using log_at_snapshot [OF L] base snapshot by simp
    show "\<exists>pre post. sf_decode F b = Inr pre \<and> L = pre @ post \<and> last_of F pre = Some v"
      if "payload_at (store_delete \<sigma> some) (seq_key prefix ''snap'' v) = Some b" for v b
      by (rule log_at_snaps [OF L fewer(1) [OF that]])
    show "payload_at (store_delete \<sigma> some) (seq_key prefix ''log'' (lb_seq (newest_base gens) + i)) = None"
      for i
      by (rule fewer(2), rule log_at_tail [OF L]) simp
  qed (use log_at_base [OF L] log_at_rising [OF L] log_at_bounds [OF L] in auto)
qed

end
