(* ===== verification/Log_Durability.thy ===== *)
theory Log_Durability
  imports Segment_Durability "HOL-Library.Sublist"
begin

text \<open>
  The object-store log under every crash and fault of its writer.

  A handle may be stale without knowing: a put that landed and whose answer was lost leaves the
  store ahead of it.  \<open>view_of\<close> is what a handle still knows then, and \<open>append_keeps\<close> and
  \<open>checkpoint_keeps\<close> show that each operation keeps the log readable at every one of its steps and
  leaves such a handle behind.  \<open>log_reachable\<close> strings operations, faults, crashes and reopenings
  together.
\<close>

section \<open>What a handle knows\<close>

abbreviation log_tail :: "log_base list \<Rightarrow> 'e list list \<Rightarrow> nat" where
  "log_tail gens segs \<equiv> lb_seq (newest_base gens) + length segs"

abbreviation next_generation :: "'e log_state \<Rightarrow> nat" where
  "next_generation st \<equiv> (case ls_generation st of None \<Rightarrow> 0 | Some g \<Rightarrow> Suc g)"

definition view_of :: "log_base list \<Rightarrow> 'e list list \<Rightarrow> 'e list \<Rightarrow> 'e log_state \<Rightarrow> bool" where
  "view_of gens segs L st \<longleftrightarrow>
     lb_seq (newest_base gens) \<le> ls_next_seq st \<and> ls_next_seq st \<le> log_tail gens segs \<and>
     (\<exists>rest. L = ls_entries st @ rest) \<and> (ls_next_seq st = log_tail gens segs \<longrightarrow> ls_entries st = L) \<and>
     (next_generation st < length gens \<or>
      next_generation st = length gens \<and> ls_base_seq st = lb_seq (newest_base gens) \<and>
      ls_snapshot st = lb_snapshot (newest_base gens))"

lemma opened_view: "view_of gens segs L (opened_state gens segs L n)"
  by (auto simp: view_of_def opened_state_def base_generation_def)

lemma view_fresh:
  "view_of gens segs L st \<Longrightarrow> ls_next_seq st = log_tail gens segs \<Longrightarrow> ls_entries st = L"
  by (simp add: view_of_def)

lemma view_prefix: "view_of gens segs L st \<Longrightarrow> \<exists>rest. L = ls_entries st @ rest"
  by (simp add: view_of_def)

text \<open>Behind the tail, its next segment is already there.\<close>

lemma view_taken:
  assumes "log_at F pfx \<sigma> gens snap segs L" "view_of gens segs L st" "ls_next_seq st \<noteq> log_tail gens segs"
  shows "\<exists>bytes. payload_at \<sigma> (seq_key pfx ''log'' (ls_next_seq st)) = Some bytes"
proof -
  have "ls_next_seq st - lb_seq (newest_base gens) < length segs" "lb_seq (newest_base gens) \<le> ls_next_seq st"
    using assms(2,3) by (auto simp: view_of_def)
  from log_at_segment [OF assms(1) this(1)] this(2) show ?thesis by auto
qed

text \<open>Whatever is appended, it falls behind and knows nothing wrong.\<close>

lemma view_extended:
  assumes "view_of gens segs L st"
  shows "view_of gens (segs @ [es]) (L @ es) st"
  using assms by (auto simp: view_of_def)

lemma view_appended:
  assumes "view_of gens segs L st" "ls_next_seq st = log_tail gens segs"
  shows "view_of gens (segs @ [es]) (L @ es)
    (st\<lparr>ls_next_seq := Suc (ls_next_seq st), ls_entries := ls_entries st @ es, ls_unsnapshotted_bytes := n\<rparr>)"
  using assms by (auto simp: view_of_def)

text \<open>A base written from it makes its generation an old one.\<close>

lemma view_superseded:
  assumes "view_of gens segs L st" "ls_next_seq st = log_tail gens segs" "lb_seq base = ls_next_seq st"
    and "next_generation st = length gens"
  shows "view_of (gens @ [base]) [] L st"
  using assms by (auto simp: view_of_def newest_base_def)

lemma view_checkpointed:
  assumes "view_of gens segs L st" "ls_next_seq st = log_tail gens segs" "next_generation st = length gens"
    and "base = \<lparr>lb_seq = ls_next_seq st, lb_snapshot = Some snapshot\<rparr>"
  shows "view_of (gens @ [base]) [] L (st\<lparr>ls_generation := Some (length gens), ls_base_seq := ls_next_seq st,
    ls_snapshot := Some snapshot, ls_unsnapshotted_bytes := 0\<rparr>)"
  using assms by (auto simp: view_of_def newest_base_def)

section \<open>Programs that only read\<close>

text \<open>A fault of a read ends the program with that fault.\<close>

primrec reader :: "('s, 'a result) io \<Rightarrow> bool" where
  "reader (Return x) \<longleftrightarrow> True"
| "reader (Now k) \<longleftrightarrow> False"
| "reader (Load k) \<longleftrightarrow> False"
| "reader (Modify g p) \<longleftrightarrow> False"
| "reader (Get key k) \<longleftrightarrow> (\<forall>e\<in>storm. \<exists>e'. k (Inl e) = Return (Inl e')) \<and> (\<forall>r. reader (k r))"
| "reader (Put key payload pre k) \<longleftrightarrow> False"
| "reader (Delete keys k) \<longleftrightarrow> False"

lemma reader_await: "reader p \<Longrightarrow> (\<And>x. reader (f x)) \<Longrightarrow> reader (await_io p f)"
proof (induction p)
  case (Return r)
  then show ?case by (cases r) simp_all
next
  case (Get key k)
  then have "\<exists>e'. await_io (k (Inl e)) f = Return (Inl e')" if "e \<in> storm" for e using that by fastforce
  with Get show ?case by auto
qed simp_all

lemma reader_try: "(\<And>x. r = Inr x \<Longrightarrow> reader (f x)) \<Longrightarrow> reader (try_io r f)"
  by (cases r) simp_all

lemma reader_keeps:
  "reader p \<Longrightarrow> P \<sigma> \<Longrightarrow> io_run now p \<sigma> s = (answer, \<sigma>, s) \<Longrightarrow>
     (\<And>e. Q (Inl e) \<sigma> s) \<Longrightarrow> Q answer \<sigma> s \<Longrightarrow> keeps P Q p \<sigma> s"
proof (induction p)
  case (Get key k)
  from Get.prems(1) have "keeps P Q (k (Inl e)) \<sigma> s" if "e \<in> storm" for e
    using that Get.prems(2,4) by fastforce
  moreover have "keeps P Q (k (store_get \<sigma> key Full)) \<sigma> s"
    by (rule Get.IH) (use Get.prems in auto)
  ultimately show ?case using Get.prems(2) by simp
qed simp_all

lemma reader_bisect: "(\<And>t. reader (probe t)) \<Longrightarrow> reader (search_bisect probe n present absent found)"
  by (induction n arbitrary: present absent found) (auto simp: Let_def intro!: reader_await split: option.splits)

lemma reader_double: "(\<And>t. reader (probe t)) \<Longrightarrow> reader (search_double probe k present found)"
proof (induction probe k present found rule: search_double.induct)
  case (1 probe k present found)
  then show ?case
    by (subst search_double.simps) (auto simp: Let_def intro!: reader_await reader_bisect split: option.splits)
qed

lemma reader_newest: "(\<And>t. reader (probe t)) \<Longrightarrow> reader (search_newest probe)"
  by (auto simp: search_newest_def intro!: reader_await reader_double split: option.splits)

lemma reader_read_base: "reader (read_base pfx)"
  unfolding read_base_def
  by (intro reader_await reader_newest)
    (auto simp: base_probe_def storm_def intro!: reader_try split: sum.splits error.splits)

lemma reader_walk_segments: "reader (walk_segments F pfx seq entries)"
proof (induction F pfx seq entries rule: walk_segments.induct)
  case (1 F pfx seq entries)
  then show ?case
    by (subst walk_segments.simps)
      (auto simp: storm_def intro!: reader_try split: sum.splits error.splits)
qed

lemma reader_open_turn: "reader (open_turn F pfx)"
  unfolding open_turn_def
  by (auto intro!: reader_await reader_read_base reader_walk_segments reader_try
      simp: walk_def storm_def bindR_def split: option.splits sum.splits)

section \<open>Each operation, with its faults\<close>

lemma keeps_mono:
  assumes "keeps P Q p \<sigma> s" "\<And>\<sigma>. P \<sigma> \<Longrightarrow> P' \<sigma>" "\<And>x \<sigma> s. Q x \<sigma> s \<Longrightarrow> Q' x \<sigma> s"
  shows "keeps P' Q' p \<sigma> s"
  using assms by (induction p arbitrary: \<sigma> s) auto

lemma keeps_Put:
  assumes "P \<sigma>" "\<And>e. e \<in> storm \<Longrightarrow> keeps P Q (k (Inl e)) \<sigma> s"
    and "\<And>token \<sigma>'. store_put \<sigma> key payload pre = (Inr token, \<sigma>') \<Longrightarrow> keeps P Q (k (Inr token)) \<sigma>' s"
    and "\<And>token \<sigma>'. store_put \<sigma> key payload pre = (Inr token, \<sigma>') \<Longrightarrow> keeps P Q (k (Inl Transient)) \<sigma>' s"
    and "store_put \<sigma> key payload pre = (Inl (PreconditionFailed key), \<sigma>) \<Longrightarrow>
      keeps P Q (k (Inl (PreconditionFailed key))) \<sigma> s"
  shows "keeps P Q (Put key payload pre k) \<sigma> s"
proof -
  have "keeps P Q (k r) \<sigma>' s \<and> (is_ok r \<longrightarrow> keeps P Q (k (Inl Transient)) \<sigma>' s)"
    if "store_put \<sigma> key payload pre = (r, \<sigma>')" for r \<sigma>'
    using that assms(3-5) put_refused [of \<sigma> key payload pre] by (cases r) auto
  with assms(1,2) show ?thesis by simp
qed

text \<open>Two parts of a log with increasing versions that end at the same version are the same.\<close>

lemma rising_same_end:
  assumes "rising F None L" "L = a @ x" "L = b @ y" "last_of F a = last_of F b"
  shows "a = b"
proof -
  have up: "rising F None a" "rising F None b" 
    using assms(1) rising_append [of F a x, folded assms(2)] rising_append [of F b y, folded assms(3)] by simp_all
  consider z where "a = b @ z" | z where "b = a @ z" using assms(2,3) by (auto simp: append_eq_append_conv2)
  then show ?thesis
  proof cases
    case 1
    with up have "rising F None (b @ z)" by simp
    with 1 assms(4) show ?thesis using rising_prefix_last [of F b z] by simp
  next
    case 2
    with up have "rising F None (a @ z)" by simp
    with 2 assms(4) show ?thesis using rising_prefix_last [of F a z] by simp
  qed
qed

text \<open>\<open>holds\<close>: the store has the log \<open>L\<close>, laid out in some way that \<open>st\<close> knows.\<close>

definition log_holds :: "'e segment_format \<Rightarrow> string \<Rightarrow> nat \<Rightarrow> 'e list \<Rightarrow> 'e log_state option \<Rightarrow> store \<Rightarrow> bool" where
  "log_holds F pfx n L opened \<sigma> \<longleftrightarrow>
     (\<exists>gens snap segs. log_at F pfx \<sigma> gens snap segs L \<and> length gens \<le> n \<and> log_tail gens segs \<le> n \<and>
        (\<forall>st. opened = Some st \<longrightarrow> view_of gens segs L st))"

lemma log_holdsI:
  "log_at F pfx \<sigma> gens snap segs L \<Longrightarrow> length gens \<le> n \<Longrightarrow> log_tail gens segs \<le> n \<Longrightarrow>
     (\<And>st. opened = Some st \<Longrightarrow> view_of gens segs L st) \<Longrightarrow> log_holds F pfx n L opened \<sigma>"
  by (auto simp: log_holds_def)

lemma log_holds_None: "log_holds F pfx n L opened \<sigma> \<Longrightarrow> log_holds F pfx n L None \<sigma>"
  by (fastforce simp: log_holds_def)

lemma log_holds_more: "log_holds F pfx n L opened \<sigma> \<Longrightarrow> n \<le> m \<Longrightarrow> log_holds F pfx m L opened \<sigma>"
  by (fastforce simp: log_holds_def)

locale segment_codec =
  fixes F :: "'e segment_format"
    and valid :: "'e \<Rightarrow> bool"
  assumes decodes: "\<forall>e\<in>set es. valid e \<Longrightarrow> sf_encode F es = Inr bytes \<Longrightarrow> sf_decode F bytes = Inr es"
begin

lemma append_keeps:
  assumes L: "log_at F pfx \<sigma> gens snap segs L" and st: "view_of gens segs L st"
    and valid: "\<forall>e\<in>set es. valid e"
    and size: "length gens \<le> n" "log_tail gens segs \<le> n" and room: "n < u64_max"
  shows "keeps (\<lambda>\<sigma>'. log_holds F pfx (Suc n) L None \<sigma>' \<or> log_holds F pfx (Suc n) (L @ es) None \<sigma>')
    (\<lambda>r \<sigma>' s'. log_holds F pfx (Suc n) (L @ es) s' \<sigma>' \<or> r \<noteq> Inr () \<and> log_holds F pfx (Suc n) L s' \<sigma>')
    (segments_append F pfx es) \<sigma> (Some st)"
proof -
  let ?key = "seq_key pfx ''log'' (ls_next_seq st)"
  have now: "log_holds F pfx (Suc n) L (Some st) \<sigma>" "log_holds F pfx (Suc n) L None \<sigma>"
    using st size by (auto intro!: log_holdsI [OF L])
  have taken: "payload_at \<sigma> ?key = None \<Longrightarrow> ls_next_seq st = log_tail gens segs"
    using view_taken [OF L st] by force
  have landed: "log_at F pfx \<sigma>' gens snap (segs @ [es]) (L @ es)"
    if "store_put \<sigma> ?key payload (Some IfAbsent) = (Inr token, \<sigma>')" "sf_encode F es = Inr payload"
      "validate_log F es (last_of F (ls_entries st)) = Inr ()" for payload token \<sigma>'
  proof -
    have t: "ls_next_seq st = log_tail gens segs" using put_if_absent_iff [of \<sigma> ?key payload] that(1) taken by blast
    then show ?thesis
      using payload_put [OF that(1)] decodes [OF valid that(2)] that(3) room size view_fresh [OF st t]
      by (intro log_at_append [OF L, where bytes = payload]) (simp_all add: validate_log_iff)
  qed
  have fresh: "ls_next_seq st = log_tail gens segs"
    if "store_put \<sigma> ?key payload (Some IfAbsent) = (Inr token, \<sigma>')" for payload token \<sigma>'
    using put_if_absent_iff [of \<sigma> ?key payload] that taken by blast
  have after: "log_holds F pfx (Suc n) (L @ es) None \<sigma>'" "log_holds F pfx (Suc n) (L @ es) (Some st) \<sigma>'"
    "log_holds F pfx (Suc n) (L @ es) (Some (st\<lparr>ls_next_seq := Suc (ls_next_seq st),
        ls_entries := ls_entries st @ es, ls_unsnapshotted_bytes := m\<rparr>)) \<sigma>'"
    if "store_put \<sigma> ?key payload (Some IfAbsent) = (Inr token, \<sigma>')" "sf_encode F es = Inr payload"
      "validate_log F es (last_of F (ls_entries st)) = Inr ()" for payload token \<sigma>' m
    using size view_extended [OF st, of es] view_appended [OF st fresh [OF that(1)], of es m]
    by (auto intro!: log_holdsI [OF landed [OF that]])
  show ?thesis
  proof (cases "es = []")
    case True
    with now show ?thesis by (simp add: segments_append_def)
  next
    case False
    consider e where "validate_log F es (last_of F (ls_entries st)) = Inl e"
      | e where "validate_log F es (last_of F (ls_entries st)) = Inr ()" "sf_encode F es = Inl e"
      | payload where "validate_log F es (last_of F (ls_entries st)) = Inr ()" "sf_encode F es = Inr payload"
      by (cases "validate_log F es (last_of F (ls_entries st))"; cases "sf_encode F es") auto
    then show ?thesis
    proof cases
      case (3 payload)
      have step: "log_next (ls_next_seq st) = Inr (Suc (ls_next_seq st))"
        if "store_put \<sigma> ?key payload (Some IfAbsent) = (Inr token, \<sigma>')" for token \<sigma>'
        using fresh [OF that] room size by (simp add: log_next_def)
      have "keeps (\<lambda>\<sigma>'. log_holds F pfx (Suc n) L None \<sigma>' \<or> log_holds F pfx (Suc n) (L @ es) None \<sigma>')
        (\<lambda>r \<sigma>' s'. log_holds F pfx (Suc n) (L @ es) s' \<sigma>' \<or> r \<noteq> Inr () \<and> log_holds F pfx (Suc n) L s' \<sigma>')
        (Put ?key payload (Some IfAbsent) (\<lambda>r. try_io r (\<lambda>_. try_io (log_next (ls_next_seq st)) (\<lambda>seq'.
           Modify (map_option (\<lambda>state. state\<lparr>ls_next_seq := seq', ls_entries := ls_entries state @ es,
             ls_unsnapshotted_bytes := min u64_max (ls_unsnapshotted_bytes state + length payload)\<rparr>))
           (Return (Inr ())))))) \<sigma> (Some st)"
        by (rule keeps_Put) (simp_all add: now step after [OF _ 3(2,1)])
      with False 3 show ?thesis by (simp add: segments_append_def with_log_def segment_key_def Let_def now)
    qed (use False now in \<open>auto simp: segments_append_def with_log_def Let_def\<close>)
  qed
qed

end

context segment_codec
begin

text \<open>The end of a checkpoint: once the base is there, the handle's own record of it and the pruning.\<close>

definition settle :: "string \<Rightarrow> nat \<Rightarrow> object_key \<Rightarrow> 'e log_state \<Rightarrow> ('e lazy, bool result) io" where
  "settle pfx generation snapshot st =
     Modify (map_option (\<lambda>state. state\<lparr>ls_generation := Some generation, ls_base_seq := ls_next_seq st,
         ls_snapshot := Some snapshot, ls_unsnapshotted_bytes := 0\<rparr>))
       (Delete (retired_keys pfx (ls_base_seq st) (ls_next_seq st) (ls_snapshot st) snapshot) (\<lambda>d.
          try_io d (\<lambda>_. Return (Inr True))))"

lemma settle_keeps:
  assumes L: "log_at F pfx \<sigma> (gens @ [base]) L [] L" and st: "view_of gens segs L st"
    and fresh: "ls_next_seq st = log_tail gens segs" and gen: "next_generation st = length gens"
    and base: "base = \<lparr>lb_seq = ls_next_seq st, lb_snapshot = Some snapshot\<rparr>"
    and old: "\<forall>k. ls_snapshot st = Some k \<longrightarrow> (\<exists>v. k = seq_key pfx ''snap'' v)"
    and size: "length gens < n" "ls_next_seq st \<le> n"
  shows "keeps (log_holds F pfx n L None) (\<lambda>r \<sigma>' s'. log_holds F pfx n L s' \<sigma>')
    (settle pfx (length gens) snapshot st) \<sigma> (Some st)"
proof -
  have nb: "newest_base (gens @ [base]) = base" by (simp add: newest_base_def)
  have s: "length (gens @ [base]) \<le> n" "log_tail (gens @ [base]) ([] :: 'e list list) \<le> n"
    using size nb by (simp_all add: base)
  have view: "view_of (gens @ [base]) [] L (st\<lparr>ls_generation := Some (length gens), ls_base_seq := ls_next_seq st,
      ls_snapshot := Some snapshot, ls_unsnapshotted_bytes := 0\<rparr>)" (is "view_of _ _ _ ?st")
    by (rule view_checkpointed [OF st fresh gen base])
  have "log_at F pfx (store_delete \<sigma> some) (gens @ [base]) L [] L"
    if "set some \<subseteq> set (retired_keys pfx (ls_base_seq st) (ls_next_seq st) (ls_snapshot st) snapshot)" for some
    using that old
    by (intro log_at_prune [OF L, where snapshot = snapshot]) (simp_all add: nb, simp_all add: base)
  then have "log_holds F pfx n L (Some ?st) (store_delete \<sigma> some)" "log_holds F pfx n L None (store_delete \<sigma> some)"
    if "set some \<subseteq> set (retired_keys pfx (ls_base_seq st) (ls_next_seq st) (ls_snapshot st) snapshot)" for some
    using view s that by (auto intro!: log_holdsI)
  moreover have "log_holds F pfx n L None \<sigma>" using s by (auto intro!: log_holdsI [OF L])
  ultimately show ?thesis by (simp add: settle_def)
qed

lemma commit_keeps:
  assumes L: "log_at F pfx \<sigma> gens snap segs L" and st: "view_of gens segs L st"
    and fresh: "ls_next_seq st = log_tail gens segs"
    and snapshot: "payload_at \<sigma> (seq_key pfx ''snap'' lst) = Some b" "sf_decode F b = Inr L"
    and body: "base_encode \<lparr>lb_seq = ls_next_seq st, lb_snapshot = Some (seq_key pfx ''snap'' lst)\<rparr> = Inr body"
    and utf8: "utf8 pfx" and size: "length gens \<le> n" "log_tail gens segs \<le> n" and room: "n < 2 ^ 63"
  shows "keeps (log_holds F pfx (Suc n) L None) (\<lambda>r \<sigma>' s'. log_holds F pfx (Suc n) L s' \<sigma>')
    (Put (seq_key pfx ''base'' (next_generation st)) body (Some IfAbsent) (\<lambda>r.
       try_io r (\<lambda>_. settle pfx (next_generation st) (seq_key pfx ''snap'' lst) st))) \<sigma> (Some st)"
proof -
  let ?put = "\<lambda>token \<sigma>'. store_put \<sigma> (seq_key pfx ''base'' (next_generation st)) body (Some IfAbsent) = (Inr token, \<sigma>')"
  define base where "base = \<lparr>lb_seq = ls_next_seq st, lb_snapshot = Some (seq_key pfx ''snap'' lst)\<rparr>"
  have now: "log_holds F pfx (Suc n) L (Some st) \<sigma>" "log_holds F pfx (Suc n) L None \<sigma>"
    using st size by (auto intro!: log_holdsI [OF L])
  have gen: "next_generation st = length gens \<and> ls_snapshot st = lb_snapshot (newest_base gens)" if "?put token \<sigma>'" for token \<sigma>'
  proof -
    have "payload_at \<sigma> (seq_key pfx ''base'' (next_generation st)) = None"
      using put_if_absent_iff [of \<sigma> "seq_key pfx ''base'' (next_generation st)" body] that by blast
    then have "\<not> next_generation st < length gens" using log_at_base [OF L, of "next_generation st"] by auto
    with st show ?thesis by (auto simp: view_of_def)
  qed
  have "base_decode body = Inr base"
    using base_round_trip [OF body] fresh log_at_bounds [OF L] seq_key_utf8 [OF utf8, of "''snap''" lst]
    by (simp add: base_def seq_key_def)
  then have landed: "log_at F pfx \<sigma>' (gens @ [base]) L [] L" if "?put token \<sigma>'" for token \<sigma>'
    using payload_put [OF that] gen [OF that] size room
    by (intro log_at_new_base [OF L, where lst = lst and b = b and bytes = body]) (simp_all add: snapshot base_def fresh)
  have old: "\<forall>k. ls_snapshot st = Some k \<longrightarrow> (\<exists>v. k = seq_key pfx ''snap'' v)"
    if "ls_snapshot st = lb_snapshot (newest_base gens)"
    using that log_at_snapshot [OF L] by (auto split: option.splits)
  have stale: "log_holds F pfx (Suc n) L (Some st) \<sigma>'" "log_holds F pfx (Suc n) L None \<sigma>'" if "?put token \<sigma>'" for token \<sigma>'
    using view_superseded [OF st fresh, of base] gen [OF that] size
    by (auto intro!: log_holdsI [OF landed [OF that]] simp: base_def fresh newest_base_def)
  have "keeps (log_holds F pfx (Suc n) L None) (\<lambda>r \<sigma>' s'. log_holds F pfx (Suc n) L s' \<sigma>')
    (settle pfx (next_generation st) (seq_key pfx ''snap'' lst) st) \<sigma>' (Some st)" if "?put token \<sigma>'" for token \<sigma>'
    using settle_keeps [OF landed [OF that] st fresh _ base_def, of "Suc n"] gen [OF that] old size
    by (simp add: fresh)
  with now stale show ?thesis by (intro keeps_Put) simp_all
qed

end

context segment_codec
begin

text \<open>Its beginning: the snapshot is written, or was.\<close>

lemma snapshot_keeps:
  assumes L: "log_at F pfx \<sigma> gens snap segs L" and st: "view_of gens segs L st"
    and valid: "\<forall>e\<in>set L. valid e"
    and lst: "last_of F (ls_entries st) = Some lst" and payload: "sf_encode F (ls_entries st) = Inr payload"
    and size: "length gens \<le> n" "log_tail gens segs \<le> n"
  shows "keeps (log_holds F pfx n L None)
    (\<lambda>r \<sigma>' s'. s' = Some st \<and> log_at F pfx \<sigma>' gens snap segs L \<and>
       (r = Inr () \<longrightarrow> (\<exists>b. payload_at \<sigma>' (seq_key pfx ''snap'' lst) = Some b \<and> sf_decode F b = Inr (ls_entries st))))
    (put_if_absent (seq_key pfx ''snap'' lst) payload) \<sigma> (Some st)"
proof -
  let ?key = "seq_key pfx ''snap'' lst"
  obtain rest where part: "L = ls_entries st @ rest" using view_prefix [OF st] by blast
  with valid have dec: "sf_decode F payload = Inr (ls_entries st)" by (intro decodes [OF _ payload]) auto
  have put: "log_at F pfx \<sigma>' gens snap segs L" "payload_at \<sigma>' ?key = Some payload"
    if "store_put \<sigma> ?key payload (Some IfAbsent) = (Inr token, \<sigma>')" for token \<sigma>'
  proof -
    have "payload_at \<sigma> ?key = None" using put_if_absent_iff [of \<sigma> ?key payload] that by blast
    with payload_put [OF that] dec show "log_at F pfx \<sigma>' gens snap segs L"
      by (intro log_at_new_snapshot [OF L part lst, where bytes = payload]) simp_all
    show "payload_at \<sigma>' ?key = Some payload" using payload_put [OF that] by simp
  qed
  have kept: "\<exists>b. payload_at \<sigma> ?key = Some b \<and> sf_decode F b = Inr (ls_entries st)"
    if refused: "store_put \<sigma> ?key payload (Some IfAbsent) = (Inl e, \<sigma>)" for e
  proof -
    obtain b where b: "payload_at \<sigma> ?key = Some b"
      using put_if_absent_iff [of \<sigma> ?key payload] refused by (cases "payload_at \<sigma> ?key") auto
    from log_at_snaps [OF L b] obtain pre post where "sf_decode F b = Inr pre" "L = pre @ post" "last_of F pre = Some lst"
      by blast
    moreover have "rising F None L" using log_at_rising [OF L] by blast
    moreover from calculation have "pre = ls_entries st"
      using lst by (intro rising_same_end [where F = F, OF _ _ part]) simp_all
    ultimately show ?thesis using b by blast
  qed
  have holds: "log_holds F pfx n L None \<sigma>'" if "log_at F pfx \<sigma>' gens snap segs L" for \<sigma>'
    using size by (auto intro!: log_holdsI [OF that])
  show ?thesis
    unfolding put_if_absent_def
    by (rule keeps_Put) (use L put kept dec holds in \<open>auto simp: storm_def\<close>)
qed

lemma checkpoint_keeps:
  assumes L: "log_at F pfx \<sigma> gens snap segs L" and st: "view_of gens segs L st"
    and valid: "\<forall>e\<in>set L. valid e"
    and utf8: "utf8 pfx" and size: "length gens \<le> n" "log_tail gens segs \<le> n" and room: "n < 2 ^ 63"
  shows "keeps (log_holds F pfx (Suc n) L None) (\<lambda>r \<sigma>' s'. log_holds F pfx (Suc n) L s' \<sigma>')
    (segments_checkpoint F pfx) \<sigma> (Some st)"
proof -
  have now: "log_holds F pfx (Suc n) L (Some st) \<sigma>'" "log_holds F pfx (Suc n) L None \<sigma>'"
    if "log_at F pfx \<sigma>' gens snap segs L" for \<sigma>'
    using st size by (auto intro!: log_holdsI [OF that])
  have gen: "(case ls_generation st of None \<Rightarrow> Inr 0 | Some g \<Rightarrow> log_next g) = Inr (next_generation st)"
    using st log_at_bounds [OF L] by (auto simp: view_of_def log_next_def split: option.splits)
  consider "last_of F (ls_entries st) = None" | "ls_next_seq st = ls_base_seq st"
    | lst e where "last_of F (ls_entries st) = Some lst" "ls_next_seq st \<noteq> ls_base_seq st" "sf_encode F (ls_entries st) = Inl e"
    | lst payload where "last_of F (ls_entries st) = Some lst" "ls_next_seq st \<noteq> ls_base_seq st"
        "sf_encode F (ls_entries st) = Inr payload"
    by (cases "last_of F (ls_entries st)"; cases "sf_encode F (ls_entries st)") auto
  then show ?thesis
  proof cases
    case (4 lst payload)
    note lst = this
    let ?rest = "with_log (\<lambda>now. await_io (still_the_tail pfx (ls_next_seq now)) (\<lambda>_.
      try_io (base_key pfx (next_generation st)) (\<lambda>key.
      try_io (base_encode \<lparr>lb_seq = ls_next_seq st, lb_snapshot = Some (seq_key pfx ''snap'' lst)\<rparr>) (\<lambda>body.
        Put key body (Some IfAbsent) (\<lambda>r. try_io r (\<lambda>_. settle pfx (next_generation st) (seq_key pfx ''snap'' lst) st))))))"
    have rest: "keeps (log_holds F pfx (Suc n) L None) (\<lambda>r \<sigma>' s'. log_holds F pfx (Suc n) L s' \<sigma>') ?rest \<sigma>' (Some st)"
      if L': "log_at F pfx \<sigma>' gens snap segs L"
        and b: "payload_at \<sigma>' (seq_key pfx ''snap'' lst) = Some b" "sf_decode F b = Inr (ls_entries st)" for \<sigma>' b
    proof (cases "ls_next_seq st = log_tail gens segs")
      case True
      note fresh = view_fresh [OF st True]
      have "payload_at \<sigma>' (seq_key pfx ''log'' (ls_next_seq st)) = None" unfolding True by (rule log_at_tail [OF L']) simp
      with now [OF L'] commit_keeps [OF L' st True b(1) _ _ utf8 size room] b(2) fresh show ?thesis
        by (auto simp: with_log_def still_the_tail_def segment_key_def base_key_def get_full storm_def try_io_def
            split: sum.splits)
    next
      case False
      from view_taken [OF L' st False] now [OF L'] show ?thesis
        by (auto simp: with_log_def still_the_tail_def segment_key_def get_full storm_def)
    qed
    have "keeps (log_holds F pfx (Suc n) L None) (\<lambda>r \<sigma>' s'. log_holds F pfx (Suc n) L s' \<sigma>')
      (await_io (put_if_absent (seq_key pfx ''snap'' lst) payload) (\<lambda>_. ?rest)) \<sigma> (Some st)"
    proof (rule keeps_await, rule keeps_mono [OF snapshot_keeps [OF L st valid lst(1,3) size]])
      show "log_holds F pfx n L None \<sigma> \<Longrightarrow> log_holds F pfx (Suc n) L None \<sigma>" for \<sigma>
        by (erule log_holds_more) simp
    qed (use now rest in \<open>auto split: sum.splits\<close>)
    with lst gen now [OF L] show ?thesis
      by (simp add: segments_checkpoint_def with_log_def Let_def settle_def)
  qed (use now [OF L] gen in \<open>simp_all add: segments_checkpoint_def with_log_def Let_def split: option.splits\<close>)
qed

end

section \<open>Opening, with its faults\<close>

lemma reader_segments_open: "reader (segments_open F pfx turns)"
  by (induction turns) (auto intro!: reader_await reader_open_turn split: option.splits)

lemma segments_open_reads:
  assumes "log_at F pfx \<sigma> gens snap segs L"
  shows "io_run now (segments_open F pfx turns) \<sigma> s =
    (Inr (if turns = 0 then None else Some (opened_state gens segs L 0)), \<sigma>, s)"
  by (cases turns) (simp_all add: io_run_await open_reads [OF assms])

lemma lazy_get_keeps:
  assumes "log_holds F pfx n L opened \<sigma>"
  shows "keeps (log_holds F pfx n L None)
    (\<lambda>r \<sigma>' s'. log_holds F pfx n L s' \<sigma>' \<and> (r = Inr () \<longrightarrow> s' \<noteq> None)) (lazy_get F pfx turns) \<sigma> opened"
proof (cases opened)
  case (Some st)
  with assms log_holds_None [OF assms] show ?thesis by (simp add: lazy_get_def)
next
  case None
  from assms obtain gens snap segs where L: "log_at F pfx \<sigma> gens snap segs L" "length gens \<le> n" "log_tail gens segs \<le> n"
    by (auto simp: log_holds_def)
  let ?fresh = "if turns = 0 then None else Some (opened_state gens segs L 0)"
  have fresh: "log_holds F pfx n L ?fresh \<sigma>" using opened_view L(2,3) by (auto intro!: log_holdsI [OF L(1)])
  have "keeps (log_holds F pfx n L None)
    (\<lambda>r \<sigma>' s'. \<sigma>' = \<sigma> \<and> s' = None \<and> (r = Inr ?fresh \<or> (\<exists>e. r = Inl e))) (segments_open F pfx turns) \<sigma> None"
    by (rule reader_keeps [where now = 0, OF reader_segments_open _ segments_open_reads [OF L(1)]])
      (simp_all add: log_holds_None [OF assms])
  then have "keeps (log_holds F pfx n L None)
    (\<lambda>r \<sigma>' s'. log_holds F pfx n L s' \<sigma>' \<and> (r = Inr () \<longrightarrow> s' \<noteq> None))
    (await_io (segments_open F pfx turns) (\<lambda>fresh.
       Modify (\<lambda>opened. case opened of None \<Rightarrow> fresh | Some _ \<Rightarrow> opened) (with_log (\<lambda>_. Return (Inr ()))))) \<sigma> None"
    using fresh log_holds_None [OF assms]
    by (intro keeps_await) (erule keeps_mono, auto simp: with_log_def)
  with None log_holds_None [OF assms] show ?thesis by (simp add: lazy_get_def)
qed

section \<open>Every history of a writer\<close>

text \<open>
  One writer at a time opens the log on first use, appends and checkpoints, and may lose its
  process at any step of either, after which a new process starts from the store alone.  \<open>n\<close>
  counts the operations, \<open>acked\<close> the entries whose append returned without an error, \<open>tried\<close>
  all that were given to an append.
\<close>

inductive log_reachable ::
  "'e segment_format \<Rightarrow> ('e \<Rightarrow> bool) \<Rightarrow> string \<Rightarrow> nat \<Rightarrow> nat \<Rightarrow> store \<Rightarrow> 'e lazy \<Rightarrow> 'e list \<Rightarrow> 'e list \<Rightarrow> bool"
  for F valid pfx turns
where
  start: "log_reachable F valid pfx turns 0 (\<lambda>_. None) None [] []"
| appended:
    "log_reachable F valid pfx turns n \<sigma> s acked tried \<Longrightarrow> \<forall>e\<in>set es. valid e \<Longrightarrow>
     some_step\<^sup>*\<^sup>* (\<sigma>, s, lazy_append F pfx turns es) (\<sigma>', s', Return (Inr ())) \<Longrightarrow>
     log_reachable F valid pfx turns (Suc n) \<sigma>' s' (acked @ es) (tried @ es)"
| refused:
    "log_reachable F valid pfx turns n \<sigma> s acked tried \<Longrightarrow> \<forall>e\<in>set es. valid e \<Longrightarrow>
     some_step\<^sup>*\<^sup>* (\<sigma>, s, lazy_append F pfx turns es) (\<sigma>', s', Return (Inl e)) \<Longrightarrow>
     log_reachable F valid pfx turns (Suc n) \<sigma>' s' acked (tried @ es)"
| append_crash:
    "log_reachable F valid pfx turns n \<sigma> s acked tried \<Longrightarrow> \<forall>e\<in>set es. valid e \<Longrightarrow>
     some_step\<^sup>*\<^sup>* (\<sigma>, s, lazy_append F pfx turns es) (\<sigma>', s', p) \<Longrightarrow>
     log_reachable F valid pfx turns (Suc n) \<sigma>' None acked (tried @ es)"
| checkpointed:
    "log_reachable F valid pfx turns n \<sigma> s acked tried \<Longrightarrow>
     some_step\<^sup>*\<^sup>* (\<sigma>, s, lazy_checkpoint F pfx turns) (\<sigma>', s', Return r) \<Longrightarrow>
     log_reachable F valid pfx turns (Suc n) \<sigma>' s' acked tried"
| checkpoint_crash:
    "log_reachable F valid pfx turns n \<sigma> s acked tried \<Longrightarrow>
     some_step\<^sup>*\<^sup>* (\<sigma>, s, lazy_checkpoint F pfx turns) (\<sigma>', s', p) \<Longrightarrow>
     log_reachable F valid pfx turns (Suc n) \<sigma>' None acked tried"

lemma log_holds_empty: "log_holds F pfx n [] None (\<lambda>_. None)"
  by (rule log_holdsI [where gens = "[]" and snap = "[]" and segs = "[]"], rule log_atI)
    (simp_all add: newest_base_def payload_at_def)

text \<open>Of an append that was not acknowledged, the log has all or nothing.\<close>

lemma refused_cases:
  assumes "\<forall>e\<in>set L. valid e" "subseq acked L" "subseq L tried" "\<forall>e\<in>set es. valid e"
  shows "(\<forall>e\<in>set (L @ es). valid e) \<and> subseq acked (L @ es) \<and> subseq (L @ es) (tried @ es)"
    and "(\<forall>e\<in>set L. valid e) \<and> subseq acked L \<and> subseq L (tried @ es)"
  using assms list_emb_append_mono [of "(=)" acked L "[]" es] list_emb_append_mono [of "(=)" L tried es es]
    list_emb_append_mono [of "(=)" L tried "[]" es] by auto

context segment_codec
begin

lemma lazy_append_keeps:
  assumes holds: "log_holds F pfx n L opened \<sigma>" and valid: "\<forall>e\<in>set es. valid e" and room: "n < u64_max"
  shows "keeps (\<lambda>\<sigma>'. log_holds F pfx (Suc n) L None \<sigma>' \<or> log_holds F pfx (Suc n) (L @ es) None \<sigma>')
    (\<lambda>r \<sigma>' s'. log_holds F pfx (Suc n) (L @ es) s' \<sigma>' \<or> r \<noteq> Inr () \<and> log_holds F pfx (Suc n) L s' \<sigma>')
    (lazy_append F pfx turns es) \<sigma> opened"
proof -
  have more: "log_holds F pfx n L s \<sigma>' \<Longrightarrow> log_holds F pfx (Suc n) L s \<sigma>'" for s \<sigma>'
    by (erule log_holds_more) simp
  have "keeps (\<lambda>\<sigma>'. log_holds F pfx (Suc n) L None \<sigma>' \<or> log_holds F pfx (Suc n) (L @ es) None \<sigma>')
    (\<lambda>r \<sigma>' s'. log_holds F pfx (Suc n) (L @ es) s' \<sigma>' \<or> r \<noteq> Inr () \<and> log_holds F pfx (Suc n) L s' \<sigma>')
    (segments_append F pfx es) \<sigma>' (Some st)" if "log_holds F pfx n L (Some st) \<sigma>'" for \<sigma>' st
    using that append_keeps [OF _ _ valid _ _ room] unfolding log_holds_def by blast
  then show ?thesis
    unfolding lazy_append_def
    by (intro keeps_await, intro keeps_mono [OF lazy_get_keeps [OF holds, of turns]])
      (auto split: sum.splits intro: more dest: log_holds_None more)
qed

lemma lazy_checkpoint_keeps:
  assumes holds: "log_holds F pfx n L opened \<sigma>" and valid: "\<forall>e\<in>set L. valid e" and "utf8 pfx" "n < 2 ^ 63"
  shows "keeps (log_holds F pfx (Suc n) L None) (\<lambda>r \<sigma>' s'. log_holds F pfx (Suc n) L s' \<sigma>')
    (lazy_checkpoint F pfx turns) \<sigma> opened"
proof -
  have more: "log_holds F pfx n L s \<sigma>' \<Longrightarrow> log_holds F pfx (Suc n) L s \<sigma>'" for s \<sigma>'
    by (erule log_holds_more) simp
  have "keeps (log_holds F pfx (Suc n) L None) (\<lambda>r \<sigma>' s'. log_holds F pfx (Suc n) L s' \<sigma>')
    (segments_checkpoint F pfx) \<sigma>' (Some st)" if "log_holds F pfx n L (Some st) \<sigma>'" for \<sigma>' st
    using that checkpoint_keeps [OF _ _ valid assms(3) _ _ assms(4)] unfolding log_holds_def by blast
  then show ?thesis
    unfolding lazy_checkpoint_def
    by (intro keeps_await, intro keeps_mono [OF lazy_get_keeps [OF holds, of turns]])
      (auto split: sum.splits intro: more dest: log_holds_None more)
qed

lemma reachable_holds:
  assumes "log_reachable F valid pfx turns n \<sigma> s acked tried" "utf8 pfx" "n \<le> 2 ^ 63"
  shows "\<exists>L. log_holds F pfx n L s \<sigma> \<and> (\<forall>e\<in>set L. valid e) \<and> subseq acked L \<and> subseq L tried"
  using assms(1,3)
proof (induction rule: log_reachable.induct)
  case start
  then show ?case using log_holds_empty by (intro exI [of _ "[]"]) simp
next
  case (appended n \<sigma> s acked tried es \<sigma>' s')
  then obtain L where L: "log_holds F pfx n L s \<sigma>" "\<forall>e\<in>set L. valid e" "subseq acked L" "subseq L tried" by auto
  from appended.prems have "n < u64_max" by simp
  from keeps_steps [OF appended.hyps(3) lazy_append_keeps [OF L(1) appended.hyps(2) this]]
  have "log_holds F pfx (Suc n) (L @ es) s' \<sigma>'" by simp
  with L appended.hyps(2) show ?case by (intro exI [of _ "L @ es"]) (auto intro: list_emb_append_mono)
next
  case (refused n \<sigma> s acked tried es \<sigma>' s' e)
  then obtain L where L: "log_holds F pfx n L s \<sigma>" "\<forall>e\<in>set L. valid e" "subseq acked L" "subseq L tried" by auto
  from refused.prems have "n < u64_max" by simp
  from keeps_steps [OF refused.hyps(3) lazy_append_keeps [OF L(1) refused.hyps(2) this]]
  consider "log_holds F pfx (Suc n) (L @ es) s' \<sigma>'" | "log_holds F pfx (Suc n) L s' \<sigma>'" by auto
  then show ?case using refused_cases [OF L(2-4) refused.hyps(2)] by cases blast+
next
  case (append_crash n \<sigma> s acked tried es \<sigma>' s' p)
  then obtain L where L: "log_holds F pfx n L s \<sigma>" "\<forall>e\<in>set L. valid e" "subseq acked L" "subseq L tried" by auto
  from append_crash.prems have "n < u64_max" by simp
  from keeps_steps [OF append_crash.hyps(3) lazy_append_keeps [OF L(1) append_crash.hyps(2) this]]
  consider "log_holds F pfx (Suc n) (L @ es) None \<sigma>'" | "log_holds F pfx (Suc n) L None \<sigma>'" by auto
  then show ?case using refused_cases [OF L(2-4) append_crash.hyps(2)] by cases blast+
next
  case (checkpointed n \<sigma> s acked tried \<sigma>' s' r)
  then obtain L where L: "log_holds F pfx n L s \<sigma>" "\<forall>e\<in>set L. valid e" "subseq acked L" "subseq L tried" by auto
  from keeps_steps [OF checkpointed.hyps(2) lazy_checkpoint_keeps [OF L(1,2) assms(2)]] checkpointed.prems L(2-)
  show ?case by auto
next
  case (checkpoint_crash n \<sigma> s acked tried \<sigma>' s' p)
  then obtain L where L: "log_holds F pfx n L s \<sigma>" "\<forall>e\<in>set L. valid e" "subseq acked L" "subseq L tried" by auto
  from keeps_steps [OF checkpoint_crash.hyps(2) lazy_checkpoint_keeps [OF L(1,2) assms(2)]] checkpoint_crash.prems L(2-)
  show ?case by auto
qed

end

end
