(* ===== verification/Opened_Log.thy ===== *)
theory Opened_Log
  imports Log_Durability
begin

text \<open>
  A log of \<open>object_store_log.rs\<close> once opened, for either format: its operations as the seams
  \<open>MetadataLog\<close> and \<open>GroupMetadataLog\<close> see them, what opening the store reads after any history, and
  that a process that has just opened the log can append.
\<close>

section \<open>The operations\<close>

type_synonym 'e opened_log = "store \<times> 'e log_state"

definition opened_append :: "'e segment_format \<Rightarrow> string \<Rightarrow> 'e opened_log \<Rightarrow> 'e list \<Rightarrow> unit result \<times> 'e opened_log" where
  "opened_append F pfx l es =
     (case io_run 0 (segments_append F pfx es) (fst l) (Some (snd l)) of
        (r, \<sigma>, Some st) \<Rightarrow> (r, (\<sigma>, st))
      | (r, \<sigma>, None) \<Rightarrow> (Inl (MalformedMetadataSegment 0), (\<sigma>, snd l)))"

definition opened_read_from :: "'e segment_format \<Rightarrow> 'e opened_log \<Rightarrow> commit_version \<Rightarrow> nat \<Rightarrow> 'e list result" where
  "opened_read_from F l start max_entries = Inr (segments_read_from F (snd l) start max_entries)"

definition opened_last_version :: "'e segment_format \<Rightarrow> 'e opened_log \<Rightarrow> commit_version option result" where
  "opened_last_version F l = Inr (segments_last_version F (snd l))"

definition held_entries :: "'e opened_log \<Rightarrow> 'e list" where
  "held_entries l = ls_entries (snd l)"

lemma append_run:
  "io_run now (segments_append F pfx es) \<sigma> (Some st) = (r, \<sigma>', s') \<Longrightarrow>
     (\<exists>st'. s' = Some st' \<and>
        (if r = Inr () then ls_entries st' = ls_entries st @ es \<and> rising F (last_of F (ls_entries st)) es
         else ls_entries st' = ls_entries st))"
  using validate_log_iff [of F es "last_of F (ls_entries st)"]
  by (auto simp: segments_append_def with_log_def Let_def try_io_def split: if_splits sum.splits prod.splits)

lemma opened_append_cases:
  assumes "opened_append F pfx l es = (r, l')"
  shows "if r = Inr () then held_entries l' = held_entries l @ es \<and> rising F (last_of F (held_entries l)) es
    else held_entries l' = held_entries l"
  using assms append_run [of 0 F pfx es "fst l" "snd l"]
  by (force simp: opened_append_def held_entries_def split: prod.splits option.splits)

lemma opened_append_rising:
  "rising F None (held_entries l) \<Longrightarrow> rising F None (held_entries (snd (opened_append F pfx l es)))"
  using opened_append_cases [of F pfx l es]
  by (cases "opened_append F pfx l es") (auto simp: rising_append split: if_splits)

lemma opened_read_page:
  "opened_read_from F l start n = Inr page \<Longrightarrow> page = take n (filter (\<lambda>e. sf_version F e \<ge> start) (held_entries l))"
  by (auto simp: opened_read_from_def segments_read_from_def held_entries_def)

section \<open>Opening\<close>

lemma open_once:
  assumes "log_at F pfx \<sigma> gens snap segs L"
  shows "io_run now (segments_open F pfx 1) \<sigma> s = (Inr (Some (opened_state gens segs L 0)), \<sigma>, s)"
  using segments_open_reads [OF assms, of now 1 s] by (simp only: one_neq_zero if_False)

lemma opened_entries [simp]: "ls_entries (opened_state gens segs L n) = L"
  by (simp add: opened_state_def)

context segment_codec
begin

lemma reachable_log:
  assumes "log_reachable F valid pfx turns n \<sigma> s acked tried" "utf8 pfx" "n \<le> 2 ^ 63"
  obtains L gens snap segs where "log_at F pfx \<sigma> gens snap segs L" "length gens \<le> n"
    "log_tail gens segs \<le> n" "subseq acked L" "subseq L tried" "rising F None L"
proof -
  from reachable_holds [OF assms] obtain L gens snap segs
    where L: "log_at F pfx \<sigma> gens snap segs L" "length gens \<le> n" "log_tail gens segs \<le> n"
      "subseq acked L" "subseq L tried"
    by (auto simp: log_holds_def)
  moreover have "rising F None L" using log_at_rising [OF L(1)] by blast
  ultimately show thesis by (rule that)
qed

text \<open>What opening the store reads, after any history of the log's writers.\<close>

lemma reachable_opens:
  assumes "log_reachable F valid pfx turns n \<sigma> s acked tried" "utf8 pfx" "n \<le> 2 ^ 63"
  obtains st where "\<And>now fresh. io_run now (segments_open F pfx 1) \<sigma> fresh = (Inr (Some st), \<sigma>, fresh)"
    "subseq acked (ls_entries st)" "subseq (ls_entries st) tried" "rising F None (ls_entries st)"
proof -
  obtain L gens snap segs where L: "log_at F pfx \<sigma> gens snap segs L"
    "subseq acked L" "subseq L tried" "rising F None L"
    by (rule reachable_log [OF assms])
  show thesis
    by (rule that [of "opened_state gens segs L 0"]) (simp_all only: open_once [OF L(1)] opened_entries L(2-))
qed

text \<open>An append of a process that has just opened the log, alone and with no fault.\<close>

lemma append_lands:
  assumes "log_at F pfx \<sigma> gens snap segs L" "log_tail gens segs < u64_max"
    and "es \<noteq> []" "rising F (last_of F L) es" "sf_encode F es = Inr payload"
  shows "\<exists>\<sigma>' st. io_run now (lazy_append F pfx (Suc turns) es) \<sigma> None = (Inr (), \<sigma>', Some st) \<and>
    ls_entries st = L @ es"
proof -
  let ?key = "seq_key pfx ''log'' (log_tail gens segs)"
  have "payload_at \<sigma> ?key = None" using log_at_tail [OF assms(1), of "length segs"] by simp
  then obtain token \<sigma>' where put: "store_put \<sigma> ?key payload (Some IfAbsent) = (Inr token, \<sigma>')"
    using put_if_absent_iff by blast
  have "validate_log F es (last_of F L) = Inr ()" using assms(4) by (simp add: validate_log_iff)
  with assms(2,3,5) put show ?thesis
    by (simp add: lazy_append_def lazy_get_def io_run_await open_reads [OF assms(1)] with_log_def segments_append_def
        opened_state_def Let_def segment_key_def log_next_def)
qed

text \<open>A first process appends one batch to an empty store; a second opens the log and dies in a checkpoint.\<close>

lemma short_history:
  assumes "\<forall>e\<in>set es. valid e" "es \<noteq> []" "rising F None es" "sf_encode F es = Inr payload"
  obtains \<sigma> where "log_reachable F valid pfx 1 2 \<sigma> None es es"
proof -
  have "log_at F pfx (\<lambda>_. None) [] [] [] []"
    by (rule log_atI) (simp_all add: newest_base_def payload_at_def)
  from append_lands [OF this _ assms(2) _ assms(4), of 0 0] assms(3) obtain \<sigma> st
    where "io_run 0 (lazy_append F pfx 1 es) (\<lambda>_. None) None = (Inr (), \<sigma>, Some st)"
    by (auto simp: last_of_def newest_base_def)
  from log_reachable.appended [OF log_reachable.start assms(1) run_some_steps [OF this]]
  have "log_reachable F valid pfx 1 1 \<sigma> (Some st) es es" by simp
  from log_reachable.checkpoint_crash [OF this rtranclp.rtrancl_refl]
  have "log_reachable F valid pfx 1 2 \<sigma> None es es" by (simp add: numeral_2_eq_2)
  then show thesis by (rule that)
qed

end

end
