(* ===== verification/Partition_Index.thy ===== *)
theory Partition_Index
  imports Metadata_Log
begin

text \<open>
  One partition of the index (\<open>index_state/partition.rs\<close>): its record, the operations
  that change it, and its invariant \<open>part_inv\<close>: the two tiers together are one dense run
  of objects that ends at the partition's end offset, history is non-empty only beside a
  full tail window, and what is below the run is trimmed or in the manifest.
\<close>

section \<open>State\<close>

definition TAIL_WINDOW_ENTRIES :: nat where
  "TAIL_WINDOW_ENTRIES = 128"

record partition_index =
  pi_end :: offset
  pi_tail :: "tail_entry list"
  pi_history :: "object_ref list"
  pi_manifest :: "(object_key \<times> offset) option"
  pi_when :: "time_span option"
  pi_log_start :: offset

definition partition_default :: partition_index where
  "partition_default =
     \<lparr>pi_end = 0, pi_tail = [], pi_history = [], pi_manifest = None, pi_when = None,
      pi_log_start = 0\<rparr>"

record tiers =
  t_tail :: nat
  t_history :: nat
  t_manifests :: nat

definition tiers_total :: "tiers \<Rightarrow> nat" where
  "tiers_total self = t_tail self + t_history self + t_manifests self"

section \<open>Operations\<close>

text \<open>\<open>boundary\<close>: \<open>None\<close> when \<open>up_to\<close> is a boundary a manifest may end at, otherwise the
  next boundary above it.  The scan leaves early (\<open>None\<close>) when it meets \<open>up_to\<close>.\<close>

definition boundary_bases :: "partition_index \<Rightarrow> offset list" where
  "boundary_bases self =
     map or_base (pi_history self) @ map (\<lambda>entry. or_base (te_ref entry)) (pi_tail self)"

definition boundary_first_tail :: "partition_index \<Rightarrow> nat" where
  "boundary_first_tail self = length (boundary_bases self) - TAIL_WINDOW_ENTRIES"

definition boundary_limit :: "partition_index \<Rightarrow> offset" where
  "boundary_limit self =
     (if boundary_first_tail self < length (boundary_bases self)
      then boundary_bases self ! boundary_first_tail self else pi_end self)"

fun boundary_scan :: "offset \<Rightarrow> offset option \<Rightarrow> offset list \<Rightarrow> offset option option" where
  "boundary_scan up_to next [] = Some next"
| "boundary_scan up_to next (base # bases) =
     (if base = up_to then None
      else if up_to < base
        then boundary_scan up_to (Some (case next of None \<Rightarrow> base | Some held \<Rightarrow> min held base)) bases
      else boundary_scan up_to next bases)"

definition boundary :: "partition_index \<Rightarrow> offset \<Rightarrow> offset option" where
  "boundary self up_to =
     (if up_to = boundary_limit self then None
      else case boundary_scan up_to None
                  (take (boundary_first_tail self) (boundary_bases self)) of
             None \<Rightarrow> None
           | Some next \<Rightarrow> Some (case next of Some n \<Rightarrow> n | None \<Rightarrow> boundary_limit self))"

text \<open>\<open>absorb\<close> also returns how many entries it removed and whether it superseded a manifest.\<close>

definition ends_past :: "offset \<Rightarrow> object_ref \<Rightarrow> bool" where
  "ends_past up_to entry = (case ref_end_offset entry of Inr end \<Rightarrow> end > up_to | Inl _ \<Rightarrow> False)"

definition absorb :: "partition_index \<Rightarrow> object_key \<Rightarrow> offset \<Rightarrow> partition_index \<times> nat \<times> bool" where
  "absorb self manifest up_to =
     (let kept = filter (ends_past up_to) (pi_history self)
      in (self\<lparr>pi_history := kept, pi_manifest := Some (manifest, up_to)\<rparr>,
          length (pi_history self) - length kept,
          pi_manifest self \<noteq> None))"

definition push :: "partition_index \<Rightarrow> tail_entry \<Rightarrow> partition_index" where
  "push self entry =
     (let tail = pi_tail self @ [entry]
      in if length tail > TAIL_WINDOW_ENTRIES
         then (case tail of
                 [] \<Rightarrow> self\<lparr>pi_tail := tail\<rparr>
               | evicted # rest \<Rightarrow>
                   self\<lparr>pi_tail := rest, pi_history := pi_history self @ [demote evicted]\<rparr>)
         else self\<lparr>pi_tail := tail\<rparr>)"

definition dead_below :: "offset \<Rightarrow> object_ref \<Rightarrow> bool" where
  "dead_below start entry = (case ref_end_offset entry of Inr end \<Rightarrow> end \<le> start | Inl _ \<Rightarrow> False)"

definition trim :: "partition_index \<Rightarrow> offset \<Rightarrow> partition_index \<times> object_key list" where
  "trim self start =
     (if start \<le> pi_log_start self then (self, [])
      else
        (self\<lparr>pi_history := filter (\<lambda>entry. \<not> dead_below start entry) (pi_history self),
              pi_tail := filter (\<lambda>entry. \<not> dead_below start (te_ref entry)) (pi_tail self),
              pi_manifest := (case pi_manifest self of
                                Some (_, up_to) \<Rightarrow> if up_to \<le> start then None else pi_manifest self
                              | None \<Rightarrow> None),
              pi_log_start := start\<rparr>,
         map or_object (filter (dead_below start) (pi_history self)) @
         map (\<lambda>entry. or_object (te_ref entry))
           (filter (\<lambda>entry. dead_below start (te_ref entry)) (pi_tail self))))"

definition observe :: "partition_index \<Rightarrow> time_span \<Rightarrow> partition_index" where
  "observe self when =
     self\<lparr>pi_when := Some (case pi_when self of None \<Rightarrow> when | Some held \<Rightarrow> widened held when)\<rparr>"

definition holds_in_history :: "partition_index \<Rightarrow> object_ref \<Rightarrow> bool" where
  "holds_in_history self reference = list_ex (\<lambda>held. held = reference) (pi_history self)"

definition replace_history ::
  "partition_index \<Rightarrow> object_ref list \<Rightarrow> object_ref list \<Rightarrow> partition_index" where
  "replace_history self retiring installing =
     self\<lparr>pi_history := sort_key or_base
            (filter (\<lambda>held. \<not> list_ex (\<lambda>going. going = held) retiring) (pi_history self) @
             installing)\<rparr>"

definition partition_tiers :: "partition_index \<Rightarrow> tiers" where
  "partition_tiers self =
     \<lparr>t_tail = length (pi_tail self), t_history = length (pi_history self),
      t_manifests = (if pi_manifest self \<noteq> None then 1 else 0)\<rparr>"

section \<open>The invariant\<close>

definition part_entries :: "partition_index \<Rightarrow> object_ref list" where
  "part_entries p = pi_history p @ map te_ref (pi_tail p)"

text \<open>Where the run of entries begins: at the manifest's end, or at or below the log start.\<close>

definition run_starts :: "partition_index \<Rightarrow> offset \<Rightarrow> bool" where
  "run_starts p a =
     (case pi_manifest p of None \<Rightarrow> a \<le> pi_log_start p | Some (_, up_to) \<Rightarrow> a = up_to)"

definition part_inv :: "partition_index \<Rightarrow> bool" where
  "part_inv p \<longleftrightarrow>
     0 \<le> pi_log_start p \<and> pi_log_start p \<le> pi_end p \<and> pi_end p \<le> i64_max \<and>
     length (pi_tail p) \<le> TAIL_WINDOW_ENTRIES \<and>
     (pi_history p \<noteq> [] \<longrightarrow> length (pi_tail p) = TAIL_WINDOW_ENTRIES) \<and>
     (\<exists>a. 0 \<le> a \<and> run_starts p a \<and> dense a (part_entries p) (pi_end p))"

lemma tail_window_pos [simp]: "0 < TAIL_WINDOW_ENTRIES"
  by (simp add: TAIL_WINDOW_ENTRIES_def)

lemma part_inv_default [simp]: "part_inv partition_default"
  by (auto simp: part_inv_def partition_default_def part_entries_def run_starts_def)

lemma part_invE:
  assumes "part_inv p"
  obtains a where "0 \<le> a" "run_starts p a" "dense a (part_entries p) (pi_end p)"
    "0 \<le> pi_log_start p" "pi_log_start p \<le> pi_end p" "pi_end p \<le> i64_max"
    "length (pi_tail p) \<le> TAIL_WINDOW_ENTRIES"
    "pi_history p \<noteq> [] \<Longrightarrow> length (pi_tail p) = TAIL_WINDOW_ENTRIES"
  using assms unfolding part_inv_def by blast

lemma part_end_ok:
  assumes "part_inv p" "r \<in> set (part_entries p)"
  shows "ref_end_offset r = Inr (or_end r)" "0 \<le> or_base r" "0 < or_count r" "or_end r \<le> pi_end p"
proof -
  from assms(1) obtain a where "0 \<le> a" "dense a (part_entries p) (pi_end p)" "pi_end p \<le> i64_max"
    by (auto elim: part_invE)
  with dense_bounds [OF this(2) assms(2)]
  show "ref_end_offset r = Inr (or_end r)" "0 \<le> or_base r" "0 < or_count r" "or_end r \<le> pi_end p"
    by (auto simp: ref_end_offset_Inr_iff)
qed

subsection \<open>Commits\<close>

lemma run_starts_cong:
  "pi_manifest q = pi_manifest p \<Longrightarrow> pi_log_start q = pi_log_start p \<Longrightarrow>
     run_starts q a = run_starts p a"
  by (simp add: run_starts_def split: option.split)

lemma push_alt:
  "push p e =
     (if length (pi_tail p) < TAIL_WINDOW_ENTRIES then p\<lparr>pi_tail := pi_tail p @ [e]\<rparr>
      else p\<lparr>pi_tail := tl (pi_tail p @ [e]),
             pi_history := pi_history p @ [te_ref (hd (pi_tail p @ [e]))]\<rparr>)"
proof (cases "pi_tail p @ [e]")
  case (Cons x xs)
  then have "length xs = length (pi_tail p)"
    by (metis length_append_singleton length_Cons nat.inject)
  with Cons show ?thesis by (auto simp: push_def Let_def demote_def)
qed simp

lemma push_entries [simp]: "part_entries (push p e) = part_entries p @ [te_ref e]"
proof -
  have "te_ref (hd (pi_tail p @ [e])) # map te_ref (tl (pi_tail p @ [e])) =
      map te_ref (pi_tail p) @ [te_ref e]"
    by (cases "pi_tail p") auto
  then show ?thesis by (simp add: push_alt part_entries_def)
qed

lemma push_fields [simp]:
  "pi_end (push p e) = pi_end p" "pi_manifest (push p e) = pi_manifest p"
  "pi_when (push p e) = pi_when p" "pi_log_start (push p e) = pi_log_start p"
  by (simp_all add: push_alt)

lemma run_starts_push [simp]: "run_starts (push p e) a = run_starts p a"
  by (rule run_starts_cong) simp_all

lemma push_window:
  assumes "length (pi_tail p) \<le> TAIL_WINDOW_ENTRIES"
    and "pi_history p \<noteq> [] \<Longrightarrow> length (pi_tail p) = TAIL_WINDOW_ENTRIES"
  shows "length (pi_tail (push p e)) \<le> TAIL_WINDOW_ENTRIES"
    "pi_history (push p e) \<noteq> [] \<Longrightarrow> length (pi_tail (push p e)) = TAIL_WINDOW_ENTRIES"
  using assms by (auto simp: push_alt)

text \<open>A commit: a push of an object at the current end, which moves the end past it.\<close>

lemma part_inv_commit:
  assumes "part_inv p" "or_base (te_ref e) = pi_end p" "0 < or_count (te_ref e)"
    and "or_end (te_ref e) \<le> i64_max"
  shows "part_inv ((push p e)\<lparr>pi_end := or_end (te_ref e)\<rparr>)"
proof -
  from assms(1) obtain a where a: "0 \<le> a" "run_starts p a" "dense a (part_entries p) (pi_end p)"
    "0 \<le> pi_log_start p" "pi_log_start p \<le> pi_end p" "length (pi_tail p) \<le> TAIL_WINDOW_ENTRIES"
    "pi_history p \<noteq> [] \<Longrightarrow> length (pi_tail p) = TAIL_WINDOW_ENTRIES"
    by (auto elim: part_invE)
  let ?q = "(push p e)\<lparr>pi_end := or_end (te_ref e)\<rparr>"
  have "dense a (part_entries (push p e)) (or_end (te_ref e))"
    using a(3) assms(2,3) by (auto simp: dense_append)
  moreover have "run_starts ?q a" using a(2) run_starts_cong [of ?q p] by simp
  moreover have "part_entries ?q = part_entries (push p e)" by (simp add: part_entries_def)
  ultimately have "\<exists>a. 0 \<le> a \<and> run_starts ?q a \<and> dense a (part_entries ?q) (pi_end ?q)"
    using a(1) by auto
  then show ?thesis
    using a(4,5) assms(2,4) push_window [OF a(6,7)] by (simp add: part_inv_def)
qed

lemma observe_fields [simp]:
  "pi_end (observe p w) = pi_end p" "pi_manifest (observe p w) = pi_manifest p"
  "pi_history (observe p w) = pi_history p" "pi_tail (observe p w) = pi_tail p"
  "pi_log_start (observe p w) = pi_log_start p"
  by (simp_all add: observe_def)

lemma part_inv_observe [simp]: "part_inv (observe p w) = part_inv p"
  using run_starts_cong [of "observe p w" p] by (simp add: part_inv_def part_entries_def)

subsection \<open>Publication\<close>

lemma boundary_scan_None_iff: "boundary_scan up_to nx bs = None \<longleftrightarrow> up_to \<in> set bs"
  by (induction bs arbitrary: nx) auto

lemma boundary_None_iff:
  "boundary p up_to = None \<longleftrightarrow>
     up_to = boundary_limit p \<or> up_to \<in> set (take (boundary_first_tail p) (boundary_bases p))"
  using boundary_scan_None_iff [of up_to None "take (boundary_first_tail p) (boundary_bases p)"]
  by (auto simp: boundary_def split: option.split)

lemma boundary_bases_entries: "boundary_bases p = map or_base (part_entries p)"
  by (simp add: boundary_bases_def part_entries_def)

lemma boundary_history:
  assumes "part_inv p"
  shows "take (boundary_first_tail p) (boundary_bases p) = map or_base (pi_history p)"
    "boundary_limit p =
       (case pi_tail p of [] \<Rightarrow> pi_end p | e # _ \<Rightarrow> or_base (te_ref e))"
proof -
  from assms have w: "length (pi_tail p) \<le> TAIL_WINDOW_ENTRIES"
    "pi_history p \<noteq> [] \<Longrightarrow> length (pi_tail p) = TAIL_WINDOW_ENTRIES"
    by (auto elim: part_invE)
  have ft: "boundary_first_tail p = length (pi_history p)"
    using w by (cases "pi_history p = []") (auto simp: boundary_first_tail_def boundary_bases_def)
  show "take (boundary_first_tail p) (boundary_bases p) = map or_base (pi_history p)"
    by (simp add: ft) (simp add: boundary_bases_def)
  have "pi_history p = []" if "pi_tail p = []"
    using w(2) that tail_window_pos by (metis length_0_conv less_irrefl)
  then show "boundary_limit p = (case pi_tail p of [] \<Rightarrow> pi_end p | e # _ \<Rightarrow> or_base (te_ref e))"
    by (auto simp: boundary_limit_def ft boundary_bases_def nth_append split: list.split)
qed

lemma dense_keep_past:
  assumes "dense a (xs @ ys) b" "b \<le> i64_max"
    and "up_to \<in> or_base ` set xs \<or> dense up_to ys b"
  shows "dense up_to (filter (ends_past up_to) xs @ ys) b"
  using assms
proof (induction xs arbitrary: a)
  case (Cons x xs)
  from Cons.prems(1) have d: "or_base x = a" "0 < or_count x" "dense (or_end x) (xs @ ys) b" by auto
  have bnd: "or_end y \<le> i64_max" "or_end x \<le> or_base y" if "y \<in> set (xs @ ys)" for y
    using dense_bounds [OF d(3) that] Cons.prems(2) by auto
  have xb: "or_end x \<le> i64_max" using dense_le [OF d(3)] Cons.prems(2) by linarith
  show ?case
  proof (cases "up_to = or_base x")
    case True
    have "ends_past up_to y" if "y \<in> set (x # xs)" for y
      using that True d(2) xb bnd [of y] by (auto simp: ends_past_def ref_end_offset_def offset_add_def)
    then have "filter (ends_past up_to) (x # xs) = x # xs" by (simp add: filter_id_conv)
    then show ?thesis using True Cons.prems(1) d(1) by simp
  next
    case False
    have "or_end x \<le> up_to"
    proof (cases "dense up_to ys b")
      case True
      from d(3) obtain m where m: "dense (or_end x) xs m" "dense m ys b" by (auto simp: dense_append)
      have "m = up_to"
      proof (cases ys)
        case Nil
        with m(2) True show ?thesis by simp
      next
        case (Cons y ys')
        with m(2) True show ?thesis by simp
      qed
      with dense_le [OF m(1)] show ?thesis by simp
    next
      case no: False
      with Cons.prems(3) False obtain y where "y \<in> set xs" "up_to = or_base y" by auto
      then show ?thesis using bnd(2) [of y] by simp
    qed
    then have "\<not> ends_past up_to x"
      using xb by (simp add: ends_past_def ref_end_offset_def offset_add_def)
    moreover have "dense up_to (filter (ends_past up_to) xs @ ys) b"
      using Cons.IH [OF d(3) Cons.prems(2)] Cons.prems(3) False by auto
    ultimately show ?thesis by simp
  qed
qed (auto simp: dense_append)

lemma part_inv_absorb:
  assumes inv: "part_inv p" and meets: "boundary p up_to = None"
  shows "part_inv (fst (absorb p m up_to))"
proof -
  from inv obtain a where a: "0 \<le> a" "dense a (part_entries p) (pi_end p)" "pi_end p \<le> i64_max"
    "0 \<le> pi_log_start p" "pi_log_start p \<le> pi_end p" "length (pi_tail p) \<le> TAIL_WINDOW_ENTRIES"
    "pi_history p \<noteq> [] \<Longrightarrow> length (pi_tail p) = TAIL_WINDOW_ENTRIES"
    by (auto elim: part_invE)
  let ?q = "fst (absorb p m up_to)"
  have dt: "\<exists>m. dense m (map te_ref (pi_tail p)) (pi_end p) \<and> a \<le> m"
    using a(2) dense_le by (auto simp: part_entries_def dense_append)
  have up: "up_to \<in> or_base ` set (pi_history p) \<or> dense up_to (map te_ref (pi_tail p)) (pi_end p)"
    using meets dt by (auto simp: boundary_None_iff boundary_history [OF inv] split: list.splits)
  have "0 \<le> up_to"
    using up a(1) dt dense_bounds(1) [OF a(2)]
    by (cases "pi_tail p") (fastforce simp: part_entries_def)+
  moreover have "dense up_to (part_entries ?q) (pi_end ?q)"
    using dense_keep_past [OF _ a(3) up] a(2) by (simp add: absorb_def Let_def part_entries_def)
  ultimately have "\<exists>b. 0 \<le> b \<and> run_starts ?q b \<and> dense b (part_entries ?q) (pi_end ?q)"
    by (auto simp: run_starts_def absorb_def Let_def)
  moreover have "pi_history ?q \<noteq> [] \<Longrightarrow> pi_history p \<noteq> []"
    by (auto simp: absorb_def Let_def)
  ultimately show ?thesis
    using a(3-7) by (auto simp: part_inv_def absorb_def Let_def)
qed

subsection \<open>Trimming\<close>

lemma dead_below_iff:
  "or_end r \<le> i64_max \<Longrightarrow> dead_below start r \<longleftrightarrow> or_end r \<le> start"
  by (simp add: dead_below_def ref_end_offset_def offset_add_def)

text \<open>Dropping the dead entries of a dense run leaves a dense run that begins at or below the
  new start, or nothing when the start is the run's end.\<close>

lemma dense_drop_dead:
  assumes "dense a rs b" "b \<le> i64_max" "a \<le> start" "start \<le> b"
  shows "\<exists>c. a \<le> c \<and> c \<le> start \<and> dense c (filter (\<lambda>r. \<not> dead_below start r) rs) b"
  using assms
proof (induction rs arbitrary: a)
  case (Cons r rs)
  from Cons.prems(1) have d: "or_base r = a" "0 < or_count r" "dense (or_end r) rs b" by auto
  have rb: "or_end r \<le> i64_max" using dense_le [OF d(3)] Cons.prems(2) by linarith
  show ?case
  proof (cases "or_end r \<le> start")
    case True
    then obtain c where "or_end r \<le> c" "c \<le> start" "dense c (filter (\<lambda>r. \<not> dead_below start r) rs) b"
      using Cons.IH [OF d(3) Cons.prems(2) _ Cons.prems(4)] by auto
    moreover from this d(1) have "a \<le> c" by linarith
    ultimately show ?thesis using True rb by (auto simp: dead_below_iff)
  next
    case False
    have "\<not> dead_below start y" if "y \<in> set rs" for y
      using dense_bounds [OF d(3) that] False Cons.prems(2) by (auto simp: dead_below_iff)
    then have "filter (\<lambda>r. \<not> dead_below start r) rs = rs" by (simp add: filter_id_conv)
    then show ?thesis using False d rb Cons.prems(1,3) by (auto simp: dead_below_iff)
  qed
qed auto

lemma dense_keep_live:
  assumes "dense a rs b" "b \<le> i64_max" "start < a"
  shows "filter (\<lambda>r. \<not> dead_below start r) rs = rs"
proof -
  have "\<not> dead_below start y" if "y \<in> set rs" for y
    using dense_bounds [OF assms(1) that] assms(2,3) by (auto simp: dead_below_iff)
  then show ?thesis by (simp add: filter_id_conv)
qed

lemma trim_entries:
  "\<not> start \<le> pi_log_start p \<Longrightarrow>
     part_entries (fst (trim p start)) = filter (\<lambda>r. \<not> dead_below start r) (part_entries p)"
  by (simp add: trim_def part_entries_def filter_map o_def)

lemma trim_fields [simp]:
  "pi_end (fst (trim p start)) = pi_end p"
  "pi_when (fst (trim p start)) = pi_when p"
  "pi_log_start (fst (trim p start)) = max start (pi_log_start p)"
  by (auto simp: trim_def)

text \<open>A live history entry keeps every tail entry, so the window stays full beside it.\<close>

lemma trim_window:
  assumes inv: "part_inv p" and kept: "pi_history (fst (trim p start)) \<noteq> []"
  shows "length (pi_tail (fst (trim p start))) = TAIL_WINDOW_ENTRIES"
proof (cases "start \<le> pi_log_start p")
  case True
  with inv kept show ?thesis by (auto simp: trim_def elim: part_invE)
next
  case False
  then obtain r where r: "r \<in> set (pi_history p)" "\<not> dead_below start r"
    using kept by (auto simp: trim_def filter_empty_conv)
  from inv obtain a where a: "dense a (part_entries p) (pi_end p)" "pi_end p \<le> i64_max"
    and w: "pi_history p \<noteq> [] \<Longrightarrow> length (pi_tail p) = TAIL_WINDOW_ENTRIES"
    by (auto elim: part_invE)
  have asc: "sorted_wrt (\<lambda>x y. or_end x \<le> or_base y) (part_entries p)"
    using a(1) by (rule dense_strictly_ascending)
  have "\<not> dead_below start (te_ref e)" if e: "e \<in> set (pi_tail p)" for e
  proof -
    have "or_end r \<le> or_base (te_ref e)"
      using asc r(1) e by (auto simp: part_entries_def sorted_wrt_append)
    moreover have "or_end (te_ref e) \<le> i64_max" "or_end r \<le> i64_max"
      using part_end_ok(4) [OF inv, of "te_ref e"] part_end_ok(4) [OF inv, of r] e r(1) a(2)
      by (auto simp: part_entries_def)
    moreover have "or_base (te_ref e) < or_end (te_ref e)"
      using part_end_ok(3) [OF inv, of "te_ref e"] e by (auto simp: part_entries_def)
    ultimately show ?thesis using r(2) by (auto simp: dead_below_iff)
  qed
  then have "filter (\<lambda>e. \<not> dead_below start (te_ref e)) (pi_tail p) = pi_tail p"
    by (simp add: filter_id_conv)
  moreover have "pi_history p \<noteq> []" using r(1) by auto
  ultimately show ?thesis using False w by (simp add: trim_def)
qed

lemma part_inv_trim:
  assumes inv: "part_inv p" and within: "start \<le> pi_end p"
  shows "part_inv (fst (trim p start))"
proof (cases "start \<le> pi_log_start p")
  case True
  with inv show ?thesis by (simp add: trim_def)
next
  case False
  let ?q = "fst (trim p start)"
  from inv obtain a where a: "0 \<le> a" "run_starts p a" "dense a (part_entries p) (pi_end p)"
    "0 \<le> pi_log_start p" "pi_end p \<le> i64_max" "length (pi_tail p) \<le> TAIL_WINDOW_ENTRIES"
    by (auto elim: part_invE)
  have "\<exists>c. 0 \<le> c \<and> run_starts ?q c \<and> dense c (part_entries ?q) (pi_end ?q)"
  proof (cases "a \<le> start")
    case True
    then obtain c where c: "a \<le> c" "c \<le> start"
      "dense c (filter (\<lambda>r. \<not> dead_below start r) (part_entries p)) (pi_end p)"
      using dense_drop_dead [OF a(3,5) _ within] by auto
    have "run_starts ?q c"
      using True False a(2) c(2)
      by (auto simp: run_starts_def trim_def split: option.splits)
    moreover have "0 \<le> c" using a(1) c(1) by linarith
    ultimately show ?thesis using c(3) False by (auto simp: trim_entries)
  next
    case below: False
    then have "run_starts ?q a"
      using False a(2) by (auto simp: run_starts_def trim_def split: option.splits)
    then show ?thesis
      using a(1,3) False dense_keep_live [OF a(3,5)] below by (auto simp: trim_entries)
  qed
  moreover have "length (pi_tail ?q) \<le> TAIL_WINDOW_ENTRIES"
    using a(6) False by (auto simp: trim_def intro: order_trans [OF length_filter_le])
  ultimately show ?thesis
    using trim_window [OF inv] a(4,5) False within by (simp add: part_inv_def)
qed

subsection \<open>Swaps\<close>

text \<open>A dense sub-collection of a dense run is a contiguous stretch of it.\<close>

lemma dense_stretch:
  assumes "dense a xs b" "dense c rs d" "set rs \<subseteq> set xs" "rs \<noteq> []"
  shows "\<exists>pre post. xs = pre @ rs @ post \<and> dense a pre c \<and> dense d post b"
  using assms
proof (induction xs arbitrary: a c rs)
  case (Cons x xs)
  from Cons.prems(1) have d: "or_base x = a" "0 < or_count x" "dense (or_end x) xs b" by auto
  have later: "or_base x < or_base y" if "y \<in> set xs" for y
    using dense_bounds(1) [OF d(3) that] d(2) by linarith
  obtain r rs' where rs: "rs = r # rs'" using Cons.prems(4) by (cases rs) auto
  from Cons.prems(2) rs have r: "or_base r = c" "dense (or_end r) rs' d" by auto
  have asc: "or_base r < or_base y" if "y \<in> set rs'" for y
    using dense_bounds(1) [OF r(2) that] Cons.prems(2) rs by auto
  show ?case
  proof (cases "r = x")
    case True
    have sub: "set rs' \<subseteq> set xs"
      using Cons.prems(3) asc rs True by auto
    show ?thesis
    proof (cases "rs' = []")
      case True
      with r rs \<open>r = x\<close> d(1,3) have "x # xs = [] @ rs @ xs \<and> dense a [] c \<and> dense d xs b" by simp
      then show ?thesis by blast
    next
      case False
      with Cons.IH [OF d(3) r(2) [unfolded True] sub] obtain pre post where
        p: "xs = pre @ rs' @ post" "dense (or_end x) pre (or_end x)" "dense d post b" by blast
      have "pre = []"
        using p(2) dense_le by (cases pre) fastforce+
      with p rs True d(1) r(1) have "x # xs = [] @ rs @ post \<and> dense a [] c \<and> dense d post b" by simp
      then show ?thesis by blast
    qed
  next
    case False
    then have "r \<in> set xs" using Cons.prems(3) rs by auto
    then have "x \<notin> set rs" using later asc rs False by fastforce
    then have "set rs \<subseteq> set xs" using Cons.prems(3) by auto
    with Cons.IH [OF d(3) Cons.prems(2) _ Cons.prems(4)] obtain pre post where
      "xs = pre @ rs @ post" "dense (or_end x) pre c" "dense d post b" by blast
    with d(1,2) have "x # xs = (x # pre) @ rs @ post \<and> dense a (x # pre) c \<and> dense d post b" by simp
    then show ?thesis by blast
  qed
qed simp

text \<open>So the retain, extend and sort of \<open>replace_history\<close> puts the installed run where the
  retired one was.\<close>

lemma replace_history_stretch:
  assumes h: "dense a (pi_history p) b"
    and ret: "dense c (sort_key or_base retiring) d" "set retiring \<subseteq> set (pi_history p)"
      "retiring \<noteq> []"
    and ins: "dense c (sort_key or_base installing) d"
  shows "\<exists>pre post. pi_history p = pre @ sort_key or_base retiring @ post \<and>
           pi_history (replace_history p retiring installing) =
             pre @ sort_key or_base installing @ post \<and>
           dense a (pre @ sort_key or_base installing @ post) b"
proof -
  have ne: "sort_key or_base retiring \<noteq> []"
    using ret(3) by (metis length_0_conv length_sort)
  from dense_stretch [OF h ret(1) _ ne] ret(2) obtain pre post where
    p: "pi_history p = pre @ sort_key or_base retiring @ post" "dense a pre c" "dense d post b"
    by auto
  let ?new = "pre @ sort_key or_base installing @ post"
  have new: "dense a ?new b" using p(2,3) ins by (auto simp: dense_append)
  have "distinct (pi_history p)" using h by (rule dense_distinct)
  then have keep: "filter (\<lambda>held. \<not> list_ex (\<lambda>going. going = held) retiring) (pi_history p) = pre @ post"
    using p(1) by (auto simp: list_ex_iff filter_empty_conv intro!: arg_cong2 [where f = append] filter_True)
  have "sort_key or_base ((pre @ post) @ installing) = ?new"
  proof (rule sort_key_permutation_unique)
    show "mset ?new = mset ((pre @ post) @ installing)" by simp
    show "sorted (map or_base ?new)" using new by (rule dense_sorted)
    show "inj_on or_base (set ?new)" using new by (rule dense_inj)
  qed
  then have "pi_history (replace_history p retiring installing) = ?new"
    by (simp add: replace_history_def keep)
  then show ?thesis using p(1) new by blast
qed

lemma part_inv_replace_history:
  assumes inv: "part_inv p" and cov: "covers retiring installing = Inr ()"
    and held: "set retiring \<subseteq> set (pi_history p)"
  shows "part_inv (replace_history p retiring installing)"
proof -
  from inv obtain a where a: "0 \<le> a" "run_starts p a" "dense a (part_entries p) (pi_end p)"
    "0 \<le> pi_log_start p" "pi_log_start p \<le> pi_end p" "pi_end p \<le> i64_max"
    "length (pi_tail p) \<le> TAIL_WINDOW_ENTRIES"
    "pi_history p \<noteq> [] \<Longrightarrow> length (pi_tail p) = TAIL_WINDOW_ENTRIES"
    by (auto elim: part_invE)
  from cov obtain c d where cd: "retiring \<noteq> []"
    "dense c (sort_key or_base retiring) d" "dense c (sort_key or_base installing) d"
    by (auto simp: covers_ok_iff)
  from a(3) obtain m where m: "dense a (pi_history p) m" "dense m (map te_ref (pi_tail p)) (pi_end p)"
    by (auto simp: part_entries_def dense_append)
  let ?q = "replace_history p retiring installing"
  have "dense a (pi_history ?q) m"
    using replace_history_stretch [OF m(1) cd(2) held cd(1) cd(3)] by auto
  then have "dense a (part_entries ?q) (pi_end ?q)"
    using m(2) by (auto simp: part_entries_def dense_append replace_history_def)
  moreover have "run_starts ?q a"
    using a(2) run_starts_cong [of ?q p] by (simp add: replace_history_def)
  moreover have "pi_history p \<noteq> []" using held cd(1) by auto
  ultimately show ?thesis
    using a by (auto simp: part_inv_def replace_history_def)
qed

end
