(* ===== verification/Index_State.thy ===== *)
theory Index_State
  imports Partition_Index "HOL-Library.List_Lexorder" "HOL-Library.Char_ord"
begin

text \<open>
  The fold of the metadata log into the offset index: \<open>index_state.rs\<close> and its
  modules \<open>projection\<close>, \<open>quota\<close>, \<open>liveness\<close>, \<open>tiers\<close>, \<open>page\<close>, \<open>retention\<close>.  This theory
  holds the definitions; \<open>Index_Fold\<close> and \<open>Index_Read\<close> hold what is proved of them.

  The nested map \<open>HashMap<TopicId, HashMap<PartitionId, _>>\<close> is one partial function on
  pairs; the scratch maps of one \<open>apply\<close> (\<open>staged\<close>, \<open>projected\<close>, \<open>taken\<close>) are association
  lists, because \<open>apply\<close> iterates over them.  Counts are \<open>nat\<close>, so \<open>usize\<close> saturation at
  the top of the range does not arise; subtraction saturates at zero, as the source's does.
\<close>

section \<open>Effects on one partition (projection.rs, liveness.rs)\<close>

datatype ref_change = Added object_key | Dropped object_key

datatype effect =
    Published object_key offset
  | Swapped "object_ref list" "object_ref list"
  | Trim offset

record staged_effect =
  se_key :: pkey
  se_effect :: effect
  se_precedes :: nat

definition why_it_does_not_cover :: "object_ref list \<Rightarrow> object_ref list \<Rightarrow> swap_reason" where
  "why_it_does_not_cover retiring installing =
     (case retiring of
        [] \<Rightarrow> RetiresNothing (length installing)
      | first # _ \<Rightarrow>
          if installing = [] then InstallsNothing (length retiring) (or_object first)
          else case find (\<lambda>reference. or_count reference = 0) (retiring @ installing) of
                 Some hollow \<Rightarrow> CoversNoOffsets (or_object hollow)
               | None \<Rightarrow> DoesNotCover (length installing) (length retiring) (or_object first))"

definition apply_swap ::
  "partition_index \<Rightarrow> topic_id \<Rightarrow> partition_id \<Rightarrow> object_ref list \<Rightarrow> object_ref list \<Rightarrow> partition_index result"
where
  "apply_swap slot topic part retiring installing =
     bindR (map_errR (\<lambda>error. case error of
              IndexObjectMismatch \<Rightarrow>
                SwapRefused topic part (why_it_does_not_cover retiring installing)
            | other \<Rightarrow> other) (covers retiring installing)) (\<lambda>_.
       case find (\<lambda>reference. \<not> holds_in_history slot reference) retiring of
         Some reference \<Rightarrow> Inl (SwapRefused topic part (NotInHistory (or_object reference)))
       | None \<Rightarrow> Inr (replace_history slot retiring installing))"

definition apply_effect ::
  "partition_index \<Rightarrow> pkey \<Rightarrow> effect \<Rightarrow> ref_change list \<Rightarrow> (partition_index \<times> ref_change list) result"
where
  "apply_effect slot key eff changes =
     (case eff of
        Published manifest up_to \<Rightarrow>
          (case boundary slot up_to of
             Some expected \<Rightarrow>
               Inl (ManifestDoesNotMeetHistory (fst key) (snd key) up_to expected)
           | None \<Rightarrow> Inr (fst (absorb slot manifest up_to), changes))
      | Swapped retiring installing \<Rightarrow>
          bindR (apply_swap slot (fst key) (snd key) retiring installing) (\<lambda>slot'.
            Inr (slot', changes @ map (\<lambda>r. Dropped (or_object r)) retiring
                                @ map (\<lambda>r. Added (or_object r)) installing))
      | Trim start \<Rightarrow>
          if start > pi_end slot then Inl (TrimPastEnd (fst key) (snd key) start (pi_end slot))
          else Inr (fst (trim slot start), changes @ map Dropped (snd (trim slot start))))"

section \<open>State (index_state.rs)\<close>

record index_quota =
  iq_ceiling :: nat
  iq_alarm_at :: nat

record index_state =
  ix_applied :: "commit_version option"
  ix_partitions :: "pkey \<Rightarrow> partition_index option"
  ix_tiers :: tiers
  ix_quota :: "index_quota option"
  ix_references :: "object_key \<Rightarrow> nat option"

definition tiers_zero :: tiers where
  "tiers_zero = \<lparr>t_tail = 0, t_history = 0, t_manifests = 0\<rparr>"

definition tiers_add :: "tiers \<Rightarrow> tiers \<Rightarrow> tiers" where
  "tiers_add self other =
     \<lparr>t_tail = t_tail self + t_tail other, t_history = t_history self + t_history other,
      t_manifests = t_manifests self + t_manifests other\<rparr>"

definition tiers_sub :: "tiers \<Rightarrow> tiers \<Rightarrow> tiers" where
  "tiers_sub self other =
     \<lparr>t_tail = t_tail self - t_tail other, t_history = t_history self - t_history other,
      t_manifests = t_manifests self - t_manifests other\<rparr>"

definition index_new :: index_state where
  "index_new =
     \<lparr>ix_applied = None, ix_partitions = (\<lambda>_. None), ix_tiers = tiers_zero, ix_quota = None,
      ix_references = (\<lambda>_. None)\<rparr>"

definition with_quota :: "index_quota \<Rightarrow> index_state" where
  "with_quota quota = index_new\<lparr>ix_quota := Some quota\<rparr>"

definition index_clear :: "index_state \<Rightarrow> index_state" where
  "index_clear self =
     self\<lparr>ix_applied := None, ix_partitions := (\<lambda>_. None), ix_tiers := tiers_zero,
          ix_references := (\<lambda>_. None)\<rparr>"

definition slot_of :: "index_state \<Rightarrow> pkey \<Rightarrow> partition_index" where
  "slot_of self key =
     (case ix_partitions self key of Some p \<Rightarrow> p | None \<Rightarrow> partition_default)"

section \<open>Staging one batch (projection.rs)\<close>

type_synonym staged_spans = "(pkey \<times> offset \<times> tail_entry list \<times> time_span) list"
type_synonym projected = "(pkey \<times> partition_index) list"

definition stage_span ::
  "index_state \<Rightarrow> staged_spans \<Rightarrow> object_key \<Rightarrow> committed_span \<Rightarrow> time_span \<Rightarrow> staged_spans result"
where
  "stage_span self staged object span when =
     (if cs_count span = 0
      then Inl (EmptySpanInLog (cs_topic span) (cs_partition span) object)
      else
        let key = cs_key span;
            base = (case map_of staged key of
                      Some (end, _, _) \<Rightarrow> end
                    | None \<Rightarrow> (case ix_partitions self key of Some p \<Rightarrow> pi_end p | None \<Rightarrow> 0))
        in bindR (offset_add base (int (cs_count span))) (\<lambda>next.
             let entry = \<lparr>te_ref = \<lparr>or_object = object, or_base = base, or_count = cs_count span\<rparr>,
                          te_bytes = cs_bytes span\<rparr>;
                 slot = (case map_of staged key of Some v \<Rightarrow> v | None \<Rightarrow> (base, [], when))
             in Inr (AList.update key
                       (next, fst (snd slot) @ [entry], widened (snd (snd slot)) when) staged)))"

definition precedes :: "staged_spans \<Rightarrow> pkey \<Rightarrow> nat" where
  "precedes staged key =
     (case map_of staged key of Some (_, entries, _) \<Rightarrow> length entries | None \<Rightarrow> 0)"

record batch =
  ba_effects :: "staged_effect list"
  ba_staged :: staged_spans

definition batch_default :: batch where
  "batch_default = \<lparr>ba_effects = [], ba_staged = []\<rparr>"

definition stage_effect :: "batch \<Rightarrow> pkey \<Rightarrow> effect \<Rightarrow> batch" where
  "stage_effect self key eff =
     self\<lparr>ba_effects := ba_effects self @
            [\<lparr>se_key = key, se_effect = eff, se_precedes = precedes (ba_staged self) key\<rparr>]\<rparr>"

definition read_record :: "index_state \<Rightarrow> metadata_record \<Rightarrow> batch \<Rightarrow> batch result" where
  "read_record self rec batch =
     (case rec of
        BatchCommitted object spans written_at \<Rightarrow>
          bindR (foldR (\<lambda>staged span. stage_span self staged object span (time_span_at written_at))
                   (ba_staged batch) spans)
            (\<lambda>staged. Inr (batch\<lparr>ba_staged := staged\<rparr>))
      | ManifestPublished topic part manifest up_to \<Rightarrow>
          Inr (stage_effect batch (topic, part) (Published manifest up_to))
      | RangeCompacted topic part retiring installing \<Rightarrow>
          Inr (stage_effect batch (topic, part) (Swapped retiring installing))
      | Trimmed topic part start \<Rightarrow>
          Inr (stage_effect batch (topic, part) (Trim start))
      | EpochChanged _ \<Rightarrow> Inr batch
      | TopicRetentionChanged _ _ \<Rightarrow> Inr batch)"

text \<open>The first loop of \<open>apply\<close>: order checking and staging, entry by entry.\<close>

definition read_entry ::
  "index_state \<Rightarrow> commit_version option \<times> batch \<Rightarrow> metadata_entry \<Rightarrow> (commit_version option \<times> batch) result"
where
  "read_entry self acc entry =
     (case fst acc of
        Some prev \<Rightarrow>
          if me_version entry \<le> prev
          then Inl (NonMonotonicCommitVersion prev (me_version entry))
          else bindR (read_record self (me_record entry) (snd acc))
                 (\<lambda>batch. Inr (Some (me_version entry), batch))
      | None \<Rightarrow>
          bindR (read_record self (me_record entry) (snd acc))
            (\<lambda>batch. Inr (Some (me_version entry), batch)))"

section \<open>Projecting the effects onto copies (projection.rs)\<close>

text \<open>\<open>catch_up\<close>: the \<open>while\<close> loop.  An index past the staged entries would panic.\<close>

function catch_up_loop ::
  "tail_entry list \<Rightarrow> partition_index \<Rightarrow> nat \<Rightarrow> nat \<Rightarrow> (partition_index \<times> nat) result" where
  "catch_up_loop entries slot already up_to =
     (if already < up_to then
        if already < length entries then
          bindR (ref_end_offset (te_ref (entries ! already))) (\<lambda>end.
            catch_up_loop entries ((push slot (entries ! already))\<lparr>pi_end := end\<rparr>)
              (already + 1) up_to)
        else Inl Panicked
      else Inr (slot, already))"
  by pat_completeness auto
termination
  by (relation "measure (\<lambda>(entries, slot, already, up_to). up_to - already)") auto

declare catch_up_loop.simps [simp del]

definition catch_up ::
  "partition_index \<Rightarrow> (offset \<times> tail_entry list \<times> time_span) option \<Rightarrow> nat \<Rightarrow> nat
     \<Rightarrow> (partition_index \<times> nat) result" where
  "catch_up slot staged already up_to =
     (case staged of
        None \<Rightarrow> Inr (slot, already)
      | Some (_, entries, _) \<Rightarrow> catch_up_loop entries slot already up_to)"

record projection =
  pj_projected :: projected
  pj_changes :: "ref_change list"
  pj_taken :: "(pkey \<times> nat) list"

definition project_effect ::
  "index_state \<Rightarrow> staged_spans \<Rightarrow> projection \<Rightarrow> staged_effect \<Rightarrow> projection result" where
  "project_effect self staged pj eff =
     (let key = se_key eff;
          slot = (case map_of (pj_projected pj) key of Some p \<Rightarrow> p | None \<Rightarrow> slot_of self key);
          already = get_or 0 (pj_taken pj) key
      in bindR (catch_up slot (map_of staged key) already (se_precedes eff)) (\<lambda>(slot1, already1).
         bindR (apply_effect slot1 key (se_effect eff) (pj_changes pj)) (\<lambda>(slot2, changes).
           Inr (pj\<lparr>pj_projected := AList.update key slot2 (pj_projected pj),
                   pj_changes := changes,
                   pj_taken := AList.update key already1 (pj_taken pj)\<rparr>))))"

text \<open>The second loop of \<open>project\<close>: the commits after the last effect.\<close>

definition finish_slot ::
  "staged_spans \<Rightarrow> (pkey \<times> nat) list \<Rightarrow> pkey \<Rightarrow> partition_index \<Rightarrow> partition_index result" where
  "finish_slot staged taken key slot =
     bindR (catch_up slot (map_of staged key) (get_or 0 taken key) (precedes staged key))
       (\<lambda>(slot1, _).
         case map_of staged key of
           None \<Rightarrow> Inr slot1
         | Some (end, _, when) \<Rightarrow> Inr (observe (slot1\<lparr>pi_end := end\<rparr>) when))"

fun finish_projected ::
  "staged_spans \<Rightarrow> (pkey \<times> nat) list \<Rightarrow> projected \<Rightarrow> projected result" where
  "finish_projected staged taken [] = Inr []"
| "finish_projected staged taken ((key, slot) # rest) =
     bindR (finish_slot staged taken key slot) (\<lambda>slot'.
     bindR (finish_projected staged taken rest) (\<lambda>rest'. Inr ((key, slot') # rest')))"

definition project ::
  "index_state \<Rightarrow> staged_effect list \<Rightarrow> staged_spans \<Rightarrow> (projected \<times> ref_change list) result" where
  "project self effects staged =
     bindR (foldR (project_effect self staged)
              \<lparr>pj_projected = [], pj_changes = [], pj_taken = []\<rparr> effects) (\<lambda>pj.
     bindR (finish_projected staged (pj_taken pj) (pj_projected pj)) (\<lambda>projected.
       Inr (projected, pj_changes pj)))"

section \<open>The quota (quota.rs)\<close>

datatype pressure = Nominal | Alarmed

definition quota_new :: "nat \<Rightarrow> nat \<Rightarrow> index_quota result" where
  "quota_new ceiling alarm_at =
     (if ceiling = 0 \<or> alarm_at \<ge> ceiling then Inl (InvalidIndexQuota ceiling alarm_at)
      else Inr \<lparr>iq_ceiling = ceiling, iq_alarm_at = alarm_at\<rparr>)"

definition quota_alarmed :: "index_quota \<Rightarrow> nat \<Rightarrow> bool" where
  "quota_alarmed self entries \<longleftrightarrow> entries \<ge> iq_alarm_at self"

definition would_cross :: "index_quota \<Rightarrow> nat \<Rightarrow> bool" where
  "would_cross self entries \<longleftrightarrow> entries > iq_ceiling self"

definition index_pressure :: "index_state \<Rightarrow> pressure" where
  "index_pressure self =
     (case ix_quota self of
        Some quota \<Rightarrow> if quota_alarmed quota (tiers_total (ix_tiers self)) then Alarmed else Nominal
      | None \<Rightarrow> Nominal)"

type_synonym contribution = "topic_id \<times> partition_id \<times> int"

definition contributions :: "index_state \<Rightarrow> staged_spans \<Rightarrow> projected \<Rightarrow> contribution list" where
  "contributions self staged projected =
     map (\<lambda>((topic, part), _, entries, _). (topic, part, int (length entries)))
       (filter (\<lambda>(key, _). map_of projected key = None) staged) @
     map (\<lambda>((topic, part), slot).
            (topic, part,
             int (tiers_total (partition_tiers slot)) -
             (case ix_partitions self (topic, part) of
                Some held \<Rightarrow> int (tiers_total (partition_tiers held)) | None \<Rightarrow> 0)))
       projected"

text \<open>The comparison \<open>max_by\<close> is given: by growth, ties broken towards the smaller name.\<close>

definition contribution_greater :: "contribution \<Rightarrow> contribution \<Rightarrow> bool" where
  "contribution_greater left right =
     (case (left, right) of ((lt, lp, ld), (rt, rp, rd)) \<Rightarrow>
        ld > rd \<or> (ld = rd \<and> (rt > lt \<or> (rt = lt \<and> rp > lp))))"

fun largest_contributor :: "contribution list \<Rightarrow> topic_id \<times> partition_id" where
  "largest_contributor [] = ([], 0)"
| "largest_contributor [(topic, part, _)] = (topic, part)"
| "largest_contributor (left # right # rest) =
     (if contribution_greater left right then largest_contributor (left # rest)
      else largest_contributor (right # rest))"

definition check_quota :: "index_state \<Rightarrow> staged_spans \<Rightarrow> projected \<Rightarrow> unit result" where
  "check_quota self staged projected =
     (case ix_quota self of
        None \<Rightarrow> Inr ()
      | Some quota \<Rightarrow>
          let cs = contributions self staged projected;
              net = sum_list (map (\<lambda>(_, _, delta). delta) cs);
              would_be = nat (max 0 (int (tiers_total (ix_tiers self)) + net))
          in if \<not> would_cross quota would_be then Inr ()
             else Inl (IndexQuotaExceeded (fst (largest_contributor cs)) (snd (largest_contributor cs))
                         would_be (iq_ceiling quota)))"

section \<open>Reference counts (liveness.rs)\<close>

definition stage_changes :: "staged_spans \<Rightarrow> ref_change list" where
  "stage_changes staged =
     concat (map (\<lambda>(_, _, entries, _). map (\<lambda>entry. Added (or_object (te_ref entry))) entries) staged)"

fun is_added :: "ref_change \<Rightarrow> bool" where
  "is_added (Added _) = True"
| "is_added (Dropped _) = False"

fun references_change :: "(object_key \<Rightarrow> nat option) \<Rightarrow> ref_change \<Rightarrow> (object_key \<Rightarrow> nat option)" where
  "references_change refs (Added key) =
     refs(key \<mapsto> (case refs key of Some held \<Rightarrow> held | None \<Rightarrow> 0) + 1)"
| "references_change refs (Dropped key) =
     (case refs key of
        None \<Rightarrow> refs
      | Some held \<Rightarrow> if held - 1 = 0 then refs(key := None) else refs(key \<mapsto> held - 1))"

definition references_apply ::
  "(object_key \<Rightarrow> nat option) \<Rightarrow> ref_change list \<Rightarrow> (object_key \<Rightarrow> nat option)" where
  "references_apply refs changes =
     foldl references_change refs (filter is_added changes @ filter (\<lambda>c. \<not> is_added c) changes)"

definition index_references :: "index_state \<Rightarrow> object_key \<Rightarrow> nat" where
  "index_references self object = (case ix_references self object of Some n \<Rightarrow> n | None \<Rightarrow> 0)"

section \<open>apply (index_state.rs)\<close>

definition install_staged ::
  "projected \<Rightarrow> index_state \<Rightarrow> (pkey \<times> offset \<times> tail_entry list \<times> time_span) \<Rightarrow> index_state" where
  "install_staged projected self stg =
     (case stg of (key, end, entries, when) \<Rightarrow>
        if map_of projected key \<noteq> None then self
        else
          let slot = observe ((slot_of self key)\<lparr>pi_end := end\<rparr>) when;
              before = partition_tiers slot;
              slot' = foldl push slot entries;
              after = partition_tiers slot'
          in self\<lparr>ix_partitions := (ix_partitions self)(key \<mapsto> slot'),
                  ix_tiers := tiers_sub (tiers_add (ix_tiers self) after) before\<rparr>)"

definition install_projected :: "index_state \<Rightarrow> (pkey \<times> partition_index) \<Rightarrow> index_state" where
  "install_projected self prj =
     (case prj of (key, slot) \<Rightarrow>
        let before = (case ix_partitions self key of
                        Some held \<Rightarrow> partition_tiers held | None \<Rightarrow> tiers_zero)
        in self\<lparr>ix_tiers := tiers_sub (tiers_add (ix_tiers self) (partition_tiers slot)) before,
                ix_partitions := (ix_partitions self)(key \<mapsto> slot)\<rparr>)"

definition install ::
  "index_state \<Rightarrow> staged_spans \<Rightarrow> projected \<Rightarrow> ref_change list \<Rightarrow> commit_version option \<Rightarrow> index_state" where
  "install self staged projected changes previous =
     (let s1 = foldl (install_staged projected) self staged;
          s2 = foldl install_projected s1 projected
      in s2\<lparr>ix_references := references_apply (ix_references s2) changes,
            ix_applied := previous\<rparr>)"

definition index_apply :: "index_state \<Rightarrow> metadata_entry list \<Rightarrow> index_state result" where
  "index_apply self entries =
     bindR (foldR (read_entry self) (ix_applied self, batch_default) entries) (\<lambda>(previous, batch).
     bindR (project self (ba_effects batch) (ba_staged batch)) (\<lambda>(projected, changes).
     bindR (check_quota self (ba_staged batch) projected) (\<lambda>_.
       Inr (install self (ba_staged batch) projected
              (changes @ stage_changes (ba_staged batch)) previous))))"

section \<open>Reading (index_state.rs, page.rs, retention.rs, tiers.rs)\<close>

definition index_end_offset :: "index_state \<Rightarrow> pkey \<Rightarrow> offset" where
  "index_end_offset self key = (case ix_partitions self key of Some p \<Rightarrow> pi_end p | None \<Rightarrow> 0)"

definition index_log_start :: "index_state \<Rightarrow> pkey \<Rightarrow> offset" where
  "index_log_start self key = (case ix_partitions self key of Some p \<Rightarrow> pi_log_start p | None \<Rightarrow> 0)"

definition index_manifest :: "index_state \<Rightarrow> pkey \<Rightarrow> (object_key \<times> offset) option" where
  "index_manifest self key = (case ix_partitions self key of Some p \<Rightarrow> pi_manifest p | None \<Rightarrow> None)"

definition index_time_span :: "index_state \<Rightarrow> pkey \<Rightarrow> time_span option" where
  "index_time_span self key = (case ix_partitions self key of Some p \<Rightarrow> pi_when p | None \<Rightarrow> None)"

definition index_entries :: "index_state \<Rightarrow> nat" where
  "index_entries self = tiers_total (ix_tiers self)"

definition MAX_BATCHES_PER_PAGE :: nat where
  "MAX_BATCHES_PER_PAGE = 64"

record page =
  pg_batches :: "indexed_batch list"
  pg_spent :: nat
  pg_max_bytes :: nat

definition saturating_add_u64 :: "nat \<Rightarrow> nat \<Rightarrow> nat" where
  "saturating_add_u64 a b = min u64_max (a + b)"

definition page_new :: "nat \<Rightarrow> page" where
  "page_new max_bytes = \<lparr>pg_batches = [], pg_spent = 0, pg_max_bytes = max_bytes\<rparr>"

definition page_push :: "page \<Rightarrow> indexed_batch \<Rightarrow> bool \<times> page" where
  "page_push self batch =
     (if pg_batches self \<noteq> [] \<and>
         (length (pg_batches self) \<ge> MAX_BATCHES_PER_PAGE \<or>
          (case known_len batch of
             Some len \<Rightarrow> saturating_add_u64 (pg_spent self) len > pg_max_bytes self
           | None \<Rightarrow> False))
      then (False, self)
      else (True, self\<lparr>pg_spent := (case known_len batch of
                                      Some len \<Rightarrow> saturating_add_u64 (pg_spent self) len
                                    | None \<Rightarrow> pg_spent self),
                       pg_batches := pg_batches self @ [batch]\<rparr>))"

text \<open>The body of both loops of \<open>find_batches\<close>; the flag says that the page was closed.\<close>

fun find_scan :: "offset \<Rightarrow> page \<Rightarrow> indexed_batch list \<Rightarrow> (bool \<times> page) result" where
  "find_scan start pg [] = Inr (False, pg)"
| "find_scan start pg (batch # rest) =
     bindR (ref_end_offset (batch_reference batch)) (\<lambda>end.
       if end > start then
         (case page_push pg batch of
            (False, pg') \<Rightarrow> Inr (True, pg')
          | (True, pg') \<Rightarrow> find_scan start pg' rest)
       else find_scan start pg rest)"

text \<open>\<open>partition_point\<close> on a slice partitioned by the predicate is the length of its prefix.\<close>

definition first_candidate :: "object_ref list \<Rightarrow> offset \<Rightarrow> nat" where
  "first_candidate history start =
     length (takeWhile (\<lambda>reference. or_base reference \<le> start) history) - 1"

definition find_batches :: "index_state \<Rightarrow> pkey \<Rightarrow> offset \<Rightarrow> nat \<Rightarrow> indexed_batch list result" where
  "find_batches self key start max_bytes =
     (case ix_partitions self key of
        None \<Rightarrow> Inr []
      | Some slot \<Rightarrow>
          if start < pi_log_start slot then Inl (BelowLogStart start (pi_log_start slot))
          else
            bindR (find_scan start (page_new max_bytes)
                     (map Footer (drop (first_candidate (pi_history slot) start) (pi_history slot))))
              (\<lambda>(closed, pg).
                if closed then Inr (pg_batches pg)
                else bindR (find_scan start pg (map Inline (pi_tail slot)))
                       (\<lambda>(_, pg'). Inr (pg_batches pg'))))"

end
