(* ===== verification/Index_Fold.thy ===== *)
theory Index_Fold
  imports Index_State
begin

text \<open>
  What the batched fold of \<open>Index_State\<close> means.  The specification \<open>log_run\<close> reads a log one
  operation at a time with no staging: a commit appends to its partition, an effect is applied
  to the partition as it then stands.  The theory proves that \<open>index_apply\<close>, which stages a
  whole page, projects its effects onto copies and installs the copies last, implements it.
\<close>

section \<open>The specification: one operation at a time\<close>

datatype log_op = Commit object_key committed_span timestamp | Eff pkey effect

fun op_key :: "log_op \<Rightarrow> pkey" where
  "op_key (Commit object span ts) = cs_key span"
| "op_key (Eff key eff) = key"

definition record_ops :: "metadata_record \<Rightarrow> log_op list" where
  "record_ops rec =
     (case rec of
        BatchCommitted object spans written_at \<Rightarrow> map (\<lambda>span. Commit object span written_at) spans
      | ManifestPublished topic part manifest up_to \<Rightarrow> [Eff (topic, part) (Published manifest up_to)]
      | RangeCompacted topic part retiring installing \<Rightarrow>
          [Eff (topic, part) (Swapped retiring installing)]
      | Trimmed topic part start \<Rightarrow> [Eff (topic, part) (Trim start)]
      | EpochChanged _ \<Rightarrow> []
      | TopicRetentionChanged _ _ \<Rightarrow> [])"

definition log_ops :: "metadata_entry list \<Rightarrow> log_op list" where
  "log_ops entries = concat (map (\<lambda>entry. record_ops (me_record entry)) entries)"

lemma log_ops_simps [simp]:
  "log_ops [] = []" "log_ops (e # es) = record_ops (me_record e) @ log_ops es"
  "log_ops (es @ fs) = log_ops es @ log_ops fs"
  by (simp_all add: log_ops_def)

type_synonym parts = "pkey \<Rightarrow> partition_index option"

definition part_of :: "parts \<Rightarrow> pkey \<Rightarrow> partition_index" where
  "part_of parts key = (case parts key of Some p \<Rightarrow> p | None \<Rightarrow> partition_default)"

lemma part_of_upd [simp]:
  "part_of (parts(key \<mapsto> p)) key' = (if key' = key then p else part_of parts key')"
  by (simp add: part_of_def)

lemma slot_of_part_of: "slot_of s key = part_of (ix_partitions s) key"
  by (simp add: slot_of_def part_of_def)

definition commit_entry :: "partition_index \<Rightarrow> object_key \<Rightarrow> committed_span \<Rightarrow> tail_entry" where
  "commit_entry slot object span =
     \<lparr>te_ref = \<lparr>or_object = object, or_base = pi_end slot, or_count = cs_count span\<rparr>,
      te_bytes = cs_bytes span\<rparr>"

fun step_op :: "partition_index \<Rightarrow> log_op \<Rightarrow> (partition_index \<times> ref_change list) result" where
  "step_op slot (Commit object span ts) =
     (if cs_count span = 0
      then Inl (EmptySpanInLog (cs_topic span) (cs_partition span) object)
      else bindR (offset_add (pi_end slot) (int (cs_count span))) (\<lambda>end.
        Inr (observe ((push slot (commit_entry slot object span))\<lparr>pi_end := end\<rparr>)
               (time_span_at ts),
             [Added object])))"
| "step_op slot (Eff key eff) = apply_effect slot key eff []"

definition log_step ::
  "parts \<times> ref_change list \<Rightarrow> log_op \<Rightarrow> (parts \<times> ref_change list) result" where
  "log_step w op =
     bindR (step_op (part_of (fst w) (op_key op)) op) (\<lambda>(slot, cs).
       Inr ((fst w)(op_key op \<mapsto> slot), snd w @ cs))"

definition log_run :: "parts \<Rightarrow> log_op list \<Rightarrow> (parts \<times> ref_change list) result" where
  "log_run parts ops = foldR log_step (parts, []) ops"

section \<open>Effects, observations and the end offset commute\<close>

lemma push_observe [simp]: "push (observe p w) e = observe (push p e) w"
  by (simp add: push_alt observe_def)

lemma push_set_end [simp]: "push (p\<lparr>pi_end := x\<rparr>) e = (push p e)\<lparr>pi_end := x\<rparr>"
  by (simp add: push_alt)

lemma observe_set_end: "observe (p\<lparr>pi_end := x\<rparr>) w = (observe p w)\<lparr>pi_end := x\<rparr>"
  by (simp add: observe_def)

lemma observe_widened: "observe (observe p v) w = observe p (widened v w)"
  by (simp add: observe_def widened_assoc split: option.split)

lemma set_end_same [simp]: "p\<lparr>pi_end := pi_end p\<rparr> = p"
  by simp

lemma boundary_observe [simp]: "boundary (observe p w) u = boundary p u"
proof -
  have b: "boundary_bases (observe p w) = boundary_bases p" by (simp add: boundary_bases_def)
  then have f: "boundary_first_tail (observe p w) = boundary_first_tail p"
    by (simp add: boundary_first_tail_def)
  with b have "boundary_limit (observe p w) = boundary_limit p" by (simp add: boundary_limit_def)
  with b f show ?thesis unfolding boundary_def by (simp only:)
qed

definition observe_opt :: "time_span option \<Rightarrow> partition_index \<Rightarrow> partition_index" where
  "observe_opt w p = (case w of None \<Rightarrow> p | Some v \<Rightarrow> observe p v)"

lemma apply_effect_observe:
  "apply_effect (observe p w) key eff cs =
     bindR (apply_effect p key eff cs) (\<lambda>(q, cs'). Inr (observe q w, cs'))"
proof (cases eff)
  case (Published m u)
  then show ?thesis
    by (auto simp: apply_effect_def absorb_def Let_def observe_def [of _ w]
          simp flip: boundary_observe [of p w u] split: option.split)
next
  case (Swapped ret ins)
  have "apply_swap (observe p w) t k ret ins =
      bindR (apply_swap p t k ret ins) (\<lambda>q. Inr (observe q w))" for t k
    by (auto simp: apply_swap_def bindR_def holds_in_history_def replace_history_def observe_def
          split: sum.split option.split)
  with Swapped show ?thesis by (simp add: apply_effect_def bindR_assoc)
next
  case (Trim u)
  then show ?thesis by (auto simp: apply_effect_def trim_def observe_def split: option.split)
qed

lemma apply_effect_changes:
  "apply_effect p key eff cs =
     bindR (apply_effect p key eff []) (\<lambda>(q, cs'). Inr (q, cs @ cs'))"
  by (cases eff) (auto simp: apply_effect_def bindR_assoc split: option.split)

lemma apply_effect_end:
  assumes "apply_effect p key eff cs = Inr (q, cs')"
  shows "pi_end q = pi_end p" "pi_when q = pi_when p"
  using assms
  by (cases eff; auto simp: apply_effect_def absorb_def Let_def bindR_Inr_iff apply_swap_def
      replace_history_def split: option.splits if_splits)+

section \<open>Reading a page is staging its operations\<close>

fun stage_op :: "index_state \<Rightarrow> batch \<Rightarrow> log_op \<Rightarrow> batch result" where
  "stage_op s b (Commit object span ts) =
     bindR (stage_span s (ba_staged b) object span (time_span_at ts)) (\<lambda>staged.
       Inr (b\<lparr>ba_staged := staged\<rparr>))"
| "stage_op s b (Eff key eff) = Inr (stage_effect b key eff)"

lemma read_record_ops: "read_record s rec b = foldR (stage_op s) b (record_ops rec)"
proof -
  have "bindR (foldR (\<lambda>staged span. stage_span s staged object span (time_span_at ts)) (ba_staged b) spans)
          (\<lambda>staged. Inr (b\<lparr>ba_staged := staged\<rparr>)) =
        foldR (stage_op s) b (map (\<lambda>span. Commit object span ts) spans)" for object ts spans
  proof (induction spans arbitrary: b)
    case (Cons sp sps)
    have "b\<lparr>ba_staged := x\<rparr> = (b\<lparr>ba_staged := y\<rparr>)\<lparr>ba_staged := x\<rparr>" for x y by simp
    with Cons [of "b\<lparr>ba_staged := y\<rparr>" for y] show ?case
      by (simp add: bindR_assoc)
  qed simp
  then show ?thesis
    by (simp add: read_record_def record_ops_def split: metadata_record.split)
qed

lemma read_entry_iff:
  "read_entry s (v, b) e = Inr (v', b') \<longleftrightarrow>
     (\<forall>p. v = Some p \<longrightarrow> p < me_version e) \<and> v' = Some (me_version e) \<and>
     foldR (stage_op s) b (record_ops (me_record e)) = Inr b'"
  by (auto simp: read_entry_def read_record_ops bindR_Inr_iff split: option.splits)

lemma read_entries_iff:
  "foldR (read_entry s) (v, b) es = Inr (v', b') \<longleftrightarrow>
     ascending v es \<and> v' = last_version_of v es \<and> foldR (stage_op s) b (log_ops es) = Inr b'"
proof (induction es arbitrary: v b)
  case (Cons e es)
  show ?case
    by (auto simp: Cons read_entry_iff foldR_append bindR_Inr_iff ascending_Cons)
qed auto

section \<open>Catching up\<close>

definition push_run :: "partition_index \<Rightarrow> tail_entry list \<Rightarrow> partition_index" where
  "push_run slot es = foldl (\<lambda>q e. (push q e)\<lparr>pi_end := or_end (te_ref e)\<rparr>) slot es"

lemma push_run_simps [simp]:
  "push_run p [] = p" "push_run p (e # es) = push_run ((push p e)\<lparr>pi_end := or_end (te_ref e)\<rparr>) es"
  "push_run p (es @ [x]) = (push (push_run p es) x)\<lparr>pi_end := or_end (te_ref x)\<rparr>"
  by (simp_all add: push_run_def)

lemma push_run_end: "pi_end (push_run p es) = (if es = [] then pi_end p else or_end (te_ref (last es)))"
  by (induction es rule: rev_induct) auto

lemma push_run_foldl:
  "push_run p es = (foldl push p es)\<lparr>pi_end := if es = [] then pi_end p else or_end (te_ref (last es))\<rparr>"
  by (induction es rule: rev_induct) auto

lemma foldl_push_fields [simp]:
  "foldl push (p\<lparr>pi_end := x\<rparr>) es = (foldl push p es)\<lparr>pi_end := x\<rparr>"
  "foldl push (observe p w) es = observe (foldl push p es) w"
  by (induction es arbitrary: p) auto

lemma catch_up_loop_run:
  assumes "already \<le> up_to" "up_to \<le> length es" "\<forall>x\<in>set es. or_end (te_ref x) \<le> i64_max"
  shows "catch_up_loop es p already up_to =
    Inr (push_run p (take (up_to - already) (drop already es)), up_to)"
  using assms
proof (induction es p already up_to rule: catch_up_loop.induct)
  case (1 es p already up_to)
  show ?case
  proof (cases "already < up_to")
    case True
    then have l: "already < length es" using "1.prems"(2) by linarith
    with "1.prems"(3) have end_ok:
      "ref_end_offset (te_ref (es ! already)) = Inr (or_end (te_ref (es ! already)))"
      by (simp add: ref_end_offset_Inr_iff)
    have "take (up_to - already) (drop already es) =
        es ! already # take (up_to - (already + 1)) (drop (already + 1) es)"
      using True l by (simp add: Cons_nth_drop_Suc [symmetric] take_Cons' Suc_diff_Suc)
    with "1.IH" [OF True l] "1.prems" True l end_ok show ?thesis
      by (subst catch_up_loop.simps) simp
  next
    case False
    with "1.prems" show ?thesis by (subst catch_up_loop.simps) simp
  qed
qed

definition staged_entries :: "staged_spans \<Rightarrow> pkey \<Rightarrow> tail_entry list" where
  "staged_entries st key = (case map_of st key of Some (_, es, _) \<Rightarrow> es | None \<Rightarrow> [])"

definition staged_when :: "staged_spans \<Rightarrow> pkey \<Rightarrow> time_span option" where
  "staged_when st key = (case map_of st key of Some (_, _, w) \<Rightarrow> Some w | None \<Rightarrow> None)"

lemma precedes_length: "precedes st key = length (staged_entries st key)"
  by (simp add: precedes_def staged_entries_def split: option.split)

text \<open>What staging keeps: one slot per partition, non-empty, whose end is its last entry's end.\<close>

definition staged_ok :: "staged_spans \<Rightarrow> bool" where
  "staged_ok st \<longleftrightarrow>
     distinct (map fst st) \<and>
     (\<forall>key e es w. map_of st key = Some (e, es, w) \<longrightarrow>
        es \<noteq> [] \<and> e = or_end (te_ref (last es)) \<and> (\<forall>x\<in>set es. or_end (te_ref x) \<le> i64_max))"

lemma staged_okD:
  assumes "staged_ok st" "map_of st key = Some (e, es, w)"
  shows "es \<noteq> []" "e = or_end (te_ref (last es))" "\<forall>x\<in>set es. or_end (te_ref x) \<le> i64_max"
  using assms unfolding staged_ok_def by blast+

lemma staged_ok_ends: "staged_ok st \<Longrightarrow> \<forall>x\<in>set (staged_entries st key). or_end (te_ref x) \<le> i64_max"
  unfolding staged_ok_def staged_entries_def by (cases "map_of st key") fastforce+

lemma catch_up_run:
  assumes "staged_ok st" "already \<le> up_to" "up_to \<le> precedes st key"
  shows "catch_up p (map_of st key) already up_to =
    Inr (push_run p (take (up_to - already) (drop already (staged_entries st key))), up_to)"
  using assms catch_up_loop_run [of already up_to "staged_entries st key" p]
    staged_ok_ends [OF assms(1), of key]
  by (auto simp: catch_up_def precedes_def staged_entries_def split: option.split)

declare split_paired_All [simp del] split_paired_Ex [simp del]

section \<open>Staging and projecting interleaved\<close>

text \<open>\<open>project\<close> runs after the whole page is staged.  An effect only looks at the staged entries
  that precede it, so projecting it as soon as it is read gives the same projection.\<close>

definition projection_empty :: projection where
  "projection_empty = \<lparr>pj_projected = [], pj_changes = [], pj_taken = []\<rparr>"

fun pair_step :: "index_state \<Rightarrow> batch \<times> projection \<Rightarrow> log_op \<Rightarrow> (batch \<times> projection) result" where
  "pair_step s (b, pj) (Commit object span ts) =
     bindR (stage_op s b (Commit object span ts)) (\<lambda>b'. Inr (b', pj))"
| "pair_step s (b, pj) (Eff key eff) =
     bindR (project_effect s (ba_staged b) pj
              \<lparr>se_key = key, se_effect = eff, se_precedes = precedes (ba_staged b) key\<rparr>)
       (\<lambda>pj'. Inr (stage_effect b key eff, pj'))"

definition staged_extends :: "staged_spans \<Rightarrow> staged_spans \<Rightarrow> bool" where
  "staged_extends st st' \<longleftrightarrow>
     (\<forall>key. \<exists>more. staged_entries st' key = staged_entries st key @ more)"

lemma staged_extends_refl [simp]: "staged_extends st st"
  by (simp add: staged_extends_def)

lemma staged_entries_None: "map_of st key = None \<Longrightarrow> staged_entries st key = []"
  by (simp add: staged_entries_def)

lemma stage_span_Inr:
  assumes "stage_span s st object span w = Inr st'"
  obtains base where
    "base = (case map_of st (cs_key span) of Some (e, _, _) \<Rightarrow> e | None \<Rightarrow> pi_end (slot_of s (cs_key span)))"
    "0 < cs_count span" "base + int (cs_count span) \<le> i64_max"
    "st' = AList.update (cs_key span)
             (base + int (cs_count span),
              staged_entries st (cs_key span) @
                [\<lparr>te_ref = \<lparr>or_object = object, or_base = base, or_count = cs_count span\<rparr>,
                  te_bytes = cs_bytes span\<rparr>],
              case staged_when st (cs_key span) of Some v \<Rightarrow> widened v w | None \<Rightarrow> w) st"
proof -
  let ?base = "case map_of st (cs_key span) of Some (e, _, _) \<Rightarrow> e
    | None \<Rightarrow> pi_end (slot_of s (cs_key span))"
  have "(case map_of st (cs_key span) of Some (e, _, _) \<Rightarrow> e
      | None \<Rightarrow> (case ix_partitions s (cs_key span) of Some p \<Rightarrow> pi_end p | None \<Rightarrow> 0)) = ?base"
    by (auto simp: slot_of_def partition_default_def split: option.split)
  with assms that [of ?base] show thesis
    by (auto simp: stage_span_def Let_def offset_add_Inr_iff bindR_Inr_iff staged_entries_def
        staged_when_def split: option.splits if_splits)
qed

lemma stage_op_extends:
  assumes "stage_op s b op = Inr b'"
  shows "staged_extends (ba_staged b) (ba_staged b')"
proof (cases op)
  case (Commit object span ts)
  with assms obtain st' where st': "stage_span s (ba_staged b) object span (time_span_at ts) = Inr st'"
    "b' = b\<lparr>ba_staged := st'\<rparr>" by (auto simp: bindR_Inr_iff)
  from st'(1) show ?thesis
    by (rule stage_span_Inr) (simp add: st'(2) staged_extends_def staged_entries_def)
next
  case (Eff key eff)
  with assms show ?thesis by (auto simp: stage_effect_def)
qed

text \<open>What is staged is well formed, and every queued effect precedes only staged entries.\<close>

definition batch_ok :: "batch \<Rightarrow> bool" where
  "batch_ok b \<longleftrightarrow> staged_ok (ba_staged b) \<and>
     (\<forall>x\<in>set (ba_effects b). se_precedes x \<le> precedes (ba_staged b) (se_key x))"

lemma staged_extends_precedes:
  "staged_extends st st' \<Longrightarrow> precedes st key \<le> precedes st' key"
  unfolding staged_extends_def precedes_length by (metis le_add1 length_append)

lemma stage_span_staged_ok:
  assumes "staged_ok st" "stage_span s st object span w = Inr st'"
  shows "staged_ok st'"
  using assms(2)
proof (rule stage_span_Inr)
  fix base
  assume b: "base + int (cs_count span) \<le> i64_max"
    and st': "st' = AList.update (cs_key span)
             (base + int (cs_count span),
              staged_entries st (cs_key span) @
                [\<lparr>te_ref = \<lparr>or_object = object, or_base = base, or_count = cs_count span\<rparr>,
                  te_bytes = cs_bytes span\<rparr>],
              case staged_when st (cs_key span) of Some v \<Rightarrow> widened v w | None \<Rightarrow> w) st"
  show "staged_ok st'"
    using assms(1) b staged_ok_ends [OF assms(1), of "cs_key span"]
    by (simp add: st' staged_ok_def)
qed

lemma stage_op_batch_ok:
  assumes "batch_ok b" "stage_op s b op = Inr b'"
  shows "batch_ok b'"
proof (cases op)
  case (Commit object span ts)
  then have "ba_effects b' = ba_effects b" "staged_ok (ba_staged b')"
    using assms stage_span_staged_ok by (auto simp: bindR_Inr_iff batch_ok_def)
  moreover have "precedes (ba_staged b) key \<le> precedes (ba_staged b') key" for key
    by (rule staged_extends_precedes) (rule stage_op_extends [OF assms(2)])
  ultimately show ?thesis
    using assms(1) unfolding batch_ok_def by (metis order.trans)
next
  case (Eff key eff)
  with assms show ?thesis by (auto simp: batch_ok_def stage_effect_def)
qed

lemma stage_run_batch_ok:
  assumes "foldR (stage_op s) batch_default ops = Inr b"
  shows "batch_ok b"
  using assms
proof (rule foldR_invariant)
  show "batch_ok batch_default" by (simp add: batch_ok_def batch_default_def staged_ok_def)
qed (rule stage_op_batch_ok)

lemma catch_up_max:
  assumes "staged_ok st" "up_to \<le> precedes st key"
  shows "catch_up p (map_of st key) already up_to =
    Inr (push_run p (take (up_to - already) (drop already (staged_entries st key))), max already up_to)"
proof (cases "already \<le> up_to")
  case True
  with catch_up_run [OF assms(1) True assms(2)] show ?thesis by (simp add: max_def)
next
  case False
  then show ?thesis
    by (auto simp: catch_up_def catch_up_loop.simps [of _ _ already] max_def split: option.split)
qed

lemma project_effect_extends:
  assumes "staged_ok st" "staged_ok st'" "staged_extends st st'" "se_precedes x \<le> precedes st (se_key x)"
  shows "project_effect s st' pj x = project_effect s st pj x"
proof -
  have "catch_up p (map_of st' (se_key x)) n (se_precedes x) =
      catch_up p (map_of st (se_key x)) n (se_precedes x)" for p n
  proof -
    obtain more where "staged_entries st' (se_key x) = staged_entries st (se_key x) @ more"
      using assms(3) by (auto simp: staged_extends_def)
    moreover have "se_precedes x \<le> length (staged_entries st (se_key x))"
      using assms(4) by (simp add: precedes_length)
    moreover have "se_precedes x \<le> precedes st' (se_key x)"
      using assms(4) staged_extends_precedes [OF assms(3)] order.trans by blast
    ultimately show ?thesis
      using assms by (simp add: catch_up_max)
  qed
  then show ?thesis by (simp add: project_effect_def Let_def)
qed

lemma foldR_cong:
  assumes "\<And>t x. x \<in> set xs \<Longrightarrow> f t x = g t x"
  shows "foldR f s xs = foldR g s xs"
  using assms
proof (induction xs arbitrary: s)
  case (Cons x xs)
  then show ?case by (cases "g s x") auto
qed simp

lemma pair_run_iff:
  "foldR (pair_step s) (batch_default, projection_empty) ops = Inr (b, pj) \<longleftrightarrow>
     foldR (stage_op s) batch_default ops = Inr b \<and>
     foldR (project_effect s (ba_staged b)) projection_empty (ba_effects b) = Inr pj"
proof (induction ops arbitrary: b pj rule: rev_induct)
  case Nil
  show ?case by (auto simp: batch_default_def)
next
  case (snoc op ops)
  have same: "foldR (project_effect s (ba_staged b2)) projection_empty (ba_effects b1) =
      foldR (project_effect s (ba_staged b1)) projection_empty (ba_effects b1)"
    if "batch_ok b1" "stage_op s b1 op = Inr b2" for b1 b2
    using that stage_op_batch_ok [OF that] stage_op_extends [OF that(2)]
    by (intro foldR_cong project_effect_extends) (auto simp: batch_ok_def)
  show ?case
  proof (cases op)
    case (Commit object span ts)
    have "ba_effects b2 = ba_effects b1" if "stage_op s b1 op = Inr b2" for b1 b2
      using that Commit by (auto simp: bindR_Inr_iff)
    then show ?thesis
      using Commit stage_run_batch_ok same
      by (auto simp: foldR_snoc bindR_Inr_iff snoc.IH split_paired_Ex simp del: stage_op.simps)
  next
    case (Eff key eff)
    then show ?thesis
      by (auto simp: foldR_snoc bindR_Inr_iff snoc.IH split_paired_Ex stage_effect_def)
  qed
qed

section \<open>The simulation\<close>

text \<open>The partition a staged and projected page will leave behind, per key.\<close>

definition page_slot :: "index_state \<Rightarrow> staged_spans \<Rightarrow> projection \<Rightarrow> pkey \<Rightarrow> partition_index" where
  "page_slot s st pj key =
     observe_opt (staged_when st key)
       (push_run (get_or (slot_of s key) (pj_projected pj) key)
          (drop (get_or 0 (pj_taken pj) key) (staged_entries st key)))"

definition page_touched :: "staged_spans \<Rightarrow> projection \<Rightarrow> pkey \<Rightarrow> bool" where
  "page_touched st pj key \<longleftrightarrow> map_of st key \<noteq> None \<or> map_of (pj_projected pj) key \<noteq> None"

definition page_parts :: "index_state \<Rightarrow> staged_spans \<Rightarrow> projection \<Rightarrow> parts" where
  "page_parts s st pj key =
     (if page_touched st pj key then Some (page_slot s st pj key) else ix_partitions s key)"

definition proj_key_ok :: "index_state \<Rightarrow> staged_spans \<Rightarrow> projection \<Rightarrow> pkey \<Rightarrow> bool" where
  "proj_key_ok s st pj key \<longleftrightarrow>
     get_or 0 (pj_taken pj) key \<le> precedes st key \<and>
     (map_of (pj_projected pj) key = None \<longrightarrow> get_or 0 (pj_taken pj) key = 0) \<and>
     (case map_of st key of
        None \<Rightarrow> pi_end (get_or (slot_of s key) (pj_projected pj) key) = pi_end (slot_of s key)
      | Some (e, es, _) \<Rightarrow> get_or 0 (pj_taken pj) key = length es \<longrightarrow>
          pi_end (get_or (slot_of s key) (pj_projected pj) key) = e)"

definition proj_ok :: "index_state \<Rightarrow> staged_spans \<Rightarrow> projection \<Rightarrow> bool" where
  "proj_ok s st pj \<longleftrightarrow>
     distinct (map fst (pj_projected pj)) \<and> (\<forall>key. proj_key_ok s st pj key)"

lemma proj_okD: "proj_ok s st pj \<Longrightarrow> proj_key_ok s st pj key"
  by (simp add: proj_ok_def)

lemma observe_opt_end [simp]: "pi_end (observe_opt w p) = pi_end p"
  by (simp add: observe_opt_def split: option.split)

lemma page_slot_end:
  assumes "staged_ok st" "proj_ok s st pj"
  shows "pi_end (page_slot s st pj key) =
    (case map_of st key of Some (e, _, _) \<Rightarrow> e | None \<Rightarrow> pi_end (slot_of s key))"
proof (cases "map_of st key")
  case None
  then show ?thesis
    using proj_okD [OF assms(2), of key]
    by (auto simp: page_slot_def push_run_end staged_entries_def proj_key_ok_def)
next
  case (Some v)
  then obtain e es w where v: "map_of st key = Some (e, es, w)" by (cases v) auto
  then have "es \<noteq> []" "e = or_end (te_ref (last es))" using staged_okD [OF assms(1)] by auto
  moreover have "get_or 0 (pj_taken pj) key \<le> length es"
    "get_or 0 (pj_taken pj) key = length es \<Longrightarrow> pi_end (get_or (slot_of s key) (pj_projected pj) key) = e"
    using proj_okD [OF assms(2), of key] v by (auto simp: proj_key_ok_def precedes_def)
  ultimately show ?thesis
    using v by (auto simp: page_slot_def push_run_end staged_entries_def last_drop)
qed

lemma part_of_page_parts:
  assumes "proj_ok s st pj"
  shows "part_of (page_parts s st pj) key = page_slot s st pj key"
proof (cases "page_touched st pj key")
  case False
  then have "map_of st key = None" "map_of (pj_projected pj) key = None"
    by (auto simp: page_touched_def)
  then have "page_slot s st pj key = slot_of s key"
    by (simp add: page_slot_def staged_entries_def staged_when_def observe_opt_def get_or_def)
  with False show ?thesis by (simp add: page_parts_def part_of_def slot_of_def)
qed (simp add: page_parts_def part_of_def)

lemma stage_changes_update:
  assumes "distinct (map fst st)"
  shows "mset (stage_changes (AList.update key (e, staged_entries st key @ [x], w) st)) =
    add_mset (Added (or_object (te_ref x))) (mset (stage_changes st))"
  using assms
proof (induction st)
  case Nil
  show ?case by (simp add: stage_changes_def staged_entries_def)
next
  case (Cons a st)
  show ?case
  proof (cases "fst a = key")
    case True
    then show ?thesis by (cases a) (auto simp: stage_changes_def staged_entries_def)
  next
    case False
    then have "staged_entries (a # st) key = staged_entries st key"
      by (cases a) (auto simp: staged_entries_def)
    with False Cons show ?thesis by (cases a) (auto simp: stage_changes_def)
  qed
qed

lemma observe_opt_observe:
  "observe (observe_opt w p) v = observe p (case w of Some u \<Rightarrow> widened u v | None \<Rightarrow> v)"
  by (simp add: observe_opt_def observe_widened split: option.split)

lemma push_observe_opt [simp]: "push (observe_opt w p) e = observe_opt w (push p e)"
  by (simp add: observe_opt_def split: option.split)

lemma observe_opt_set_end: "(observe_opt w p)\<lparr>pi_end := x\<rparr> = observe_opt w (p\<lparr>pi_end := x\<rparr>)"
  by (simp add: observe_opt_def observe_set_end split: option.split)

lemma commit_step_error:
  assumes "staged_ok st" "proj_ok s st pj" "stage_span s st object span (time_span_at ts) = Inl e"
  shows "step_op (page_slot s st pj (cs_key span)) (Commit object span ts) = Inl e"
proof -
  have "(case map_of st (cs_key span) of Some (e, _, _) \<Rightarrow> e
      | None \<Rightarrow> (case ix_partitions s (cs_key span) of Some p \<Rightarrow> pi_end p | None \<Rightarrow> 0)) =
      pi_end (page_slot s st pj (cs_key span))"
    unfolding page_slot_end [OF assms(1,2)]
    by (auto simp: slot_of_def partition_default_def split: option.split)
  with assms(3) show ?thesis
    by (auto simp: stage_span_def Let_def offset_add_def split: if_splits)
qed

lemma commit_step_ok:
  assumes "staged_ok st" "proj_ok s st pj" "stage_span s st object span (time_span_at ts) = Inr st'"
  shows "step_op (page_slot s st pj (cs_key span)) (Commit object span ts) =
      Inr (page_slot s st' pj (cs_key span), [Added object])"
    and "proj_ok s st' pj"
    and "page_parts s st' pj = (page_parts s st pj)(cs_key span \<mapsto> page_slot s st' pj (cs_key span))"
    and "mset (stage_changes st') = add_mset (Added object) (mset (stage_changes st))"
proof -
  let ?k = "cs_key span"
  from assms(3) obtain base where b: "0 < cs_count span" "base + int (cs_count span) \<le> i64_max"
    "base = (case map_of st ?k of Some (e, _, _) \<Rightarrow> e | None \<Rightarrow> pi_end (slot_of s ?k))"
    "st' = AList.update ?k
             (base + int (cs_count span),
              staged_entries st ?k @
                [\<lparr>te_ref = \<lparr>or_object = object, or_base = base, or_count = cs_count span\<rparr>,
                  te_bytes = cs_bytes span\<rparr>],
              case staged_when st ?k of Some v \<Rightarrow> widened v (time_span_at ts) | None \<Rightarrow> time_span_at ts) st"
    by (rule stage_span_Inr)
  have base: "base = pi_end (page_slot s st pj ?k)"
    using page_slot_end [OF assms(1,2), of ?k] b(3) by simp
  have taken: "get_or 0 (pj_taken pj) key \<le> length (staged_entries st key)" for key
    using proj_okD [OF assms(2), of key] by (simp add: proj_key_ok_def precedes_length)
  have es: "staged_entries st' ?k = staged_entries st ?k @ [commit_entry (page_slot s st pj ?k) object span]"
    and w: "staged_when st' ?k =
      Some (case staged_when st ?k of Some v \<Rightarrow> widened v (time_span_at ts) | None \<Rightarrow> time_span_at ts)"
    by (simp_all add: b(4) staged_entries_def staged_when_def commit_entry_def base)
  have "page_slot s st' pj ?k =
      observe ((push (page_slot s st pj ?k) (commit_entry (page_slot s st pj ?k) object span))
        \<lparr>pi_end := base + int (cs_count span)\<rparr>) (time_span_at ts)"
    using taken [of ?k]
    by (simp add: page_slot_def [of s st'] es w observe_opt_def [of "Some _"])
      (simp add: page_slot_def [of s st pj] observe_opt_set_end observe_opt_observe,
       simp add: commit_entry_def base page_slot_def)
  then show "step_op (page_slot s st pj ?k) (Commit object span ts) =
      Inr (page_slot s st' pj ?k, [Added object])"
    using b(1,2) by (simp add: base offset_add_def)
  have other: "map_of st' key = map_of st key" if "key \<noteq> ?k" for key
    using that by (simp add: b(4))
  have "proj_key_ok s st' pj key" for key
  proof (cases "key = ?k")
    case True
    with taken [of ?k] proj_okD [OF assms(2), of ?k] show ?thesis
      by (simp add: proj_key_ok_def precedes_length es) (simp add: b(4))
  next
    case False
    with other [OF False] proj_okD [OF assms(2), of key] show ?thesis
      by (simp add: proj_key_ok_def precedes_def)
  qed
  then show "proj_ok s st' pj" using assms(2) by (simp add: proj_ok_def)
  have "page_slot s st' pj key = page_slot s st pj key"
    "page_touched st' pj key = page_touched st pj key" if "key \<noteq> ?k" for key
    using other [OF that]
    by (simp_all add: page_slot_def page_touched_def staged_entries_def staged_when_def)
  moreover have "page_touched st' pj ?k" by (simp add: page_touched_def b(4))
  ultimately show "page_parts s st' pj = (page_parts s st pj)(?k \<mapsto> page_slot s st' pj ?k)"
    by (auto simp: page_parts_def fun_eq_iff)
  show "mset (stage_changes st') = add_mset (Added object) (mset (stage_changes st))"
    using assms(1) by (simp add: b(4) stage_changes_update staged_ok_def)
qed

lemma apply_effect_observe_opt:
  "apply_effect (observe_opt w p) key eff cs =
     bindR (apply_effect p key eff cs) (\<lambda>(q, cs'). Inr (observe_opt w q, cs'))"
  by (cases w; cases "apply_effect p key eff cs") (auto simp: observe_opt_def apply_effect_observe)

lemma project_effect_alt:
  "project_effect s st pj x =
     bindR (catch_up (get_or (slot_of s (se_key x)) (pj_projected pj) (se_key x))
              (map_of st (se_key x)) (get_or 0 (pj_taken pj) (se_key x)) (se_precedes x))
       (\<lambda>(slot1, already1). bindR (apply_effect slot1 (se_key x) (se_effect x) (pj_changes pj))
         (\<lambda>(slot2, changes). Inr (pj\<lparr>pj_projected := AList.update (se_key x) slot2 (pj_projected pj),
            pj_changes := changes, pj_taken := AList.update (se_key x) already1 (pj_taken pj)\<rparr>)))"
  by (simp add: project_effect_def get_or_def Let_def)

lemma project_effect_run:
  fixes key :: pkey
  assumes "staged_ok st" "proj_ok s st pj"
  defines "p \<equiv> push_run (get_or (slot_of s key) (pj_projected pj) key)
                 (drop (get_or 0 (pj_taken pj) key) (staged_entries st key))"
  shows "project_effect s st pj \<lparr>se_key = key, se_effect = eff, se_precedes = precedes st key\<rparr> =
    bindR (apply_effect p key eff []) (\<lambda>(q, cs).
      Inr (pj\<lparr>pj_projected := AList.update key q (pj_projected pj),
              pj_changes := pj_changes pj @ cs,
              pj_taken := AList.update key (precedes st key) (pj_taken pj)\<rparr>))"
    and "page_slot s st pj key = observe_opt (staged_when st key) p"
    and "pi_end p = (case map_of st key of Some (e, _, _) \<Rightarrow> e | None \<Rightarrow> pi_end (slot_of s key))"
proof -
  have t: "get_or 0 (pj_taken pj) key \<le> precedes st key"
    using proj_okD [OF assms(2), of key] by (simp add: proj_key_ok_def)
  have "catch_up (get_or (slot_of s key) (pj_projected pj) key) (map_of st key)
      (get_or 0 (pj_taken pj) key) (precedes st key) = Inr (p, precedes st key)"
    using catch_up_run [OF assms(1) t order.refl]
    by (simp add: p_def precedes_length)
  then show "project_effect s st pj \<lparr>se_key = key, se_effect = eff, se_precedes = precedes st key\<rparr> =
    bindR (apply_effect p key eff []) (\<lambda>(q, cs).
      Inr (pj\<lparr>pj_projected := AList.update key q (pj_projected pj),
              pj_changes := pj_changes pj @ cs,
              pj_taken := AList.update key (precedes st key) (pj_taken pj)\<rparr>))"
    by (cases "apply_effect p key eff []")
      (auto simp: project_effect_alt apply_effect_changes [of p key eff "pj_changes pj"])
  show eq: "page_slot s st pj key = observe_opt (staged_when st key) p"
    by (simp add: page_slot_def p_def)
  show "pi_end p = (case map_of st key of Some (e, _, _) \<Rightarrow> e | None \<Rightarrow> pi_end (slot_of s key))"
    using page_slot_end [OF assms(1,2), of key] by (simp add: eq)
qed

lemma effect_step_ok:
  assumes "staged_ok st" "proj_ok s st pj"
    and "project_effect s st pj \<lparr>se_key = key, se_effect = eff, se_precedes = precedes st key\<rparr> = Inr pj'"
  shows "\<exists>cs. step_op (page_slot s st pj key) (Eff key eff) = Inr (page_slot s st pj' key, cs) \<and>
      pj_changes pj' = pj_changes pj @ cs"
    and "proj_ok s st pj'"
    and "page_parts s st pj' = (page_parts s st pj)(key \<mapsto> page_slot s st pj' key)"
proof -
  let ?p = "push_run (get_or (slot_of s key) (pj_projected pj) key)
                 (drop (get_or 0 (pj_taken pj) key) (staged_entries st key))"
  note run = project_effect_run [OF assms(1,2), of key]
  from assms(3) obtain q cs where q: "apply_effect ?p key eff [] = Inr (q, cs)"
    "pj' = pj\<lparr>pj_projected := AList.update key q (pj_projected pj),
              pj_changes := pj_changes pj @ cs,
              pj_taken := AList.update key (precedes st key) (pj_taken pj)\<rparr>"
    by (auto simp: run(1) bindR_Inr_iff)
  have slot: "page_slot s st pj' key = observe_opt (staged_when st key) q"
    by (simp add: page_slot_def q(2) precedes_length get_or_def)
  have "step_op (page_slot s st pj key) (Eff key eff) = Inr (page_slot s st pj' key, cs)"
    by (simp add: run(2) apply_effect_observe_opt q(1) slot)
  then show "\<exists>cs. step_op (page_slot s st pj key) (Eff key eff) = Inr (page_slot s st pj' key, cs) \<and>
      pj_changes pj' = pj_changes pj @ cs"
    using q(2) by auto
  have q_end: "pi_end q = (case map_of st key of Some (e, _, _) \<Rightarrow> e | None \<Rightarrow> pi_end (slot_of s key))"
    using apply_effect_end(1) [OF q(1)] run(3) by simp
  have "proj_key_ok s st pj' k" for k
  proof (cases "k = key")
    case True
    then show ?thesis
      using q_end by (auto simp: proj_key_ok_def q(2) get_or_def split: option.split)
  next
    case False
    with proj_okD [OF assms(2), of k] show ?thesis
      by (cases "map_of st k") (auto simp: proj_key_ok_def q(2))
  qed
  then show "proj_ok s st pj'" using assms(2) by (simp add: proj_ok_def q(2))
  have "page_slot s st pj' k = page_slot s st pj k" "page_touched st pj' k = page_touched st pj k"
    if "k \<noteq> key" for k
    using that by (simp_all add: page_slot_def page_touched_def q(2) get_or_def)
  moreover have "page_touched st pj' key" by (simp add: page_touched_def q(2))
  ultimately show "page_parts s st pj' = (page_parts s st pj)(key \<mapsto> page_slot s st pj' key)"
    by (auto simp: page_parts_def fun_eq_iff)
qed

lemma effect_step_error:
  assumes "staged_ok st" "proj_ok s st pj"
    and "project_effect s st pj \<lparr>se_key = key, se_effect = eff, se_precedes = precedes st key\<rparr> = Inl e"
  shows "step_op (page_slot s st pj key) (Eff key eff) = Inl e"
  using assms(3) project_effect_run(1,2) [OF assms(1,2), of key]
  by (auto simp: apply_effect_observe_opt bindR_def split: sum.splits)

definition sim :: "index_state \<Rightarrow> batch \<times> projection \<Rightarrow> parts \<times> ref_change list \<Rightarrow> bool" where
  "sim s x w \<longleftrightarrow>
     staged_ok (ba_staged (fst x)) \<and> proj_ok s (ba_staged (fst x)) (snd x) \<and>
     fst w = page_parts s (ba_staged (fst x)) (snd x) \<and>
     mset (snd w) = mset (pj_changes (snd x) @ stage_changes (ba_staged (fst x)))"

lemma sim_step:
  assumes "sim s x w"
  shows "rel_sum (=) (sim s) (pair_step s x op) (log_step w op)"
proof -
  obtain b pj where x: "x = (b, pj)" by (cases x)
  let ?st = "ba_staged b"
  have ok: "staged_ok ?st" "proj_ok s ?st pj" and parts: "fst w = page_parts s ?st pj"
    and cs: "mset (snd w) = mset (pj_changes pj @ stage_changes ?st)"
    using assms by (simp_all add: sim_def x)
  have slot: "part_of (fst w) key = page_slot s ?st pj key" for key
    using part_of_page_parts [OF ok(2)] parts by simp
  show ?thesis
  proof (cases op)
    case (Commit object span ts)
    show ?thesis
    proof (cases "stage_span s ?st object span (time_span_at ts)")
      case (Inl e)
      with commit_step_error [OF ok Inl] Commit show ?thesis
        by (simp add: x log_step_def slot)
    next
      case (Inr st')
      note step = commit_step_ok [OF ok Inr]
      with Inr Commit stage_span_staged_ok [OF ok(1) Inr] cs parts show ?thesis
        by (simp add: x log_step_def part_of_page_parts [OF ok(2)] sim_def del: step_op.simps)
    qed
  next
    case (Eff key eff)
    let ?x = "\<lparr>se_key = key, se_effect = eff, se_precedes = precedes ?st key\<rparr>"
    show ?thesis
    proof (cases "project_effect s ?st pj ?x")
      case (Inl e)
      with effect_step_error [OF ok Inl] Eff show ?thesis
        by (simp add: x log_step_def slot)
    next
      case (Inr pj')
      then obtain c where c: "step_op (page_slot s ?st pj key) (Eff key eff) =
          Inr (page_slot s ?st pj' key, c)" "pj_changes pj' = pj_changes pj @ c"
        using effect_step_ok(1) [OF ok Inr] by blast
      note step = effect_step_ok(2,3) [OF ok Inr]
      with Inr Eff c cs parts ok(1) show ?thesis
        by (simp add: x log_step_def part_of_page_parts [OF ok(2)] sim_def stage_effect_def
            del: step_op.simps)
    qed
  qed
qed

lemma foldR_rel:
  assumes "R a b" "\<And>a b x. R a b \<Longrightarrow> rel_sum (=) R (f a x) (g b x)"
  shows "rel_sum (=) R (foldR f a xs) (foldR g b xs)"
  using assms(1)
proof (induction xs arbitrary: a b)
  case (Cons x xs)
  with assms(2) [OF Cons.prems, of x] show ?case
    by (cases "f a x"; cases "g b x") auto
qed simp

lemma sim_run:
  "rel_sum (=) (sim s) (foldR (pair_step s) (batch_default, projection_empty) ops)
     (log_run (ix_partitions s) ops)"
  unfolding log_run_def
proof (rule foldR_rel)
  show "sim s (batch_default, projection_empty) (ix_partitions s, [])"
    by (simp add: sim_def batch_default_def projection_empty_def staged_ok_def proj_ok_def
        proj_key_ok_def precedes_def get_or_def page_parts_def page_touched_def stage_changes_def
        fun_eq_iff)
qed (rule sim_step)

section \<open>Installing the page\<close>

lemma finish_slot_run:
  assumes "staged_ok st" "proj_ok s st pj"
  shows "finish_slot st (pj_taken pj) key (get_or (slot_of s key) (pj_projected pj) key) =
    Inr (page_slot s st pj key)"
proof -
  let ?p = "push_run (get_or (slot_of s key) (pj_projected pj) key)
                 (drop (get_or 0 (pj_taken pj) key) (staged_entries st key))"
  note run = project_effect_run(2,3) [OF assms, of key]
  have "get_or 0 (pj_taken pj) key \<le> precedes st key"
    using proj_okD [OF assms(2), of key] by (simp add: proj_key_ok_def)
  then have "catch_up (get_or (slot_of s key) (pj_projected pj) key) (map_of st key)
      (get_or 0 (pj_taken pj) key) (precedes st key) = Inr (?p, precedes st key)"
    using catch_up_run [OF assms(1) _ order.refl] by (simp add: precedes_length)
  with run show ?thesis
    by (auto simp: finish_slot_def staged_when_def observe_opt_def split: option.split)
qed

lemma finish_projected_run:
  assumes "staged_ok st" "proj_ok s st pj"
    and "\<And>key slot. (key, slot) \<in> set pr \<Longrightarrow> get_or (slot_of s key) (pj_projected pj) key = slot"
  shows "finish_projected st (pj_taken pj) pr = Inr (map (\<lambda>(key, _). (key, page_slot s st pj key)) pr)"
  using assms(3)
proof (induction pr)
  case (Cons x pr)
  obtain key slot where x: "x = (key, slot)" by (cases x)
  with Cons.prems [of key slot] have "finish_slot st (pj_taken pj) key slot = Inr (page_slot s st pj key)"
    using finish_slot_run [OF assms(1,2), of key] by simp
  moreover have "finish_projected st (pj_taken pj) pr =
      Inr (map (\<lambda>(key, _). (key, page_slot s st pj key)) pr)"
    by (rule Cons.IH) (simp add: Cons.prems)
  ultimately show ?case by (simp add: x)
qed simp

lemma install_staged_parts:
  assumes "distinct (map fst st)"
  shows "ix_partitions (foldl (install_staged pr) s st) =
    (\<lambda>key. case map_of st key of
       Some (e, es, w) \<Rightarrow>
         if map_of pr key = None
         then Some (foldl push (observe ((slot_of s key)\<lparr>pi_end := e\<rparr>) w) es)
         else ix_partitions s key
     | None \<Rightarrow> ix_partitions s key)"
  using assms
proof (induction st arbitrary: s)
  case (Cons x st)
  obtain k e es w where x: "x = (k, e, es, w)" by (cases x)
  let ?s = "install_staged pr s x"
  have fresh: "map_of st k = None" using Cons.prems by (simp add: x map_of_eq_None_iff)
  have parts: "ix_partitions ?s = (if map_of pr k = None
      then (ix_partitions s)(k \<mapsto> foldl push (observe ((slot_of s k)\<lparr>pi_end := e\<rparr>) w) es)
      else ix_partitions s)"
    by (simp add: install_staged_def x Let_def)
  then have "slot_of ?s key = slot_of s key" if "key \<noteq> k" for key
    using that by (simp add: slot_of_def)
  with Cons fresh parts show ?case
    by (auto simp: x fun_eq_iff split: option.split if_splits)
qed simp

lemma install_projected_parts:
  assumes "distinct (map fst pr)"
  shows "ix_partitions (foldl install_projected s pr) =
    (\<lambda>key. case map_of pr key of Some slot \<Rightarrow> Some slot | None \<Rightarrow> ix_partitions s key)"
  using assms
proof (induction pr arbitrary: s)
  case (Cons x pr)
  then have "map_of pr (fst x) = None" by (simp add: map_of_eq_None_iff)
  with Cons show ?case
    by (cases x) (auto simp: install_projected_def Let_def fun_eq_iff split: option.split)
qed simp

lemma map_of_rekey:
  "map_of (map (\<lambda>(key, _). (key, f key)) al) key = (if map_of al key = None then None else Some (f key))"
  by (induction al) auto

lemma install_parts:
  assumes "staged_ok st" "proj_ok s st pj"
  shows "ix_partitions (install s st (map (\<lambda>(key, _). (key, page_slot s st pj key)) (pj_projected pj))
      changes previous) = page_parts s st pj"
proof
  fix key
  let ?pr = "map (\<lambda>(key, _). (key, page_slot s st pj key)) (pj_projected pj)"
  have map_of_pr: "map_of ?pr key =
      (if map_of (pj_projected pj) key = None then None else Some (page_slot s st pj key))" for key
    by (rule map_of_rekey)
  have "distinct (map fst ?pr)" "distinct (map fst st)"
    using assms by (simp_all add: proj_ok_def staged_ok_def o_def case_prod_unfold)
  moreover have "foldl push (observe ((slot_of s key)\<lparr>pi_end := e\<rparr>) w) es = page_slot s st pj key"
    if "map_of st key = Some (e, es, w)" "map_of (pj_projected pj) key = None" for e es w
  proof -
    have "get_or 0 (pj_taken pj) key = 0"
      using proj_okD [OF assms(2), of key] that(2) by (simp add: proj_key_ok_def)
    then show ?thesis
      using that staged_okD [OF assms(1) that(1)]
      by (simp add: page_slot_def staged_when_def staged_entries_def observe_opt_def get_or_def
          push_run_foldl observe_set_end)
  qed
  ultimately show "ix_partitions (install s st ?pr changes previous) key = page_parts s st pj key"
    by (auto simp: install_def Let_def install_projected_parts install_staged_parts map_of_pr
        page_parts_def page_touched_def split: option.split)
qed

lemma install_fields:
  "ix_quota (install s st pr changes previous) = ix_quota s"
  "ix_applied (install s st pr changes previous) = previous"
  "ix_references (install s st pr changes previous) = references_apply (ix_references s) changes"
proof -
  have 1: "ix_quota (foldl (install_staged pr) s st) = ix_quota s \<and>
      ix_references (foldl (install_staged pr) s st) = ix_references s" for s st
    by (induction st arbitrary: s) (auto simp: install_staged_def Let_def)
  have 2: "ix_quota (foldl install_projected s pr) = ix_quota s \<and>
      ix_references (foldl install_projected s pr) = ix_references s" for s
    by (induction pr arbitrary: s) (auto simp: install_projected_def Let_def)
  show "ix_quota (install s st pr changes previous) = ix_quota s"
    "ix_applied (install s st pr changes previous) = previous"
    "ix_references (install s st pr changes previous) = references_apply (ix_references s) changes"
    by (simp_all add: install_def Let_def 1 2)
qed

section \<open>The batched fold implements the specification\<close>

definition page_projected :: "index_state \<Rightarrow> batch \<times> projection \<Rightarrow> projected" where
  "page_projected s x =
     map (\<lambda>(key, _). (key, page_slot s (ba_staged (fst x)) (snd x) key)) (pj_projected (snd x))"

lemma pair_run_sim:
  assumes "foldR (pair_step s) (batch_default, projection_empty) ops = Inr x"
  obtains w where "log_run (ix_partitions s) ops = Inr w" "sim s x w"
  using sim_run [of s ops] assms by (cases "log_run (ix_partitions s) ops") auto

lemma project_run:
  assumes "foldR (pair_step s) (batch_default, projection_empty) ops = Inr (b, pj)"
  shows "project s (ba_effects b) (ba_staged b) = Inr (page_projected s (b, pj), pj_changes pj)"
proof -
  obtain w where "sim s (b, pj) w" using pair_run_sim [OF assms] by blast
  then have ok: "staged_ok (ba_staged b)" "proj_ok s (ba_staged b) pj" by (auto simp: sim_def)
  have "get_or (slot_of s key) (pj_projected pj) key = slot" if "(key, slot) \<in> set (pj_projected pj)"
    for key slot
    using that ok(2) by (simp add: get_or_def proj_ok_def)
  then have "finish_projected (ba_staged b) (pj_taken pj) (pj_projected pj) =
      Inr (page_projected s (b, pj))"
    using finish_projected_run [OF ok] by (simp add: page_projected_def)
  with assms show ?thesis
    by (simp add: pair_run_iff project_def projection_empty_def [symmetric])
qed

lemma index_apply_iff:
  "index_apply s es = Inr s' \<longleftrightarrow>
     ascending (ix_applied s) es \<and>
     (\<exists>b pj. foldR (pair_step s) (batch_default, projection_empty) (log_ops es) = Inr (b, pj) \<and>
        check_quota s (ba_staged b) (page_projected s (b, pj)) = Inr () \<and>
        s' = install s (ba_staged b) (page_projected s (b, pj))
               (pj_changes pj @ stage_changes (ba_staged b)) (last_version_of (ix_applied s) es))"
  (is "?l \<longleftrightarrow> ?r")
proof
  assume ?l
  then obtain b pr cs where b: "ascending (ix_applied s) es"
    "foldR (stage_op s) batch_default (log_ops es) = Inr b"
    "project s (ba_effects b) (ba_staged b) = Inr (pr, cs)"
    "check_quota s (ba_staged b) pr = Inr ()"
    "s' = install s (ba_staged b) pr (cs @ stage_changes (ba_staged b)) (last_version_of (ix_applied s) es)"
    by (auto simp: index_apply_def bindR_Inr_iff read_entries_iff)
  then obtain pj where "foldR (project_effect s (ba_staged b)) projection_empty (ba_effects b) = Inr pj"
    by (auto simp: project_def projection_empty_def bindR_Inr_iff)
  with b have pair: "foldR (pair_step s) (batch_default, projection_empty) (log_ops es) = Inr (b, pj)"
    by (simp add: pair_run_iff)
  with b show ?r using project_run [OF pair] by auto
next
  assume ?r
  then obtain b pj where "ascending (ix_applied s) es"
    and pair: "foldR (pair_step s) (batch_default, projection_empty) (log_ops es) = Inr (b, pj)"
    and "check_quota s (ba_staged b) (page_projected s (b, pj)) = Inr ()"
      "s' = install s (ba_staged b) (page_projected s (b, pj))
               (pj_changes pj @ stage_changes (ba_staged b)) (last_version_of (ix_applied s) es)"
    by blast
  moreover from this have
    "foldR (read_entry s) (ix_applied s, batch_default) es = Inr (last_version_of (ix_applied s) es, b)"
    by (simp add: read_entries_iff pair_run_iff)
  ultimately show ?l using project_run [OF pair] by (simp add: index_apply_def)
qed

lemma index_apply_refines:
  assumes "index_apply s es = Inr s'"
  shows "ascending (ix_applied s) es"
    and "ix_applied s' = last_version_of (ix_applied s) es" "ix_quota s' = ix_quota s"
    and "\<exists>cs cs'. log_run (ix_partitions s) (log_ops es) = Inr (ix_partitions s', cs) \<and>
           mset cs' = mset cs \<and> ix_references s' = references_apply (ix_references s) cs'"
proof -
  from assms obtain b pj where asc: "ascending (ix_applied s) es"
    and pair: "foldR (pair_step s) (batch_default, projection_empty) (log_ops es) = Inr (b, pj)"
    and s': "s' = install s (ba_staged b) (page_projected s (b, pj))
               (pj_changes pj @ stage_changes (ba_staged b)) (last_version_of (ix_applied s) es)"
    by (auto simp: index_apply_iff)
  show "ascending (ix_applied s) es" by (rule asc)
  show "ix_applied s' = last_version_of (ix_applied s) es" "ix_quota s' = ix_quota s"
    by (simp_all add: s' install_fields)
  obtain w where w: "log_run (ix_partitions s) (log_ops es) = Inr w" "sim s (b, pj) w"
    using pair_run_sim [OF pair] by blast
  then have ok: "staged_ok (ba_staged b)" "proj_ok s (ba_staged b) pj" by (auto simp: sim_def)
  have "ix_partitions s' = page_parts s (ba_staged b) pj"
    using install_parts [OF ok] by (simp add: s' page_projected_def)
  with w show "\<exists>cs cs'. log_run (ix_partitions s) (log_ops es) = Inr (ix_partitions s', cs) \<and>
           mset cs' = mset cs \<and> ix_references s' = references_apply (ix_references s) cs'"
    by (intro exI [of _ "snd w"] exI [of _ "pj_changes pj @ stage_changes (ba_staged b)"])
      (cases w, auto simp: sim_def s' install_fields)
qed

lemma index_apply_complete:
  assumes "ascending (ix_applied s) es" "log_run (ix_partitions s) (log_ops es) = Inr w"
  shows "(\<exists>s'. index_apply s es = Inr s') \<or>
    (\<exists>t p n c. ix_quota s \<noteq> None \<and> index_apply s es = Inl (IndexQuotaExceeded t p n c))"
proof -
  from sim_run [of s "log_ops es"] assms(2) obtain b pj
    where pair: "foldR (pair_step s) (batch_default, projection_empty) (log_ops es) = Inr (b, pj)"
    by (cases "foldR (pair_step s) (batch_default, projection_empty) (log_ops es)") auto
  have read: "foldR (read_entry s) (ix_applied s, batch_default) es =
      Inr (last_version_of (ix_applied s) es, b)"
    using assms(1) pair by (simp add: read_entries_iff pair_run_iff)
  show ?thesis
  proof (cases "check_quota s (ba_staged b) (page_projected s (b, pj))")
    case (Inl e)
    then have "ix_quota s \<noteq> None" "\<exists>t p n c. e = IndexQuotaExceeded t p n c"
      by (auto simp: check_quota_def Let_def split: option.splits if_splits)
    with Inl read project_run [OF pair] show ?thesis by (auto simp: index_apply_def)
  next
    case (Inr u)
    with assms(1) pair show ?thesis by (auto simp: index_apply_iff)
  qed
qed

end
