(* ===== verification/Index_Accounting.thy ===== *)
theory Index_Accounting
  imports Index_Fold
begin

text \<open>
  The invariant of a whole index: every partition satisfies \<open>part_inv\<close>, the maintained tier
  counts are the counts, and every object's reference count is at least the number of entries
  that name it.  Every successful \<open>index_apply\<close> keeps it.  With it, folding a log page by page
  gives the state that folding it whole gives.
\<close>

section \<open>Every operation keeps the partition invariant\<close>

lemma effect_cases:
  assumes "apply_effect p key eff [] = Inr (q, cs)"
  obtains
    (published) m u where "eff = Published m u" "boundary p u = None" "q = fst (absorb p m u)" "cs = []"
  | (swapped) ret ins where "eff = Swapped ret ins" "covers ret ins = Inr ()"
      "set ret \<subseteq> set (pi_history p)" "q = replace_history p ret ins"
      "cs = map (\<lambda>r. Dropped (or_object r)) ret @ map (\<lambda>r. Added (or_object r)) ins"
  | (trimmed) start where "eff = Trim start" "start \<le> pi_end p" "q = fst (trim p start)"
      "cs = map Dropped (snd (trim p start))"
proof (cases eff)
  case (Published m u)
  with assms published show ?thesis by (auto simp: apply_effect_def split: option.splits)
next
  case (Swapped ret ins)
  have "set ret \<subseteq> set (pi_history p)"
    if "find (\<lambda>r. \<not> holds_in_history p r) ret = None"
    using that by (auto simp: find_None_iff holds_in_history_def list_ex_iff)
  with assms Swapped swapped show ?thesis
    by (auto simp: apply_effect_def apply_swap_def bindR_Inr_iff split: option.splits)
next
  case (Trim start)
  with assms trimmed show ?thesis by (auto simp: apply_effect_def split: if_splits)
qed

lemma apply_effect_inv:
  assumes "part_inv p" "apply_effect p key eff [] = Inr (q, cs)"
  shows "part_inv q"
  using assms(2)
  by (cases rule: effect_cases)
    (auto intro: part_inv_absorb part_inv_replace_history part_inv_trim assms(1))

lemma step_op_inv:
  assumes "part_inv p" "step_op p op = Inr (q, cs)"
  shows "part_inv q"
proof (cases op)
  case (Commit object span ts)
  with assms(2) have "0 < cs_count span" "pi_end p + int (cs_count span) \<le> i64_max"
    "q = observe ((push p (commit_entry p object span))\<lparr>pi_end := pi_end p + int (cs_count span)\<rparr>)
           (time_span_at ts)"
    by (auto simp: bindR_Inr_iff offset_add_Inr_iff split: if_splits)
  with part_inv_commit [OF assms(1), of "commit_entry p object span"] show ?thesis
    by (simp add: commit_entry_def)
next
  case (Eff key eff)
  with assms apply_effect_inv show ?thesis by simp
qed

definition parts_inv :: "parts \<Rightarrow> bool" where
  "parts_inv parts \<longleftrightarrow> finite (dom parts) \<and> (\<forall>key p. parts key = Some p \<longrightarrow> part_inv p)"

lemma parts_inv_part_of: "parts_inv parts \<Longrightarrow> part_inv (part_of parts key)"
  by (auto simp: parts_inv_def part_of_def split: option.split)

lemma log_step_inv:
  assumes "parts_inv (fst w)" "log_step w op = Inr w'"
  shows "parts_inv (fst w')"
proof -
  from assms(2) obtain q cs where q: "step_op (part_of (fst w) (op_key op)) op = Inr (q, cs)"
    "fst w' = (fst w)(op_key op \<mapsto> q)"
    by (auto simp: log_step_def bindR_Inr_iff)
  have "part_inv q" using step_op_inv [OF parts_inv_part_of [OF assms(1)] q(1)] .
  with assms(1) show ?thesis by (simp add: parts_inv_def q(2))
qed

lemma log_run_inv:
  assumes "parts_inv parts" "log_run parts ops = Inr w"
  shows "parts_inv (fst w)"
  using assms(2) unfolding log_run_def
  by (rule foldR_invariant) (use assms(1) log_step_inv in auto)

section \<open>How many entries name an object\<close>

definition names :: "partition_index \<Rightarrow> object_key \<Rightarrow> nat" where
  "names p object = count (mset (map or_object (part_entries p))) object"

definition named :: "parts \<Rightarrow> object_key \<Rightarrow> nat" where
  "named parts object = (\<Sum>key\<in>dom parts. names (part_of parts key) object)"

definition adds :: "ref_change list \<Rightarrow> object_key \<Rightarrow> nat" where
  "adds cs object = count (mset cs) (Added object)"

definition drops :: "ref_change list \<Rightarrow> object_key \<Rightarrow> nat" where
  "drops cs object = count (mset cs) (Dropped object)"

lemma adds_simps [simp]:
  "adds [] o' = 0" "adds (cs @ ds) o' = adds cs o' + adds ds o'"
  "adds (map (\<lambda>r. Added (or_object r)) rs) o' = count (mset (map or_object rs)) o'"
  "adds (map (\<lambda>r. Dropped (or_object r)) rs) o' = 0" "adds (map Dropped ks) o' = 0"
  by (induction rs; induction ks; simp add: adds_def)+

lemma drops_simps [simp]:
  "drops [] o' = 0" "drops (cs @ ds) o' = drops cs o' + drops ds o'"
  "drops (map (\<lambda>r. Dropped (or_object r)) rs) o' = count (mset (map or_object rs)) o'"
  "drops (map (\<lambda>r. Added (or_object r)) rs) o' = 0" "drops (map Dropped ks) o' = count (mset ks) o'"
  by (induction rs; induction ks; simp add: drops_def)+

lemma names_absorb: "names (fst (absorb p m u)) o' \<le> names p o'"
proof -
  have "mset (filter P xs) \<subseteq># mset xs" for P and xs :: "object_ref list"
    by (simp add: multiset_filter_subset)
  then have "mset (map or_object (filter (ends_past u) (pi_history p))) \<subseteq># mset (map or_object (pi_history p))"
    by (simp add: image_mset_subseteq_mono del: mset_filter)
  from mset_subset_eq_count [OF this, of o'] show ?thesis
    by (simp add: names_def absorb_def Let_def part_entries_def)
qed

lemma names_replace:
  assumes inv: "part_inv p" and cov: "covers ret ins = Inr ()" and held: "set ret \<subseteq> set (pi_history p)"
  shows "names (replace_history p ret ins) o' + count (mset (map or_object ret)) o' =
    names p o' + count (mset (map or_object ins)) o'"
proof -
  from inv obtain a m where m: "dense a (pi_history p) m"
    by (auto elim!: part_invE simp: part_entries_def dense_append)
  from cov obtain c d where cd: "ret \<noteq> []"
    "dense c (sort_key or_base ret) d" "dense c (sort_key or_base ins) d"
    by (auto simp: covers_ok_iff)
  from replace_history_stretch [OF m cd(2) held cd(1,3)] obtain pre post where
    "pi_history p = pre @ sort_key or_base ret @ post"
    "pi_history (replace_history p ret ins) = pre @ sort_key or_base ins @ post"
    by blast
  moreover have "pi_tail (replace_history p ret ins) = pi_tail p" by (simp add: replace_history_def)
  ultimately show ?thesis by (simp add: names_def part_entries_def)
qed

lemma names_trim: "names (fst (trim p start)) o' + count (mset (snd (trim p start))) o' = names p o'"
proof (cases "start \<le> pi_log_start p")
  case False
  have split: "count (mset (map f (filter P xs))) k + count (mset (map f (filter (\<lambda>x. \<not> P x) xs))) k =
      count (mset (map f xs)) k" for f :: "'a \<Rightarrow> 'b" and P xs k
    by (induction xs) auto
  from False show ?thesis
    using split [of or_object "dead_below start" "pi_history p" o']
      split [of "\<lambda>e. or_object (te_ref e)" "\<lambda>e. dead_below start (te_ref e)" "pi_tail p" o']
    by (simp add: trim_def names_def part_entries_def image_mset.compositionality o_def)
qed (simp add: trim_def)

lemma names_step:
  assumes "part_inv p" "step_op p op = Inr (q, cs)"
  shows "names q o' + drops cs o' \<le> names p o' + adds cs o'"
proof (cases op)
  case (Commit object span ts)
  with assms(2) have "part_entries q = part_entries p @ [te_ref (commit_entry p object span)]"
    "cs = [Added object]"
    by (auto simp: bindR_Inr_iff part_entries_def [of "observe _ _"] simp flip: push_entries
        split: if_splits) (simp add: part_entries_def)
  then show ?thesis by (simp add: names_def adds_def drops_def commit_entry_def)
next
  case (Eff key eff)
  with assms(2) have "apply_effect p key eff [] = Inr (q, cs)" by simp
  then show ?thesis
  proof (cases rule: effect_cases)
    case (swapped ret ins)
    with names_replace [OF assms(1) swapped(2,3), of o'] show ?thesis by simp
  qed (simp_all add: names_absorb names_trim)
qed

lemma sum_dom_upd:
  fixes f :: "partition_index \<Rightarrow> nat"
  assumes "finite (dom parts)" "f partition_default = 0"
  shows "(\<Sum>k\<in>dom (parts(key \<mapsto> q)). f (part_of (parts(key \<mapsto> q)) k)) + f (part_of parts key) =
    (\<Sum>k\<in>dom parts. f (part_of parts k)) + f q"
proof -
  have "(\<Sum>k\<in>insert key (dom parts). f (part_of parts k)) = (\<Sum>k\<in>dom parts. f (part_of parts k))"
    using assms by (cases "key \<in> dom parts") (auto simp: insert_absorb part_of_def domIff)
  moreover have "(\<Sum>k\<in>insert key (dom parts). f (part_of (parts(key \<mapsto> q)) k)) =
      f q + (\<Sum>k\<in>dom parts - {key}. f (part_of parts k))"
    using assms(1) by (simp add: sum.insert_remove)
  moreover have "(\<Sum>k\<in>insert key (dom parts). f (part_of parts k)) =
      f (part_of parts key) + (\<Sum>k\<in>dom parts - {key}. f (part_of parts k))"
    using assms(1) by (simp add: sum.insert_remove)
  ultimately show ?thesis by simp
qed

lemma named_run:
  assumes "parts_inv parts" "log_run parts ops = Inr (parts', cs)"
  shows "named parts' o' + drops cs o' \<le> named parts o' + adds cs o'"
proof -
  let ?I = "\<lambda>w. parts_inv (fst w) \<and> named (fst w) o' + drops (snd w) o' \<le> named parts o' + adds (snd w) o'"
  have "?I (parts', cs)"
    using assms(2) unfolding log_run_def
  proof (rule foldR_invariant)
    fix w op w' assume w: "?I w" and step: "log_step w op = Inr w'"
    then obtain q c where q: "step_op (part_of (fst w) (op_key op)) op = Inr (q, c)"
      "w' = ((fst w)(op_key op \<mapsto> q), snd w @ c)"
      by (auto simp: log_step_def bindR_Inr_iff)
    have "named ((fst w)(op_key op \<mapsto> q)) o' + names (part_of (fst w) (op_key op)) o' =
        named (fst w) o' + names q o'"
      unfolding named_def using w
      by (intro sum_dom_upd) (auto simp: parts_inv_def names_def partition_default_def part_entries_def)
    with w q names_step [OF parts_inv_part_of q(1), of o'] log_step_inv [OF _ step] show "?I w'"
      by (auto simp del: fun_upd_apply)
  qed (use assms(1) in simp)
  then show ?thesis by simp
qed

section \<open>Reference counts in closed form\<close>

definition refs_get :: "(object_key \<Rightarrow> nat option) \<Rightarrow> object_key \<Rightarrow> nat" where
  "refs_get refs object = (case refs object of Some n \<Rightarrow> n | None \<Rightarrow> 0)"

definition no_zero :: "(object_key \<Rightarrow> nat option) \<Rightarrow> bool" where
  "no_zero refs \<longleftrightarrow> (\<forall>object. refs object \<noteq> Some 0)"

lemma refs_change:
  assumes "no_zero refs"
  shows "no_zero (references_change refs c)"
    "refs_get (references_change refs c) o' = refs_get refs o' + adds [c] o' - drops [c] o'"
  using assms
  by (cases c; auto simp: no_zero_def refs_get_def adds_def drops_def split: option.splits)+

lemma refs_added:
  assumes "no_zero refs" "\<forall>c\<in>set cs. is_added c"
  shows "no_zero (foldl references_change refs cs) \<and>
    refs_get (foldl references_change refs cs) o' = refs_get refs o' + adds cs o'"
  using assms
proof (induction cs arbitrary: refs)
  case (Cons c cs)
  have "drops [c] o' = 0" "adds (c # cs) o' = adds [c] o' + adds cs o'"
    using Cons.prems(2) by (cases c; simp add: drops_def adds_def)+
  with Cons refs_change [OF Cons.prems(1), of c] show ?case by simp
qed simp

lemma refs_dropped:
  assumes "no_zero refs" "\<forall>c\<in>set cs. \<not> is_added c"
  shows "no_zero (foldl references_change refs cs) \<and>
    refs_get (foldl references_change refs cs) o' = refs_get refs o' - drops cs o'"
  using assms
proof (induction cs arbitrary: refs)
  case (Cons c cs)
  have "adds [c] o' = 0" "drops (c # cs) o' = drops [c] o' + drops cs o'"
    using Cons.prems(2) by (cases c; simp add: drops_def adds_def)+
  with Cons refs_change [OF Cons.prems(1), of c] show ?case by simp
qed simp

lemma references_apply_closed:
  assumes "no_zero refs"
  shows "no_zero (references_apply refs cs)"
    "refs_get (references_apply refs cs) o' = refs_get refs o' + adds cs o' - drops cs o'"
proof -
  let ?a = "filter is_added cs" and ?d = "filter (\<lambda>c. \<not> is_added c) cs"
  have counts: "adds ?a o' = adds cs o'" "drops ?d o' = drops cs o'" for o'
    by (induction cs) (auto simp: adds_def drops_def)
  have added: "no_zero (foldl references_change refs ?a)"
    "refs_get (foldl references_change refs ?a) o' = refs_get refs o' + adds cs o'" for o'
    using refs_added [OF assms, of ?a] by (simp_all add: counts)
  show "no_zero (references_apply refs cs)"
    "refs_get (references_apply refs cs) o' = refs_get refs o' + adds cs o' - drops cs o'"
    using refs_dropped [OF added(1), of ?d] by (simp_all add: references_apply_def counts added(2))
qed

lemma no_zero_ext:
  assumes "no_zero refs" "no_zero refs'" "\<And>object. refs_get refs object = refs_get refs' object"
  shows "refs = refs'"
proof
  fix object
  show "refs object = refs' object"
    using assms(1,2) assms(3) [of object]
    by (cases "refs object"; cases "refs' object") (auto simp: refs_get_def no_zero_def)
qed

section \<open>Tier counts\<close>

definition tiers_count :: "parts \<Rightarrow> tiers" where
  "tiers_count parts =
     \<lparr>t_tail = (\<Sum>key\<in>dom parts. t_tail (partition_tiers (part_of parts key))),
      t_history = (\<Sum>key\<in>dom parts. t_history (partition_tiers (part_of parts key))),
      t_manifests = (\<Sum>key\<in>dom parts. t_manifests (partition_tiers (part_of parts key)))\<rparr>"

lemma tiers_count_upd:
  assumes "finite (dom parts)"
  shows "tiers_sub (tiers_add (tiers_count parts) (partition_tiers q)) (partition_tiers (part_of parts key)) =
    tiers_count (parts(key \<mapsto> q))"
proof -
  have zero: "t_tail (partition_tiers partition_default) = 0"
    "t_history (partition_tiers partition_default) = 0"
    "t_manifests (partition_tiers partition_default) = 0"
    by (simp_all add: partition_tiers_def partition_default_def)
  from sum_dom_upd [OF assms, of "\<lambda>p. t_tail (partition_tiers p)" key q, OF zero(1)]
    sum_dom_upd [OF assms, of "\<lambda>p. t_history (partition_tiers p)" key q, OF zero(2)]
    sum_dom_upd [OF assms, of "\<lambda>p. t_manifests (partition_tiers p)" key q, OF zero(3)]
  show ?thesis
    unfolding tiers_count_def tiers_sub_def tiers_add_def tiers.simps
    by (metis (no_types, lifting) add_diff_cancel_right')
qed

definition tiers_ok :: "index_state \<Rightarrow> bool" where
  "tiers_ok s \<longleftrightarrow> finite (dom (ix_partitions s)) \<and> ix_tiers s = tiers_count (ix_partitions s)"

lemma partition_tiers_cong [simp]:
  "partition_tiers (observe p w) = partition_tiers p"
  "partition_tiers (p\<lparr>pi_end := x\<rparr>) = partition_tiers p"
  by (simp_all add: partition_tiers_def)

lemma install_staged_tiers: "tiers_ok s \<Longrightarrow> tiers_ok (install_staged pr s x)"
  by (cases x) (auto simp: install_staged_def tiers_ok_def Let_def slot_of_part_of
      simp flip: tiers_count_upd)

lemma install_projected_tiers: "tiers_ok s \<Longrightarrow> tiers_ok (install_projected s x)"
proof -
  have "tiers_zero = partition_tiers partition_default"
    by (simp add: tiers_zero_def partition_tiers_def partition_default_def)
  then have "(case ix_partitions s key of Some held \<Rightarrow> partition_tiers held | None \<Rightarrow> tiers_zero) =
      partition_tiers (part_of (ix_partitions s) key)" for key
    by (simp add: part_of_def split: option.split)
  then show "tiers_ok s \<Longrightarrow> tiers_ok (install_projected s x)"
    using tiers_count_upd [of "ix_partitions s"]
    by (cases x) (auto simp: install_projected_def tiers_ok_def Let_def)
qed

lemma foldl_keeps: "(\<And>s x. P s \<Longrightarrow> P (f s x)) \<Longrightarrow> P s \<Longrightarrow> P (foldl f s xs)"
  by (induction xs arbitrary: s) auto

lemma install_tiers: "tiers_ok s \<Longrightarrow> tiers_ok (install s st pr changes previous)"
proof -
  assume "tiers_ok s"
  then have "tiers_ok (foldl install_projected (foldl (install_staged pr) s st) pr)"
    by (intro foldl_keeps [of tiers_ok] install_projected_tiers install_staged_tiers)
  then show ?thesis by (simp add: install_def Let_def tiers_ok_def)
qed

section \<open>The invariant of the index\<close>

definition index_inv :: "index_state \<Rightarrow> bool" where
  "index_inv s \<longleftrightarrow>
     parts_inv (ix_partitions s) \<and> ix_tiers s = tiers_count (ix_partitions s) \<and>
     no_zero (ix_references s) \<and>
     (\<forall>object. named (ix_partitions s) object \<le> index_references s object)"

lemma index_inv_new: "index_inv index_new" "index_inv (with_quota q)" "index_inv (index_clear s)"
  by (simp_all add: index_inv_def index_new_def with_quota_def index_clear_def parts_inv_def
      tiers_count_def tiers_zero_def no_zero_def named_def)

lemma index_references_get: "index_references s = refs_get (ix_references s)"
  by (simp add: index_references_def refs_get_def fun_eq_iff)

lemma count_mset_eq:
  "mset cs' = mset cs \<Longrightarrow> adds cs' o' = adds cs o'" "mset cs' = mset cs \<Longrightarrow> drops cs' o' = drops cs o'"
  by (simp_all add: adds_def drops_def)

text \<open>One successful \<open>apply\<close>, with the reference counts in closed form.\<close>

lemma index_apply_step:
  assumes "index_inv s" "index_apply s es = Inr s'"
  obtains cs where "log_run (ix_partitions s) (log_ops es) = Inr (ix_partitions s', cs)"
    "\<And>object. index_references s' object + drops cs object = index_references s object + adds cs object"
    "index_inv s'"
proof -
  from index_apply_refines(4) [OF assms(2)] obtain cs cs' where
    run: "log_run (ix_partitions s) (log_ops es) = Inr (ix_partitions s', cs)"
    and cs': "mset cs' = mset cs" "ix_references s' = references_apply (ix_references s) cs'"
    by blast
  have inv: "parts_inv (ix_partitions s)" "no_zero (ix_references s)"
    and names: "\<And>object. named (ix_partitions s) object \<le> index_references s object"
    using assms(1) by (auto simp: index_inv_def)
  have refs: "index_references s' object = index_references s object + adds cs object - drops cs object"
    for object
    by (simp add: index_references_get cs'(2) references_apply_closed(2) [OF inv(2)]
        count_mset_eq [OF cs'(1)])
  have enough: "named (ix_partitions s') object + drops cs object \<le>
      index_references s object + adds cs object" for object
    using named_run [OF inv(1) run, of object] names [of object] by linarith
  have exact: "index_references s' object + drops cs object =
      index_references s object + adds cs object" for object
    using refs [of object] enough [of object] by linarith
  moreover have "tiers_ok s'"
    using assms install_tiers [of s] by (auto simp: index_apply_iff tiers_ok_def index_inv_def parts_inv_def)
  moreover have "named (ix_partitions s') object \<le> index_references s' object" for object
    using refs [of object] enough [of object] by linarith
  ultimately have "index_inv s'"
    using log_run_inv [OF inv(1) run] references_apply_closed(1) [OF inv(2), of cs'] cs'(2)
    by (auto simp: index_inv_def tiers_ok_def)
  from that [OF run exact this] show thesis .
qed

lemma index_apply_inv: "index_inv s \<Longrightarrow> index_apply s es = Inr s' \<Longrightarrow> index_inv s'"
  using index_apply_step by blast

section \<open>Paging\<close>

lemma log_run_append:
  "log_run parts (xs @ ys) = Inr (parts', cs) \<longleftrightarrow>
     (\<exists>mid cs1 cs2. log_run parts xs = Inr (mid, cs1) \<and> log_run mid ys = Inr (parts', cs2) \<and>
        cs = cs1 @ cs2)"
proof -
  have shift: "foldR log_step (p, c @ d) zs = bindR (foldR log_step (p, d) zs) (\<lambda>w. Inr (fst w, c @ snd w))"
    for p c d zs
  proof (induction zs arbitrary: p d)
    case (Cons z zs)
    have "log_step (p, c @ d) z = bindR (log_step (p, d) z) (\<lambda>w. Inr (fst w, c @ snd w))"
      by (cases "step_op (part_of p (op_key z)) z") (auto simp: log_step_def)
    with Cons show ?case by (cases "log_step (p, d) z") auto
  qed simp
  have "foldR log_step (mid, cs1) ys = bindR (log_run mid ys) (\<lambda>w. Inr (fst w, cs1 @ snd w))" for mid cs1
    using shift [of mid cs1 "[]" ys] by (simp add: log_run_def)
  then show ?thesis
    by (auto simp: log_run_def [of parts] foldR_append bindR_Inr_iff split_paired_Ex)
qed

section \<open>The quota is over what the fold would hold\<close>

lemma tiers_ok_total:
  assumes "tiers_ok s"
  shows "index_entries s = (\<Sum>key\<in>dom (ix_partitions s). tiers_total (partition_tiers (part_of (ix_partitions s) key)))"
  using assms by (simp add: index_entries_def tiers_ok_def tiers_count_def tiers_total_def sum.distrib)

lemma total_upd:
  assumes "finite (dom parts)"
  shows "(\<Sum>k\<in>dom (parts(key \<mapsto> q)). tiers_total (partition_tiers (part_of (parts(key \<mapsto> q)) k))) +
      tiers_total (partition_tiers (part_of parts key)) =
    (\<Sum>k\<in>dom parts. tiers_total (partition_tiers (part_of parts k))) + tiers_total (partition_tiers q)"
  by (rule sum_dom_upd [OF assms])
    (simp add: partition_tiers_def partition_default_def tiers_total_def)

lemma index_entries_upd:
  assumes "tiers_ok s" "tiers_ok s'" "ix_partitions s' = (ix_partitions s)(key \<mapsto> q)"
  shows "index_entries s' + tiers_total (partition_tiers (part_of (ix_partitions s) key)) =
    index_entries s + tiers_total (partition_tiers q)"
  using total_upd [of "ix_partitions s" key q] assms
  unfolding tiers_ok_total [OF assms(1)] tiers_ok_total [OF assms(2)] tiers_ok_def by metis

lemma foldl_push_total:
  "tiers_total (partition_tiers (foldl push p es)) = tiers_total (partition_tiers p) + length es"
proof (induction es arbitrary: p)
  case (Cons e es)
  have "tiers_total (partition_tiers (push p e)) = tiers_total (partition_tiers p) + 1"
    by (auto simp: push_alt tiers_total_def partition_tiers_def neq_Nil_conv)
  with Cons show ?case by simp
qed simp

lemma install_staged_total:
  assumes "tiers_ok s"
  shows "index_entries (install_staged pr s (key, e, es, w)) =
    index_entries s + (if map_of pr key = None then length es else 0)"
proof (cases "map_of pr key")
  case None
  let ?q = "foldl push (observe ((slot_of s key)\<lparr>pi_end := e\<rparr>) w) es"
  have "ix_partitions (install_staged pr s (key, e, es, w)) = (ix_partitions s)(key \<mapsto> ?q)"
    using None by (simp add: install_staged_def Let_def)
  moreover have "tiers_total (partition_tiers ?q) =
      tiers_total (partition_tiers (part_of (ix_partitions s) key)) + length es"
    by (simp add: foldl_push_total slot_of_part_of)
  ultimately show ?thesis
    using index_entries_upd [OF assms install_staged_tiers [OF assms]] None by fastforce
qed (simp add: install_staged_def)

lemma install_staged_run_total:
  assumes "tiers_ok s"
  shows "int (index_entries (foldl (install_staged pr) s st)) = int (index_entries s) +
    sum_list (map (\<lambda>(_, _, es, _). int (length es)) (filter (\<lambda>(key, _). map_of pr key = None) st))"
  using assms
proof (induction st arbitrary: s)
  case (Cons x st)
  then show ?case
    using install_staged_tiers [OF Cons.prems, of pr x]
    by (cases x) (simp add: install_staged_total)
qed simp

lemma install_projected_total:
  assumes "tiers_ok s"
  shows "int (index_entries (install_projected s (key, slot))) = int (index_entries s) +
    int (tiers_total (partition_tiers slot)) -
    (case ix_partitions s key of Some held \<Rightarrow> int (tiers_total (partition_tiers held)) | None \<Rightarrow> 0)"
proof -
  have "ix_partitions (install_projected s (key, slot)) = (ix_partitions s)(key \<mapsto> slot)"
    by (simp add: install_projected_def Let_def)
  moreover have "(case ix_partitions s key of Some held \<Rightarrow> int (tiers_total (partition_tiers held)) | None \<Rightarrow> 0) =
      int (tiers_total (partition_tiers (part_of (ix_partitions s) key)))"
    by (simp add: part_of_def partition_default_def partition_tiers_def tiers_total_def split: option.split)
  ultimately show ?thesis
    using index_entries_upd [OF assms install_projected_tiers [OF assms], of "(key, slot)" key slot]
    by simp
qed

lemma install_projected_run_total:
  assumes "tiers_ok s" "distinct (map fst pr)"
    and "\<And>key. map_of pr key \<noteq> None \<Longrightarrow> ix_partitions s key = held key"
  shows "int (index_entries (foldl install_projected s pr)) = int (index_entries s) +
    sum_list (map (\<lambda>(key, slot). int (tiers_total (partition_tiers slot)) -
      (case held key of Some p \<Rightarrow> int (tiers_total (partition_tiers p)) | None \<Rightarrow> 0)) pr)"
  using assms
proof (induction pr arbitrary: s)
  case (Cons x pr)
  obtain key slot where x: "x = (key, slot)" by (cases x)
  have fresh: "map_of pr key = None" using Cons.prems(2) by (simp add: x map_of_eq_None_iff)
  have "ix_partitions (install_projected s x) k = held k" if "map_of pr k \<noteq> None" for k
    using that fresh Cons.prems(3) [of k] by (auto simp: x install_projected_def Let_def)
  with Cons.IH [OF install_projected_tiers [OF Cons.prems(1), of x]] Cons.prems(2)
  have "int (index_entries (foldl install_projected (install_projected s x) pr)) =
      int (index_entries (install_projected s x)) + sum_list (map (\<lambda>(key, slot).
        int (tiers_total (partition_tiers slot)) -
        (case held key of Some p \<Rightarrow> int (tiers_total (partition_tiers p)) | None \<Rightarrow> 0)) pr)"
    by simp
  with install_projected_total [OF Cons.prems(1), of key slot] Cons.prems(3) [of key] show ?case
    by (simp add: x)
qed simp

lemma would_be_exact:
  assumes "tiers_ok s" "staged_ok st" "distinct (map fst pr)"
  shows "int (tiers_total (ix_tiers s)) + sum_list (map (\<lambda>(_, _, delta). delta) (contributions s st pr)) =
    int (index_entries (install s st pr cs v))"
proof -
  let ?s = "foldl (install_staged pr) s st"
  have ok: "tiers_ok ?s" by (intro foldl_keeps [of tiers_ok] install_staged_tiers assms(1))
  have "ix_partitions ?s key = ix_partitions s key" if "map_of pr key \<noteq> None" for key
    using that assms(2) by (auto simp: install_staged_parts staged_ok_def split: option.split)
  from install_projected_run_total [OF ok assms(3) this] install_staged_run_total [OF assms(1), of pr st]
  have "int (index_entries (foldl install_projected ?s pr)) =
     int (index_entries s) +
     sum_list (map (\<lambda>(_, _, es, _). int (length es)) (filter (\<lambda>(key, _). map_of pr key = None) st)) +
     sum_list (map (\<lambda>(key, slot). int (tiers_total (partition_tiers slot)) -
      (case ix_partitions s key of Some p \<Rightarrow> int (tiers_total (partition_tiers p)) | None \<Rightarrow> 0)) pr)"
    by simp
  then show ?thesis
    by (simp add: install_def Let_def index_entries_def contributions_def o_def case_prod_unfold)
qed

lemma check_quota_iff:
  assumes "tiers_ok s" "staged_ok st" "distinct (map fst pr)"
  shows "check_quota s st pr = Inr () \<longleftrightarrow>
      (\<forall>q. ix_quota s = Some q \<longrightarrow> index_entries (install s st pr cs v) \<le> iq_ceiling q)"
    and "check_quota s st pr = Inl (IndexQuotaExceeded t p n c) \<Longrightarrow>
      n = index_entries (install s st pr cs v) \<and> (\<exists>q. ix_quota s = Some q \<and> c = iq_ceiling q \<and> c < n)"
  using would_be_exact [OF assms, of cs v]
  by (auto simp: check_quota_def Let_def would_cross_def split: option.splits if_splits)

section \<open>What an apply does, in full\<close>

definition under_ceiling :: "index_quota option \<Rightarrow> nat \<Rightarrow> bool" where
  "under_ceiling quota n = (case quota of None \<Rightarrow> True | Some q \<Rightarrow> n \<le> iq_ceiling q)"

definition folds_to :: "index_state \<Rightarrow> metadata_entry list \<Rightarrow> index_state \<Rightarrow> bool" where
  "folds_to s es s' \<longleftrightarrow>
     ascending (ix_applied s) es \<and> ix_applied s' = last_version_of (ix_applied s) es \<and>
     ix_quota s' = ix_quota s \<and> index_inv s' \<and>
     (\<exists>cs. log_run (ix_partitions s) (log_ops es) = Inr (ix_partitions s', cs) \<and>
        (\<forall>object. index_references s' object + drops cs object =
           index_references s object + adds cs object))"

lemma folds_to_functional:
  assumes "folds_to s es s1" "folds_to s es s2"
  shows "s1 = s2"
proof -
  from assms obtain cs where p: "ix_partitions s1 = ix_partitions s2"
    and r: "\<forall>object. index_references s1 object + drops cs object = index_references s object + adds cs object"
      "\<forall>object. index_references s2 object + drops cs object = index_references s object + adds cs object"
    by (auto simp: folds_to_def)
  have "index_references s1 object = index_references s2 object" for object
    using r [THEN spec, of object] by linarith
  then have "ix_references s1 = ix_references s2"
    using assms by (intro no_zero_ext) (auto simp: folds_to_def index_inv_def index_references_get)
  with p assms show ?thesis
    by (intro index_state.equality) (auto simp: folds_to_def index_inv_def)
qed

lemma folds_to_append:
  assumes "folds_to s xs m" "folds_to m ys s'"
  shows "folds_to s (xs @ ys) s'"
proof -
  from assms obtain cs1 cs2 where
    "log_run (ix_partitions s) (log_ops xs) = Inr (ix_partitions m, cs1)"
    "log_run (ix_partitions m) (log_ops ys) = Inr (ix_partitions s', cs2)"
    and r: "\<forall>object. index_references m object + drops cs1 object = index_references s object + adds cs1 object"
      "\<forall>object. index_references s' object + drops cs2 object = index_references m object + adds cs2 object"
    by (auto simp: folds_to_def)
  then have "log_run (ix_partitions s) (log_ops (xs @ ys)) = Inr (ix_partitions s', cs1 @ cs2)"
    by (auto simp: log_run_append)
  moreover have "index_references s' object + drops (cs1 @ cs2) object =
      index_references s object + adds (cs1 @ cs2) object" for object
    using r [THEN spec, of object] by simp
  ultimately show ?thesis
    using assms by (auto simp: folds_to_def ascending_append)
qed

lemma index_apply_folds:
  assumes "index_inv s"
  shows "index_apply s es = Inr s' \<longleftrightarrow>
    folds_to s es s' \<and> under_ceiling (ix_quota s) (index_entries s')"
proof
  assume l: "index_apply s es = Inr s'"
  from index_apply_step [OF assms l] index_apply_refines [OF l] have "folds_to s es s'"
    by (auto simp: folds_to_def)
  moreover from l obtain b pj where
    pair: "foldR (pair_step s) (batch_default, projection_empty) (log_ops es) = Inr (b, pj)"
    and q: "check_quota s (ba_staged b) (page_projected s (b, pj)) = Inr ()"
    and s': "s' = install s (ba_staged b) (page_projected s (b, pj))
               (pj_changes pj @ stage_changes (ba_staged b)) (last_version_of (ix_applied s) es)"
    by (auto simp: index_apply_iff)
  from pair_run_sim [OF pair] obtain w where "sim s (b, pj) w" by blast
  then have "staged_ok (ba_staged b)" "distinct (map fst (page_projected s (b, pj)))"
    by (simp_all add: sim_def proj_ok_def page_projected_def o_def case_prod_unfold)
  with q check_quota_iff(1) [of s "ba_staged b" "page_projected s (b, pj)"] assms
  have "under_ceiling (ix_quota s) (index_entries s')"
    by (auto simp: s' under_ceiling_def tiers_ok_def index_inv_def parts_inv_def split: option.split)
  ultimately show "folds_to s es s' \<and> under_ceiling (ix_quota s) (index_entries s')" by blast
next
  assume r: "folds_to s es s' \<and> under_ceiling (ix_quota s) (index_entries s')"
  then obtain cs where asc: "ascending (ix_applied s) es"
    and run: "log_run (ix_partitions s) (log_ops es) = Inr (ix_partitions s', cs)"
    by (auto simp: folds_to_def)
  from sim_run [of s "log_ops es"] run obtain b pj
    where pair: "foldR (pair_step s) (batch_default, projection_empty) (log_ops es) = Inr (b, pj)"
      and sim: "sim s (b, pj) (ix_partitions s', cs)"
    by (cases "foldR (pair_step s) (batch_default, projection_empty) (log_ops es)") auto
  let ?pr = "page_projected s (b, pj)"
  let ?s = "install s (ba_staged b) ?pr (pj_changes pj @ stage_changes (ba_staged b))
      (last_version_of (ix_applied s) es)"
  from sim have ok: "staged_ok (ba_staged b)" "proj_ok s (ba_staged b) pj" "distinct (map fst ?pr)"
    by (simp_all add: sim_def proj_ok_def page_projected_def o_def case_prod_unfold)
  have tiers: "tiers_ok s" using assms by (simp add: tiers_ok_def index_inv_def parts_inv_def)
  have parts: "ix_partitions ?s = ix_partitions s'"
    using install_parts [OF ok(1,2)] sim by (simp add: page_projected_def sim_def)
  then have "ix_tiers ?s = ix_tiers s'"
    using install_tiers [OF tiers, of "ba_staged b" ?pr] r
    by (simp add: tiers_ok_def folds_to_def index_inv_def)
  then have "index_entries ?s = index_entries s'" by (simp add: index_entries_def)
  then have "check_quota s (ba_staged b) ?pr = Inr ()"
    using r check_quota_iff(1) [OF tiers ok(1,3), of "pj_changes pj @ stage_changes (ba_staged b)"
        "last_version_of (ix_applied s) es"]
    by (simp add: under_ceiling_def split: option.splits)
  with asc pair have l: "index_apply s es = Inr ?s" by (auto simp: index_apply_iff)
  with index_apply_step [OF assms l] index_apply_refines [OF l] have "folds_to s es ?s"
    by (auto simp: folds_to_def)
  with r have "?s = s'" by (blast intro: folds_to_functional)
  with l show "index_apply s es = Inr s'" by simp
qed

text \<open>A fold of two pages in turn is a fold of both at once; without a quota also the converse.\<close>

lemma index_apply_join:
  assumes "index_inv s" "index_apply s xs = Inr m" "index_apply m ys = Inr s'"
  shows "index_apply s (xs @ ys) = Inr s'"
proof -
  have m: "index_inv m" "ix_quota m = ix_quota s"
    using index_apply_inv [OF assms(1,2)] index_apply_refines(3) [OF assms(2)] by auto
  have "folds_to s xs m" "folds_to m ys s'" "under_ceiling (ix_quota s) (index_entries s')"
    using assms(2,3) m by (simp_all add: index_apply_folds assms(1))
  then show ?thesis
    using folds_to_append by (simp add: index_apply_folds [OF assms(1)])
qed

lemma index_apply_split:
  assumes "index_inv s" "ix_quota s = None" "index_apply s (xs @ ys) = Inr s'"
  shows "\<exists>m. index_apply s xs = Inr m \<and> index_apply m ys = Inr s'"
proof -
  from index_apply_refines(1,4) [OF assms(3)] obtain mid cs1 cs2 where
    asc: "ascending (ix_applied s) xs" "ascending (last_version_of (ix_applied s) xs) ys"
    and run: "log_run (ix_partitions s) (log_ops xs) = Inr (mid, cs1)"
      "log_run mid (log_ops ys) = Inr (ix_partitions s', cs2)"
    by (auto simp: ascending_append log_run_append)
  from index_apply_complete [OF asc(1) run(1)] assms(2) obtain m where m: "index_apply s xs = Inr m"
    by auto
  have mi: "index_inv m" "ix_quota m = None" "ix_partitions m = mid"
    "ix_applied m = last_version_of (ix_applied s) xs"
    using index_apply_inv [OF assms(1) m] index_apply_refines(2-4) [OF m] run(1) assms(2) by auto
  from index_apply_complete [of m ys] asc(2) run(2) mi obtain s2 where s2: "index_apply m ys = Inr s2"
    by auto
  with index_apply_join [OF assms(1) m s2] assms(3) m show ?thesis by auto
qed

lemma index_apply_Nil: "index_inv s \<Longrightarrow> under_ceiling (ix_quota s) (index_entries s) \<Longrightarrow> index_apply s [] = Inr s"
  by (simp add: index_apply_folds folds_to_def log_run_def)

lemma pages_join:
  assumes "index_inv s" "foldR index_apply s pages = Inr s'"
    and "under_ceiling (ix_quota s) (index_entries s)"
  shows "index_apply s (concat pages) = Inr s'"
  using assms
proof (induction pages arbitrary: s)
  case Nil
  then show ?case by (simp add: index_apply_Nil)
next
  case (Cons page pages)
  then obtain m where m: "index_apply s page = Inr m" "foldR index_apply m pages = Inr s'" by auto
  have "index_inv m" "under_ceiling (ix_quota m) (index_entries m)"
    using index_apply_inv [OF Cons.prems(1) m(1)] index_apply_refines(3) [OF m(1)] m(1)
    by (auto simp: index_apply_folds [OF Cons.prems(1)])
  with Cons.IH m(2) have "index_apply m (concat pages) = Inr s'" by blast
  with index_apply_join [OF Cons.prems(1) m(1)] show ?case by simp
qed

lemma pages_split:
  assumes "index_inv s" "ix_quota s = None" "index_apply s (concat pages) = Inr s'"
  shows "foldR index_apply s pages = Inr s'"
  using assms
proof (induction pages arbitrary: s)
  case Nil
  then show ?case by (simp add: index_apply_Nil under_ceiling_def)
next
  case (Cons page pages)
  then obtain m where m: "index_apply s page = Inr m" "index_apply m (concat pages) = Inr s'"
    using index_apply_split [of s page "concat pages"] by auto
  have "index_inv m" "ix_quota m = None"
    using index_apply_inv [OF Cons.prems(1) m(1)] index_apply_refines(3) [OF m(1)] Cons.prems(2) by auto
  with Cons.IH m show ?case by simp
qed

end
