(* ===== verification/Index_Read.thy ===== *)
theory Index_Read
  imports Index_Accounting
begin

text \<open>
  Reading the index (\<open>IndexState::find_batches\<close>, \<open>page.rs\<close>): the binary search into history
  and the paged scan return a gap-free prefix of the entries that end past the requested
  offset; the page is never empty when there is such an entry, and polling from the end of a
  page continues exactly where it stopped.
\<close>

section \<open>The reference answer\<close>

definition part_batches :: "partition_index \<Rightarrow> indexed_batch list" where
  "part_batches p = map Footer (pi_history p) @ map Inline (pi_tail p)"

definition wanted :: "offset \<Rightarrow> partition_index \<Rightarrow> indexed_batch list" where
  "wanted start p = filter (\<lambda>b. start < or_end (batch_reference b)) (part_batches p)"

fun fill :: "page \<Rightarrow> indexed_batch list \<Rightarrow> page" where
  "fill pg [] = pg"
| "fill pg (b # bs) = (case page_push pg b of (False, pg') \<Rightarrow> pg' | (True, pg') \<Rightarrow> fill pg' bs)"

lemma part_batches_refs: "map batch_reference (part_batches p) = part_entries p"
  by (simp add: part_batches_def part_entries_def o_def)

section \<open>The scan\<close>

lemma page_push_False: "page_push pg b = (False, pg') \<Longrightarrow> pg' = pg"
  by (auto simp: page_push_def split: if_splits)

text \<open>With representable ends the scan is a fill of the wanted batches, and its flag says
  whether the fill stopped early.\<close>

fun fills :: "page \<Rightarrow> indexed_batch list \<Rightarrow> bool" where
  "fills pg [] = False"
| "fills pg (b # bs) = (case page_push pg b of (False, _) \<Rightarrow> True | (True, pg') \<Rightarrow> fills pg' bs)"

lemma find_scan_fill:
  assumes "\<forall>b\<in>set bs. or_end (batch_reference b) \<le> i64_max"
  shows "find_scan start pg bs =
    (let live = filter (\<lambda>b. start < or_end (batch_reference b)) bs in Inr (fills pg live, fill pg live))"
  using assms
proof (induction bs arbitrary: pg)
  case (Cons b bs)
  have "ref_end_offset (batch_reference b) = Inr (or_end (batch_reference b))"
    using Cons.prems by (simp add: ref_end_offset_Inr_iff)
  with Cons show ?case by (auto simp: Let_def split: prod.split bool.split)
qed simp

lemma fill_append: "fill pg (xs @ ys) = (if fills pg xs then fill pg xs else fill (fill pg xs) ys)"
  by (induction xs arbitrary: pg) (auto split: prod.split bool.split)

subsection \<open>Where the scan starts\<close>

lemma takeWhile_drop_filter:
  assumes "dense a hs b"
  shows "filter (\<lambda>r. start < or_end r) (drop (first_candidate hs start) hs) = filter (\<lambda>r. start < or_end r) hs"
proof -
  let ?n = "first_candidate hs start"
  have "\<not> start < or_end r" if "r \<in> set (take ?n hs)" for r
  proof -
    from that obtain i where i: "i < ?n" "i < length hs" "r = hs ! i"
      by (auto simp: in_set_conv_nth)
    let ?w = "takeWhile (\<lambda>r. or_base r \<le> start) hs"
    from i(1) have len: "i + 1 < length ?w" by (simp add: first_candidate_def)
    then have "or_base (?w ! (i + 1)) \<le> start" using set_takeWhileD [OF nth_mem [OF len]] by simp
    then have base: "or_base (hs ! (i + 1)) \<le> start" using takeWhile_nth [OF len] by simp
    have "i + 1 < length hs" using len length_takeWhile_le order_less_le_trans by blast
    then have "or_end (hs ! i) \<le> or_base (hs ! (i + 1))"
      using sorted_wrt_nth_less [OF dense_strictly_ascending [OF assms], of i "i + 1"] by simp
    with base i(3) show ?thesis by simp
  qed
  then have "filter (\<lambda>r. start < or_end r) (take ?n hs) = []"
    by (simp add: filter_empty_conv)
  then have "filter (\<lambda>r. start < or_end r) (take ?n hs @ drop ?n hs) =
      filter (\<lambda>r. start < or_end r) (drop ?n hs)"
    by (simp del: append_take_drop_id)
  then show ?thesis by simp
qed

lemma find_batches_fill:
  assumes "part_inv p" "ix_partitions s key = Some p" "pi_log_start p \<le> start"
  shows "find_batches s key start mb = Inr (pg_batches (fill (page_new mb) (wanted start p)))"
proof -
  let ?h = "drop (first_candidate (pi_history p) start) (pi_history p)"
  from assms(1) obtain a m where m: "dense a (pi_history p) m"
    by (auto elim!: part_invE simp: part_entries_def dense_append)
  have bound: "or_end r \<le> i64_max" if "r \<in> set (part_entries p)" for r
    using part_end_ok [OF assms(1) that] by (simp add: ref_end_offset_Inr_iff)
  have hist: "filter (\<lambda>b. start < or_end (batch_reference b)) (map Footer ?h) =
      filter (\<lambda>b. start < or_end (batch_reference b)) (map Footer (pi_history p))"
    using takeWhile_drop_filter [OF m, of start] by (simp add: filter_map o_def)
  have "\<forall>b\<in>set (map Footer ?h). or_end (batch_reference b) \<le> i64_max"
    "\<forall>b\<in>set (map Inline (pi_tail p)). or_end (batch_reference b) \<le> i64_max"
    using bound by (auto simp: part_entries_def dest: in_set_dropD)
  with hist assms(2,3) show ?thesis
    by (simp add: find_batches_def find_scan_fill Let_def wanted_def part_batches_def fill_append)
qed

section \<open>Pages\<close>

text \<open>The limit a page stops at: the batch it refused would cross one of the two bounds.\<close>

lemma fill_prefix:
  "\<exists>got rest. pg_batches (fill pg bs) = pg_batches pg @ got \<and> bs = got @ rest \<and>
     (rest \<noteq> [] \<longrightarrow> fst (page_push (fill pg bs) (hd rest)) = False) \<and>
     pg_max_bytes (fill pg bs) = pg_max_bytes pg"
proof (induction bs arbitrary: pg)
  case (Cons b bs)
  show ?case
  proof (cases "fst (page_push pg b)")
    case True
    then obtain pg' where pg': "page_push pg b = (True, pg')" by (cases "page_push pg b") auto
    then have "pg_batches pg' = pg_batches pg @ [b]" "pg_max_bytes pg' = pg_max_bytes pg"
      by (auto simp: page_push_def split: if_splits)
    with pg' Cons.IH [of pg'] show ?thesis by auto
  next
    case False
    then obtain pg' where pg': "page_push pg b = (False, pg')" by (cases "page_push pg b") auto
    with page_push_False [OF pg'] show ?thesis by auto
  qed
qed simp

lemma fill_nonempty: "pg_batches pg = [] \<Longrightarrow> bs \<noteq> [] \<Longrightarrow> pg_batches (fill pg bs) \<noteq> []"
proof (cases bs)
  case (Cons b bs')
  assume "pg_batches pg = []"
  then obtain pg' where "page_push pg b = (True, pg')" "pg_batches pg' = [b]"
    by (simp add: page_push_def)
  with fill_prefix [of pg' bs'] Cons show ?thesis by auto
qed simp

definition batches_len :: "indexed_batch list \<Rightarrow> nat" where
  "batches_len bs = sum_list (map (\<lambda>b. case known_len b of Some n \<Rightarrow> n | None \<Rightarrow> 0) bs)"

definition page_ok :: "page \<Rightarrow> bool" where
  "page_ok pg \<longleftrightarrow> length (pg_batches pg) \<le> MAX_BATCHES_PER_PAGE \<and>
     pg_spent pg = min u64_max (batches_len (pg_batches pg)) \<and>
     pg_spent pg \<le> max (pg_max_bytes pg) (batches_len (take 1 (pg_batches pg)))"

lemma page_push_ok:
  assumes "page_ok pg" "page_push pg b = (c, pg')"
  shows "page_ok pg'"
proof (cases "pg_batches pg")
  case Nil
  with assms show ?thesis
    by (auto simp: page_push_def page_ok_def MAX_BATCHES_PER_PAGE_def saturating_add_u64_def
        batches_len_def split: option.splits)
next
  case (Cons x xs)
  with assms show ?thesis
    by (auto simp: page_push_def page_ok_def MAX_BATCHES_PER_PAGE_def saturating_add_u64_def
        batches_len_def split: option.splits if_splits)
qed

lemma fill_ok: "page_ok pg \<Longrightarrow> page_ok (fill pg bs)"
proof (induction bs arbitrary: pg)
  case (Cons b bs)
  obtain c pg' where "page_push pg b = (c, pg')" by (cases "page_push pg b")
  with page_push_ok [OF Cons.prems this] Cons.IH show ?case by (auto split: bool.split)
qed simp

lemma page_ok_new [simp]: "page_ok (page_new mb)"
  by (simp add: page_ok_def page_new_def batches_len_def)

section \<open>Runs of batches\<close>

text \<open>In a dense run the entries that end past an offset are a suffix, which is dense again.\<close>

lemma dense_suffix:
  assumes "dense a rs b" "start \<le> b"
  shows "\<exists>c. dense c (filter (\<lambda>r. start < or_end r) rs) b \<and> (a \<le> start \<longrightarrow> c \<le> start) \<and> (start \<le> a \<longrightarrow> c = a)"
  using assms
proof (induction rs arbitrary: a)
  case (Cons r rs)
  from Cons.prems(1) have d: "or_base r = a" "0 < or_count r" "dense (or_end r) rs b" by auto
  show ?case
  proof (cases "start < or_end r")
    case True
    have "filter (\<lambda>r. start < or_end r) rs = rs"
      using True dense_bounds [OF d(3)] by (fastforce simp: filter_id_conv)
    with True d show ?thesis by (intro exI [of _ a]) auto
  next
    case False
    with Cons.IH [OF d(3)] Cons.prems(2) d show ?thesis by auto
  qed
qed auto

lemma wanted_refs: "map batch_reference (wanted start p) = filter (\<lambda>r. start < or_end r) (part_entries p)"
  by (simp add: wanted_def filter_map o_def flip: part_batches_refs)

end
