(* ===== verification/Materialized_Index.thy ===== *)
theory Materialized_Index
  imports Index_Read
begin

text \<open>
  The seam \<open>MaterializedIndex\<close> (\<open>materialized_index.rs\<close>, \<open>oqueue-index/src/memory.rs\<close>): what a
  client of the index may rely on, as a locale, and its interpretation on the fold of
  \<open>Index_State\<close>.  \<open>MemoryIndex\<close> and \<open>FakeMaterializedIndex\<close> are a lock around one
  \<open>IndexState\<close>, so an operation under the lock is the operation on the state.
\<close>

section \<open>Which errors a fold can return\<close>

definition log_error :: "error \<Rightarrow> bool" where
  "log_error e =
     (case e of
        NonMonotonicCommitVersion _ _ \<Rightarrow> True
      | OffsetOverflow _ _ \<Rightarrow> True
      | EmptySpanInLog _ _ _ \<Rightarrow> True
      | ManifestDoesNotMeetHistory _ _ _ _ \<Rightarrow> True
      | TrimPastEnd _ _ _ _ \<Rightarrow> True
      | SwapRefused _ _ _ \<Rightarrow> True
      | _ \<Rightarrow> False)"

definition fold_error :: "error \<Rightarrow> bool" where
  "fold_error e \<longleftrightarrow> log_error e \<or> (\<exists>t p n c. e = IndexQuotaExceeded t p n c)"

lemma foldR_error:
  assumes "foldR f s xs = Inl e" "P s"
    and "\<And>s x s'. x \<in> set xs \<Longrightarrow> P s \<Longrightarrow> f s x = Inr s' \<Longrightarrow> P s'"
    and "\<And>s x e. x \<in> set xs \<Longrightarrow> P s \<Longrightarrow> f s x = Inl e \<Longrightarrow> Q e"
  shows "Q e"
  using assms
proof (induction xs arbitrary: s)
  case (Cons x xs)
  show ?case
  proof (cases "f s x")
    case (Inl e')
    with Cons.prems(1) Cons.prems(4) [of x s e'] Cons.prems(2) show ?thesis by simp
  next
    case (Inr s')
    with Cons.prems(1) have "foldR f s' xs = Inl e" by simp
    moreover have "P s'" using Cons.prems(3) [of x s s'] Cons.prems(2) Inr by simp
    ultimately show ?thesis
      using Cons.IH [of s'] Cons.prems(3,4) by (metis list.set_intros(2))
  qed
qed simp

lemma stage_op_error: "stage_op s b op = Inl e \<Longrightarrow> log_error e"
  by (cases op)
    (auto simp: stage_span_def Let_def bindR_def log_error_def offset_add_def split: sum.splits if_splits)

lemma span_walk_error:
  "span_walk sp rs = Inl e \<Longrightarrow> e = IndexObjectMismatch \<or> (\<exists>a b. e = OffsetOverflow a b)"
proof (induction rs arbitrary: sp)
  case (Cons r rs)
  from Cons.prems show ?case
    by (auto simp: bindR_def ref_end_offset_def offset_add_def
        split: sum.splits if_splits option.splits) (use Cons.IH in blast)+
qed simp

lemma apply_effect_error: "apply_effect p key eff cs = Inl e \<Longrightarrow> log_error e"
proof (cases eff)
  case (Swapped ret ins)
  have "e' = IndexObjectMismatch \<or> (\<exists>a b. e' = OffsetOverflow a b)"
    if "covers ret ins = Inl e'" for e'
    using that
    by (auto simp: covers_def contiguous_span_def bindR_def dest: span_walk_error
        split: sum.splits option.splits if_splits)
  moreover assume "apply_effect p key eff cs = Inl e"
  ultimately show ?thesis
    using Swapped
    by (auto simp: apply_effect_def apply_swap_def bindR_def map_errR_def log_error_def
        split: sum.splits option.splits)
qed (auto simp: apply_effect_def log_error_def split: option.splits if_splits)

lemma project_effect_error:
  assumes "staged_ok st" "se_precedes x \<le> precedes st (se_key x)"
    and "project_effect s st pj x = Inl e"
  shows "log_error e"
  using assms(3) apply_effect_error
  by (auto simp: project_effect_alt catch_up_max [OF assms(1,2)] bindR_def split: sum.splits)

lemma stage_run_error: "foldR (stage_op s) b ops = Inl e \<Longrightarrow> log_error e"
  by (rule foldR_error [where P = "\<lambda>_. True" and Q = log_error]) (auto intro: stage_op_error)

lemma read_entry_error:
  assumes "read_entry s acc x = Inl e"
  shows "log_error e"
proof (cases "\<exists>p. fst acc = Some p \<and> me_version x \<le> p")
  case True
  with assms show ?thesis by (auto simp: read_entry_def log_error_def)
next
  case False
  with assms have "foldR (stage_op s) (snd acc) (record_ops (me_record x)) = Inl e"
    by (cases "foldR (stage_op s) (snd acc) (record_ops (me_record x))")
      (auto simp: read_entry_def read_record_ops split: option.splits)
  then show ?thesis by (rule stage_run_error)
qed

lemma read_entries_error: "foldR (read_entry s) acc es = Inl e \<Longrightarrow> log_error e"
  by (rule foldR_error [where P = "\<lambda>_. True" and Q = log_error]) (auto intro: read_entry_error)

text \<open>A page that is refused is refused by its records, or by the quota with the count it
  would have left.\<close>

lemma index_apply_error:
  assumes "index_apply s es = Inl e"
  shows "log_error e \<or>
    (\<exists>b pj. ascending (ix_applied s) es \<and>
       foldR (pair_step s) (batch_default, projection_empty) (log_ops es) = Inr (b, pj) \<and>
       check_quota s (ba_staged b) (page_projected s (b, pj)) = Inl e)"
proof (cases "foldR (read_entry s) (ix_applied s, batch_default) es")
  case (Inl e')
  with assms have "e' = e" by (simp add: index_apply_def)
  with Inl read_entries_error show ?thesis by blast
next
  case (Inr r)
  then obtain v b where r: "r = (v, b)" by (cases r)
  with Inr have stage: "foldR (stage_op s) batch_default (log_ops es) = Inr b"
    and asc: "ascending (ix_applied s) es"
    by (simp_all add: read_entries_iff)
  have ok: "batch_ok b" using stage by (rule stage_run_batch_ok)
  show ?thesis
  proof (cases "foldR (project_effect s (ba_staged b)) projection_empty (ba_effects b)")
    case (Inl e')
    have "log_error e'"
      using Inl
      by (rule foldR_error [where P = "\<lambda>_. True"]) (use ok project_effect_error in \<open>auto simp: batch_ok_def\<close>)
    with assms Inr r Inl show ?thesis
      by (simp add: index_apply_def project_def projection_empty_def)
  next
    case (Inr pj)
    with stage have pair: "foldR (pair_step s) (batch_default, projection_empty) (log_ops es) = Inr (b, pj)"
      by (simp add: pair_run_iff)
    from project_run [OF pair] assms \<open>foldR (read_entry s) _ es = Inr r\<close> r
    have "check_quota s (ba_staged b) (page_projected s (b, pj)) = Inl e"
      by (auto simp: index_apply_def bindR_def split: sum.splits)
    with asc pair show ?thesis by blast
  qed
qed

lemma check_quota_error:
  "check_quota s st pr = Inl e \<Longrightarrow> \<exists>t p n c. e = IndexQuotaExceeded t p n c"
  by (auto simp: check_quota_def Let_def split: option.splits if_splits)

section \<open>The seam\<close>

locale materialized_index =
  fixes mi_apply :: "'i \<Rightarrow> metadata_entry list \<Rightarrow> 'i result"
    and mi_upto :: "'i \<Rightarrow> commit_version option"
    and mi_clear :: "'i \<Rightarrow> 'i"
    and mi_ok :: "'i \<Rightarrow> bool"
  assumes apply_keeps: "mi_ok i \<Longrightarrow> mi_apply i es = Inr i' \<Longrightarrow> mi_ok i'"
    and apply_ordered:
      "mi_ok i \<Longrightarrow> mi_apply i es = Inr i' \<Longrightarrow>
         ascending (mi_upto i) es \<and> mi_upto i' = last_version_of (mi_upto i) es"
    and apply_pages:
      "mi_ok i \<Longrightarrow> mi_apply i (xs @ ys) = Inr i' \<longleftrightarrow>
         (\<exists>m. mi_apply i xs = Inr m \<and> mi_apply m ys = Inr i')"
    and apply_nothing: "mi_ok i \<Longrightarrow> mi_apply i [] = Inr i"
    and clear_fresh: "mi_ok i \<Longrightarrow> mi_ok (mi_clear i) \<and> mi_upto (mi_clear i) = None"
    and clear_forgets: "mi_ok i \<Longrightarrow> mi_apply i es = Inr i' \<Longrightarrow> mi_clear i' = mi_clear i"
    and clear_idem: "mi_ok i \<Longrightarrow> mi_clear (mi_clear i) = mi_clear i"
begin

text \<open>Guarantee 3: what was folded since a clear is what a replay after a clear gives.\<close>

lemma replay_reproduces:
  assumes "mi_ok i" "mi_apply (mi_clear i) es = Inr i'"
  shows "mi_apply (mi_clear i') es = Inr i'"
proof -
  have "mi_clear i' = mi_clear i"
    using clear_forgets [OF _ assms(2)] clear_fresh [OF assms(1)] clear_idem [OF assms(1)] by simp
  with assms(2) show ?thesis by simp
qed

text \<open>A prefix of what folds folds, and the rest folds on top of it.\<close>

lemma apply_suffix:
  assumes "mi_ok i" "mi_apply i xs = Inr m" "mi_apply i (xs @ ys) = Inr i'"
  shows "mi_apply m ys = Inr i'"
  using assms apply_pages [OF assms(1)] by auto

lemma pages_whole:
  assumes "mi_ok i"
  shows "foldR mi_apply i pages = Inr i' \<longleftrightarrow> mi_apply i (concat pages) = Inr i'"
  using assms
proof (induction pages arbitrary: i)
  case Nil
  then show ?case by (simp add: apply_nothing)
next
  case (Cons page pages)
  then show ?case
    by (auto simp: bindR_Inr_iff apply_pages dest: apply_keeps)
qed

end

lemma index_clear_apply:
  assumes "index_apply s es = Inr s'"
  shows "index_clear s' = index_clear s"
  using index_apply_refines(3) [OF assms] by (simp add: index_clear_def)

interpretation memory: materialized_index index_apply ix_applied index_clear
  "\<lambda>s. index_inv s \<and> ix_quota s = None"
proof unfold_locales
  fix i es i' xs ys
  assume ok: "index_inv i \<and> ix_quota i = None"
  show "index_apply i es = Inr i' \<Longrightarrow> index_inv i' \<and> ix_quota i' = None"
    using ok index_apply_inv index_apply_refines(3) by metis
  show "index_apply i es = Inr i' \<Longrightarrow>
      ascending (ix_applied i) es \<and> ix_applied i' = last_version_of (ix_applied i) es"
    using index_apply_refines(1,2) by blast
  show "index_apply i (xs @ ys) = Inr i' \<longleftrightarrow>
      (\<exists>m. index_apply i xs = Inr m \<and> index_apply m ys = Inr i')"
    using ok index_apply_split index_apply_join by blast
  show "index_apply i [] = Inr i"
    using ok by (simp add: index_apply_Nil under_ceiling_def)
  show "(index_inv (index_clear i) \<and> ix_quota (index_clear i) = None) \<and> ix_applied (index_clear i) = None"
    using ok by (simp add: index_inv_new) (simp add: index_clear_def)
  show "index_apply i es = Inr i' \<Longrightarrow> index_clear i' = index_clear i"
    by (rule index_clear_apply)
  show "index_clear (index_clear i) = index_clear i"
    by (simp add: index_clear_def)
qed

section \<open>Reachable indexes\<close>

inductive index_reach :: "index_quota option \<Rightarrow> index_state \<Rightarrow> bool" where
  fresh: "index_reach None index_new"
| fresh_quota: "quota_new c a = Inr q \<Longrightarrow> index_reach (Some q) (with_quota q)"
| folded: "index_reach q s \<Longrightarrow> index_apply s es = Inr s' \<Longrightarrow> index_reach q s'"
| cleared: "index_reach q s \<Longrightarrow> index_reach q (index_clear s)"

lemma index_reach_quota: "index_reach q s \<Longrightarrow> ix_quota s = q"
  by (induction rule: index_reach.induct)
    (auto simp: index_new_def with_quota_def index_clear_def index_apply_refines(3))

lemma index_reach_inv: "index_reach q s \<Longrightarrow> index_inv s"
  by (induction rule: index_reach.induct) (auto simp: index_inv_new index_apply_inv)

lemma index_reach_under: "index_reach q s \<Longrightarrow> under_ceiling q (index_entries s)"
proof (induction rule: index_reach.induct)
  case (folded q s es s')
  then show ?case
    using index_reach_inv index_reach_quota index_apply_folds by blast
qed (simp_all add: under_ceiling_def index_entries_def index_new_def with_quota_def index_clear_def
      tiers_zero_def tiers_total_def split: option.split)

lemmas index_reach_facts = index_reach_quota index_reach_inv index_reach_under

lemma index_reach_part: "index_reach q s \<Longrightarrow> ix_partitions s key = Some p \<Longrightarrow> part_inv p"
  using index_reach_inv by (auto simp: index_inv_def parts_inv_def)

section \<open>What the fold guarantees\<close>

text \<open>A log the examples below run on: two objects over one partition, then a trim.\<close>

definition example_span :: "nat \<Rightarrow> nat \<Rightarrow> committed_span" where
  "example_span n len =
     \<lparr>cs_topic = ''t'', cs_partition = 0, cs_count = n, cs_bytes = Bounded 0 len, cs_producer = None\<rparr>"

definition example_log :: "metadata_entry list" where
  "example_log =
     [\<lparr>me_version = 0, me_record = BatchCommitted ''a'' [example_span 10 100] 5\<rparr>,
      \<lparr>me_version = 1, me_record = BatchCommitted ''b'' [example_span 5 60, example_span 2 20] 6\<rparr>,
      \<lparr>me_version = 2, me_record = Trimmed ''t'' 0 10\<rparr>]"

lemma example_folds: "is_ok (index_apply index_new example_log)"
  by code_simp

lemma example_reach:
  obtains s where "index_apply index_new example_log = Inr s" "index_reach None s"
  using example_folds index_reach.fresh index_reach.folded by (auto simp: is_ok_iff)

lemma example_state:
  "case index_apply index_new example_log of
     Inl _ \<Rightarrow> False
   | Inr s \<Rightarrow> index_references s ''a'' = 0 \<and> index_entries s = 2 \<and> index_end_offset s (''t'', 0) = 17 \<and>
       index_log_start s (''t'', 0) = 10"
  by code_simp

text \<open>C1. Paging invariance.  An index without a quota that any number of applies and clears
  has reached folds a log in pages of any sizes to exactly the state (partitions, tier counts,
  reference counts, bookmark) that one apply of the whole log gives, and it refuses one exactly
  when it refuses the other.\<close>

theorem index_paging_invariant:
  assumes "index_reach None s"
  shows "foldR index_apply s pages = Inr s' \<longleftrightarrow> index_apply s (concat pages) = Inr s'"
  using memory.pages_whole index_reach_facts(1,2) [OF assms] by simp

theorem index_paging_invariant_witness:
  "\<exists>s'. foldR index_apply index_new (map (\<lambda>e. [e]) example_log) = Inr s' \<and>
     index_apply index_new example_log = Inr s'"
proof -
  obtain s where s: "index_apply index_new example_log = Inr s" by (rule example_reach)
  have "concat (map (\<lambda>e. [e]) example_log) = example_log" by simp
  with s index_paging_invariant [OF index_reach.fresh, of "map (\<lambda>e. [e]) example_log" s]
  show ?thesis by metis
qed

text \<open>C2. Refinement.  The staged, projected and installed fold of a page implements the
  specification that reads the log one operation at a time: without a quota it succeeds exactly
  when the versions ascend and the specification succeeds, and then leaves exactly the
  specification's partitions and the page's last version.\<close>

theorem index_apply_implements_log_run:
  assumes "index_reach None s"
  shows "case log_run (ix_partitions s) (log_ops es) of
      Inl _ \<Rightarrow> \<not> is_ok (index_apply s es)
    | Inr (parts, _) \<Rightarrow>
        if ascending (ix_applied s) es
        then \<exists>s'. index_apply s es = Inr s' \<and> ix_partitions s' = parts \<and>
               ix_applied s' = last_version_of (ix_applied s) es
        else \<not> is_ok (index_apply s es)"
proof (cases "log_run (ix_partitions s) (log_ops es)")
  case (Inl e)
  then show ?thesis using index_apply_refines(4) [of s es] by (auto simp: is_ok_iff)
next
  case (Inr w)
  obtain parts cs where w: "w = (parts, cs)" by (cases w)
  show ?thesis
  proof (cases "ascending (ix_applied s) es")
    case True
    from index_apply_complete [OF True Inr] index_reach_quota [OF assms] obtain s'
      where s': "index_apply s es = Inr s'" by auto
    with index_apply_refines(2,4) [OF s'] Inr w True show ?thesis by auto
  next
    case False
    with index_apply_refines(1) [of s es] Inr w show ?thesis by (auto simp: is_ok_iff)
  qed
qed

theorem index_apply_implements_log_run_witness:
  "is_ok (log_run (ix_partitions index_new) (log_ops example_log)) \<and>
   is_ok (index_apply index_new example_log)"
proof -
  have "is_ok (log_run (ix_partitions index_new) (log_ops example_log))" by code_simp
  moreover have "ascending (ix_applied index_new) example_log"
    by (simp add: ascending_def index_new_def example_log_def)
  ultimately show ?thesis
    using index_apply_implements_log_run [OF index_reach.fresh, of example_log]
    by (auto simp: is_ok_iff)
qed

text \<open>C36. Every offset from where a partition's run begins (its manifest's end, or its log start)
  up to its end is held by exactly one index entry, whatever commits, publications, swaps and
  trims produced the index.\<close>

theorem index_holds_every_offset_once:
  assumes "index_reach q s" "ix_partitions s key = Some p"
    and "(case pi_manifest p of None \<Rightarrow> pi_log_start p | Some (_, up_to) \<Rightarrow> up_to) \<le> off" "off < pi_end p"
  shows "\<exists>!r. r \<in> set (part_entries p) \<and> or_base r \<le> off \<and> off < or_end r"
proof -
  from index_reach_part [OF assms(1,2)] obtain a
    where a: "run_starts p a" "dense a (part_entries p) (pi_end p)" by (rule part_invE)
  from a(1) assms(3) have "a \<le> off" by (auto simp: run_starts_def split: option.splits)
  from dense_holder [OF a(2) this assms(4)] show ?thesis .
qed

theorem index_holds_every_offset_once_witness:
  "\<exists>s p. index_apply index_new example_log = Inr s \<and> ix_partitions s (''t'', 0) = Some p \<and>
     (\<exists>!r. r \<in> set (part_entries p) \<and> or_base r \<le> 16 \<and> 16 < or_end r)"
proof -
  obtain s where s: "index_apply index_new example_log = Inr s" "index_reach None s"
    by (rule example_reach)
  have "case index_apply index_new example_log of
      Inl _ \<Rightarrow> False
    | Inr s \<Rightarrow> (case ix_partitions s (''t'', 0) of
        None \<Rightarrow> False
      | Some p \<Rightarrow> pi_manifest p = None \<and> pi_log_start p \<le> 16 \<and> 16 < pi_end p)"
    by code_simp
  with s obtain p where p: "ix_partitions s (''t'', 0) = Some p"
    "pi_manifest p = None" "pi_log_start p \<le> 16" "16 < pi_end p"
    by (auto split: option.splits)
  with index_holds_every_offset_once [OF s(2) p(1), of 16] s(1) show ?thesis by auto
qed

text \<open>The records a log commits to one partition.\<close>

definition committed_count :: "pkey \<Rightarrow> log_op list \<Rightarrow> nat" where
  "committed_count key ops =
     sum_list (map (\<lambda>op. case op of Commit _ span _ \<Rightarrow> if cs_key span = key then cs_count span else 0
                         | Eff _ _ \<Rightarrow> 0) ops)"

lemma step_op_end:
  assumes "step_op p op = Inr (q, cs)"
  shows "pi_end q = pi_end p + int (committed_count (op_key op) [op])"
proof (cases op)
  case (Commit object span ts)
  with assms show ?thesis
    by (auto simp: bindR_Inr_iff offset_add_Inr_iff committed_count_def split: if_splits)
next
  case (Eff key eff)
  with assms apply_effect_end(1) [of p key eff "[]"] show ?thesis by (auto simp: committed_count_def)
qed

lemma log_run_end:
  assumes "foldR log_step (parts, cs0) ops = Inr (parts', cs)"
  shows "pi_end (part_of parts' key) = pi_end (part_of parts key) + int (committed_count key ops)"
  using assms
proof (induction ops arbitrary: parts cs0)
  case Nil
  then show ?case by (simp add: committed_count_def)
next
  case (Cons op ops)
  from Cons.prems obtain q c where q: "step_op (part_of parts (op_key op)) op = Inr (q, c)"
    "foldR log_step (parts(op_key op \<mapsto> q), cs0 @ c) ops = Inr (parts', cs)"
    by (auto simp: log_step_def [of "(parts, cs0)" op] bindR_Inr_iff)
  have "committed_count key [op] = (if key = op_key op then committed_count (op_key op) [op] else 0)"
    by (cases op) (auto simp: committed_count_def)
  moreover have "committed_count key (op # ops) = committed_count key [op] + committed_count key ops"
    by (simp add: committed_count_def)
  ultimately show ?case
    using Cons.IH [OF q(2)] step_op_end [OF q(1)] by (simp del: fun_upd_apply)
qed

text \<open>Offsets are the running sum of the log's record counts: after any sequence of pages
  folded into a fresh index, a partition's end offset is the number of records the log committed
  to it, so nothing can leave a gap, and neither a trim nor a compaction moves it.\<close>

lemma index_end_offset_counts_records:
  assumes "index_apply index_new es = Inr s"
  shows "index_end_offset s key = int (committed_count key (log_ops es))"
proof -
  from index_apply_refines(4) [OF assms] obtain cs where
    "log_run (ix_partitions index_new) (log_ops es) = Inr (ix_partitions s, cs)" by blast
  from log_run_end [OF this [unfolded log_run_def], of key] show ?thesis
    by (auto simp: index_end_offset_def part_of_def index_new_def partition_default_def
        split: option.splits)
qed


text \<open>Deletion safety.  When the index says an object has no references, no entry of any
  partition names it, in history or in the tail.\<close>

lemma unreferenced_object_is_unnamed:
  assumes "index_reach q s" "index_references s object = 0"
    and "ix_partitions s key = Some p" "r \<in> set (part_entries p)"
  shows "or_object r \<noteq> object"
proof
  assume eq: "or_object r = object"
  from index_reach_inv [OF assms(1)] have fin: "finite (dom (ix_partitions s))"
    and le: "named (ix_partitions s) object \<le> index_references s object"
    by (auto simp: index_inv_def parts_inv_def)
  have "0 < names p object" using assms(4) eq by (auto simp: names_def)
  moreover have "names p object \<le> named (ix_partitions s) object"
    unfolding named_def
    using fin assms(3) member_le_sum [of key "dom (ix_partitions s)" "\<lambda>k. names (part_of (ix_partitions s) k) object"]
    by (auto simp: part_of_def)
  ultimately show False using le assms(2) by simp
qed


text \<open>The counter the quota is enforced against is exact: at every reachable index it equals
  the tail entries, history references and manifests actually held, summed over the partitions.\<close>

lemma index_entries_exact:
  assumes "index_reach q s"
  shows "index_entries s = (\<Sum>key\<in>dom (ix_partitions s).
    case ix_partitions s key of None \<Rightarrow> 0
    | Some p \<Rightarrow> length (pi_tail p) + length (pi_history p) + (if pi_manifest p = None then 0 else 1))"
proof -
  have "tiers_ok s" using index_reach_inv [OF assms] by (simp add: tiers_ok_def index_inv_def parts_inv_def)
  then show ?thesis
    unfolding tiers_ok_total [OF \<open>tiers_ok s\<close>]
    by (intro sum.cong) (auto simp: part_of_def tiers_total_def partition_tiers_def)
qed


text \<open>The errors \<open>apply\<close> documents are all it returns: on any state and any page, a refusal is
  one of the seven variants of its list, so in particular the unchecked indexing of
  \<open>catch_up\<close> never panics.\<close>

lemma index_apply_errors_exhaustive:
  assumes "index_apply s es = Inl e"
  shows "fold_error e"
  using index_apply_error [OF assms] check_quota_error by (auto simp: fold_error_def)


text \<open>The index is a cache: dropping it and replaying the log that built it reproduces the
  state exactly, reference counts and tier counts included.\<close>

lemma index_replay_reproduces:
  assumes "index_reach None s" "index_apply (index_clear s) es = Inr s'"
  shows "index_apply (index_clear s') es = Inr s'"
  using memory.replay_reproduces [OF _ assms(2)] index_reach_facts(1,2) [OF assms(1)] by simp


end
