(* ===== verification/Index_Effects.thy ===== *)
theory Index_Effects
  imports Materialized_Index
begin

text \<open>
  What the three effects (publication, compaction swap, trim) do to a partition, and what the
  quota bounds.  The effects are stated on \<open>apply_effect\<close>, the function \<open>project\<close> runs on its
  copies and the specification runs in log order.
\<close>

section \<open>The effects\<close>

definition covered :: "partition_index \<Rightarrow> offset \<Rightarrow> bool" where
  "covered p off \<longleftrightarrow> (\<exists>r\<in>set (part_entries p). holds_offset off r)"

lemma dense_covered:
  assumes "dense a rs b"
  shows "(\<exists>r\<in>set rs. holds_offset off r) \<longleftrightarrow> a \<le> off \<and> off < b"
proof -
  have "(\<exists>r\<in>set rs. holds_offset off r) \<longleftrightarrow> filter (holds_offset off) rs \<noteq> []"
    by (simp add: filter_empty_conv)
  also have "length (filter (holds_offset off) rs) = (if a \<le> off \<and> off < b then 1 else 0)"
    using dense_exact [OF assms] by (simp add: exact_run_def)
  then have "filter (holds_offset off) rs \<noteq> [] \<longleftrightarrow> a \<le> off \<and> off < b"
    by (auto split: if_splits)
  finally show ?thesis .
qed

text \<open>C37. A swap the index accepts replaces a contiguous stretch of history by references that
  cover exactly the same offsets, in place; the tail, the end, the manifest and the log start do
  not move, and the offsets the partition covers are the same before and after.\<close>

theorem swap_keeps_every_offset:
  assumes "part_inv p" "apply_effect p key (Swapped retiring installing) [] = Inr (q, cs)"
  shows "(\<exists>pre post. pi_history p = pre @ sort_key or_base retiring @ post \<and>
           pi_history q = pre @ sort_key or_base installing @ post) \<and>
         pi_tail q = pi_tail p \<and> pi_end q = pi_end p \<and> pi_manifest q = pi_manifest p \<and>
         pi_log_start q = pi_log_start p \<and> (\<forall>off. covered q off \<longleftrightarrow> covered p off)"
proof -
  from assms(2) have e: "covers retiring installing = Inr ()"
    "set retiring \<subseteq> set (pi_history p)" "q = replace_history p retiring installing"
    by (cases rule: effect_cases; simp)+
  have fields: "pi_tail q = pi_tail p" "pi_end q = pi_end p" "pi_manifest q = pi_manifest p"
    "pi_log_start q = pi_log_start p"
    by (simp_all add: e(3) replace_history_def)
  from assms(1) obtain a where a: "dense a (part_entries p) (pi_end p)" by (rule part_invE)
  then obtain m where m: "dense a (pi_history p) m" "dense m (map te_ref (pi_tail p)) (pi_end p)"
    by (auto simp: part_entries_def dense_append)
  from e(1) obtain c d where cd: "retiring \<noteq> []"
    "dense c (sort_key or_base retiring) d" "dense c (sort_key or_base installing) d"
    by (auto simp: covers_ok_iff)
  from replace_history_stretch [OF m(1) cd(2) e(2) cd(1,3)] obtain pre post where
    st: "pi_history p = pre @ sort_key or_base retiring @ post"
      "pi_history q = pre @ sort_key or_base installing @ post"
      "dense a (pre @ sort_key or_base installing @ post) m"
    by (auto simp: e(3))
  have "dense a (part_entries q) (pi_end p)"
    using st(2,3) m(2) fields(1) by (auto simp: part_entries_def dense_append)
  with a have "covered q off \<longleftrightarrow> covered p off" for off
    unfolding covered_def by (simp add: dense_covered)
  with st fields show ?thesis by blast
qed

text \<open>A partition whose window overflowed by two entries, so that history has two to compact.\<close>

definition example_history :: partition_index where
  "example_history =
     \<lparr>pi_end = 130, pi_tail = map (\<lambda>i. \<lparr>te_ref = \<lparr>or_object = ''c'', or_base = int i, or_count = 1\<rparr>,
                                       te_bytes = Full\<rparr>) [2..<130],
      pi_history = [\<lparr>or_object = ''a'', or_base = 0, or_count = 1\<rparr>, \<lparr>or_object = ''b'', or_base = 1, or_count = 1\<rparr>],
      pi_manifest = None, pi_when = None, pi_log_start = 0\<rparr>"

lemma example_history_inv: "part_inv example_history"
proof -
  have "dense 0 (part_entries example_history) 130" by code_simp
  then show ?thesis
    unfolding part_inv_def
    by (intro conjI exI [of _ 0]) (auto simp: example_history_def run_starts_def TAIL_WINDOW_ENTRIES_def)
qed

theorem swap_keeps_every_offset_witness:
  "\<exists>q cs. apply_effect example_history (''t'', 0)
      (Swapped [\<lparr>or_object = ''b'', or_base = 1, or_count = 1\<rparr>, \<lparr>or_object = ''a'', or_base = 0, or_count = 1\<rparr>]
               [\<lparr>or_object = ''m'', or_base = 0, or_count = 2\<rparr>]) [] = Inr (q, cs) \<and>
     (\<forall>off. covered q off \<longleftrightarrow> covered example_history off)"
proof -
  let ?e = "Swapped [\<lparr>or_object = ''b'', or_base = 1, or_count = 1\<rparr>, \<lparr>or_object = ''a'', or_base = 0, or_count = 1\<rparr>]
               [\<lparr>or_object = ''m'', or_base = 0, or_count = 2\<rparr>]"
  have "is_ok (apply_effect example_history (''t'', 0) ?e [])" by code_simp
  then obtain q cs where q: "apply_effect example_history (''t'', 0) ?e [] = Inr (q, cs)"
    by (auto simp: is_ok_iff)
  with swap_keeps_every_offset [OF example_history_inv q] show ?thesis by blast
qed

text \<open>A publication the index accepts hands over exactly the offsets below its end: the tail
  window survives whole, what the index still covers is exactly \<open>[up_to, end)\<close>, and the manifest
  recorded is the published one.\<close>

lemma publication_covers_from_its_end:
  assumes "part_inv p" "apply_effect p key (Published manifest up_to) [] = Inr (q, cs)"
  shows "pi_manifest q = Some (manifest, up_to) \<and> pi_tail q = pi_tail p \<and> pi_end q = pi_end p \<and>
    pi_log_start q = pi_log_start p \<and> cs = [] \<and>
    (\<forall>off. covered q off \<longleftrightarrow> up_to \<le> off \<and> off < pi_end q)"
proof -
  from assms(2) have e: "boundary p up_to = None" "q = fst (absorb p manifest up_to)" "cs = []"
    by (cases rule: effect_cases; simp)+
  from part_inv_absorb [OF assms(1) e(1)] have "part_inv q" by (simp add: e(2))
  then obtain a where "run_starts q a" "dense a (part_entries q) (pi_end q)" by (rule part_invE)
  then have "dense up_to (part_entries q) (pi_end q)"
    by (simp add: run_starts_def e(2) absorb_def Let_def)
  with e show ?thesis
    by (simp add: covered_def dense_covered) (simp add: absorb_def Let_def)
qed


text \<open>A trim the index accepts drops exactly the entries that end at or below the start (and
  nothing when the start does not move forward), moves the log start to the maximum of the two,
  keeps every offset at or past the new log start that was covered, and reports one dropped
  reference per dropped entry.\<close>

lemma trim_drops_exactly_the_dead:
  assumes "part_inv p" "apply_effect p key (Trim start) [] = Inr (q, cs)"
  shows "pi_log_start q = max start (pi_log_start p) \<and> pi_end q = pi_end p \<and>
    part_entries q = (if start \<le> pi_log_start p then part_entries p
                      else filter (\<lambda>r. start < or_end r) (part_entries p)) \<and>
    (\<forall>off. pi_log_start q \<le> off \<longrightarrow> (covered q off \<longleftrightarrow> covered p off)) \<and>
    length cs + length (part_entries q) = length (part_entries p)"
proof -
  from assms(2) have e: "start \<le> pi_end p" "q = fst (trim p start)" "cs = map Dropped (snd (trim p start))"
    by (cases rule: effect_cases; simp)+
  have live: "\<not> dead_below start r \<longleftrightarrow> start < or_end r" if "r \<in> set (part_entries p)" for r
    using part_end_ok(1) [OF assms(1) that] by (auto simp: dead_below_iff ref_end_offset_Inr_iff)
  have entries: "part_entries q = (if start \<le> pi_log_start p then part_entries p
      else filter (\<lambda>r. start < or_end r) (part_entries p))"
    using trim_entries [of start p] live by (auto simp: e(2) trim_def [of p start] cong: filter_cong)
  moreover have "covered q off \<longleftrightarrow> covered p off" if "pi_log_start q \<le> off" for off
  proof -
    have "start \<le> off" using that by (simp add: e(2))
    then show ?thesis by (auto simp: covered_def entries holds_offset_def)
  qed
  moreover have "length cs + length (part_entries q) = length (part_entries p)"
  proof (cases "start \<le> pi_log_start p")
    case False
    have split: "length (filter P xs) + length (filter (\<lambda>x. \<not> P x) xs) = length xs" for P and xs :: "'a list"
      by (rule sum_length_filter_compl)
    from False show ?thesis
      using sum_length_filter_compl [of "dead_below start" "pi_history p"]
        sum_length_filter_compl [of "\<lambda>e. dead_below start (te_ref e)" "pi_tail p"]
      by (simp add: e(2,3) trim_entries) (simp add: trim_def part_entries_def filter_map o_def)
  qed (simp add: e(2,3) trim_def)
  ultimately show ?thesis by (simp add: e(2) max.commute)
qed


section \<open>The quota\<close>

text \<open>An index under a quota never holds more entries than its ceiling, however it was
  reached.\<close>

lemma quota_bounds_the_index:
  assumes "index_reach (Some q) s"
  shows "index_entries s \<le> iq_ceiling q"
  using index_reach_under [OF assms] by (simp add: under_ceiling_def)

text \<open>Two entries allowed, the alarm at one.\<close>

definition example_quota :: index_quota where
  "example_quota = \<lparr>iq_ceiling = 2, iq_alarm_at = 1\<rparr>"

lemma example_quota_reach: "index_reach (Some example_quota) (with_quota example_quota)"
  by (rule index_reach.fresh_quota [of 2 1]) (simp add: quota_new_def example_quota_def)

lemma example_quota_folds: "is_ok (index_apply (with_quota example_quota) example_log)"
  by code_simp


lemma index_apply_no_quota:
  "foldR (pair_step (s\<lparr>ix_quota := None\<rparr>)) x ops = foldR (pair_step s) x ops"
proof (rule foldR_cong)
  fix t :: "batch \<times> projection" and op
  obtain b pj where t: "t = (b, pj)" by (cases t)
  have p: "ix_partitions (s\<lparr>ix_quota := None\<rparr>) = ix_partitions s" by simp
  have "stage_span (s\<lparr>ix_quota := None\<rparr>) = stage_span s"
    unfolding stage_span_def fun_eq_iff p by simp
  moreover have "slot_of (s\<lparr>ix_quota := None\<rparr>) = slot_of s"
    unfolding slot_of_def fun_eq_iff p by simp
  ultimately show "pair_step (s\<lparr>ix_quota := None\<rparr>) t op = pair_step s t op"
    by (cases op) (simp_all add: t project_effect_alt)
qed

text \<open>A quota refusal says what it claims: the count it reports is the number of entries the
  index without the quota would hold after the same page, and that count is past the ceiling.\<close>

lemma quota_refusal_reports_the_count:
  assumes "index_reach (Some q) s" "index_apply s es = Inl (IndexQuotaExceeded t p n c)"
  shows "c = iq_ceiling q \<and> c < n \<and>
    (\<exists>s'. index_apply (s\<lparr>ix_quota := None\<rparr>) es = Inr s' \<and> index_entries s' = n)"
proof -
  let ?u = "s\<lparr>ix_quota := None\<rparr>"
  from index_apply_error [OF assms(2)] obtain b pj where asc: "ascending (ix_applied s) es"
    and pair: "foldR (pair_step s) (batch_default, projection_empty) (log_ops es) = Inr (b, pj)"
    and over: "check_quota s (ba_staged b) (page_projected s (b, pj)) = Inl (IndexQuotaExceeded t p n c)"
    by (auto simp: log_error_def)
  from pair_run_sim [OF pair] obtain w where "sim s (b, pj) w" by blast
  then have ok: "staged_ok (ba_staged b)" "distinct (map fst (page_projected s (b, pj)))"
    by (simp_all add: sim_def proj_ok_def page_projected_def o_def case_prod_unfold)
  have tiers: "tiers_ok s" "tiers_ok ?u"
    using index_reach_inv [OF assms(1)] by (simp_all add: tiers_ok_def index_inv_def parts_inv_def)
  have same: "page_projected ?u (b, pj) = page_projected s (b, pj)"
    by (simp add: page_projected_def page_slot_def slot_of_def)
  define s' where "s' = install ?u (ba_staged b) (page_projected s (b, pj))
      (pj_changes pj @ stage_changes (ba_staged b)) (last_version_of (ix_applied s) es)"
  have "index_apply ?u es = Inr s'"
    using asc pair by (simp add: index_apply_iff index_apply_no_quota same check_quota_def s'_def)
  moreover have "int (index_entries s') = int (index_entries (install s (ba_staged b)
      (page_projected s (b, pj)) cs v))" for cs v
    using would_be_exact [OF tiers(1) ok, of cs v] would_be_exact [OF tiers(2) ok]
    by (simp add: s'_def contributions_def)
  ultimately show ?thesis
    using check_quota_iff(2) [OF tiers(1) ok over] index_reach_quota [OF assms(1)] by auto
qed


text \<open>With a quota, a log accepted page by page is accepted whole and leaves the same state.\<close>

lemma quota_accepts_whole_what_it_accepts_paged:
  assumes "index_reach (Some q) s" "foldR index_apply s pages = Inr s'"
  shows "index_apply s (concat pages) = Inr s'"
  using pages_join [OF _ assms(2)] index_reach_facts [OF assms(1)] by simp


text \<open>The converse fails: the quota is checked against the net of a page, so a log whose growth
  a later record takes back is accepted in one page and refused one entry at a time.  Where a
  replay stops therefore depends on its page size.\<close>

lemma quota_refusal_depends_on_page_size:
  "is_ok (index_apply (with_quota example_quota) example_log) \<and>
   \<not> is_ok (foldR index_apply (with_quota example_quota) (map (\<lambda>e. [e]) example_log))"
  by code_simp

end
