(* ===== verification/Index_Fetch.thy ===== *)
theory Index_Fetch
  imports Index_Effects
begin

text \<open>
  What a fetch may rely on (\<open>IndexState::find_batches\<close>): when it refuses, what a page is, what
  bounds it, and that consecutive pages partition the answer.
\<close>

lemma find_batches_reach:
  assumes "index_reach q s" "ix_partitions s key = Some p" "pi_log_start p \<le> start"
  shows "find_batches s key start mb = Inr (pg_batches (fill (page_new mb) (wanted start p)))"
  by (rule find_batches_fill [OF index_reach_part [OF assms(1,2)] assms(2,3)])

text \<open>Whatever the index, a batch of a page ends past the offset asked for.\<close>

lemma find_scan_ends:
  "find_scan start pg bs = Inr (closed, pg') \<Longrightarrow> b \<in> set (pg_batches pg') \<Longrightarrow>
     b \<in> set (pg_batches pg) \<or> (\<exists>e. ref_end_offset (batch_reference b) = Inr e \<and> start < e)"
proof (induction bs arbitrary: pg)
  case (Cons x bs)
  from Cons.prems(1) obtain e where e: "ref_end_offset (batch_reference x) = Inr e" by (auto simp: bindR_Inr_iff)
  show ?case
  proof (cases "start < e")
    case False
    with Cons e show ?thesis by simp
  next
    case True
    obtain taken pg1 where push: "page_push pg x = (taken, pg1)" by fastforce
    have "set (pg_batches pg1) \<subseteq> insert x (set (pg_batches pg))" using push by (auto simp: page_push_def split: if_splits)
    with Cons True e push show ?thesis by (cases taken) fastforce+
  qed
qed simp

lemma find_batches_ends:
  assumes "find_batches s key start mb = Inr bs" "b \<in> set bs"
  obtains e where "ref_end_offset (batch_reference b) = Inr e" "start < e"
proof -
  from assms have "\<exists>e. ref_end_offset (batch_reference b) = Inr e \<and> start < e"
    by (auto simp: find_batches_def bindR_Inr_iff page_new_def split: option.splits if_splits dest!: find_scan_ends)
  with that show thesis by blast
qed

lemma page_push_refused:
  "fst (page_push pg b) = False \<Longrightarrow> length (pg_batches pg) \<ge> MAX_BATCHES_PER_PAGE \<or>
     (\<exists>n. known_len b = Some n \<and> pg_max_bytes pg < saturating_add_u64 (pg_spent pg) n)"
  by (auto simp: page_push_def split: if_splits option.splits)

lemma find_batches_prefix:
  assumes "index_reach q s" "ix_partitions s key = Some p" "pi_log_start p \<le> start"
    and "find_batches s key start mb = Inr bs"
  obtains rest where "wanted start p = bs @ rest" "bs = [] \<Longrightarrow> rest = []"
    "rest \<noteq> [] \<Longrightarrow> length bs = MAX_BATCHES_PER_PAGE \<or>
       (\<exists>n. known_len (hd rest) = Some n \<and> mb < min u64_max (batches_len bs + n))"
    "length bs \<le> MAX_BATCHES_PER_PAGE"
    "min u64_max (batches_len bs) \<le> max mb (batches_len (take 1 bs))"
proof -
  let ?pg = "fill (page_new mb) (wanted start p)"
  have bs: "bs = pg_batches ?pg" using find_batches_reach [OF assms(1-3), of mb] assms(4) by simp
  from fill_prefix [of "page_new mb" "wanted start p"] obtain rest where
    r: "wanted start p = bs @ rest" "rest \<noteq> [] \<longrightarrow> fst (page_push ?pg (hd rest)) = False"
      "pg_max_bytes ?pg = mb"
    by (auto simp: bs page_new_def)
  have ok: "page_ok ?pg" by (rule fill_ok) simp
  have "length bs = MAX_BATCHES_PER_PAGE \<or>
       (\<exists>n. known_len (hd rest) = Some n \<and> mb < min u64_max (batches_len bs + n))" if "rest \<noteq> []"
  proof -
    from r(2) that have "fst (page_push ?pg (hd rest)) = False" by simp
    from page_push_refused [OF this] show ?thesis
    proof
      assume "length (pg_batches ?pg) \<ge> MAX_BATCHES_PER_PAGE"
      then show ?thesis using ok by (simp add: bs page_ok_def)
    next
      assume "\<exists>n. known_len (hd rest) = Some n \<and>
        pg_max_bytes ?pg < saturating_add_u64 (pg_spent ?pg) n"
      then obtain n where n: "known_len (hd rest) = Some n"
        "pg_max_bytes ?pg < min u64_max (pg_spent ?pg + n)" by (auto simp: saturating_add_u64_def)
      moreover have "pg_spent ?pg \<le> batches_len bs" using ok by (simp add: page_ok_def bs)
      ultimately have "mb < min u64_max (batches_len bs + n)" using r(3) by linarith
      with n(1) show ?thesis by blast
    qed
  qed
  moreover have "rest = []" if "bs = []"
  proof -
    have "pg_batches (page_new mb) = []" by (simp add: page_new_def)
    from fill_nonempty [OF this, of "wanted start p"] that bs have "wanted start p = []" by metis
    with r(1) show ?thesis by simp
  qed
  moreover have "length bs \<le> MAX_BATCHES_PER_PAGE"
    "min u64_max (batches_len bs) \<le> max mb (batches_len (take 1 bs))"
    using ok r(3) by (simp_all add: bs page_ok_def)
  ultimately show thesis using that [OF r(1)] by blast
qed

text \<open>A fetch below the log start is refused with the log start, and nothing else is: the scan
  meets no entry whose end is unrepresentable, so \<open>OffsetOverflow\<close> never reaches a caller.\<close>

lemma fetch_error_iff_below_log_start:
  assumes "index_reach q s"
  shows "find_batches s key start mb = Inl e \<longleftrightarrow>
    start < index_log_start s key \<and> ix_partitions s key \<noteq> None \<and>
    e = BelowLogStart start (index_log_start s key)"
proof (cases "ix_partitions s key")
  case None
  then show ?thesis by (simp add: find_batches_def)
next
  case (Some p)
  show ?thesis
  proof (cases "start < pi_log_start p")
    case True
    with Some show ?thesis by (auto simp: find_batches_def index_log_start_def)
  next
    case False
    with Some find_batches_reach [OF assms Some, of start mb] show ?thesis
      by (simp add: index_log_start_def)
  qed
qed


text \<open>A page is the ordered, gap-free run of the entries that end past the requested offset,
  cut only where a bound was met: it is empty only if no such entry exists, it ends early only if it
  holds the maximum number of batches or the next batch's known length crosses the byte budget, and
  the binary search into history never skips an entry.\<close>

lemma fetch_page_is_prefix_of_wanted:
  assumes "index_reach q s" "ix_partitions s key = Some p" "pi_log_start p \<le> start"
    and "find_batches s key start mb = Inr bs"
  shows "\<exists>rest a b. wanted start p = bs @ rest \<and> dense a (map batch_reference bs) b \<and>
    (bs = [] \<longrightarrow> rest = []) \<and>
    (rest \<noteq> [] \<longrightarrow> length bs = MAX_BATCHES_PER_PAGE \<or>
       (\<exists>n. known_len (hd rest) = Some n \<and> mb < min u64_max (batches_len bs + n)))"
proof -
  from find_batches_prefix [OF assms] obtain rest where r: "wanted start p = bs @ rest"
    "bs = [] \<Longrightarrow> rest = []"
    "rest \<noteq> [] \<Longrightarrow> length bs = MAX_BATCHES_PER_PAGE \<or>
       (\<exists>n. known_len (hd rest) = Some n \<and> mb < min u64_max (batches_len bs + n))"
    by metis
  from index_reach_part [OF assms(1,2)] obtain c where c: "dense c (part_entries p) (pi_end p)"
    by (rule part_invE)
  have "\<exists>a b. dense a (map batch_reference (wanted start p)) b"
  proof (cases "start \<le> pi_end p")
    case True
    from dense_suffix [OF c True] show ?thesis by (auto simp: wanted_refs)
  next
    case False
    then have "filter (\<lambda>r. start < or_end r) (part_entries p) = []"
      using dense_bounds(3) [OF c] by (force simp: filter_empty_conv)
    then show ?thesis by (simp add: wanted_refs)
  qed
  then have "\<exists>a b. dense a (map batch_reference bs) b" by (auto simp: r(1) dense_append)
  with r show ?thesis by blast
qed

text \<open>A fetch at an offset that exists returns the object holding it first: for an offset at or
  past the partition's run and below its end, the page is not empty and its first batch contains the
  offset.\<close>

lemma fetch_page_starts_at_the_offset:
  assumes "index_reach q s" "ix_partitions s key = Some p" "pi_log_start p \<le> start"
    and "(case pi_manifest p of None \<Rightarrow> pi_log_start p | Some (_, up_to) \<Rightarrow> up_to) \<le> start"
    and "start < pi_end p" "find_batches s key start mb = Inr bs"
  shows "bs \<noteq> [] \<and> holds_offset start (batch_reference (hd bs))"
proof -
  from find_batches_prefix [OF assms(1-3,6)] obtain rest where r: "wanted start p = bs @ rest"
    "bs = [] \<Longrightarrow> rest = []" by metis
  from index_reach_part [OF assms(1,2)] obtain a
    where a: "run_starts p a" "dense a (part_entries p) (pi_end p)" by (rule part_invE)
  have "a \<le> start" using a(1) assms(4) by (auto simp: run_starts_def split: option.splits)
  with dense_suffix [OF a(2), of start] assms(5) obtain c where
    c: "dense c (map batch_reference (wanted start p)) (pi_end p)" "c \<le> start"
    by (auto simp: wanted_refs)
  with assms(5) have "wanted start p \<noteq> []" by auto
  with r have ne: "bs \<noteq> []" by auto
  have "hd (wanted start p) = hd bs" using r(1) ne by simp
  moreover have "hd (wanted start p) \<in> set (wanted start p)" using r(1) ne by (cases bs) auto
  then have "start < or_end (batch_reference (hd (wanted start p)))" by (simp add: wanted_def)
  moreover have "or_base (batch_reference (hd (wanted start p))) = c"
    using c(1) \<open>wanted start p \<noteq> []\<close> by (cases "wanted start p") auto
  ultimately show ?thesis using ne c(2) by (simp add: holds_offset_def)
qed

text \<open>Consecutive fetches lose and repeat nothing: what is wanted from an offset is the page
  returned for it followed by what is wanted from the end of that page.\<close>

lemma fetch_resumes_where_it_stopped:
  assumes "index_reach q s" "ix_partitions s key = Some p" "pi_log_start p \<le> start"
    and "find_batches s key start mb = Inr bs" "bs \<noteq> []"
  shows "wanted start p = bs @ wanted (or_end (batch_reference (last bs))) p"
proof -
  from find_batches_prefix [OF assms(1-4)] obtain rest where r: "wanted start p = bs @ rest" by metis
  let ?e = "or_end (batch_reference (last bs))"
  from index_reach_part [OF assms(1,2)] obtain c where c: "dense c (part_entries p) (pi_end p)"
    by (rule part_invE)
  have last_in: "last bs \<in> set (wanted start p)" using r assms(5) by simp
  then have le: "start \<le> pi_end p" and se: "start < ?e"
    using dense_bounds(3) [OF c, of "batch_reference (last bs)"]
    by (auto simp: wanted_def part_batches_refs [symmetric])
  have "wanted ?e p = filter (\<lambda>b. ?e < or_end (batch_reference b)) (wanted start p)"
    using se by (auto simp: wanted_def intro!: filter_cong)
  also have "\<dots> = rest"
  proof -
    from dense_suffix [OF c le] obtain d where
      "dense d (map batch_reference (bs @ rest)) (pi_end p)" by (auto simp: wanted_refs [symmetric] r)
    then obtain m where m: "dense d (map batch_reference bs) m" "dense m (map batch_reference rest) (pi_end p)"
      by (auto simp: dense_append)
    have "m = ?e"
      using m(1) assms(5) by (cases bs rule: rev_cases) (auto simp: dense_append)
    then have "\<not> ?e < or_end (batch_reference b)" if "b \<in> set bs" for b
      using dense_bounds(3) [OF m(1), of "batch_reference b"] that by auto
    moreover have "?e < or_end (batch_reference b)" if "b \<in> set rest" for b
      using dense_bounds(1,2) [OF m(2), of "batch_reference b"] that \<open>m = ?e\<close> by fastforce
    ultimately show ?thesis by (simp add: r filter_empty_conv filter_id_conv)
  qed
  finally show ?thesis using r by simp
qed

text \<open>A page is bounded: never more than \<open>MAX_BATCHES_PER_PAGE\<close> batches, and the known lengths
  it spends stay within the byte budget unless the first batch alone exceeds it.\<close>

lemma fetch_page_is_bounded:
  assumes "index_reach q s" "find_batches s key start mb = Inr bs"
  shows "length bs \<le> MAX_BATCHES_PER_PAGE \<and>
    min u64_max (batches_len bs) \<le> max mb (batches_len (take 1 bs))"
proof (cases "ix_partitions s key")
  case None
  with assms(2) show ?thesis by (simp add: find_batches_def batches_len_def)
next
  case (Some p)
  with assms(2) have "pi_log_start p \<le> start" by (auto simp: find_batches_def split: if_splits)
  from find_batches_prefix [OF assms(1) Some this assms(2)] show ?thesis by metis
qed

lemma example_page:
  obtains s p bs where "index_reach None s" "ix_partitions s (''t'', 0) = Some p"
    "index_apply index_new example_log = Inr s"
    "pi_log_start p \<le> 12" "pi_manifest p = None" "12 < pi_end p"
    "find_batches s (''t'', 0) 12 60 = Inr bs" "length bs = 1"
proof -
  obtain s where s: "index_apply index_new example_log = Inr s" "index_reach None s"
    by (rule example_reach)
  have "case index_apply index_new example_log of
      Inl _ \<Rightarrow> False
    | Inr s \<Rightarrow> (case ix_partitions s (''t'', 0) of
        None \<Rightarrow> False
      | Some p \<Rightarrow> pi_manifest p = None \<and> pi_log_start p \<le> 12 \<and> 12 < pi_end p \<and>
          pi_history p = [] \<and>
          pi_tail p = [\<lparr>te_ref = \<lparr>or_object = ''b'', or_base = 10, or_count = 5\<rparr>, te_bytes = Bounded 0 60\<rparr>,
                       \<lparr>te_ref = \<lparr>or_object = ''b'', or_base = 15, or_count = 2\<rparr>, te_bytes = Bounded 0 20\<rparr>])"
    by code_simp
  with s obtain p where p: "ix_partitions s (''t'', 0) = Some p" "pi_manifest p = None"
    "pi_log_start p \<le> 12" "12 < pi_end p" "pi_history p = []"
    "pi_tail p = [\<lparr>te_ref = \<lparr>or_object = ''b'', or_base = 10, or_count = 5\<rparr>, te_bytes = Bounded 0 60\<rparr>,
                  \<lparr>te_ref = \<lparr>or_object = ''b'', or_base = 15, or_count = 2\<rparr>, te_bytes = Bounded 0 20\<rparr>]"
    by (auto split: option.splits)
  moreover from p(5,6) have "length (pg_batches (fill (page_new 60) (wanted 12 p))) = 1"
    by (simp add: wanted_def part_batches_def page_push_def page_new_def known_len_def batch_bytes_def
        saturating_add_u64_def)
  ultimately show thesis
    using that [OF s(2) p(1) s(1) p(3,2,4)] find_batches_reach [OF s(2) p(1,3), of 60]
    by simp
qed


end
