(* ===== verification/Applier.thy ===== *)
theory Applier
  imports Index_Fetch
begin

text \<open>
  Pumping the metadata log into an index (\<open>oqueue-index/src/applier.rs\<close>).  The applier holds a
  log and an index behind their seams, so its operations take the seams' operations as
  arguments: \<open>read_from\<close> of the log, \<open>apply\<close> and \<open>applied_upto\<close> of the index.  The log is read as
  it stands during one \<open>catch_up\<close>; the index state is returned beside the result because a
  failure part-way leaves the pages before it folded.
\<close>

section \<open>Operations\<close>

definition APPLY_BATCH_ENTRIES :: nat where
  "APPLY_BATCH_ENTRIES = 1000"

record catch_up_cost =
  cu_entries :: nat
  cu_batches :: nat
  cu_reads :: nat

definition cost_default :: catch_up_cost where
  "cost_default = \<lparr>cu_entries = 0, cu_batches = 0, cu_reads = 0\<rparr>"

type_synonym 'l reader = "'l \<Rightarrow> commit_version \<Rightarrow> nat \<Rightarrow> metadata_entry list result"
type_synonym 'i folder = "'i \<Rightarrow> metadata_entry list \<Rightarrow> 'i result"

definition resume_from :: "commit_version option \<Rightarrow> commit_version result" where
  "resume_from applied = (case applied of None \<Rightarrow> Inr 0 | Some v \<Rightarrow> version_advance v 1)"

definition apply_next_batch ::
  "'l reader \<Rightarrow> 'i folder \<Rightarrow> ('i \<Rightarrow> commit_version option) \<Rightarrow> 'l \<Rightarrow> 'i \<Rightarrow> nat result \<times> 'i" where
  "apply_next_batch read_from ap upto_of log index =
     (case resume_from (upto_of index) of
        Inl e \<Rightarrow> (Inl e, index)
      | Inr start \<Rightarrow>
          (case read_from log start APPLY_BATCH_ENTRIES of
             Inl e \<Rightarrow> (Inl e, index)
           | Inr page \<Rightarrow>
               if page = [] then (Inr 0, index)
               else (case ap index page of
                       Inl e \<Rightarrow> (Inl e, index)
                     | Inr index' \<Rightarrow> (Inr (length page), index'))))"

text \<open>The loop of \<open>catch_up\<close>; a loop that never returns is \<open>None\<close>.\<close>

partial_function (option) applier_loop ::
  "'l reader \<Rightarrow> 'i folder \<Rightarrow> ('i \<Rightarrow> commit_version option) \<Rightarrow> 'l \<Rightarrow> catch_up_cost \<Rightarrow> 'i
     \<Rightarrow> (catch_up_cost result \<times> 'i) option"
where
  "applier_loop read_from ap upto_of log cost index =
     (case apply_next_batch read_from ap upto_of log index of
        (Inl e, index') \<Rightarrow> Some (Inl e, index')
      | (Inr n, index') \<Rightarrow>
          (let cost1 = cost\<lparr>cu_reads := cu_reads cost + 1\<rparr>
           in if n = 0 then Some (Inr cost1, index')
              else
                let cost2 = cost1\<lparr>cu_entries := cu_entries cost1 + n, cu_batches := cu_batches cost1 + 1\<rparr>
                in if n < APPLY_BATCH_ENTRIES then Some (Inr cost2, index')
                   else applier_loop read_from ap upto_of log cost2 index'))"

definition applier_catch_up ::
  "'l reader \<Rightarrow> 'i folder \<Rightarrow> ('i \<Rightarrow> commit_version option) \<Rightarrow> 'l \<Rightarrow> 'i \<Rightarrow> (catch_up_cost result \<times> 'i) option"
where
  "applier_catch_up read_from ap upto_of log index =
     applier_loop read_from ap upto_of log cost_default index"

text \<open>How many full or partial batches \<open>n\<close> entries make.\<close>

definition batches_for :: "nat \<Rightarrow> nat" where
  "batches_for n = n div APPLY_BATCH_ENTRIES + (if n mod APPLY_BATCH_ENTRIES = 0 then 0 else 1)"

lemma batches_for_small: "n < APPLY_BATCH_ENTRIES \<Longrightarrow> batches_for n = (if n = 0 then 0 else 1)"
  by (simp add: batches_for_def)

lemma batches_for_more: "batches_for (m + APPLY_BATCH_ENTRIES) = Suc (batches_for m)"
  by (simp add: batches_for_def) (simp add: APPLY_BATCH_ENTRIES_def)

section \<open>Any log behind any index\<close>

text \<open>The applier's client contract: a log and an index that keep their seams' laws.\<close>

locale log_applier =
  log: metadata_log log_entries log_append log_read_from log_invar +
  index: materialized_index mi_apply mi_upto mi_clear mi_ok
  for log_entries :: "'l \<Rightarrow> metadata_entry list"
    and log_append :: "'l \<Rightarrow> metadata_entry list \<Rightarrow> unit result \<times> 'l"
    and log_read_from :: "'l reader"
    and log_invar :: "'l \<Rightarrow> bool"
    and mi_apply :: "'i folder"
    and mi_upto :: "'i \<Rightarrow> commit_version option"
    and mi_clear :: "'i \<Rightarrow> 'i"
    and mi_ok :: "'i \<Rightarrow> bool"
begin

text \<open>\<open>holds_prefix l i0 xs i\<close>: \<open>i\<close> is the fresh index \<open>i0\<close> after the prefix \<open>xs\<close> of the log.\<close>

definition holds_prefix :: "'l \<Rightarrow> 'i \<Rightarrow> metadata_entry list \<Rightarrow> 'i \<Rightarrow> bool" where
  "holds_prefix l i0 xs i \<longleftrightarrow>
     mi_ok i0 \<and> mi_upto i0 = None \<and> mi_apply i0 xs = Inr i \<and> (\<exists>ys. log_entries l = xs @ ys)"

lemma holds_prefix_upto: "holds_prefix l i0 xs i \<Longrightarrow> mi_upto i = last_version_of None xs \<and> mi_ok i"
  using index.apply_ordered index.apply_keeps unfolding holds_prefix_def by metis

text \<open>A batch is the next page of the log, folded, or nothing when the log is exhausted.\<close>

lemma next_batch:
  assumes l: "log_invar l" and pre: "holds_prefix l i0 xs i" and log: "log_entries l = xs @ ys"
    and ok: "apply_next_batch log_read_from mi_apply mi_upto l i = (Inr n, i')"
  shows "n = length (take APPLY_BATCH_ENTRIES ys)"
    "holds_prefix l i0 (xs @ take APPLY_BATCH_ENTRIES ys) i'"
proof -
  from ok obtain start page where start: "resume_from (mi_upto i) = Inr start"
    and page: "log_read_from l start APPLY_BATCH_ENTRIES = Inr page"
    and fold: "page = [] \<and> n = 0 \<and> i' = i \<or> page \<noteq> [] \<and> n = length page \<and> mi_apply i page = Inr i'"
    by (auto simp: apply_next_batch_def split: sum.splits if_splits)
  have "case last_version_of None xs of None \<Rightarrow> start = 0 | Some v \<Rightarrow> start = v + 1"
    using start holds_prefix_upto [OF pre]
    by (auto simp: resume_from_def version_advance_Inr_iff split: option.splits)
  from log.read_after_prefix [OF l log page this] have page_eq: "page = take APPLY_BATCH_ENTRIES ys" .
  with fold show "n = length (take APPLY_BATCH_ENTRIES ys)" by auto
  have "mi_apply i page = Inr i'"
    using fold index.apply_nothing holds_prefix_upto [OF pre] by auto
  then have "mi_apply i0 (xs @ page) = Inr i'"
    using pre index.apply_pages unfolding holds_prefix_def by blast
  then show "holds_prefix l i0 (xs @ take APPLY_BATCH_ENTRIES ys) i'"
    using pre log unfolding holds_prefix_def page_eq
    by (metis append.assoc append_take_drop_id)
qed

text \<open>When the log is readable and folds, a batch always succeeds.\<close>

lemma next_batch_succeeds:
  assumes l: "log_invar l" and pre: "holds_prefix l i0 xs i" and log: "log_entries l = xs @ ys"
    and readable: "\<And>start n. is_ok (log_read_from l start n)"
    and folds: "is_ok (mi_apply i0 (log_entries l))"
    and below: "\<And>v. last_version_of None xs = Some v \<Longrightarrow> v < u64_max"
  shows "\<exists>i'. apply_next_batch log_read_from mi_apply mi_upto l i = (Inr (length (take APPLY_BATCH_ENTRIES ys)), i')"
proof -
  have up: "mi_upto i = last_version_of None xs" "mi_ok i" using holds_prefix_upto [OF pre] by auto
  have "\<exists>start. resume_from (mi_upto i) = Inr start"
    using below by (auto simp: resume_from_def up version_advance_def split: option.split)
  then obtain start where start: "resume_from (mi_upto i) = Inr start" by blast
  obtain page where page: "log_read_from l start APPLY_BATCH_ENTRIES = Inr page"
    using readable [of start APPLY_BATCH_ENTRIES] by (auto simp: is_ok_iff)
  have "case last_version_of None xs of None \<Rightarrow> start = 0 | Some v \<Rightarrow> start = v + 1"
    using start up by (auto simp: resume_from_def version_advance_Inr_iff split: option.splits)
  from log.read_after_prefix [OF l log page this] have page_eq: "page = take APPLY_BATCH_ENTRIES ys" .
  obtain full where "mi_apply i0 (xs @ page @ drop APPLY_BATCH_ENTRIES ys) = Inr full"
    using folds by (auto simp: log page_eq is_ok_iff)
  moreover have "mi_ok i0" "mi_apply i0 xs = Inr i" using pre by (auto simp: holds_prefix_def)
  ultimately obtain i' where "mi_apply i page = Inr i'"
    using index.apply_suffix index.apply_pages [OF up(2)] by blast
  with start page page_eq show ?thesis by (auto simp: apply_next_batch_def)
qed

lemma next_batch_error:
  "apply_next_batch log_read_from mi_apply mi_upto l i = (Inl e, i') \<Longrightarrow> i' = i"
  by (auto simp: apply_next_batch_def split: sum.splits if_splits)

text \<open>The loop returns on every log, and what it leaves is the fold of a prefix of the log; of the
  whole log when it reports success.\<close>

lemma loop_returns:
  assumes l: "log_invar l" and pre: "holds_prefix l i0 xs i" and log: "log_entries l = xs @ ys"
  shows "\<exists>r i' zs. applier_loop log_read_from mi_apply mi_upto l cost i = Some (r, i') \<and>
    holds_prefix l i0 zs i' \<and> (is_ok r \<longrightarrow> zs = log_entries l)"
  using pre log
proof (induction ys arbitrary: xs i cost rule: length_induct)
  case (1 ys)
  let ?B = APPLY_BATCH_ENTRIES
  obtain r i' where batch: "apply_next_batch log_read_from mi_apply mi_upto l i = (r, i')" by fastforce
  show ?case
  proof (cases r)
    case (Inl e)
    then show ?thesis
      using batch next_batch_error [of l i e i'] "1.prems"(1)
      by (subst applier_loop.simps) (auto simp: is_ok_def)
  next
    case (Inr n)
    have step: "n = length (take ?B ys)" "holds_prefix l i0 (xs @ take ?B ys) i'"
      using next_batch [OF l "1.prems"] batch Inr by auto
    have B: "0 < ?B" by (simp add: APPLY_BATCH_ENTRIES_def)
    show ?thesis
    proof (cases "n < ?B")
      case True
      then have "take ?B ys = ys" using step(1) by simp
      with step(2) batch Inr True "1.prems"(2) show ?thesis
        by (subst applier_loop.simps) (auto simp: Let_def)
    next
      case False
      with step(1) B have "length (drop ?B ys) < length ys" by auto
      moreover have "log_entries l = (xs @ take ?B ys) @ drop ?B ys" using "1.prems"(2) by simp
      ultimately have "\<exists>r i'' zs. applier_loop log_read_from mi_apply mi_upto l c i' = Some (r, i'') \<and>
          holds_prefix l i0 zs i'' \<and> (is_ok r \<longrightarrow> zs = log_entries l)" for c
        using "1.IH" step(2) by blast
      then show ?thesis
        using batch Inr False B by (subst applier_loop.simps) (simp add: Let_def)
    qed
  qed
qed

text \<open>With a readable log that folds, the loop succeeds, and its cost is exact.\<close>

lemma loop_succeeds:
  assumes l: "log_invar l" and pre: "holds_prefix l i0 xs i" and log: "log_entries l = xs @ ys"
    and readable: "\<And>start n. is_ok (log_read_from l start n)"
    and folds: "is_ok (mi_apply i0 (log_entries l))"
    and below: "\<And>e. e \<in> set (log_entries l) \<Longrightarrow> me_version e < u64_max"
  shows "\<exists>i'. applier_loop log_read_from mi_apply mi_upto l cost i =
    Some (Inr \<lparr>cu_entries = cu_entries cost + length ys,
               cu_batches = cu_batches cost + batches_for (length ys),
               cu_reads = cu_reads cost + length ys div APPLY_BATCH_ENTRIES + 1\<rparr>, i') \<and>
    mi_apply i0 (log_entries l) = Inr i'"
  using pre log
proof (induction ys arbitrary: xs i cost rule: length_induct)
  case (1 ys)
  let ?B = APPLY_BATCH_ENTRIES
  have B: "0 < ?B" by (simp add: APPLY_BATCH_ENTRIES_def)
  have "v < u64_max" if "last_version_of None xs = Some v" for v
    using that below "1.prems"(2) by (auto simp: last_version_of_def split: if_splits)
  from next_batch_succeeds [OF l "1.prems" readable folds this] obtain i' where
    batch: "apply_next_batch log_read_from mi_apply mi_upto l i = (Inr (length (take ?B ys)), i')" by blast
  have step: "holds_prefix l i0 (xs @ take ?B ys) i'"
    using next_batch(2) [OF l "1.prems" batch] .
  show ?case
  proof (cases "length ys < ?B")
    case True
    then have "mi_apply i0 (log_entries l) = Inr i'"
      using step "1.prems"(2) by (simp add: holds_prefix_def)
    with batch True B show ?thesis
      by (subst applier_loop.simps) (auto simp: Let_def batches_for_small)
  next
    case False
    define m where "m = length (drop ?B ys)"
    define c where "c = cost\<lparr>cu_reads := cu_reads cost + 1, cu_entries := cu_entries cost + ?B,
      cu_batches := cu_batches cost + 1\<rparr>"
    have len: "length ys = m + ?B" "length (take ?B ys) = ?B" "m < length ys"
      using False B by (auto simp: m_def)
    have "log_entries l = (xs @ take ?B ys) @ drop ?B ys" using "1.prems"(2) by simp
    with "1.IH" step len(3) obtain i'' where i'': "applier_loop log_read_from mi_apply mi_upto l c i' =
      Some (Inr \<lparr>cu_entries = cu_entries c + m, cu_batches = cu_batches c + batches_for m,
                 cu_reads = cu_reads c + m div ?B + 1\<rparr>, i'')"
      "mi_apply i0 (log_entries l) = Inr i''"
      unfolding m_def by blast
    moreover have "applier_loop log_read_from mi_apply mi_upto l cost i =
        applier_loop log_read_from mi_apply mi_upto l c i'"
      using batch [unfolded len(2)] B by (subst applier_loop.simps) (simp add: Let_def c_def)
    moreover have "(m + ?B) div ?B = m div ?B + 1" by (simp add: APPLY_BATCH_ENTRIES_def)
    ultimately show ?thesis by (simp add: len(1) batches_for_more c_def)
  qed
qed

end

interpretation memory_applier: log_applier "\<lambda>l. l" fake_append fake_read_from "ascending None"
  index_apply ix_applied index_clear "\<lambda>s. index_inv s \<and> ix_quota s = None"
  by unfold_locales

section \<open>What a catch-up does\<close>

lemma memory_prefix:
  assumes "index_apply index_new xs = Inr s"
  shows "memory_applier.holds_prefix (xs @ ys) index_new xs s"
  using assms index_inv_new(1) by (simp add: memory_applier.holds_prefix_def index_new_def)

text \<open>A catch-up brings the index to the end of the log from wherever its bookmark is: an index
  that folded any prefix of a log that folds ends as the fold of the whole log, having read exactly
  the entries after its bookmark, in the fewest batches, and with one more read only when the last
  batch was full.\<close>

lemma catch_up_folds_the_rest:
  assumes "ascending None (xs @ ys)" "index_apply index_new xs = Inr s"
    and "index_apply index_new (xs @ ys) = Inr s'" "\<forall>e\<in>set (xs @ ys). me_version e < u64_max"
  shows "applier_catch_up fake_read_from index_apply ix_applied (xs @ ys) s =
    Some (Inr \<lparr>cu_entries = length ys, cu_batches = batches_for (length ys),
               cu_reads = length ys div APPLY_BATCH_ENTRIES + 1\<rparr>, s')"
proof -
  have "is_ok (fake_read_from (xs @ ys) start n)" for start n by (simp add: fake_read_from_def)
  from memory_applier.loop_succeeds [OF assms(1) memory_prefix [OF assms(2)] refl this, of cost_default]
    assms(3,4) show ?thesis
    by (auto simp: applier_catch_up_def cost_default_def)
qed


text \<open>A catch-up always returns and is resumable: whatever the log holds, the index it leaves is
  the fold of a prefix of the log, of the whole log when it reports success, so after a failure the
  next catch-up continues from exactly what was folded.\<close>

lemma catch_up_returns_at_a_prefix:
  assumes "ascending None (xs @ ys)" "index_apply index_new xs = Inr s"
  shows "\<exists>r s' n. applier_catch_up fake_read_from index_apply ix_applied (xs @ ys) s = Some (r, s') \<and>
    index_apply index_new (take n (xs @ ys)) = Inr s' \<and> (is_ok r \<longrightarrow> take n (xs @ ys) = xs @ ys)"
proof -
  from memory_applier.loop_returns [OF assms(1) memory_prefix [OF assms(2)] refl, of cost_default]
  obtain r s' zs where r: "applier_catch_up fake_read_from index_apply ix_applied (xs @ ys) s = Some (r, s')"
    "memory_applier.holds_prefix (xs @ ys) index_new zs s'" "is_ok r \<longrightarrow> zs = xs @ ys"
    by (auto simp: applier_catch_up_def)
  from r(2) obtain ws where "xs @ ys = zs @ ws" "index_apply index_new zs = Inr s'"
    by (auto simp: memory_applier.holds_prefix_def)
  with r show ?thesis
    by (intro exI [of _ r] exI [of _ s'] exI [of _ "length zs"]) auto
qed


end
