(* ===== verification/Allocator.thy ===== *)
theory Allocator
  imports Applier
begin

text \<open>
  The coordinator's allocator (\<open>oqueue-coordinator/src/allocator.rs\<close>, \<open>allocator/admission.rs\<close>,
  \<open>allocator/expiry.rs\<close>, \<open>commit.rs\<close>): the version line and the offset lines, staging and
  applying a commit, replaying a log entry, producer-sequence admission and the bounded table of
  producer states with its least-recently-touched eviction.

  \<open>end_offsets\<close> is a partial function on pairs.  \<open>producer_state\<close> is an association list, because
  its size is compared with the cap; the two maps of \<open>Recency\<close> are association lists, \<open>order\<close>
  sorted by stamp as the \<open>BTreeMap\<close> iterates it.  Stamps are \<open>nat\<close>, so \<open>next += 1\<close> does not
  overflow (2^64 touches).
\<close>

section \<open>Recency (expiry.rs)\<close>

definition MAX_TRACKED_PRODUCERS :: nat where
  "MAX_TRACKED_PRODUCERS = 100000"

record 'k recency =
  rc_next :: nat
  rc_order :: "(nat \<times> 'k) list"
  rc_touch :: "('k \<times> nat) list"

definition recency_default :: "'k recency" where
  "recency_default = \<lparr>rc_next = 0, rc_order = [], rc_touch = []\<rparr>"

definition touch :: "'k recency \<Rightarrow> 'k \<Rightarrow> 'k recency" where
  "touch self key =
     (let order = (case map_of (rc_touch self) key of
                     Some old \<Rightarrow> AList.delete old (rc_order self)
                   | None \<Rightarrow> rc_order self);
          stamp = rc_next self
      in \<lparr>rc_next = rc_next self + 1,
          rc_order = insort_key fst (stamp, key) order,
          rc_touch = AList.update key stamp (AList.delete key (rc_touch self))\<rparr>)"

definition evict_oldest :: "'k recency \<Rightarrow> ('k \<times> 'k recency) option" where
  "evict_oldest self =
     (case rc_order self of
        [] \<Rightarrow> None
      | (stamp, key) # _ \<Rightarrow>
          Some (key, self\<lparr>rc_order := AList.delete stamp (rc_order self),
                          rc_touch := AList.delete key (rc_touch self)\<rparr>))"

section \<open>State (allocator.rs)\<close>

type_synonym producer_key = "int \<times> pkey"

record producer_state =
  ps_epoch :: int
  ps_sequence :: int
  ps_base_offset :: offset
  ps_record_count :: nat

definition provisional_state :: "int \<Rightarrow> int \<Rightarrow> nat \<Rightarrow> producer_state" where
  "provisional_state epoch sequence record_count =
     \<lparr>ps_epoch = epoch, ps_sequence = sequence, ps_base_offset = 0, ps_record_count = record_count\<rparr>"

record assignment =
  as_topic :: topic_id
  as_partition :: partition_id
  as_base_offset :: offset
  as_record_count :: nat

record staged_commit =
  sc_entry :: metadata_entry
  sc_assignments :: "assignment list"
  sc_ends :: "(pkey \<times> offset) list"
  sc_producer_ends :: "(producer_key \<times> producer_state) list"
  sc_next_version :: commit_version

record allocator =
  al_next_version :: commit_version
  al_end_offsets :: "pkey \<Rightarrow> offset option"
  al_producer_state :: "(producer_key \<times> producer_state) list"
  al_recency :: "producer_key recency"

definition allocator_new :: allocator where
  "allocator_new =
     \<lparr>al_next_version = 0, al_end_offsets = (\<lambda>_. None), al_producer_state = [],
      al_recency = recency_default\<rparr>"

section \<open>Staging and applying\<close>

record staging =
  sg_running :: "(pkey \<times> offset) list"
  sg_assignments :: "assignment list"
  sg_producer_ends :: "(producer_key \<times> producer_state) list"

text \<open>The body of \<open>stage\<close>'s loop over the spans.\<close>

definition stage_commit_span :: "allocator \<Rightarrow> staging \<Rightarrow> committed_span \<Rightarrow> staging result" where
  "stage_commit_span self sg span =
     (let key = cs_key span;
          base = (case map_of (sg_running sg) key of
                    Some o' \<Rightarrow> o'
                  | None \<Rightarrow> (case al_end_offsets self key of Some o' \<Rightarrow> o' | None \<Rightarrow> 0))
      in bindR (offset_add base (int (cs_count span))) (\<lambda>nxt.
           Inr \<lparr>sg_running = AList.update key nxt (sg_running sg),
                sg_assignments = sg_assignments sg @
                  [\<lparr>as_topic = cs_topic span, as_partition = cs_partition span,
                    as_base_offset = base, as_record_count = cs_count span\<rparr>],
                sg_producer_ends = sg_producer_ends sg @
                  (case cs_producer span of
                     Some identity \<Rightarrow>
                       [((pid_id identity, key),
                         \<lparr>ps_epoch = pid_epoch identity, ps_sequence = pid_sequence identity,
                          ps_base_offset = base, ps_record_count = cs_count span\<rparr>)]
                   | None \<Rightarrow> [])\<rparr>))"

definition alloc_stage ::
  "allocator \<Rightarrow> object_key \<Rightarrow> committed_span list \<Rightarrow> timestamp \<Rightarrow> staged_commit result" where
  "alloc_stage self object spans written_at =
     bindR (foldR (stage_commit_span self)
              \<lparr>sg_running = [], sg_assignments = [], sg_producer_ends = []\<rparr> spans) (\<lambda>sg.
     bindR (version_advance (al_next_version self) 1) (\<lambda>nxt.
       Inr \<lparr>sc_entry = \<lparr>me_version = al_next_version self,
                        me_record = BatchCommitted object spans written_at\<rparr>,
            sc_assignments = sg_assignments sg, sc_ends = sg_running sg,
            sc_producer_ends = sg_producer_ends sg, sc_next_version = nxt\<rparr>))"

definition stage_trim :: "allocator \<Rightarrow> topic_id \<Rightarrow> partition_id \<Rightarrow> offset \<Rightarrow> staged_commit result" where
  "stage_trim self topic part start =
     (let e = (case al_end_offsets self (topic, part) of Some o' \<Rightarrow> o' | None \<Rightarrow> 0)
      in if start > e then Inl (TrimPastEnd topic part start e)
         else bindR (version_advance (al_next_version self) 1) (\<lambda>nxt.
           Inr \<lparr>sc_entry = \<lparr>me_version = al_next_version self, me_record = Trimmed topic part start\<rparr>,
                sc_assignments = [], sc_ends = [], sc_producer_ends = [], sc_next_version = nxt\<rparr>))"

definition stage_retention :: "allocator \<Rightarrow> topic_id \<Rightarrow> int option \<Rightarrow> staged_commit result" where
  "stage_retention self topic retention_ms =
     bindR (version_advance (al_next_version self) 1) (\<lambda>nxt.
       Inr \<lparr>sc_entry = \<lparr>me_version = al_next_version self,
                        me_record = TopicRetentionChanged topic retention_ms\<rparr>,
            sc_assignments = [], sc_ends = [], sc_producer_ends = [], sc_next_version = nxt\<rparr>)"

text \<open>\<open>evict_over_cap\<close>: the \<open>while\<close> loop, ended by the order running empty.\<close>

function evict_over_cap ::
  "(producer_key \<times> producer_state) list \<Rightarrow> producer_key recency \<Rightarrow> nat
     \<Rightarrow> (producer_key \<times> producer_state) list \<times> producer_key recency" where
  "evict_over_cap states recency cap =
     (if length states > cap
      then (case evict_oldest recency of
              None \<Rightarrow> (states, recency)
            | Some (oldest, recency') \<Rightarrow> evict_over_cap (AList.delete oldest states) recency' cap)
      else (states, recency))"
  by pat_completeness auto
termination
proof (relation "measure (\<lambda>(states, recency, cap). length (rc_order recency))")
  fix states :: "(producer_key \<times> producer_state) list" and recency recency' :: "producer_key recency"
    and cap :: nat and x oldest
  assume "evict_oldest recency = Some x" "(oldest, recency') = x"
  then obtain stamp rest where "rc_order recency = (stamp, oldest) # rest"
    "rc_order recency' = AList.delete stamp (rc_order recency)"
    by (auto simp: evict_oldest_def split: list.splits)
  then have "length (rc_order recency') < length (rc_order recency)"
    using AList.length_delete_le [of stamp rest] by simp
  then show "((AList.delete oldest states, recency', cap), states, recency, cap)
      \<in> measure (\<lambda>(states, recency, cap). length (rc_order recency))" by simp
qed simp

declare evict_over_cap.simps [simp del]

definition record_producer ::
  "(producer_key \<times> producer_state) list \<times> producer_key recency
     \<Rightarrow> producer_key \<times> producer_state
     \<Rightarrow> (producer_key \<times> producer_state) list \<times> producer_key recency" where
  "record_producer acc entry =
     (AList.update (fst entry) (snd entry) (fst acc), touch (snd acc) (fst entry))"

definition alloc_apply ::
  "allocator \<Rightarrow> staged_commit \<Rightarrow> (commit_version \<times> assignment list) \<times> allocator" where
  "alloc_apply self staged =
     (let ends = foldl (\<lambda>m (key, e). m(key \<mapsto> e)) (al_end_offsets self) (sc_ends staged);
          touched = foldl record_producer (al_producer_state self, al_recency self)
                      (sc_producer_ends staged);
          kept = evict_over_cap (fst touched) (snd touched) MAX_TRACKED_PRODUCERS
      in ((me_version (sc_entry staged), sc_assignments staged),
          \<lparr>al_next_version = sc_next_version staged, al_end_offsets = ends,
           al_producer_state = fst kept, al_recency = snd kept\<rparr>))"

text \<open>\<open>replay\<close> takes the entry's version before it stages, so the version line has moved even when
  the entry is refused; the state is returned beside the result.\<close>

definition alloc_replay :: "allocator \<Rightarrow> metadata_entry \<Rightarrow> unit result \<times> allocator" where
  "alloc_replay self entry =
     (if me_version entry < al_next_version self
      then (Inl (NonMonotonicCommitVersion (al_next_version self - 1) (me_version entry)), self)
      else
        let self = self\<lparr>al_next_version := me_version entry\<rparr>
        in case me_record entry of
             BatchCommitted object spans written_at \<Rightarrow>
               (case alloc_stage self object spans written_at of
                  Inl e \<Rightarrow> (Inl e, self)
                | Inr staged \<Rightarrow> (Inr (), snd (alloc_apply self staged)))
           | _ \<Rightarrow>
               (case version_advance (al_next_version self) 1 of
                  Inl e \<Rightarrow> (Inl e, self)
                | Inr nxt \<Rightarrow> (Inr (), self\<lparr>al_next_version := nxt\<rparr>)))"

section \<open>Admission (admission.rs)\<close>

definition next_sequence :: "int \<Rightarrow> int" where
  "next_sequence prior = (if prior = i32_max then 0 else prior + 1)"

datatype reject_reason = OutOfOrder | Duplicate | StaleEpoch

datatype decision = Admit | Replay producer_state | Reject reject_reason

definition classify :: "producer_state option \<Rightarrow> bool \<Rightarrow> int \<Rightarrow> int \<Rightarrow> nat \<Rightarrow> decision" where
  "classify current provisional sequence epoch record_count =
     (case current of
        None \<Rightarrow> if sequence = 0 then Admit else Reject OutOfOrder
      | Some state \<Rightarrow>
          if epoch < ps_epoch state then Reject StaleEpoch
          else if epoch > ps_epoch state then
            (if sequence = 0 then Admit else Reject OutOfOrder)
          else if sequence = next_sequence (ps_sequence state) then Admit
          else if \<not> provisional \<and> sequence = ps_sequence state then
            (if record_count = ps_record_count state then Replay state else Reject Duplicate)
          else Reject OutOfOrder)"

record admission =
  ad_admitted :: "(nat \<times> committed_span) list"
  ad_replayed :: "(nat \<times> pkey \<times> assignment) list"
  ad_rejected :: "(nat \<times> pkey \<times> reject_reason) list"

definition admission_default :: admission where
  "admission_default = \<lparr>ad_admitted = [], ad_replayed = [], ad_rejected = []\<rparr>"

type_synonym running_producers = "producer_key \<Rightarrow> producer_state option"

definition record_decision ::
  "admission \<Rightarrow> running_producers \<Rightarrow> producer_key \<Rightarrow> nat \<times> committed_span \<Rightarrow> decision
     \<Rightarrow> admission \<times> running_producers" where
  "record_decision adm running key ispan dec =
     (case ispan of (index, span) \<Rightarrow>
        case dec of
          Admit \<Rightarrow>
            (adm\<lparr>ad_admitted := ad_admitted adm @ [(index, span)]\<rparr>,
             (case cs_producer span of
                Some identity \<Rightarrow>
                  running(key \<mapsto> provisional_state (pid_epoch identity) (pid_sequence identity)
                                   (cs_count span))
              | None \<Rightarrow> running))
        | Replay state \<Rightarrow>
            (adm\<lparr>ad_replayed := ad_replayed adm @
                   [(index, cs_key span,
                     \<lparr>as_topic = cs_topic span, as_partition = cs_partition span,
                      as_base_offset = ps_base_offset state, as_record_count = ps_record_count state\<rparr>)]\<rparr>,
             running)
        | Reject reason \<Rightarrow>
            (adm\<lparr>ad_rejected := ad_rejected adm @ [(index, cs_key span, reason)]\<rparr>, running))"

definition admit_span ::
  "allocator \<Rightarrow> admission \<times> running_producers \<Rightarrow> nat \<times> committed_span
     \<Rightarrow> admission \<times> running_producers" where
  "admit_span self acc ispan =
     (case acc of (adm, running) \<Rightarrow>
        case cs_producer (snd ispan) of
          None \<Rightarrow> (adm\<lparr>ad_admitted := ad_admitted adm @ [ispan]\<rparr>, running)
        | Some identity \<Rightarrow>
            let key = (pid_id identity, cs_key (snd ispan));
                current = (case running key of
                             Some state \<Rightarrow> (Some state, True)
                           | None \<Rightarrow> (map_of (al_producer_state self) key, False))
            in record_decision adm running key ispan
                 (classify (fst current) (snd current) (pid_sequence identity) (pid_epoch identity)
                    (cs_count (snd ispan))))"

definition admit :: "allocator \<Rightarrow> committed_span list \<Rightarrow> admission" where
  "admit self spans =
     fst (foldl (admit_span self) (admission_default, (\<lambda>_. None)) (enumerate 0 spans))"

section \<open>Acks (commit.rs)\<close>

definition UNASSIGNED_OFFSET :: int where
  "UNASSIGNED_OFFSET = -1"

datatype span_outcome = Assigned assignment | Rejected reject_reason

record commit_ack =
  ack_version :: commit_version
  ack_epoch :: nat
  ack_assignments :: "assignment list"
  ack_outcomes :: "span_outcome list"

definition ack_base_offset :: "commit_ack \<Rightarrow> pkey \<Rightarrow> int" where
  "ack_base_offset self key =
     (case find (\<lambda>a. as_partition a = snd key \<and> as_topic a = fst key) (ack_assignments self) of
        Some a \<Rightarrow> as_base_offset a
      | None \<Rightarrow> UNASSIGNED_OFFSET)"

end
