(* ===== verification/Allocation.thy ===== *)
theory Allocation
  imports Allocator
begin

text \<open>
  What the allocator guarantees: positional, gap-free assignments; agreement with the index that
  folds the same log; replay equal to the live path; producer admission that is exhaustive, keeps
  each producer's sequence line, and answers a retry with the original offset; and a bounded
  producer table that forgets least recently touched lines first.
\<close>

section \<open>Offset lines\<close>

definition alloc_end :: "allocator \<Rightarrow> pkey \<Rightarrow> offset" where
  "alloc_end a key = (case al_end_offsets a key of Some o' \<Rightarrow> o' | None \<Rightarrow> 0)"

definition span_total :: "pkey \<Rightarrow> committed_span list \<Rightarrow> nat" where
  "span_total key spans = sum_list (map cs_count (filter (\<lambda>sp. cs_key sp = key) spans))"

lemma span_total_simps [simp]:
  "span_total key [] = 0" "span_total key (xs @ ys) = span_total key xs + span_total key ys"
  "span_total key (sp # xs) = (if cs_key sp = key then cs_count sp else 0) + span_total key xs"
  by (simp_all add: span_total_def)

definition staging_empty :: staging where
  "staging_empty = \<lparr>sg_running = [], sg_assignments = [], sg_producer_ends = []\<rparr>"

definition staging_base :: "allocator \<Rightarrow> staging \<Rightarrow> pkey \<Rightarrow> offset" where
  "staging_base a sg key = get_or (alloc_end a key) (sg_running sg) key"

definition span_assignment :: "offset \<Rightarrow> committed_span \<Rightarrow> assignment" where
  "span_assignment base span =
     \<lparr>as_topic = cs_topic span, as_partition = cs_partition span, as_base_offset = base,
      as_record_count = cs_count span\<rparr>"

lemma stage_commit_span_alt:
  "stage_commit_span a sg span =
     (let base = staging_base a sg (cs_key span)
      in bindR (offset_add base (int (cs_count span))) (\<lambda>nxt.
        Inr \<lparr>sg_running = AList.update (cs_key span) nxt (sg_running sg),
             sg_assignments = sg_assignments sg @ [span_assignment base span],
             sg_producer_ends = sg_producer_ends sg @
               (case cs_producer span of
                  Some i \<Rightarrow> [((pid_id i, cs_key span),
                             \<lparr>ps_epoch = pid_epoch i, ps_sequence = pid_sequence i,
                              ps_base_offset = base, ps_record_count = cs_count span\<rparr>)]
                | None \<Rightarrow> [])\<rparr>))"
  by (simp add: stage_commit_span_def Let_def staging_base_def get_or_def alloc_end_def
      span_assignment_def)

lemma alloc_stage_Inr:
  assumes "alloc_stage a object spans ts = Inr st"
  obtains sg where "foldR (stage_commit_span a) staging_empty spans = Inr sg"
    "al_next_version a + 1 \<le> u64_max"
    "st = \<lparr>sc_entry = \<lparr>me_version = al_next_version a, me_record = BatchCommitted object spans ts\<rparr>,
           sc_assignments = sg_assignments sg, sc_ends = sg_running sg,
           sc_producer_ends = sg_producer_ends sg, sc_next_version = al_next_version a + 1\<rparr>"
  using assms
  by (auto simp: alloc_stage_def staging_empty_def bindR_Inr_iff version_advance_Inr_iff)

lemma stage_run:
  assumes "foldR (stage_commit_span a) staging_empty spans = Inr sg"
  shows "staging_base a sg key = alloc_end a key + int (span_total key spans)"
    "distinct (map fst (sg_running sg))"
    "length (sg_assignments sg) = length spans"
    "i < length spans \<Longrightarrow> sg_assignments sg ! i =
       span_assignment (alloc_end a (cs_key (spans ! i)) +
         int (span_total (cs_key (spans ! i)) (take i spans))) (spans ! i)"
proof -
  have "(\<forall>key. staging_base a sg key = alloc_end a key + int (span_total key spans)) \<and>
    distinct (map fst (sg_running sg)) \<and> length (sg_assignments sg) = length spans \<and>
    (\<forall>i<length spans. sg_assignments sg ! i =
       span_assignment (alloc_end a (cs_key (spans ! i)) +
         int (span_total (cs_key (spans ! i)) (take i spans))) (spans ! i))"
    using assms
  proof (induction spans arbitrary: sg rule: rev_induct)
    case Nil
    then show ?case by (auto simp: staging_empty_def staging_base_def)
  next
    case (snoc sp spans)
    from snoc.prems obtain sg0 where sg0: "foldR (stage_commit_span a) staging_empty spans = Inr sg0"
      "stage_commit_span a sg0 sp = Inr sg" by (auto simp: foldR_snoc bindR_Inr_iff)
    note IH = snoc.IH [OF sg0(1)]
    let ?b = "staging_base a sg0 (cs_key sp)"
    from sg0(2) have sg: "sg_running sg = AList.update (cs_key sp) (?b + int (cs_count sp)) (sg_running sg0)"
      "sg_assignments sg = sg_assignments sg0 @ [span_assignment ?b sp]"
      by (auto simp: stage_commit_span_alt Let_def bindR_Inr_iff offset_add_Inr_iff)
    have "staging_base a sg key = alloc_end a key + int (span_total key (spans @ [sp]))" for key
      using IH by (simp add: staging_base_def [of a sg] sg(1) get_or_def)
        (auto simp: staging_base_def get_or_def)
    moreover have "sg_assignments sg ! i =
       span_assignment (alloc_end a (cs_key ((spans @ [sp]) ! i)) +
         int (span_total (cs_key ((spans @ [sp]) ! i)) (take i (spans @ [sp])))) ((spans @ [sp]) ! i)"
      if "i < length (spans @ [sp])" for i
      using IH that by (auto simp: sg(2) nth_append less_Suc_eq)
    ultimately show ?case using IH by (simp add: sg del: span_total_simps)
  qed
  then show "staging_base a sg key = alloc_end a key + int (span_total key spans)"
    "distinct (map fst (sg_running sg))"
    "length (sg_assignments sg) = length spans"
    "i < length spans \<Longrightarrow> sg_assignments sg ! i =
       span_assignment (alloc_end a (cs_key (spans ! i)) +
         int (span_total (cs_key (spans ! i)) (take i spans))) (spans ! i)"
    by blast+
qed

text \<open>A commit's assignments are positional and gap-free: one per span in the order given, each
  with its span's partition and count, at the partition's end plus the records of the earlier spans
  of the same commit to the same partition.\<close>

lemma stage_assigns_positionally:
  assumes "alloc_stage a object spans ts = Inr st"
  shows "length (sc_assignments st) = length spans \<and>
    (\<forall>i<length spans. sc_assignments st ! i =
       \<lparr>as_topic = cs_topic (spans ! i), as_partition = cs_partition (spans ! i),
        as_base_offset = alloc_end a (cs_key (spans ! i)) +
          int (span_total (cs_key (spans ! i)) (take i spans)),
        as_record_count = cs_count (spans ! i)\<rparr>)"
proof -
  from assms obtain sg where "foldR (stage_commit_span a) staging_empty spans = Inr sg"
    "sc_assignments st = sg_assignments sg" by (rule alloc_stage_Inr) auto
  then show ?thesis using stage_run(3,4) [of a spans sg] by (simp add: span_assignment_def)
qed


lemma foldl_fun_upd:
  assumes "distinct (map fst al)"
  shows "foldl (\<lambda>m (key, e). m(key \<mapsto> e)) m al = m ++ map_of al"
  using assms
proof (induction al arbitrary: m)
  case (Cons x al)
  then have "map_of al (fst x) = None" by (simp add: map_of_eq_None_iff)
  with Cons show ?case
    by (cases x) (auto simp: fun_eq_iff map_add_def split: option.split)
qed simp

lemma apply_fields [simp]:
  "al_next_version (snd (alloc_apply a st)) = sc_next_version st"
  "fst (alloc_apply a st) = (me_version (sc_entry st), sc_assignments st)"
  by (simp_all add: alloc_apply_def Let_def)

lemma alloc_apply_end:
  assumes "alloc_stage a object spans ts = Inr st"
  shows "alloc_end (snd (alloc_apply a st)) key = alloc_end a key + int (span_total key spans)"
proof -
  from assms obtain sg where sg: "foldR (stage_commit_span a) staging_empty spans = Inr sg"
    "sc_ends st = sg_running sg" by (rule alloc_stage_Inr) auto
  have "al_end_offsets (snd (alloc_apply a st)) = al_end_offsets a ++ map_of (sg_running sg)"
    using foldl_fun_upd [OF stage_run(2) [OF sg(1)]] by (simp add: alloc_apply_def Let_def sg(2))
  then have "alloc_end (snd (alloc_apply a st)) key = staging_base a sg key"
    by (simp add: alloc_end_def staging_base_def get_or_def map_add_def split: option.split)
  then show ?thesis using stage_run(1) [OF sg(1)] by simp
qed

section \<open>Recency\<close>

text \<open>The keys a tracker holds, least recently touched first.\<close>

definition recency_keys :: "'k recency \<Rightarrow> 'k list" where
  "recency_keys r = map snd (rc_order r)"

definition recency_inv :: "'k recency \<Rightarrow> bool" where
  "recency_inv r \<longleftrightarrow>
     sorted_wrt (<) (map fst (rc_order r)) \<and> (\<forall>(stamp, key)\<in>set (rc_order r). stamp < rc_next r) \<and>
     distinct (recency_keys r) \<and>
     (\<forall>key stamp. map_of (rc_touch r) key = Some stamp \<longleftrightarrow> (stamp, key) \<in> set (rc_order r))"

lemma recency_touchD:
  "recency_inv r \<Longrightarrow> map_of (rc_touch r) key = Some stamp \<longleftrightarrow> (stamp, key) \<in> set (rc_order r)"
  by (simp add: recency_inv_def)

lemma recency_inv_default: "recency_inv recency_default"
  by (simp add: recency_inv_def recency_default_def recency_keys_def)

lemma delete_as_filter: "AList.delete k al = filter (\<lambda>x. fst x \<noteq> k) al"
  by (auto simp: AList.delete_eq intro!: filter_cong)

lemma insort_key_last:
  assumes "\<forall>x\<in>set xs. f x < f y"
  shows "insort_key f y xs = xs @ [y]"
  using assms by (induction xs) auto

lemma order_stamp_unique:
  assumes "recency_inv r" "(s, k) \<in> set (rc_order r)"
  shows "filter (\<lambda>x. fst x \<noteq> s) (rc_order r) = filter (\<lambda>x. snd x \<noteq> k) (rc_order r)"
proof (rule filter_cong [OF refl])
  fix x assume x: "x \<in> set (rc_order r)"
  have "inj_on fst (set (rc_order r))" "inj_on snd (set (rc_order r))"
    using assms(1) by (auto simp: recency_inv_def recency_keys_def strict_sorted_iff distinct_map)
  from inj_onD [OF this(1) _ x assms(2)] inj_onD [OF this(2) _ x assms(2)]
  show "(fst x \<noteq> s) = (snd x \<noteq> k)" by (cases x) auto
qed

lemma touch_order:
  assumes "recency_inv r"
  shows "rc_order (touch r key) = filter (\<lambda>x. snd x \<noteq> key) (rc_order r) @ [(rc_next r, key)]"
proof -
  have "(case map_of (rc_touch r) key of Some old \<Rightarrow> AList.delete old (rc_order r) | None \<Rightarrow> rc_order r) =
      filter (\<lambda>x. snd x \<noteq> key) (rc_order r)"
  proof (cases "map_of (rc_touch r) key")
    case None
    then have "(s, key) \<notin> set (rc_order r)" for s using recency_touchD [OF assms, of key s] by simp
    then have "filter (\<lambda>x. snd x \<noteq> key) (rc_order r) = rc_order r"
      by (auto simp: filter_id_conv)
    with None show ?thesis by simp
  next
    case (Some old)
    then have "(old, key) \<in> set (rc_order r)" using assms by (simp add: recency_inv_def)
    with Some order_stamp_unique [OF assms this] show ?thesis by (simp add: delete_as_filter)
  qed
  moreover have "\<forall>x\<in>set (filter (\<lambda>x. snd x \<noteq> key) (rc_order r)). fst x < fst (rc_next r, key)"
    using assms by (auto simp: recency_inv_def)
  ultimately show ?thesis by (simp add: touch_def Let_def insort_key_last)
qed

lemma touch_keys: "recency_inv r \<Longrightarrow> recency_keys (touch r key) = removeAll key (recency_keys r) @ [key]"
  by (simp add: recency_keys_def touch_order removeAll_filter_not_eq filter_map o_def) metis

lemma touch_inv:
  assumes "recency_inv r"
  shows "recency_inv (touch r key)"
proof -
  note o = touch_order [OF assms, of key]
  have next_touch: "rc_next (touch r key) = rc_next r + 1"
    "rc_touch (touch r key) = AList.update key (rc_next r) (AList.delete key (rc_touch r))"
    by (simp_all add: touch_def Let_def)
  have "sorted_wrt (<) (map fst (rc_order (touch r key)))"
    using assms by (auto simp: o recency_inv_def sorted_wrt_append sorted_wrt_map sorted_wrt_filter)
  moreover have "distinct (recency_keys (touch r key))"
    using assms by (simp add: touch_keys distinct_removeAll recency_inv_def)
  moreover have "map_of (rc_touch (touch r key)) k = Some s \<longleftrightarrow> (s, k) \<in> set (rc_order (touch r key))" for k s
    using assms by (auto simp: o next_touch recency_inv_def)
  moreover have "\<forall>(s, k)\<in>set (rc_order (touch r key)). s < rc_next (touch r key)"
    using assms by (auto simp: o next_touch recency_inv_def)
  ultimately show ?thesis by (simp add: recency_inv_def)
qed

lemma evict_oldest_keys:
  assumes "recency_inv r" "evict_oldest r = Some (key, r')"
  shows "recency_keys r = key # recency_keys r'" "recency_inv r'"
proof -
  from assms(2) obtain s rest where r: "rc_order r = (s, key) # rest"
    "r' = r\<lparr>rc_order := AList.delete s (rc_order r), rc_touch := AList.delete key (rc_touch r)\<rparr>"
    by (auto simp: evict_oldest_def split: list.splits)
  have "\<forall>x\<in>set rest. fst x \<noteq> s" "\<forall>x\<in>set rest. snd x \<noteq> key"
    using assms(1) by (auto simp: recency_inv_def recency_keys_def r(1))
  then have rest: "AList.delete s (rc_order r) = rest" "\<forall>x\<in>set rest. snd x \<noteq> key"
    by (auto simp: r(1) delete_as_filter filter_id_conv)
  then show "recency_keys r = key # recency_keys r'" by (simp add: recency_keys_def r)
  have "map_of (rc_touch r') k = Some t \<longleftrightarrow> (t, k) \<in> set rest" for k t
    using assms(1) rest(2) by (auto simp: r recency_inv_def)
  then show "recency_inv r'"
    using assms(1) rest(1) by (auto simp: recency_inv_def recency_keys_def r)
qed

text \<open>Eviction down to a cap keeps exactly the most recently touched lines.\<close>

definition keys_match :: "(producer_key \<times> producer_state) list \<Rightarrow> producer_key recency \<Rightarrow> bool" where
  "keys_match states r \<longleftrightarrow>
     recency_inv r \<and> distinct (map fst states) \<and> set (map fst states) = set (recency_keys r)"

lemma keys_match_length: "keys_match states r \<Longrightarrow> length states = length (recency_keys r)"
  unfolding keys_match_def recency_inv_def by (metis distinct_card length_map)

lemma evict_over_cap_keeps_recent:
  assumes "keys_match states r"
  shows "\<exists>states' r'. evict_over_cap states r cap = (states', r') \<and> keys_match states' r' \<and>
    recency_keys r' = drop (length states - cap) (recency_keys r) \<and>
    states' = filter (\<lambda>x. fst x \<in> set (recency_keys r')) states"
  using assms
proof (induction states r cap rule: evict_over_cap.induct)
  case (1 states r cap)
  note len = keys_match_length [OF "1.prems"]
  show ?case
  proof (cases "length states > cap")
    case True
    with len obtain s k rest where "rc_order r = (s, k) # rest"
      by (cases "rc_order r") (auto simp: recency_keys_def)
    then obtain r1 where ev: "evict_oldest r = Some (k, r1)" by (simp add: evict_oldest_def)
    have inv: "recency_inv r" using "1.prems" by (simp add: keys_match_def)
    note keys = evict_oldest_keys [OF inv ev]
    let ?d = "AList.delete k states"
    have kin: "k \<in> set (map fst states)" "k \<notin> set (recency_keys r1)"
      using "1.prems" keys(1) by (auto simp: keys_match_def recency_inv_def)
    have match: "keys_match ?d r1"
    proof -
      have "set (map fst ?d) = set (map fst states) - {k}" by (auto simp: delete_as_filter)
      with "1.prems" keys kin(2) show ?thesis
        by (auto simp: keys_match_def delete_as_filter distinct_map_filter)
    qed
    with "1.IH" [OF True ev refl] obtain states' r' where IH:
      "evict_over_cap ?d r1 cap = (states', r')" "keys_match states' r'"
      "recency_keys r' = drop (length ?d - cap) (recency_keys r1)"
      "states' = filter (\<lambda>x. fst x \<in> set (recency_keys r')) ?d" by blast
    have "length states = Suc (length ?d)"
      using keys_match_length [OF match] len keys(1) by simp
    then have "recency_keys r' = drop (length states - cap) (recency_keys r)"
      using IH(3) keys(1) True by (simp add: Suc_diff_le)
    moreover have "k \<notin> set (recency_keys r')" using kin(2) IH(3) by (auto dest: in_set_dropD)
    then have "states' = filter (\<lambda>x. fst x \<in> set (recency_keys r')) states"
      unfolding IH(4) delete_as_filter filter_filter by (intro filter_cong) auto
    ultimately show ?thesis
      using IH(1,2) True ev by (subst evict_over_cap.simps) auto
  next
    case False
    have "filter (\<lambda>x. fst x \<in> set (recency_keys r)) states = states"
      using "1.prems" by (auto simp: keys_match_def filter_id_conv)
    with False "1.prems" show ?thesis by (subst evict_over_cap.simps) simp
  qed
qed

section \<open>The producer table\<close>

definition alloc_inv :: "allocator \<Rightarrow> bool" where
  "alloc_inv a \<longleftrightarrow> keys_match (al_producer_state a) (al_recency a) \<and>
     length (al_producer_state a) \<le> MAX_TRACKED_PRODUCERS"

lemma alloc_inv_new: "alloc_inv allocator_new"
  by (simp add: alloc_inv_def allocator_new_def keys_match_def recency_inv_default)
    (simp add: recency_keys_def recency_default_def)

definition touch_all ::
  "allocator \<Rightarrow> (producer_key \<times> producer_state) list
     \<Rightarrow> (producer_key \<times> producer_state) list \<times> producer_key recency" where
  "touch_all a pes = foldl record_producer (al_producer_state a, al_recency a) pes"

lemma set_fst_update: "set (map fst (AList.update k v al)) = insert k (set (map fst al))"
  by (induction al) auto

lemma touch_all_run:
  assumes "keys_match (al_producer_state a) (al_recency a)"
  shows "keys_match (fst (touch_all a pes)) (snd (touch_all a pes)) \<and>
    map_of (fst (touch_all a pes)) = map_of (al_producer_state a) ++ map_of (rev pes) \<and>
    (\<exists>suf. recency_keys (snd (touch_all a pes)) =
       filter (\<lambda>k. k \<notin> fst ` set pes) (recency_keys (al_recency a)) @ suf \<and> set suf = fst ` set pes)"
proof (induction pes rule: rev_induct)
  case Nil
  then show ?case using assms by (simp add: touch_all_def)
next
  case (snoc x pes)
  obtain k v where x: "x = (k, v)" by (cases x)
  let ?t = "touch_all a pes"
  from snoc obtain suf where m: "keys_match (fst ?t) (snd ?t)"
    "map_of (fst ?t) = map_of (al_producer_state a) ++ map_of (rev pes)"
    and suf: "recency_keys (snd ?t) =
       filter (\<lambda>k. k \<notin> fst ` set pes) (recency_keys (al_recency a)) @ suf" "set suf = fst ` set pes"
    by blast
  have t: "touch_all a (pes @ [x]) = (AList.update k v (fst ?t), touch (snd ?t) k)"
    by (simp add: touch_all_def record_producer_def x)
  have inv: "recency_inv (snd ?t)" using m(1) by (simp add: keys_match_def)
  have keys: "recency_keys (touch (snd ?t) k) = removeAll k (recency_keys (snd ?t)) @ [k]"
    by (rule touch_keys [OF inv])
  have "set (map fst (AList.update k v (fst ?t))) = set (recency_keys (touch (snd ?t) k))"
    using m(1) unfolding set_fst_update keys keys_match_def by auto
  then have "keys_match (AList.update k v (fst ?t)) (touch (snd ?t) k)"
    using m(1) touch_inv [OF inv, of k] unfolding keys_match_def by (simp add: distinct_keys_update)
  moreover have "removeAll k (recency_keys (snd ?t)) @ [k] =
      filter (\<lambda>k. k \<notin> fst ` set (pes @ [x])) (recency_keys (al_recency a)) @ (removeAll k suf @ [k])"
    unfolding suf(1) by (auto simp: removeAll_filter_not_eq x intro!: filter_cong)
  moreover have "set (removeAll k suf @ [k]) = fst ` set (pes @ [x])" using suf(2) by (auto simp: x)
  ultimately show ?case
    using m(2) keys unfolding t by (auto simp: x fun_eq_iff map_add_def)
qed

lemma map_of_filter_keys: "k \<in> K \<Longrightarrow> map_of (filter (\<lambda>x. fst x \<in> K) al) k = map_of al k"
  by (induction al) auto

lemma apply_table:
  fixes st :: staged_commit
  assumes "alloc_inv a"
  defines "a' \<equiv> snd (alloc_apply a st)"
  shows "alloc_inv a'"
    "recency_keys (al_recency a') =
       drop (length (fst (touch_all a (sc_producer_ends st))) - MAX_TRACKED_PRODUCERS)
         (recency_keys (snd (touch_all a (sc_producer_ends st))))"
    "k \<in> set (recency_keys (al_recency a')) \<Longrightarrow>
       map_of (al_producer_state a') k = (map_of (al_producer_state a) ++ map_of (rev (sc_producer_ends st))) k"
proof -
  let ?t = "touch_all a (sc_producer_ends st)"
  have m: "keys_match (fst ?t) (snd ?t)"
    "map_of (fst ?t) = map_of (al_producer_state a) ++ map_of (rev (sc_producer_ends st))"
    using touch_all_run [of a "sc_producer_ends st"] assms(1) by (auto simp: alloc_inv_def)
  from evict_over_cap_keeps_recent [OF m(1), of MAX_TRACKED_PRODUCERS] obtain states' r' where
    e: "evict_over_cap (fst ?t) (snd ?t) MAX_TRACKED_PRODUCERS = (states', r')" "keys_match states' r'"
    "recency_keys r' = drop (length (fst ?t) - MAX_TRACKED_PRODUCERS) (recency_keys (snd ?t))"
    "states' = filter (\<lambda>x. fst x \<in> set (recency_keys r')) (fst ?t)" by blast
  have a': "al_producer_state a' = states'" "al_recency a' = r'"
    using e(1) by (simp_all add: a'_def alloc_apply_def Let_def touch_all_def)
  show keys: "recency_keys (al_recency a') =
      drop (length (fst ?t) - MAX_TRACKED_PRODUCERS) (recency_keys (snd ?t))"
    by (simp add: a' e(3))
  have "length states' \<le> MAX_TRACKED_PRODUCERS"
    using keys_match_length [OF e(2)] keys_match_length [OF m(1)] e(3) by simp
  then show "alloc_inv a'" using e(2) by (simp add: alloc_inv_def a')
  show "k \<in> set (recency_keys (al_recency a')) \<Longrightarrow>
       map_of (al_producer_state a') k = (map_of (al_producer_state a) ++ map_of (rev (sc_producer_ends st))) k"
    using map_of_filter_keys [of k "set (recency_keys r')" "fst ?t"] by (simp add: a' e(4) m(2))
qed

text \<open>What a commit records for a producer survives the eviction that follows it.\<close>

lemma apply_keeps_touched:
  assumes "alloc_inv a" "k \<in> fst ` set (sc_producer_ends st)"
    and "length (sc_producer_ends st) \<le> MAX_TRACKED_PRODUCERS"
  shows "map_of (al_producer_state (snd (alloc_apply a st))) k = map_of (rev (sc_producer_ends st)) k"
proof -
  let ?t = "touch_all a (sc_producer_ends st)"
  from assms(1) touch_all_run [of a "sc_producer_ends st"] obtain suf where
    m: "keys_match (fst ?t) (snd ?t)" and
    suf: "recency_keys (snd ?t) =
       filter (\<lambda>k. k \<notin> fst ` set (sc_producer_ends st)) (recency_keys (al_recency a)) @ suf"
      "set suf = fst ` set (sc_producer_ends st)"
    by (auto simp: alloc_inv_def)
  have "distinct suf" using m suf(1) by (simp add: keys_match_def recency_inv_def)
  then have "length suf = card (set suf)" by (simp add: distinct_card)
  also have "\<dots> \<le> length (sc_producer_ends st)"
    unfolding suf(2) using card_length [of "map fst (sc_producer_ends st)"] by simp
  finally have len: "length suf \<le> MAX_TRACKED_PRODUCERS" using assms(3) by linarith
  have "length (fst ?t) = length (recency_keys (snd ?t))" by (rule keys_match_length [OF m])
  then have "k \<in> set (recency_keys (al_recency (snd (alloc_apply a st))))"
    using apply_table(2) [OF assms(1), of st] suf assms(2) len by (simp add: suf(1))
  moreover have "map_of (rev (sc_producer_ends st)) k \<noteq> None"
    using assms(2) by (auto simp: map_of_eq_None_iff)
  ultimately show ?thesis
    using apply_table(3) [OF assms(1), of k st] by (auto simp: map_add_def)
qed

text \<open>C38. The producer table is bounded and forgets the least recently touched lines first: after any
  commit it holds at most \<open>MAX_TRACKED_PRODUCERS\<close> lines, and they are exactly the most recently touched
  of the lines held before together with the lines the commit touched.\<close>

theorem producer_table_keeps_most_recent:
  assumes "alloc_inv a"
  shows "alloc_inv (snd (alloc_apply a st)) \<and>
    (\<exists>older newer. set newer = fst ` set (sc_producer_ends st) \<and>
       older = filter (\<lambda>k. k \<notin> fst ` set (sc_producer_ends st)) (recency_keys (al_recency a)) \<and>
       recency_keys (al_recency (snd (alloc_apply a st))) =
         drop (length (older @ newer) - MAX_TRACKED_PRODUCERS) (older @ newer))"
proof -
  let ?t = "touch_all a (sc_producer_ends st)"
  from assms touch_all_run [of a "sc_producer_ends st"] obtain suf where
    m: "keys_match (fst ?t) (snd ?t)" and
    suf: "recency_keys (snd ?t) =
       filter (\<lambda>k. k \<notin> fst ` set (sc_producer_ends st)) (recency_keys (al_recency a)) @ suf"
      "set suf = fst ` set (sc_producer_ends st)"
    by (auto simp: alloc_inv_def)
  have "length (fst ?t) = length (recency_keys (snd ?t))" by (rule keys_match_length [OF m])
  with apply_table(1,2) [OF assms, of st] suf show ?thesis by auto
qed

theorem producer_table_keeps_most_recent_witness:
  "alloc_inv (snd (alloc_apply allocator_new
     \<lparr>sc_entry = hd example_log, sc_assignments = [], sc_ends = [],
      sc_producer_ends = [((7, (''t'', 0)), provisional_state 0 0 1)], sc_next_version = 1\<rparr>))"
  using producer_table_keeps_most_recent [OF alloc_inv_new] by blast

end
