(* ===== verification/Admission.thy ===== *)
theory Admission
  imports Allocation
begin

text \<open>
  Producer-sequence admission (\<open>allocator/admission.rs\<close>) against a specification that follows one
  producer line at a time: every span of a bundle gets exactly one decision, a span is admitted
  exactly when it continues its line, a retry of the last commit of a line is answered with the
  offset the original got, and everything else is refused.
\<close>

section \<open>The bundle fold\<close>

definition admit_fold :: "allocator \<Rightarrow> committed_span list \<Rightarrow> admission \<times> running_producers" where
  "admit_fold a spans = foldl (admit_span a) (admission_default, (\<lambda>_. None)) (enumerate 0 spans)"

lemma enumerate_snoc: "enumerate n (xs @ [x]) = enumerate n xs @ [(n + length xs, x)]"
  by (simp add: enumerate_append_eq)

lemma admit_fold_Nil [simp]: "admit_fold a [] = (admission_default, (\<lambda>_. None))"
  by (simp add: admit_fold_def)

lemma admit_eq: "admit a spans = fst (admit_fold a spans)"
  by (simp add: admit_def admit_fold_def)

definition producer_key_of :: "committed_span \<Rightarrow> producer_identity \<Rightarrow> producer_key" where
  "producer_key_of span identity = (pid_id identity, cs_key span)"

definition span_decision :: "allocator \<Rightarrow> running_producers \<Rightarrow> committed_span \<Rightarrow> decision" where
  "span_decision a running span =
     (case cs_producer span of
        None \<Rightarrow> Admit
      | Some i \<Rightarrow>
          (case running (producer_key_of span i) of
             Some state \<Rightarrow> classify (Some state) True (pid_sequence i) (pid_epoch i) (cs_count span)
           | None \<Rightarrow> classify (map_of (al_producer_state a) (producer_key_of span i)) False
                       (pid_sequence i) (pid_epoch i) (cs_count span)))"

definition add_outcome :: "admission \<Rightarrow> nat \<Rightarrow> committed_span \<Rightarrow> decision \<Rightarrow> admission" where
  "add_outcome adm i span dec =
     (case dec of
        Admit \<Rightarrow> adm\<lparr>ad_admitted := ad_admitted adm @ [(i, span)]\<rparr>
      | Replay state \<Rightarrow> adm\<lparr>ad_replayed := ad_replayed adm @
          [(i, cs_key span,
            \<lparr>as_topic = cs_topic span, as_partition = cs_partition span,
             as_base_offset = ps_base_offset state, as_record_count = ps_record_count state\<rparr>)]\<rparr>
      | Reject reason \<Rightarrow> adm\<lparr>ad_rejected := ad_rejected adm @ [(i, cs_key span, reason)]\<rparr>)"

definition advance_line :: "running_producers \<Rightarrow> committed_span \<Rightarrow> decision \<Rightarrow> running_producers" where
  "advance_line running span dec =
     (case cs_producer span of
        Some i \<Rightarrow> if dec = Admit
                  then running(producer_key_of span i \<mapsto>
                         provisional_state (pid_epoch i) (pid_sequence i) (cs_count span))
                  else running
      | None \<Rightarrow> running)"

lemma admit_span_alt:
  "admit_span a (adm, running) (i, span) =
     (add_outcome adm i span (span_decision a running span),
      advance_line running span (span_decision a running span))"
  by (auto simp: admit_span_def span_decision_def record_decision_def Let_def add_outcome_def
      advance_line_def producer_key_of_def split: option.splits decision.splits)

text \<open>The decision about span \<open>i\<close>, given the bundle's earlier spans.\<close>

definition decision_at :: "allocator \<Rightarrow> committed_span list \<Rightarrow> nat \<Rightarrow> decision" where
  "decision_at a spans i = span_decision a (snd (admit_fold a (take i spans))) (spans ! i)"

lemma admit_fold_snoc:
  "admit_fold a (spans @ [sp]) =
     (add_outcome (fst (admit_fold a spans)) (length spans) sp
        (span_decision a (snd (admit_fold a spans)) sp),
      advance_line (snd (admit_fold a spans)) sp (span_decision a (snd (admit_fold a spans)) sp))"
  by (cases "admit_fold a spans") (simp add: admit_fold_def enumerate_snoc admit_span_alt)

lemma decision_at_snoc [simp]:
  "i < length spans \<Longrightarrow> decision_at a (spans @ [sp]) i = decision_at a spans i"
  "decision_at a (spans @ [sp]) (length spans) = span_decision a (snd (admit_fold a spans)) sp"
  by (simp_all add: decision_at_def nth_append)

text \<open>The three buckets, read off the decisions in index order.\<close>

definition per_span ::
  "allocator \<Rightarrow> committed_span list \<Rightarrow> (nat \<Rightarrow> committed_span \<Rightarrow> decision \<Rightarrow> 'b list) \<Rightarrow> 'b list" where
  "per_span a spans g = concat (map (\<lambda>i. g i (spans ! i) (decision_at a spans i)) [0..<length spans])"

lemma per_span_simps [simp]:
  "per_span a [] g = []"
  "per_span a (spans @ [sp]) g =
     per_span a spans g @ g (length spans) sp (span_decision a (snd (admit_fold a spans)) sp)"
proof -
  have "map (\<lambda>i. g i ((spans @ [sp]) ! i) (decision_at a (spans @ [sp]) i)) [0..<length spans] =
      map (\<lambda>i. g i (spans ! i) (decision_at a spans i)) [0..<length spans]"
    by (rule map_cong [OF refl]) (simp add: nth_append)
  then show "per_span a (spans @ [sp]) g =
     per_span a spans g @ g (length spans) sp (span_decision a (snd (admit_fold a spans)) sp)"
    by (simp add: per_span_def del: map_eq_conv)
qed (simp add: per_span_def)

definition replayed_assignment :: "committed_span \<Rightarrow> producer_state \<Rightarrow> assignment" where
  "replayed_assignment span state =
     \<lparr>as_topic = cs_topic span, as_partition = cs_partition span,
      as_base_offset = ps_base_offset state, as_record_count = ps_record_count state\<rparr>"

lemma admit_buckets:
  "ad_admitted (admit a spans) =
     per_span a spans (\<lambda>i span dec. if dec = Admit then [(i, span)] else [])"
  "ad_replayed (admit a spans) =
     per_span a spans (\<lambda>i span dec.
       case dec of Replay state \<Rightarrow> [(i, cs_key span, replayed_assignment span state)] | _ \<Rightarrow> [])"
  "ad_rejected (admit a spans) =
     per_span a spans (\<lambda>i span dec. case dec of Reject reason \<Rightarrow> [(i, cs_key span, reason)] | _ \<Rightarrow> [])"
  by (induction spans rule: rev_induct)
    (auto simp: admit_eq admit_fold_snoc admission_default_def add_outcome_def replayed_assignment_def
      split: decision.split)

section \<open>One line at a time\<close>

text \<open>The specification: a producer's line on a partition is its last epoch and sequence.  A batch
  continues the line with the next sequence of the same epoch, or starts it over at zero under a
  newer one; a line nobody has heard of starts at zero.\<close>

type_synonym producer_line = "(int \<times> int) option"

definition continues :: "producer_line \<Rightarrow> producer_identity \<Rightarrow> bool" where
  "continues line i \<longleftrightarrow>
     (case line of
        None \<Rightarrow> pid_sequence i = 0
      | Some (epoch, sequence) \<Rightarrow>
          pid_epoch i = epoch \<and> pid_sequence i = next_sequence sequence \<or>
          pid_epoch i > epoch \<and> pid_sequence i = 0)"

definition table_line :: "allocator \<Rightarrow> producer_key \<Rightarrow> producer_line" where
  "table_line a key = map_option (\<lambda>s. (ps_epoch s, ps_sequence s)) (map_of (al_producer_state a) key)"

definition line_step :: "producer_key \<Rightarrow> producer_line \<Rightarrow> committed_span \<Rightarrow> producer_line" where
  "line_step key line span =
     (case cs_producer span of
        Some i \<Rightarrow> if producer_key_of span i = key \<and> continues line i
                  then Some (pid_epoch i, pid_sequence i) else line
      | None \<Rightarrow> line)"

definition line_after :: "allocator \<Rightarrow> producer_key \<Rightarrow> committed_span list \<Rightarrow> producer_line" where
  "line_after a key spans = foldl (line_step key) (table_line a key) spans"

definition running_line :: "allocator \<Rightarrow> running_producers \<Rightarrow> producer_key \<Rightarrow> producer_line" where
  "running_line a running key =
     (case running key of Some s \<Rightarrow> Some (ps_epoch s, ps_sequence s) | None \<Rightarrow> table_line a key)"

lemma classify_Admit:
  "classify current prov (pid_sequence i) (pid_epoch i) n = Admit \<longleftrightarrow>
     continues (map_option (\<lambda>s. (ps_epoch s, ps_sequence s)) current) i"
  by (auto simp: classify_def continues_def split: option.split)

lemma span_decision_Admit:
  "cs_producer span = Some i \<Longrightarrow>
     span_decision a running span = Admit \<longleftrightarrow> continues (running_line a running (producer_key_of span i)) i"
  by (simp add: span_decision_def classify_Admit running_line_def table_line_def split: option.split)

lemma running_line_fold: "running_line a (snd (admit_fold a spans)) key = line_after a key spans"
proof (induction spans arbitrary: key rule: rev_induct)
  case Nil
  then show ?case by (simp add: running_line_def line_after_def)
next
  case (snoc sp spans)
  let ?r = "snd (admit_fold a spans)"
  show ?case
  proof (cases "cs_producer sp")
    case None
    with snoc show ?thesis
      by (simp add: admit_fold_snoc advance_line_def line_after_def line_step_def)
  next
    case (Some i)
    have "running_line a (advance_line ?r sp (span_decision a ?r sp)) key =
        (if producer_key_of sp i = key \<and> span_decision a ?r sp = Admit
         then Some (pid_epoch i, pid_sequence i) else running_line a ?r key)"
      using Some by (simp add: advance_line_def running_line_def provisional_state_def)
    also have "\<dots> = line_after a key (spans @ [sp])"
      using snoc Some by (auto simp: span_decision_Admit line_after_def line_step_def)
    finally show ?thesis by (simp add: admit_fold_snoc)
  qed
qed

lemma decision_at_Admit:
  "decision_at a spans i = Admit \<longleftrightarrow>
     (case cs_producer (spans ! i) of
        None \<Rightarrow> True
      | Some ident \<Rightarrow> continues (line_after a (producer_key_of (spans ! i) ident) (take i spans)) ident)"
proof (cases "cs_producer (spans ! i)")
  case None
  then show ?thesis by (simp add: decision_at_def span_decision_def)
next
  case (Some ident)
  then show ?thesis by (simp add: decision_at_def span_decision_Admit running_line_fold)
qed

text \<open>Whether an earlier span of the bundle already moved the line.\<close>

definition moved_by :: "allocator \<Rightarrow> producer_key \<Rightarrow> committed_span list \<Rightarrow> nat \<Rightarrow> bool" where
  "moved_by a key spans i \<longleftrightarrow>
     (\<exists>j<i. decision_at a spans j = Admit \<and>
        (\<exists>ident. cs_producer (spans ! j) = Some ident \<and> producer_key_of (spans ! j) ident = key))"

lemma running_moved:
  "snd (admit_fold a spans) key \<noteq> None \<longleftrightarrow> moved_by a key spans (length spans)"
proof (induction spans rule: rev_induct)
  case Nil
  then show ?case by (simp add: moved_by_def)
next
  case (snoc sp spans)
  let ?d = "span_decision a (snd (admit_fold a spans)) sp"
  have "moved_by a key (spans @ [sp]) (length (spans @ [sp])) \<longleftrightarrow>
      moved_by a key spans (length spans) \<or>
      ?d = Admit \<and> (\<exists>ident. cs_producer sp = Some ident \<and> producer_key_of sp ident = key)"
    unfolding moved_by_def length_append_singleton Ex_less_Suc by (auto simp: nth_append)
  with snoc show ?case
    by (cases "cs_producer sp") (auto simp: admit_fold_snoc advance_line_def)
qed

lemma moved_by_take: "i \<le> length spans \<Longrightarrow> moved_by a key (take i spans) i \<longleftrightarrow> moved_by a key spans i"
  unfolding moved_by_def decision_at_def by (intro ex_cong conj_cong) (auto simp: min_def)

section \<open>Every span is decided once\<close>

lemma set_per_span: "x \<in> set (per_span a spans g) \<longleftrightarrow>
    (\<exists>i<length spans. x \<in> set (g i (spans ! i) (decision_at a spans i)))"
  by (auto simp: per_span_def)

lemma indices_of_buckets:
  "mset (map fst (ad_replayed (admit a spans)) @ map fst (ad_rejected (admit a spans)) @
      map fst (ad_admitted (admit a spans))) = mset [0..<length spans]"
  unfolding admit_buckets
proof (induction spans rule: rev_induct)
  case (snoc sp spans)
  then show ?case by (cases "span_decision a (snd (admit_fold a spans)) sp") auto
qed simp

section \<open>What admission decides\<close>

text \<open>A span is admitted exactly when it continues its producer's line: it carries no identity,
  or its sequence is the next one of the line's epoch, or zero under a newer epoch or for a line
  nobody has heard of, where the line is the table's, moved by the earlier spans of the same bundle
  that were themselves admitted.\<close>

lemma admitted_iff_continues_its_line:
  "(i, span) \<in> set (ad_admitted (admit a spans)) \<longleftrightarrow>
     i < length spans \<and> span = spans ! i \<and>
     (case cs_producer span of
        None \<Rightarrow> True
      | Some ident \<Rightarrow> continues (line_after a (producer_key_of span ident) (take i spans)) ident)"
  by (auto simp: admit_buckets set_per_span decision_at_Admit split: if_splits)

lemma next_sequence_moves: "next_sequence s \<noteq> s"
  by (simp add: next_sequence_def)

lemma decision_at_cases:
  assumes "i < length spans" "cs_producer (spans ! i) = Some ident"
  defines "key \<equiv> producer_key_of (spans ! i) ident"
  shows "decision_at a spans i =
    (if continues (line_after a key (take i spans)) ident then Admit
     else case line_after a key (take i spans) of
        None \<Rightarrow> Reject OutOfOrder
      | Some (epoch, sequence) \<Rightarrow>
          if pid_epoch ident < epoch then Reject StaleEpoch
          else if \<not> moved_by a key spans i \<and> pid_epoch ident = epoch \<and> pid_sequence ident = sequence
          then (let state = the (map_of (al_producer_state a) key)
                in if cs_count (spans ! i) = ps_record_count state then Replay state else Reject Duplicate)
          else Reject OutOfOrder)"
proof -
  let ?r = "snd (admit_fold a (take i spans))"
  have moved: "?r key \<noteq> None \<longleftrightarrow> moved_by a key spans i"
    using running_moved [of a "take i spans" key] moved_by_take [of i spans a key] assms(1)
    by (simp add: min_def)
  have line: "line_after a key (take i spans) = running_line a ?r key"
    by (simp add: running_line_fold)
  show ?thesis
    using assms(2) moved unfolding line
    by (cases "?r key"; cases "map_of (al_producer_state a) key")
      (auto simp: decision_at_def span_decision_def key_def [symmetric] running_line_def table_line_def
        classify_def continues_def next_sequence_moves Let_def)
qed

text \<open>A span is answered as a replay exactly when it repeats the last batch its line took: the
  line has not moved in this bundle, and epoch, sequence and record count are the recorded ones.  The
  answer is the recorded offset, so a retry gets the offset the original got and no record is stored
  twice.\<close>

lemma replayed_iff_exact_retry:
  "(i, key, asg) \<in> set (ad_replayed (admit a spans)) \<longleftrightarrow>
     i < length spans \<and> key = cs_key (spans ! i) \<and>
     (\<exists>ident state. cs_producer (spans ! i) = Some ident \<and>
        map_of (al_producer_state a) (producer_key_of (spans ! i) ident) = Some state \<and>
        \<not> moved_by a (producer_key_of (spans ! i) ident) spans i \<and>
        pid_epoch ident = ps_epoch state \<and> pid_sequence ident = ps_sequence state \<and>
        cs_count (spans ! i) = ps_record_count state \<and>
        asg = \<lparr>as_topic = cs_topic (spans ! i), as_partition = cs_partition (spans ! i),
               as_base_offset = ps_base_offset state, as_record_count = ps_record_count state\<rparr>)"
    (is "?l \<longleftrightarrow> ?r")
proof -
  have unmoved: "line_after a k (take i spans) = table_line a k"
    if "\<not> moved_by a k spans i" "i < length spans" for k
    using that running_moved [of a "take i spans" k] moved_by_take [of i spans a k]
      running_line_fold [of a "take i spans" k]
    by (simp add: running_line_def min_def)
  have "?l \<longleftrightarrow> i < length spans \<and> key = cs_key (spans ! i) \<and>
      (\<exists>s. decision_at a spans i = Replay s \<and> asg = replayed_assignment (spans ! i) s)"
    by (cases "decision_at a spans i") (auto simp: admit_buckets set_per_span split: decision.splits)
  also have "\<dots> \<longleftrightarrow> ?r"
  proof (cases "cs_producer (spans ! i)")
    case None
    then show ?thesis by (auto simp: decision_at_def span_decision_def)
  next
    case (Some ident)
    show ?thesis
    proof (cases "i < length spans")
      case True
      note d = decision_at_cases [OF True Some, of a] unmoved [OF _ True, of "producer_key_of (spans ! i) ident"]
      show ?thesis
        using Some True d
        by (cases "map_of (al_producer_state a) (producer_key_of (spans ! i) ident)";
            cases "moved_by a (producer_key_of (spans ! i) ident) spans i")
          (auto simp: table_line_def continues_def next_sequence_moves replayed_assignment_def Let_def
            split: if_splits option.splits)
    qed simp
  qed
  finally show ?thesis .
qed

section \<open>Retries of a commit\<close>

definition producer_record :: "allocator \<Rightarrow> committed_span list \<Rightarrow> nat \<Rightarrow> (producer_key \<times> producer_state) list" where
  "producer_record a spans i =
     (case cs_producer (spans ! i) of
        None \<Rightarrow> []
      | Some ident \<Rightarrow>
          [(producer_key_of (spans ! i) ident,
            \<lparr>ps_epoch = pid_epoch ident, ps_sequence = pid_sequence ident,
             ps_base_offset = alloc_end a (cs_key (spans ! i)) +
               int (span_total (cs_key (spans ! i)) (take i spans)),
             ps_record_count = cs_count (spans ! i)\<rparr>)])"

lemma producer_ends_run:
  assumes "foldR (stage_commit_span a) staging_empty spans = Inr sg"
  shows "sg_producer_ends sg = concat (map (producer_record a spans) [0..<length spans])"
  using assms
proof (induction spans arbitrary: sg rule: rev_induct)
  case Nil
  then show ?case by (auto simp: staging_empty_def)
next
  case (snoc sp spans)
  from snoc.prems obtain sg0 where sg0: "foldR (stage_commit_span a) staging_empty spans = Inr sg0"
    "stage_commit_span a sg0 sp = Inr sg" by (auto simp: foldR_snoc bindR_Inr_iff)
  have "map (producer_record a (spans @ [sp])) [0..<length spans] =
      map (producer_record a spans) [0..<length spans]"
    by (rule map_cong [OF refl]) (simp add: producer_record_def nth_append split: option.split)
  moreover have "sg_producer_ends sg = sg_producer_ends sg0 @ producer_record a (spans @ [sp]) (length spans)"
    using sg0(2) stage_run(1) [OF sg0(1), of "cs_key sp"]
    by (auto simp: stage_commit_span_alt Let_def bindR_Inr_iff producer_record_def producer_key_of_def
        split: option.splits)
  ultimately show ?case using snoc.IH [OF sg0(1)] by (simp del: map_eq_conv)
qed

lemma length_concat_at_most_one:
  "(\<And>i. length (f i) \<le> (1::nat)) \<Longrightarrow> length (concat (map f xs)) \<le> length xs"
proof (induction xs)
  case (Cons x xs)
  from Cons.prems [of x] Cons.IH [OF Cons.prems] show ?case by simp
qed simp

lemma map_of_last_of:
  assumes "i < n" "f i = [(k, v)]" "\<And>j. i < j \<Longrightarrow> j < n \<Longrightarrow> k \<notin> fst ` set (f j)"
  shows "map_of (rev (concat (map f [0..<n]))) k = Some v"
proof -
  have split: "[0..<n] = [0..<i] @ i # [Suc i..<n]"
    using assms(1) upt_add_eq_append [of 0 i "n - i"] by (simp add: upt_conv_Cons)
  have "map_of (rev (concat (map f [Suc i..<n]))) k = None"
    using assms(3) by (auto simp: map_of_eq_None_iff image_iff) (metis Suc_le_lessD fst_conv)
  then show ?thesis
    unfolding split using assms(2) by (simp add: map_add_def)
qed

lemma apply_records_line:
  assumes "alloc_inv a" "alloc_stage a object spans ts = Inr st"
    and "length spans \<le> MAX_TRACKED_PRODUCERS" "i < length spans"
    and "cs_producer (spans ! i) = Some ident"
    and "\<forall>j<length spans. i < j \<longrightarrow>
      map_option (producer_key_of (spans ! j)) (cs_producer (spans ! j)) \<noteq>
      Some (producer_key_of (spans ! i) ident)"
  shows "map_of (al_producer_state (snd (alloc_apply a st))) (producer_key_of (spans ! i) ident) =
    Some \<lparr>ps_epoch = pid_epoch ident, ps_sequence = pid_sequence ident,
          ps_base_offset = as_base_offset (sc_assignments st ! i), ps_record_count = cs_count (spans ! i)\<rparr>"
proof -
  let ?key = "producer_key_of (spans ! i) ident"
  let ?rec = "hd (producer_record a spans i)"
  from assms(2) obtain sg where sg: "foldR (stage_commit_span a) staging_empty spans = Inr sg"
    "sc_producer_ends st = sg_producer_ends sg" "sc_assignments st = sg_assignments sg"
    by (rule alloc_stage_Inr) auto
  have ends: "sc_producer_ends st = concat (map (producer_record a spans) [0..<length spans])"
    using producer_ends_run [OF sg(1)] sg(2) by simp
  have rec: "producer_record a spans i = [(?key, snd ?rec)]"
    using assms(5) by (simp add: producer_record_def)
  have "?key \<notin> fst ` set (producer_record a spans j)" if "i < j" "j < length spans" for j
    using assms(6) that by (cases "cs_producer (spans ! j)") (auto simp: producer_record_def)
  from map_of_last_of [where f = "producer_record a spans", OF assms(4) rec this]
  have last: "map_of (rev (sc_producer_ends st)) ?key = Some (snd ?rec)" by (simp add: ends)
  then have "?key \<in> fst ` set (sc_producer_ends st)"
    by (metis domI dom_map_of_conv_image_fst set_rev)
  moreover have "length (producer_record a spans j) \<le> 1" for j
    by (simp add: producer_record_def split: option.split)
  then have "length (sc_producer_ends st) \<le> MAX_TRACKED_PRODUCERS"
    using length_concat_at_most_one [of "producer_record a spans" "[0..<length spans]"] assms(3)
    by (simp add: ends)
  ultimately show ?thesis
    using apply_keeps_touched [OF assms(1)] last stage_run(4) [OF sg(1) assms(4)] assms(5)
    by (simp add: producer_record_def sg(3) span_assignment_def)
qed

lemma admit_one:
  "admit a [sp] = add_outcome admission_default 0 sp (span_decision a (\<lambda>_. None) sp)"
  by (simp add: admit_eq admit_fold_def admit_span_alt)

text \<open>A retry gets the offset of the original.  Once a commit is applied, offering its last span
  of a producer line again, from the same producer with the same sequence, is answered with exactly
  the assignment the commit gave that span; nothing is admitted and nothing is rejected.\<close>

lemma retry_gets_original_offset:
  assumes "alloc_inv a" "alloc_stage a object spans ts = Inr st"
    and "length spans \<le> MAX_TRACKED_PRODUCERS" "i < length spans"
    and "cs_producer (spans ! i) = Some ident"
    and "\<forall>j<length spans. i < j \<longrightarrow>
      map_option (producer_key_of (spans ! j)) (cs_producer (spans ! j)) \<noteq>
      Some (producer_key_of (spans ! i) ident)"
  shows "admit (snd (alloc_apply a st)) [spans ! i] =
    admission_default\<lparr>ad_replayed := [(0, cs_key (spans ! i), sc_assignments st ! i)]\<rparr>"
proof -
  note held = apply_records_line [OF assms]
  from assms(2) obtain sg where sg: "foldR (stage_commit_span a) staging_empty spans = Inr sg"
    "sc_assignments st = sg_assignments sg" by (rule alloc_stage_Inr) auto
  have "sc_assignments st ! i = span_assignment (as_base_offset (sc_assignments st ! i)) (spans ! i)"
    using stage_run(4) [OF sg(1) assms(4)] sg(2) by (simp add: span_assignment_def)
  then show ?thesis
    using held assms(5)
    by (simp add: admit_one add_outcome_def span_decision_def classify_def
        next_sequence_moves [symmetric] admission_default_def span_assignment_def)
qed

definition idempotent_span :: "int \<Rightarrow> nat \<Rightarrow> committed_span" where
  "idempotent_span sequence n =
     (example_span n 100)\<lparr>cs_producer := Some \<lparr>pid_id = 7, pid_epoch = 0, pid_sequence = sequence\<rparr>\<rparr>"

lemma idempotent_stages: "is_ok (alloc_stage allocator_new ''o'' [idempotent_span 0 5] 0)"
  by (simp add: alloc_stage_def stage_commit_span_def allocator_new_def offset_add_def
      version_advance_def Let_def example_span_def idempotent_span_def)


text \<open>C39. The line counts batches, not records.  After a batch of two or more records at sequence
  \<open>q\<close>, the batch a client numbers by records, at \<open>q\<close> plus the record count, is rejected as out of
  order, although no sequence was skipped.\<close>

theorem record_numbered_batch_is_rejected:
  assumes "alloc_inv a" "alloc_stage a object [span] ts = Inr st"
    and "cs_producer span = Some ident" "2 \<le> cs_count span"
    and "0 \<le> pid_sequence ident" "pid_sequence ident + int (cs_count span) \<le> i32_max"
    and "cs_producer following =
      Some (ident\<lparr>pid_sequence := pid_sequence ident + int (cs_count span)\<rparr>)"
    and "cs_key following = cs_key span"
  shows "admit (snd (alloc_apply a st)) [following] =
    admission_default\<lparr>ad_rejected := [(0, cs_key span, OutOfOrder)]\<rparr>"
proof -
  have "map_of (al_producer_state (snd (alloc_apply a st))) (producer_key_of span ident) =
    Some \<lparr>ps_epoch = pid_epoch ident, ps_sequence = pid_sequence ident,
          ps_base_offset = as_base_offset (sc_assignments st ! 0), ps_record_count = cs_count span\<rparr>"
    using apply_records_line [OF assms(1,2), of 0] assms(3) by (simp add: MAX_TRACKED_PRODUCERS_def)
  moreover have "producer_key_of following (ident\<lparr>pid_sequence := s\<rparr>) = producer_key_of span ident" for s
    using assms(8) by (simp add: producer_key_of_def)
  moreover have "pid_sequence ident + int (cs_count span) \<noteq> next_sequence (pid_sequence ident)"
    using assms(4-6) by (simp add: next_sequence_def)
  ultimately show ?thesis
    using assms(3-8)
    by (simp add: admit_one add_outcome_def span_decision_def classify_def admission_default_def)
qed

theorem record_numbered_batch_is_rejected_witness:
  "\<exists>st. alloc_stage allocator_new ''o'' [idempotent_span 0 5] 0 = Inr st \<and>
     ad_rejected (admit (snd (alloc_apply allocator_new st)) [idempotent_span 5 5]) =
       [(0, (''t'', 0), OutOfOrder)]"
proof -
  obtain st where st: "alloc_stage allocator_new ''o'' [idempotent_span 0 5] 0 = Inr st"
    using idempotent_stages by (auto simp: is_ok_iff)
  have "admit (snd (alloc_apply allocator_new st)) [idempotent_span 5 5] =
      admission_default\<lparr>ad_rejected := [(0, cs_key (idempotent_span 0 5), OutOfOrder)]\<rparr>"
    by (rule record_numbered_batch_is_rejected
        [OF alloc_inv_new st, where ident = "\<lparr>pid_id = 7, pid_epoch = 0, pid_sequence = 0\<rparr>"])
      (simp_all add: idempotent_span_def example_span_def)
  then show ?thesis using st by (auto simp: idempotent_span_def example_span_def)
qed

end
