(* ===== verification/Allocation_Replay.thy ===== *)
theory Allocation_Replay
  imports Admission
begin

text \<open>
  The allocator and the index fold the same log.  The allocator's offset lines are the index's end
  offsets and its next version is one past the index's bookmark; what the allocator stages, the
  index folds (given spans with records); what the index folds, the allocator replays; and replaying
  an entry leaves exactly the state the live path left when it wrote the entry.
\<close>

section \<open>When spans fit\<close>

definition fits :: "(pkey \<Rightarrow> offset) \<Rightarrow> committed_span list \<Rightarrow> bool" where
  "fits ends spans \<longleftrightarrow>
     (\<forall>i<length spans.
        ends (cs_key (spans ! i)) + int (span_total (cs_key (spans ! i)) (take (Suc i) spans)) \<le> i64_max)"

lemma fits_Nil [simp]: "fits ends []"
  by (simp add: fits_def)

lemma fits_snoc [simp]:
  "fits ends (spans @ [sp]) \<longleftrightarrow>
     fits ends spans \<and> ends (cs_key sp) + int (span_total (cs_key sp) spans) + int (cs_count sp) \<le> i64_max"
  unfolding fits_def length_append_singleton All_less_Suc
  by (auto simp: nth_append simp del: take_Suc)

lemma stage_ok_iff:
  "is_ok (foldR (stage_commit_span a) staging_empty spans) \<longleftrightarrow> fits (alloc_end a) spans"
proof (induction spans rule: rev_induct)
  case (snoc sp spans)
  show ?case
  proof (cases "foldR (stage_commit_span a) staging_empty spans")
    case (Inl e)
    with snoc show ?thesis by (simp add: foldR_snoc)
  next
    case (Inr sg)
    have "is_ok (stage_commit_span a sg sp) \<longleftrightarrow>
        alloc_end a (cs_key sp) + int (span_total (cs_key sp) spans) + int (cs_count sp) \<le> i64_max"
      using stage_run(1) [OF Inr, of "cs_key sp"]
      by (simp add: stage_commit_span_alt Let_def offset_add_def)
    with snoc Inr show ?thesis by (simp add: foldR_snoc)
  qed
qed simp

lemma alloc_stage_ok_iff:
  "is_ok (alloc_stage a object spans ts) \<longleftrightarrow> fits (alloc_end a) spans \<and> al_next_version a < u64_max"
  using stage_ok_iff [of a spans]
  by (cases "foldR (stage_commit_span a) staging_empty spans")
    (auto simp: alloc_stage_def staging_empty_def version_advance_def)

abbreviation commits :: "object_key \<Rightarrow> timestamp \<Rightarrow> committed_span list \<Rightarrow> log_op list" where
  "commits object ts spans \<equiv> map (\<lambda>span. Commit object span ts) spans"

lemma committed_count_commits: "committed_count key (commits object ts spans) = span_total key spans"
  by (induction spans) (auto simp: committed_count_def)

lemma log_run_commits:
  "is_ok (log_run parts (commits object ts spans)) \<longleftrightarrow>
     (\<forall>sp\<in>set spans. cs_count sp \<noteq> 0) \<and> fits (\<lambda>key. pi_end (part_of parts key)) spans"
proof (induction spans rule: rev_induct)
  case Nil
  then show ?case by (simp add: log_run_def)
next
  case (snoc sp spans)
  show ?case
  proof (cases "log_run parts (commits object ts spans)")
    case (Inl e)
    with snoc show ?thesis by (auto simp: log_run_def foldR_snoc)
  next
    case (Inr w)
    obtain mid cs where w: "w = (mid, cs)" by (cases w)
    with Inr log_run_end [of parts "[]" "commits object ts spans" mid cs "cs_key sp"]
    have e: "pi_end (part_of mid (cs_key sp)) =
        pi_end (part_of parts (cs_key sp)) + int (span_total (cs_key sp) spans)"
      by (simp add: log_run_def committed_count_commits)
    with snoc Inr w show ?thesis
      by (auto simp: log_run_def foldR_snoc log_step_def offset_add_def)
  qed
qed

section \<open>In step\<close>

definition version_after :: "commit_version option \<Rightarrow> commit_version" where
  "version_after v = (case v of None \<Rightarrow> 0 | Some v \<Rightarrow> v + 1)"

definition in_step :: "allocator \<Rightarrow> index_state \<Rightarrow> bool" where
  "in_step a ix \<longleftrightarrow>
     alloc_inv a \<and> (\<forall>key. alloc_end a key = index_end_offset ix key) \<and>
     al_next_version a = version_after (ix_applied ix)"

lemma in_step_new: "in_step allocator_new index_new"
  by (simp add: in_step_def alloc_inv_new)
    (simp add: alloc_end_def allocator_new_def index_end_offset_def index_new_def version_after_def)

lemma index_end_part: "index_end_offset ix key = pi_end (part_of (ix_partitions ix) key)"
  by (simp add: index_end_offset_def part_of_def partition_default_def split: option.split)

lemma index_apply_end:
  assumes "index_apply ix es = Inr ix'"
  shows "index_end_offset ix' key = index_end_offset ix key + int (committed_count key (log_ops es))"
proof -
  from index_apply_refines(4) [OF assms] obtain cs where
    "foldR log_step (ix_partitions ix, []) (log_ops es) = Inr (ix_partitions ix', cs)"
    by (auto simp: log_run_def)
  from log_run_end [OF this, of key] show ?thesis by (simp add: index_end_part)
qed

lemma index_apply_one:
  assumes "ix_quota ix = None" "version_after (ix_applied ix) \<le> me_version e"
  shows "is_ok (index_apply ix [e]) \<longleftrightarrow> is_ok (log_run (ix_partitions ix) (record_ops (me_record e)))"
proof -
  have asc: "ascending (ix_applied ix) [e]"
    using assms(2) by (auto simp: ascending_Cons version_after_def)
  show ?thesis
    using index_apply_refines(4) [of ix "[e]"] index_apply_complete [OF asc] assms(1)
    by (fastforce simp: is_ok_iff)
qed

text \<open>Trims and retention changes leave the allocator's lines alone.\<close>

definition bare_stage :: "allocator \<Rightarrow> staged_commit \<Rightarrow> bool" where
  "bare_stage a st \<longleftrightarrow>
     sc_assignments st = [] \<and> sc_ends st = [] \<and> sc_producer_ends st = [] \<and>
     me_version (sc_entry st) = al_next_version a \<and> sc_next_version st = al_next_version a + 1 \<and>
     al_next_version a < u64_max"

lemma stage_trim_bare:
  assumes "stage_trim a topic part start = Inr st"
  shows "bare_stage a st" "me_record (sc_entry st) = Trimmed topic part start"
    "start \<le> alloc_end a (topic, part)"
  using assms
  by (auto simp: stage_trim_def bare_stage_def Let_def bindR_Inr_iff version_advance_Inr_iff alloc_end_def
      split: if_splits)

lemma stage_retention_bare:
  assumes "stage_retention a topic r = Inr st"
  shows "bare_stage a st" "me_record (sc_entry st) = TopicRetentionChanged topic r"
  using assms by (auto simp: stage_retention_def bare_stage_def bindR_Inr_iff version_advance_Inr_iff)

lemma apply_bare:
  assumes "alloc_inv a" "bare_stage a st"
  shows "snd (alloc_apply a st) = a\<lparr>al_next_version := al_next_version a + 1\<rparr>"
proof -
  have "evict_over_cap (al_producer_state a) (al_recency a) MAX_TRACKED_PRODUCERS =
      (al_producer_state a, al_recency a)"
    using assms(1) by (subst evict_over_cap.simps) (simp add: alloc_inv_def)
  then show ?thesis
    using assms(2) by (simp add: alloc_apply_def bare_stage_def Let_def)
qed

lemma alloc_inv_next [simp]: "alloc_inv (a\<lparr>al_next_version := v\<rparr>) = alloc_inv a"
  by (simp add: alloc_inv_def)

lemma alloc_end_next [simp]: "alloc_end (a\<lparr>al_next_version := v\<rparr>) = alloc_end a"
  by (simp add: alloc_end_def fun_eq_iff)

section \<open>What is staged folds\<close>

text \<open>The three ways the coordinator stages an entry, commits restricted to spans with records.\<close>

definition staged_by :: "allocator \<Rightarrow> staged_commit \<Rightarrow> bool" where
  "staged_by a st \<longleftrightarrow>
     (\<exists>object spans ts. alloc_stage a object spans ts = Inr st \<and> (\<forall>sp\<in>set spans. 0 < cs_count sp)) \<or>
     (\<exists>topic part start. stage_trim a topic part start = Inr st) \<or>
     (\<exists>topic retention. stage_retention a topic retention = Inr st)"

lemma staged_by_intros:
  "stage_trim a topic part start = Inr st \<Longrightarrow> staged_by a st"
  "stage_retention a topic retention = Inr st \<Longrightarrow> staged_by a st"
  by (auto simp: staged_by_def)

lemma staged_version:
  assumes "staged_by a st"
  shows "me_version (sc_entry st) = al_next_version a" "sc_next_version st = al_next_version a + 1"
    "al_next_version a < u64_max"
  using assms stage_trim_bare(1) stage_retention_bare(1)
  by (auto simp: staged_by_def bare_stage_def elim!: alloc_stage_Inr)

lemma staged_commit_folds:
  assumes "in_step a ix" "ix_quota ix = None" "staged_by a st"
  obtains ix' where "index_apply ix [sc_entry st] = Inr ix'"
proof -
  have "is_ok (log_run (ix_partitions ix) (record_ops (me_record (sc_entry st))))"
    using assms(3) unfolding staged_by_def
  proof (elim disjE exE conjE)
    fix object spans ts assume st: "alloc_stage a object spans ts = Inr st" "\<forall>sp\<in>set spans. 0 < cs_count sp"
    have "fits (\<lambda>key. pi_end (part_of (ix_partitions ix) key)) spans"
      using alloc_stage_ok_iff [of a object spans ts] st assms(1)
      by (simp add: in_step_def index_end_part fits_def)
    moreover have "me_record (sc_entry st) = BatchCommitted object spans ts"
      using st(1) by (rule alloc_stage_Inr) simp
    ultimately show ?thesis using st(2) by (auto simp: record_ops_def log_run_commits)
  next
    fix topic part start assume "stage_trim a topic part start = Inr st"
    from stage_trim_bare(2,3) [OF this] assms(1) show ?thesis
      by (simp add: in_step_def index_end_part record_ops_def log_run_def log_step_def apply_effect_def)
  next
    fix topic r assume "stage_retention a topic r = Inr st"
    from stage_retention_bare(2) [OF this] show ?thesis by (simp add: record_ops_def log_run_def)
  qed
  with index_apply_one [OF assms(2), of "sc_entry st"] staged_version(1) [OF assms(3)] assms(1)
  show ?thesis by (auto simp: in_step_def is_ok_iff intro: that)
qed

lemma staged_apply_end:
  assumes "staged_by a st" "alloc_inv a"
  shows "alloc_end (snd (alloc_apply a st)) key =
    alloc_end a key + int (committed_count key (record_ops (me_record (sc_entry st))))"
  using assms(1) unfolding staged_by_def
proof (elim disjE exE conjE)
  fix object spans ts assume st: "alloc_stage a object spans ts = Inr st"
  then have "me_record (sc_entry st) = BatchCommitted object spans ts" by (rule alloc_stage_Inr) simp
  then show ?thesis using alloc_apply_end [OF st] by (simp add: record_ops_def committed_count_commits)
next
  fix topic part start assume "stage_trim a topic part start = Inr st"
  from stage_trim_bare(1,2) [OF this] apply_bare [OF assms(2)] show ?thesis
    by (simp add: record_ops_def committed_count_def)
next
  fix topic r assume "stage_retention a topic r = Inr st"
  from stage_retention_bare(1,2) [OF this] apply_bare [OF assms(2)] show ?thesis
    by (simp add: record_ops_def committed_count_def)
qed

lemma staged_keeps_step:
  assumes "in_step a ix" "staged_by a st" "index_apply ix [sc_entry st] = Inr ix'"
  shows "in_step (snd (alloc_apply a st)) ix'"
proof -
  have inv: "alloc_inv a" using assms(1) by (simp add: in_step_def)
  have "ix_applied ix' = Some (al_next_version a)"
    using index_apply_refines(2) [OF assms(3)] staged_version(1) [OF assms(2)] by simp
  moreover have "alloc_end (snd (alloc_apply a st)) key = index_end_offset ix' key" for key
    using staged_apply_end [OF assms(2) inv, of key] index_apply_end [OF assms(3), of key] assms(1)
    by (simp add: in_step_def)
  ultimately show ?thesis
    using apply_table(1) [OF inv, of st] staged_version(2) [OF assms(2)]
    by (simp add: in_step_def version_after_def)
qed

section \<open>Replay\<close>

text \<open>The replay loops keep the allocator only if every entry is taken.\<close>

definition alloc_run :: "allocator \<Rightarrow> metadata_entry list \<Rightarrow> allocator result" where
  "alloc_run a es =
     foldR (\<lambda>a e. case alloc_replay a e of (Inl err, _) \<Rightarrow> Inl err | (Inr _, a') \<Rightarrow> Inr a') a es"

lemma alloc_run_append: "alloc_run a (xs @ ys) = bindR (alloc_run a xs) (\<lambda>a'. alloc_run a' ys)"
  by (simp add: alloc_run_def foldR_append)

lemma alloc_run_Nil [simp]: "alloc_run a [] = Inr a"
  by (simp add: alloc_run_def)

lemma alloc_run_one:
  "alloc_run a [e] = (case alloc_replay a e of (Inl err, _) \<Rightarrow> Inl err | (Inr _, a') \<Rightarrow> Inr a')"
  by (auto simp: alloc_run_def bindR_def split: prod.splits sum.splits)

lemma replay_is_live:
  assumes "staged_by a st" "alloc_inv a"
  shows "alloc_replay a (sc_entry st) = (Inr (), snd (alloc_apply a st))"
  using assms(1) unfolding staged_by_def
proof (elim disjE exE conjE)
  fix object spans ts assume st: "alloc_stage a object spans ts = Inr st"
  then have e: "sc_entry st = \<lparr>me_version = al_next_version a, me_record = BatchCommitted object spans ts\<rparr>"
    by (rule alloc_stage_Inr) simp
  show ?thesis using st by (simp add: e alloc_replay_def)
next
  fix topic part start assume "stage_trim a topic part start = Inr st"
  note b = stage_trim_bare(1,2) [OF this]
  then show ?thesis
    using apply_bare [OF assms(2) b(1)]
    by (simp add: alloc_replay_def bare_stage_def version_advance_def)
next
  fix topic r assume "stage_retention a topic r = Inr st"
  note b = stage_retention_bare(1,2) [OF this]
  then show ?thesis
    using apply_bare [OF assms(2) b(1)]
    by (simp add: alloc_replay_def bare_stage_def version_advance_def)
qed

text \<open>An entry the index takes, at whatever version, the allocator replays.\<close>

lemma replay_follows_index:
  assumes "in_step a ix" "index_apply ix [e] = Inr ix'" "me_version e < u64_max"
  shows "\<exists>a'. alloc_run a [e] = Inr a' \<and> in_step a' ix'"
proof -
  let ?a = "a\<lparr>al_next_version := me_version e\<rparr>"
  have ge: "al_next_version a \<le> me_version e"
    using index_apply_refines(1) [OF assms(2)] assms(1)
    by (auto simp: in_step_def version_after_def ascending_Cons Suc_le_eq split: option.splits)
  have ix': "ix_applied ix' = Some (me_version e)" using index_apply_refines(2) [OF assms(2)] by simp
  have inv: "alloc_inv a" using assms(1) by (simp add: in_step_def)
  note ends = index_apply_end [OF assms(2)]
  show ?thesis
  proof (cases "\<exists>object spans ts. me_record e = BatchCommitted object spans ts")
    case True
    then obtain object spans ts where rec: "me_record e = BatchCommitted object spans ts" by blast
    from index_apply_refines(4) [OF assms(2)] rec
    have "is_ok (log_run (ix_partitions ix) (commits object ts spans))"
      by (auto simp: record_ops_def)
    then have "fits (alloc_end ?a) spans"
      using assms(1) by (simp add: log_run_commits in_step_def fits_def index_end_part)
    with assms(3) obtain st where st: "alloc_stage ?a object spans ts = Inr st"
      using alloc_stage_ok_iff [of ?a object spans ts] by (auto simp: is_ok_iff)
    have "alloc_end (snd (alloc_apply ?a st)) key = index_end_offset ix' key" for key
      using alloc_apply_end [OF st, of key] ends [of key] assms(1) rec
      by (simp add: in_step_def record_ops_def committed_count_commits)
    moreover have "al_next_version (snd (alloc_apply ?a st)) = me_version e + 1"
      using st by (auto elim!: alloc_stage_Inr)
    ultimately have "in_step (snd (alloc_apply ?a st)) ix'"
      using apply_table(1) [of ?a st] inv ix' by (simp add: in_step_def version_after_def)
    moreover have "alloc_run a [e] = Inr (snd (alloc_apply ?a st))"
      using ge rec st by (simp add: alloc_run_one alloc_replay_def Let_def)
    ultimately show ?thesis by blast
  next
    case False
    have "alloc_run a [e] = Inr (a\<lparr>al_next_version := me_version e + 1\<rparr>)"
      using ge False assms(3)
      by (cases "me_record e") (auto simp: alloc_run_one alloc_replay_def Let_def version_advance_def)
    moreover have "committed_count key (record_ops (me_record e)) = 0" for key
      using False by (cases "me_record e") (auto simp: record_ops_def committed_count_def)
    then have "in_step (a\<lparr>al_next_version := me_version e + 1\<rparr>) ix'"
      using assms(1) ends ix' by (simp add: in_step_def version_after_def)
    ultimately show ?thesis by blast
  qed
qed

lemma replay_follows_log:
  assumes "index_inv ix" "ix_quota ix = None" "in_step a ix" "index_apply ix es = Inr ix'"
    and "\<forall>e\<in>set es. me_version e < u64_max"
  shows "\<exists>a'. alloc_run a es = Inr a' \<and> in_step a' ix'"
  using assms
proof (induction es arbitrary: a ix)
  case Nil
  then show ?case using memory.apply_nothing [of ix] by simp
next
  case (Cons e es)
  from Cons.prems(1,2,4) obtain mid where mid: "index_apply ix [e] = Inr mid" "index_apply mid es = Inr ix'"
    using memory.apply_pages [of ix "[e]" es ix'] by auto
  from replay_follows_index [OF Cons.prems(3) mid(1)] Cons.prems(5) obtain a1 where
    a1: "alloc_run a [e] = Inr a1" "in_step a1 mid" by auto
  have "index_inv mid" "ix_quota mid = None"
    using memory.apply_keeps [OF _ mid(1)] Cons.prems(1,2) by auto
  from Cons.IH [OF this a1(2) mid(2)] Cons.prems(5) a1(1) show ?case
    using alloc_run_append [of a "[e]" es] by auto
qed

lemma staged_extends:
  assumes "index_apply index_new es = Inr ix" "\<forall>e\<in>set es. me_version e < u64_max"
    and "alloc_run allocator_new es = Inr a" "staged_by a st"
  shows "alloc_run allocator_new (es @ [sc_entry st]) = Inr (snd (alloc_apply a st)) \<and>
    (\<exists>ix'. index_apply index_new (es @ [sc_entry st]) = Inr ix' \<and>
       (\<forall>key. alloc_end (snd (alloc_apply a st)) key = index_end_offset ix' key))"
proof -
  have q: "ix_quota index_new = None" by (simp add: index_new_def)
  from replay_follows_log [OF index_inv_new(1) q in_step_new assms(1,2)] assms(3)
  have step: "in_step a ix" by auto
  have ok: "index_inv ix \<and> ix_quota ix = None"
    using memory.apply_keeps [OF _ assms(1)] index_inv_new(1) q by blast
  obtain ix' where ix': "index_apply ix [sc_entry st] = Inr ix'"
    using staged_commit_folds [OF step _ assms(4)] ok by blast
  have "index_apply index_new (es @ [sc_entry st]) = Inr ix'"
    using memory.apply_pages [of index_new es "[sc_entry st]" ix'] index_inv_new(1) q assms(1) ix' by simp
  moreover have "alloc_run a [sc_entry st] = Inr (snd (alloc_apply a st))"
    using replay_is_live [OF assms(4)] step by (simp add: alloc_run_one in_step_def)
  ultimately show ?thesis
    using staged_keeps_step [OF step assms(4) ix'] assms(3) by (auto simp: alloc_run_append in_step_def)
qed

section \<open>Two folds of one log\<close>

text \<open>The allocator and the index agree on every log.  A log a fresh index folds, a fresh
  allocator replays, and then every offset line of the allocator is the index's end offset for the
  partition and the next version is one past the index's bookmark.\<close>

lemma foldable_log_replays:
  assumes "index_apply index_new es = Inr ix" "\<forall>e\<in>set es. me_version e < u64_max"
  shows "\<exists>a. alloc_run allocator_new es = Inr a \<and> (\<forall>key. alloc_end a key = index_end_offset ix key) \<and>
    al_next_version a = version_after (ix_applied ix)"
proof -
  have "ix_quota index_new = None" by (simp add: index_new_def)
  from replay_follows_log [OF index_inv_new(1) this in_step_new assms] show ?thesis
    by (auto simp: in_step_def)
qed

lemma example_versions: "\<forall>e\<in>set example_log. me_version e < u64_max"
  by (simp add: example_log_def)


text \<open>C32. What the coordinator stages, every follower folds.  On a log folded so far by the index and
  by the allocator, an entry the allocator stages (a commit of spans with records, a trim, a
  retention change) extends the log to one both fold, the allocator's replay of it is exactly the
  state the live path is left in, and the two still agree on every offset line.\<close>

theorem staged_entry_folds_and_replays:
  assumes "index_apply index_new es = Inr ix" "\<forall>e\<in>set es. me_version e < u64_max"
    and "alloc_run allocator_new es = Inr a" "staged_by a st"
  shows "alloc_run allocator_new (es @ [sc_entry st]) = Inr (snd (alloc_apply a st)) \<and>
    (\<exists>ix'. index_apply index_new (es @ [sc_entry st]) = Inr ix' \<and>
       (\<forall>key. alloc_end (snd (alloc_apply a st)) key = index_end_offset ix' key))"
  by (rule staged_extends [OF assms])

theorem staged_entry_folds_and_replays_witness:
  "\<exists>a st. alloc_run allocator_new example_log = Inr a \<and> stage_trim a ''t'' 0 12 = Inr st \<and>
     alloc_run allocator_new (example_log @ [sc_entry st]) = Inr (snd (alloc_apply a st))"
proof -
  obtain s where s: "index_apply index_new example_log = Inr s" by (rule example_reach)
  have s17: "index_end_offset s (''t'', 0) = 17" using example_state s by simp
  have "ix_applied s = Some 2" using index_apply_refines(2) [OF s] by (simp add: example_log_def)
  then obtain a where a: "alloc_run allocator_new example_log = Inr a" "alloc_end a (''t'', 0) = 17"
    "al_next_version a = 3"
    using replay_follows_log [OF index_inv_new(1) _ in_step_new s example_versions] s17
    by (auto simp: in_step_def version_after_def index_new_def)
  then have "is_ok (stage_trim a ''t'' 0 12)"
    by (simp add: stage_trim_def Let_def alloc_end_def version_advance_def split: option.splits)
  then obtain st where st: "stage_trim a ''t'' 0 12 = Inr st" by (auto simp: is_ok_iff)
  then have "staged_by a st" by (auto simp: staged_by_def)
  from staged_entry_folds_and_replays [OF s example_versions a(1) this] a(1) st show ?thesis by blast
qed



end
