(* ===== verification/Coordinator.thy ===== *)
theory Coordinator
  imports Allocation_Replay
begin

text \<open>
  The coordinator: opening it over a log (\<open>oqueue-coordinator/src/coordinator.rs\<close>), the loop that
  serves its queue (\<open>serve.rs\<close>), leadership and replay under a lease (\<open>serve/leadership.rs\<close>) and
  the hot standby (\<open>standby.rs\<close>).  This theory holds the definitions.

  The loop's own fields are the record \<open>coordinator\<close>: the \<open>broadcast\<close> channel is the list of entries
  sent so far, the \<open>watch\<close> channel its current value; whether there is a lease or a reopener is a
  flag.  The log is behind its seam, so its \<open>append\<close> and \<open>read_from\<close> are arguments.  What a request meets
  outside the loop is the record \<open>env\<close>: the clock, whether the lease is held at each of the three
  points where it is asked, its term, and what the reopener returns.  Each loop over pages of the log
  is a partial function; not returning is \<open>None\<close>.
\<close>

section \<open>State (serve.rs, error.rs)\<close>

definition REBUILD_PAGE_ENTRIES :: nat where
  "REBUILD_PAGE_ENTRIES = 1024"

datatype coordinator_error =
    Unavailable
  | Unassignable error
  | Journal error
  | Unreplayable commit_version error
  | Fenced

record 'l coordinator =
  co_log :: 'l
  co_index :: index_state
  co_epoch :: nat
  co_allocator :: allocator
  co_deltas :: "metadata_entry list"
  co_published :: "commit_version option"
  co_last_committed :: "commit_version option"
  co_lease :: bool
  co_pending_replay :: bool
  co_reopen :: bool
  co_replayed_term :: "nat option"

record 'l env =
  env_now :: timestamp
  env_held_at_admission :: bool
  env_held_at_journal :: bool
  env_held_after_append :: bool
  env_term :: "nat option"
  env_reopened :: "'l result"

type_synonym 'l appender = "'l \<Rightarrow> metadata_entry list \<Rightarrow> unit result \<times> 'l"

definition publish_applied :: "'l coordinator \<Rightarrow> 'l coordinator" where
  "publish_applied self = self\<lparr>co_published := ix_applied (co_index self)\<rparr>"

section \<open>Replaying the log (coordinator.rs)\<close>

text \<open>The loop over one page; the allocator is returned beside the first refusal.\<close>

fun replay_page ::
  "allocator \<Rightarrow> metadata_entry list \<Rightarrow> (commit_version \<times> error + unit) \<times> allocator" where
  "replay_page allocator [] = (Inr (), allocator)"
| "replay_page allocator (entry # rest) =
     (case alloc_replay allocator entry of
        (Inl e, allocator') \<Rightarrow> (Inl (me_version entry, e), allocator')
      | (Inr _, allocator') \<Rightarrow> replay_page allocator' rest)"

type_synonym folded = "allocator \<times> commit_version option"

partial_function (option) fold_pages ::
  "'l reader \<Rightarrow> 'l \<Rightarrow> folded \<Rightarrow> index_state \<Rightarrow> metadata_entry list
     \<Rightarrow> ((coordinator_error + folded) \<times> index_state) option"
where
  "fold_pages read_from log acc index page =
     (if page = [] then Some (Inr acc, index)
      else
        let tail = me_version (last page)
        in case replay_page (fst acc) page of
             (Inl (version, e), _) \<Rightarrow> Some (Inl (Unreplayable version e), index)
           | (Inr _, allocator) \<Rightarrow>
               (case index_apply index page of
                  Inl e \<Rightarrow> Some (Inl (Unreplayable tail e), index)
                | Inr index' \<Rightarrow>
                    (case version_advance tail 1 of
                       Inl e \<Rightarrow> Some (Inl (Unreplayable tail e), index')
                     | Inr from \<Rightarrow>
                         (case read_from log from REBUILD_PAGE_ENTRIES of
                            Inl e \<Rightarrow> Some (Inl (Journal e), index')
                          | Inr page' \<Rightarrow>
                              fold_pages read_from log (allocator, Some tail) index' page'))))"

definition replay ::
  "'l reader \<Rightarrow> 'l \<Rightarrow> index_state \<Rightarrow> ((coordinator_error + folded) \<times> index_state) option" where
  "replay read_from log index =
     (case read_from log 0 REBUILD_PAGE_ENTRIES of
        Inl e \<Rightarrow> Some (Inl (Journal e), index)
      | Inr first \<Rightarrow>
          (case fold_pages read_from log (allocator_new, None) (index_clear index) first of
             None \<Rightarrow> None
           | Some (Inl e, index') \<Rightarrow> Some (Inl e, index_clear index')
           | Some (Inr folded, index') \<Rightarrow> Some (Inr folded, index')))"

definition assemble ::
  "'l \<Rightarrow> index_state \<Rightarrow> nat \<Rightarrow> allocator \<times> commit_version option \<times> bool \<Rightarrow> 'l coordinator" where
  "assemble log index epoch line =
     (case line of (allocator, lst, pending) \<Rightarrow>
        \<lparr>co_log = log, co_index = index, co_epoch = epoch, co_allocator = allocator, co_deltas = [],
         co_published = lst, co_last_committed = lst, co_lease = False, co_pending_replay = pending,
         co_reopen = False, co_replayed_term = None\<rparr>)"

text \<open>A refusal hands the index back (\<open>OpenRejected\<close>).\<close>

definition coordinator_open ::
  "'l reader \<Rightarrow> 'l \<Rightarrow> index_state \<Rightarrow> nat \<Rightarrow> (coordinator_error \<times> index_state + 'l coordinator) option" where
  "coordinator_open read_from log index epoch =
     (case replay read_from log index of
        None \<Rightarrow> None
      | Some (Inl e, index') \<Rightarrow> Some (Inl (e, index'))
      | Some (Inr (allocator, lst), index') \<Rightarrow>
          Some (Inr (assemble log index' epoch (allocator, lst, False))))"

definition open_deferred :: "'l \<Rightarrow> index_state \<Rightarrow> nat \<Rightarrow> 'l coordinator" where
  "open_deferred log index epoch = assemble log index epoch (allocator_new, None, True)"

section \<open>Rebuilding and publishing (serve.rs)\<close>

partial_function (option) rebuild_loop ::
  "'l reader \<Rightarrow> 'l \<Rightarrow> index_state \<Rightarrow> commit_version \<Rightarrow> index_state option"
where
  "rebuild_loop read_from log index start =
     (case read_from log start REBUILD_PAGE_ENTRIES of
        Inl _ \<Rightarrow> Some (index_clear index)
      | Inr page \<Rightarrow>
          if page = [] then Some index
          else
            (case index_apply index page of
               Inl _ \<Rightarrow> Some (index_clear index)
             | Inr index' \<Rightarrow>
                 (case version_advance (me_version (last page)) 1 of
                    Inl _ \<Rightarrow> Some index'
                  | Inr nxt \<Rightarrow> rebuild_loop read_from log index' nxt)))"

definition rebuild :: "'l reader \<Rightarrow> 'l coordinator \<Rightarrow> index_state option" where
  "rebuild read_from self = rebuild_loop read_from (co_log self) (index_clear (co_index self)) 0"

definition index_precedes :: "index_state \<Rightarrow> commit_version \<Rightarrow> bool" where
  "index_precedes index version =
     (case ix_applied index of
        None \<Rightarrow> version = 0
      | Some applied \<Rightarrow> version_advance applied 1 = Inr version)"

definition publish :: "'l reader \<Rightarrow> 'l coordinator \<Rightarrow> metadata_entry \<Rightarrow> 'l coordinator option" where
  "publish read_from self entry =
     map_option
       (\<lambda>index. let self = publish_applied (self\<lparr>co_index := index\<rparr>)
                in self\<lparr>co_deltas := co_deltas self @ [entry]\<rparr>)
       (if index_precedes (co_index self) (me_version entry)
        then Some (case index_apply (co_index self) [entry] of
                     Inl _ \<Rightarrow> index_clear (co_index self)
                   | Inr index \<Rightarrow> index)
        else rebuild read_from self)"

section \<open>Leadership (serve/leadership.rs)\<close>

definition fenced_by :: "'l coordinator \<Rightarrow> 'l coordinator" where
  "fenced_by self = self\<lparr>co_lease := True\<rparr>"

definition reopening_with :: "'l coordinator \<Rightarrow> 'l coordinator" where
  "reopening_with self = self\<lparr>co_reopen := True\<rparr>"

definition leads :: "'l coordinator \<Rightarrow> bool \<Rightarrow> bool" where
  "leads self held \<longleftrightarrow> \<not> co_lease self \<or> held"

text \<open>The entries of a page an index lacks.\<close>

definition missing_from :: "commit_version option \<Rightarrow> metadata_entry list \<Rightarrow> metadata_entry list" where
  "missing_from held page =
     filter (\<lambda>entry. case held of None \<Rightarrow> True | Some h \<Rightarrow> me_version entry > h) page"

partial_function (option) refold ::
  "'l reader \<Rightarrow> 'l \<Rightarrow> folded \<Rightarrow> commit_version \<Rightarrow> index_state
     \<Rightarrow> ((unit + folded) \<times> index_state) option"
where
  "refold read_from log acc from index =
     (case read_from log from REBUILD_PAGE_ENTRIES of
        Inl _ \<Rightarrow> Some (Inl (), index)
      | Inr page \<Rightarrow>
          if page = [] then Some (Inr acc, index)
          else
            let tail = me_version (last page)
            in case replay_page (fst acc) page of
                 (Inl _, _) \<Rightarrow> Some (Inl (), index)
               | (Inr _, allocator) \<Rightarrow>
                   (case index_apply index (missing_from (ix_applied index) page) of
                      Inl _ \<Rightarrow> Some (Inl (), index)
                    | Inr index' \<Rightarrow>
                        (case version_advance tail 1 of
                           Inl _ \<Rightarrow> Some (Inl (), index')
                         | Inr nxt \<Rightarrow>
                             refold read_from log (allocator, Some tail) nxt index')))"

definition current_for_term ::
  "'l reader \<Rightarrow> 'l env \<Rightarrow> 'l coordinator \<Rightarrow> (bool \<times> 'l coordinator) option" where
  "current_for_term read_from env self =
     (if \<not> co_lease self \<or> \<not> co_reopen self then Some (True, self)
      else if env_term env \<noteq> None \<and> env_term env = co_replayed_term self then Some (True, self)
      else
        case env_reopened env of
          Inl _ \<Rightarrow> Some (False, self)
        | Inr log \<Rightarrow>
            (case refold read_from log (allocator_new, None) 0 (co_index self) of
               None \<Rightarrow> None
             | Some (Inl _, index) \<Rightarrow> Some (False, self\<lparr>co_index := index\<rparr>)
             | Some (Inr (allocator, lst), index) \<Rightarrow>
                 Some (True, publish_applied
                   (self\<lparr>co_log := log, co_index := index, co_allocator := allocator,
                         co_last_committed := lst, co_replayed_term := env_term env\<rparr>))))"

definition try_replay ::
  "'l reader \<Rightarrow> 'l coordinator \<Rightarrow> (bool \<times> 'l coordinator) option" where
  "try_replay read_from self =
     (if \<not> co_pending_replay self then Some (True, self)
      else
        case replay read_from (co_log self) (co_index self) of
          None \<Rightarrow> None
        | Some (Inl _, index) \<Rightarrow> Some (False, self\<lparr>co_index := index\<rparr>)
        | Some (Inr (allocator, lst), index) \<Rightarrow>
            Some (True, publish_applied
              (self\<lparr>co_index := index, co_allocator := allocator, co_last_committed := lst,
                    co_pending_replay := False\<rparr>)))"

definition may_write ::
  "'l reader \<Rightarrow> 'l env \<Rightarrow> 'l coordinator \<Rightarrow> ((coordinator_error + unit) \<times> 'l coordinator) option" where
  "may_write read_from env self =
     (case try_replay read_from self of
        None \<Rightarrow> None
      | Some (False, self) \<Rightarrow> Some (Inl Unavailable, self)
      | Some (True, self) \<Rightarrow>
          if \<not> leads self (env_held_at_admission env) then Some (Inl Fenced, self)
          else
            case current_for_term read_from env self of
              None \<Rightarrow> None
            | Some (False, self) \<Rightarrow> Some (Inl Unavailable, self)
            | Some (True, self) \<Rightarrow> Some (Inr (), self))"

definition journal ::
  "'l appender \<Rightarrow> 'l coordinator \<Rightarrow> metadata_entry \<Rightarrow> (coordinator_error + unit) \<times> 'l coordinator" where
  "journal append_to self entry =
     (case append_to (co_log self) [entry] of
        (Inr _, log) \<Rightarrow> (Inr (), self\<lparr>co_log := log\<rparr>)
      | (Inl e, log) \<Rightarrow>
          (Inl (Journal e),
           self\<lparr>co_log := log,
                co_replayed_term := (case e of PreconditionFailed _ \<Rightarrow> None | _ \<Rightarrow> co_replayed_term self)\<rparr>))"

definition still_leads_after_append ::
  "'l env \<Rightarrow> 'l coordinator \<Rightarrow> (coordinator_error + unit) \<times> 'l coordinator" where
  "still_leads_after_append env self =
     (if leads self (env_held_after_append env) then (Inr (), self)
      else (Inl Fenced, self\<lparr>co_replayed_term := None\<rparr>))"

section \<open>Serving requests (serve.rs)\<close>

text \<open>The journal, lease check, apply and publish that end \<open>serve\<close>, \<open>serve_trim\<close> and
  \<open>serve_retention\<close> alike.\<close>

definition take_position ::
  "'l appender \<Rightarrow> 'l reader \<Rightarrow> 'l env \<Rightarrow> 'l coordinator \<Rightarrow> staged_commit
     \<Rightarrow> ((coordinator_error + commit_version \<times> assignment list) \<times> 'l coordinator) option" where
  "take_position append_to read_from env self staged =
     (if \<not> leads self (env_held_at_journal env) then Some (Inl Fenced, self)
      else
        case journal append_to self (sc_entry staged) of
          (Inl e, self) \<Rightarrow> Some (Inl e, self)
        | (Inr _, self) \<Rightarrow>
            (case still_leads_after_append env self of
               (Inl e, self) \<Rightarrow> Some (Inl e, self)
             | (Inr _, self) \<Rightarrow>
                 (case alloc_apply (co_allocator self) staged of
                    ((version, assignments), allocator) \<Rightarrow>
                      map_option (\<lambda>self. (Inr (version, assignments), self))
                        (publish read_from
                           (self\<lparr>co_allocator := allocator, co_last_committed := Some version\<rparr>)
                           (sc_entry staged)))))"

fun assigned_only :: "span_outcome list \<Rightarrow> assignment list" where
  "assigned_only [] = []"
| "assigned_only (Assigned a # rest) = a # assigned_only rest"
| "assigned_only (Rejected _ # rest) = assigned_only rest"

definition make_ack ::
  "'l coordinator \<Rightarrow> commit_version \<Rightarrow> (nat \<times> span_outcome) list \<Rightarrow> commit_ack" where
  "make_ack self version outcomes =
     (let sorted = map snd (sort_key fst outcomes)
      in \<lparr>ack_version = version, ack_epoch = co_epoch self, ack_assignments = assigned_only sorted,
          ack_outcomes = sorted\<rparr>)"

definition serve ::
  "'l appender \<Rightarrow> 'l reader \<Rightarrow> 'l env \<Rightarrow> 'l coordinator \<Rightarrow> object_key \<Rightarrow> committed_span list
     \<Rightarrow> ((coordinator_error + commit_ack) \<times> 'l coordinator) option" where
  "serve append_to read_from env self object spans =
     (let adm = admit (co_allocator self) spans;
          outcomes = map (\<lambda>(i, _, a). (i, Assigned a)) (ad_replayed adm) @
                     map (\<lambda>(i, _, r). (i, Rejected r)) (ad_rejected adm)
      in if ad_admitted adm = []
         then Some (Inr (make_ack self (case co_last_committed self of Some v \<Rightarrow> v | None \<Rightarrow> 0) outcomes), self)
         else
           case alloc_stage (co_allocator self) object (map snd (ad_admitted adm)) (env_now env) of
             Inl e \<Rightarrow> Some (Inl (Unassignable e), self)
           | Inr staged \<Rightarrow>
               map_option
                 (\<lambda>(taken, self).
                    (case taken of
                       Inl e \<Rightarrow> (Inl e, self)
                     | Inr (version, assignments) \<Rightarrow>
                         (Inr (make_ack self version
                            (outcomes @ zip (map fst (ad_admitted adm)) (map Assigned assignments))), self)))
                 (take_position append_to read_from env self staged))"

definition serve_staged ::
  "'l appender \<Rightarrow> 'l reader \<Rightarrow> 'l env \<Rightarrow> 'l coordinator \<Rightarrow> staged_commit result
     \<Rightarrow> ((coordinator_error + commit_version) \<times> 'l coordinator) option" where
  "serve_staged append_to read_from env self staged =
     (case staged of
        Inl e \<Rightarrow> Some (Inl (Unassignable e), self)
      | Inr st \<Rightarrow>
          map_option (\<lambda>(taken, self). (map_sum id fst taken, self))
            (take_position append_to read_from env self st))"

definition serve_trim ::
  "'l appender \<Rightarrow> 'l reader \<Rightarrow> 'l env \<Rightarrow> 'l coordinator \<Rightarrow> topic_id \<Rightarrow> partition_id \<Rightarrow> offset
     \<Rightarrow> ((coordinator_error + commit_version) \<times> 'l coordinator) option" where
  "serve_trim append_to read_from env self topic part start =
     serve_staged append_to read_from env self (stage_trim (co_allocator self) topic part start)"

definition serve_retention ::
  "'l appender \<Rightarrow> 'l reader \<Rightarrow> 'l env \<Rightarrow> 'l coordinator \<Rightarrow> topic_id \<Rightarrow> int option
     \<Rightarrow> ((coordinator_error + commit_version) \<times> 'l coordinator) option" where
  "serve_retention append_to read_from env self topic retention_ms =
     serve_staged append_to read_from env self (stage_retention (co_allocator self) topic retention_ms)"

datatype request =
    CommitRequest object_key "committed_span list"
  | DropCache
  | TrimRequest topic_id partition_id offset
  | RetentionRequest topic_id "int option"

datatype reply =
    CommitReply "coordinator_error + commit_ack"
  | Dropped
  | VersionReply "coordinator_error + commit_version"

text \<open>One turn of \<open>run\<close>: the request is served if the loop may write, refused otherwise.\<close>

definition guarded ::
  "'l reader \<Rightarrow> 'l env \<Rightarrow> 'l coordinator \<Rightarrow> ((coordinator_error + 'r) \<Rightarrow> reply)
     \<Rightarrow> ('l coordinator \<Rightarrow> ((coordinator_error + 'r) \<times> 'l coordinator) option)
     \<Rightarrow> (reply \<times> 'l coordinator) option" where
  "guarded read_from env self rep body =
     (case may_write read_from env self of
        None \<Rightarrow> None
      | Some (Inl refused, self) \<Rightarrow> Some (rep (Inl refused), self)
      | Some (Inr _, self) \<Rightarrow> map_option (\<lambda>(outcome, self). (rep outcome, self)) (body self))"

fun run_one ::
  "'l appender \<Rightarrow> 'l reader \<Rightarrow> 'l env \<Rightarrow> 'l coordinator \<Rightarrow> request \<Rightarrow> (reply \<times> 'l coordinator) option" where
  "run_one append_to read_from env self (CommitRequest object spans) =
     guarded read_from env self CommitReply
       (\<lambda>self. serve append_to read_from env self object spans)"
| "run_one append_to read_from env self (TrimRequest topic part start) =
     guarded read_from env self VersionReply
       (\<lambda>self. serve_trim append_to read_from env self topic part start)"
| "run_one append_to read_from env self (RetentionRequest topic retention_ms) =
     guarded read_from env self VersionReply
       (\<lambda>self. serve_retention append_to read_from env self topic retention_ms)"
| "run_one append_to read_from env self DropCache =
     Some (Dropped, publish_applied (self\<lparr>co_index := index_clear (co_index self)\<rparr>))"

section \<open>The hot standby (standby.rs)\<close>

record standby =
  sb_allocator :: allocator
  sb_index :: index_state
  sb_last :: "commit_version option"

definition standby_new :: "index_state \<Rightarrow> standby" where
  "standby_new index =
     \<lparr>sb_allocator = allocator_new, sb_index = index_clear index, sb_last = None\<rparr>"

partial_function (option) standby_loop ::
  "'l reader \<Rightarrow> 'l \<Rightarrow> nat \<Rightarrow> standby \<Rightarrow> ((coordinator_error + nat) \<times> standby) option"
where
  "standby_loop read_from log folded self =
     (case (case sb_last self of
              None \<Rightarrow> Inr 0
            | Some lst \<Rightarrow> map_errR (Unreplayable lst) (version_advance lst 1)) of
        Inl e \<Rightarrow> Some (Inl e, self)
      | Inr from \<Rightarrow>
          (case read_from log from REBUILD_PAGE_ENTRIES of
             Inl e \<Rightarrow> Some (Inl (Journal e), self)
           | Inr page \<Rightarrow>
               if page = [] then Some (Inr folded, self)
               else
                 (case replay_page (sb_allocator self) page of
                    (Inl (version, e), allocator) \<Rightarrow>
                      Some (Inl (Unreplayable version e), self\<lparr>sb_allocator := allocator\<rparr>)
                  | (Inr _, allocator) \<Rightarrow>
                      (case index_apply (sb_index self) page of
                         Inl e \<Rightarrow> Some (Inl (Unreplayable (me_version (last page)) e),
                                       self\<lparr>sb_allocator := allocator\<rparr>)
                       | Inr index \<Rightarrow>
                           standby_loop read_from log (folded + length page)
                             \<lparr>sb_allocator = allocator, sb_index = index,
                              sb_last = Some (me_version (last page))\<rparr>))))"

definition standby_catch_up ::
  "'l reader \<Rightarrow> 'l \<Rightarrow> standby \<Rightarrow> ((coordinator_error + nat) \<times> standby) option" where
  "standby_catch_up read_from log self = standby_loop read_from log 0 self"

definition promote ::
  "'l reader \<Rightarrow> 'l \<Rightarrow> nat \<Rightarrow> standby \<Rightarrow> (coordinator_error + 'l coordinator) option" where
  "promote read_from log epoch self =
     map_option
       (\<lambda>(r, self). case r of
          Inl e \<Rightarrow> Inl e
        | Inr _ \<Rightarrow> Inr (assemble log (sb_index self) epoch (sb_allocator self, sb_last self, False)))
       (standby_catch_up read_from log self)"

section \<open>Watching the index (subscribe.rs)\<close>

text \<open>The predicates \<open>wait_for\<close> and \<open>wait_past\<close> resolve on, over the published value.\<close>

definition wait_for_ready :: "commit_version \<Rightarrow> commit_version option \<Rightarrow> bool" where
  "wait_for_ready version applied = (case applied of Some v \<Rightarrow> v \<ge> version | None \<Rightarrow> False)"

definition wait_past_ready :: "commit_version option \<Rightarrow> commit_version option \<Rightarrow> bool" where
  "wait_past_ready applied current =
     (case (current, applied) of
        (Some _, None) \<Rightarrow> True
      | (Some c, Some a) \<Rightarrow> c > a
      | (None, _) \<Rightarrow> False)"

end
