(* ===== verification/Coordinator_Replay.thy ===== *)
theory Coordinator_Replay
  imports Coordinator
begin

text \<open>
  The coordinator's four loops over pages of the log (\<open>replay\<close>, \<open>rebuild\<close>, \<open>refold\<close> and the
  standby's catch-up): each returns on every log the seam's contract describes, and on success
  leaves exactly the fold of the whole log.
\<close>

section \<open>Folds of a prefix\<close>

text \<open>The index and the allocator after a prefix of a log.\<close>

definition index_folds :: "metadata_entry list \<Rightarrow> index_state \<Rightarrow> bool" where
  "index_folds xs ix \<longleftrightarrow> index_apply index_new xs = Inr ix"

definition both_fold :: "metadata_entry list \<Rightarrow> folded \<Rightarrow> index_state \<Rightarrow> bool" where
  "both_fold xs acc ix \<longleftrightarrow>
     index_folds xs ix \<and> alloc_run allocator_new xs = Inr (fst acc) \<and> snd acc = last_version_of None xs"

lemma new_ok: "index_inv index_new \<and> ix_quota index_new = None"
  by (simp add: index_inv_new) (simp add: index_new_def)

lemma index_folds_Nil [simp]: "index_folds [] ix \<longleftrightarrow> ix = index_new"
  using memory.apply_nothing [OF new_ok] by (auto simp: index_folds_def)

lemma both_fold_Nil: "both_fold [] (allocator_new, None) index_new"
  by (simp add: both_fold_def)

lemma index_folds_ok: "index_folds xs ix \<Longrightarrow> index_inv ix \<and> ix_quota ix = None"
  unfolding index_folds_def by (rule memory.apply_keeps [OF new_ok])

lemma index_folds_upto: "index_folds xs ix \<Longrightarrow> ix_applied ix = last_version_of None xs"
  using memory.apply_ordered [OF new_ok, of xs ix] by (simp add: index_folds_def) (simp add: index_new_def)

lemma index_folds_append:
  "index_folds xs ix \<Longrightarrow> index_folds (xs @ ys) ix' \<longleftrightarrow> index_apply ix ys = Inr ix'"
  using memory.apply_pages [OF new_ok, of xs ys ix'] by (auto simp: index_folds_def)

lemma index_folds_prefix: "index_folds (xs @ ys) ix' \<Longrightarrow> \<exists>ix. index_folds xs ix"
  using memory.apply_pages [OF new_ok, of xs ys ix'] by (auto simp: index_folds_def)

lemma clear_is_new: "ix_quota ix = None \<Longrightarrow> index_clear ix = index_new"
  by (simp add: index_clear_def index_new_def)

lemma index_folds_clear: "index_folds xs ix \<Longrightarrow> index_clear ix = index_new"
  using index_folds_ok clear_is_new by blast

lemma replay_page_iff: "replay_page a es = (Inr u, a') \<longleftrightarrow> alloc_run a es = Inr a'"
proof (induction es arbitrary: a)
  case Nil
  then show ?case by (auto simp: alloc_run_def)
next
  case (Cons e es)
  then show ?case
    using alloc_run_append [of a "[e]" es] by (auto simp: alloc_run_one split: prod.splits sum.splits)
qed

lemma both_fold_page:
  assumes "both_fold xs acc ix" "page \<noteq> []" "replay_page (fst acc) page = (Inr u, a')"
    "index_apply ix page = Inr ix'"
  shows "both_fold (xs @ page) (a', Some (me_version (last page))) ix'"
  using assms index_folds_append [of xs ix page ix']
  by (simp add: both_fold_def replay_page_iff alloc_run_append)
    (simp add: last_version_of_def)

section \<open>Readable logs that fold\<close>

context metadata_log
begin

text \<open>The hypothesis of the success halves: every read answers, the log folds, no version is the
  last one.\<close>

definition good_log :: "'l \<Rightarrow> bool" where
  "good_log l \<longleftrightarrow>
     (\<forall>start n. is_ok (log_read_from l start n)) \<and> (\<exists>ix. index_folds (log_entries l) ix) \<and>
     (\<forall>e\<in>set (log_entries l). me_version e < u64_max)"

lemma next_page:
  assumes "log_invar l" "log_entries l = xs @ ys"
    and "log_read_from l (version_after (last_version_of None xs)) n = Inr page"
  shows "page = take n ys"
  by (rule read_after_prefix [OF assms]) (simp add: version_after_def split: option.split)

lemma good_page:
  assumes "good_log l" "log_entries l = xs @ page @ zs" "both_fold xs acc ix"
  shows "\<exists>a'. replay_page (fst acc) page = (Inr (), a')" "\<exists>ix'. index_apply ix page = Inr ix'"
    "page \<noteq> [] \<Longrightarrow> me_version (last page) < u64_max"
proof -
  obtain full where "index_folds ((xs @ page) @ zs) full" using assms(1,2) by (auto simp: good_log_def)
  then obtain mid where mid: "index_folds (xs @ page) mid" using index_folds_prefix by blast
  have "index_folds xs ix" using assms(3) by (simp add: both_fold_def)
  with mid show "\<exists>ix'. index_apply ix page = Inr ix'" using index_folds_append by blast
  have "\<forall>e\<in>set (xs @ page). me_version e < u64_max"
    using assms(1,2) by (auto simp: good_log_def)
  with mid obtain a' where "alloc_run allocator_new (xs @ page) = Inr a'"
    using replay_follows_log [OF _ _ in_step_new, of "xs @ page" mid] new_ok
    by (auto simp: index_folds_def)
  then show "\<exists>a'. replay_page (fst acc) page = (Inr (), a')"
    using assms(3) by (simp add: both_fold_def alloc_run_append replay_page_iff)
  show "page \<noteq> [] \<Longrightarrow> me_version (last page) < u64_max"
    using assms(1,2) by (auto simp: good_log_def)
qed

lemma good_advances:
  assumes "good_log l" "log_entries l = xs @ page @ zs" "page \<noteq> []"
  shows "version_advance (me_version (last page)) 1 = Inr (me_version (last page) + 1)"
proof -
  have "last page \<in> set (log_entries l)" using assms(2,3) by simp
  with assms(1) have "me_version (last page) < u64_max" unfolding good_log_def by blast
  then show ?thesis by (simp add: version_advance_def)
qed

lemma page_advances:
  assumes "version_advance (me_version (last page)) 1 = Inr from" "page \<noteq> []"
  shows "from = version_after (last_version_of None (xs @ page))"
  using assms by (auto simp: version_advance_Inr_iff version_after_def last_version_of_def)

section \<open>Replay\<close>

lemma unreadable: "log_read_from l start n = Inl e \<Longrightarrow> \<not> good_log l"
  by (auto simp: good_log_def) (metis is_ok_simps(1))

text \<open>One turn of the loop stops with an error a good log never gives, or moves the fold on by the
  page.\<close>

lemma fold_pages_turn:
  assumes l: "log_invar l" and log: "log_entries l = xs @ page @ zs" and pre: "both_fold xs acc ix"
    and page: "page \<noteq> []"
  shows "(\<exists>e ix' ws. fold_pages log_read_from l acc ix page = Some (Inl e, ix') \<and> index_folds ws ix' \<and>
       \<not> good_log l) \<or>
    (\<exists>acc' ix'. both_fold (xs @ page) acc' ix' \<and> fold_pages log_read_from l acc ix page =
       fold_pages log_read_from l acc' ix' (take REBUILD_PAGE_ENTRIES zs))"
proof -
  let ?tail = "me_version (last page)"
  note good = good_page [OF _ log pre]
  have folds: "index_folds xs ix" using pre by (simp add: both_fold_def)
  consider (replay) ve a' where "replay_page (fst acc) page = (Inl ve, a')"
    | (refused) a' e where "replay_page (fst acc) page = (Inr (), a')" "index_apply ix page = Inl e"
    | (folded) a' ix' where "replay_page (fst acc) page = (Inr (), a')" "index_apply ix page = Inr ix'"
    by (cases "replay_page (fst acc) page"; cases "fst (replay_page (fst acc) page)";
        cases "index_apply ix page") auto
  then show ?thesis
  proof cases
    case replay
    then have "\<not> good_log l" using good(1) by auto
    with replay page folds show ?thesis
      by (subst fold_pages.simps) (auto simp: Let_def split: prod.split)
  next
    case refused
    then have "\<not> good_log l" using good(2) by auto
    with refused page folds show ?thesis by (subst fold_pages.simps) (auto simp: Let_def)
  next
    case folded
    have fold: "both_fold (xs @ page) (a', Some ?tail) ix'" using both_fold_page [OF pre page] folded by auto
    then have fx: "index_folds (xs @ page) ix'" by (simp add: both_fold_def)
    have turn: "fold_pages log_read_from l acc ix page =
        (case version_advance ?tail 1 of
           Inl e \<Rightarrow> Some (Inl (Unreplayable ?tail e), ix')
         | Inr from \<Rightarrow> (case log_read_from l from REBUILD_PAGE_ENTRIES of
             Inl e \<Rightarrow> Some (Inl (Journal e), ix')
           | Inr page' \<Rightarrow> fold_pages log_read_from l (a', Some ?tail) ix' page'))"
      using folded page by (subst fold_pages.simps) (simp add: Let_def)
    have "page' = take REBUILD_PAGE_ENTRIES zs"
      if "version_advance ?tail 1 = Inr start" "log_read_from l start REBUILD_PAGE_ENTRIES = Inr page'"
      for start page'
      using next_page [OF l, of "xs @ page" zs] log that(2) page_advances [OF that(1) page] by simp
    moreover have "\<not> good_log l" if "version_advance ?tail 1 = Inl e" for e
      using that good(3) page by (auto simp: version_advance_def split: if_splits)
    ultimately show ?thesis
      unfolding turn using fold fx unreadable by (fastforce split: sum.split)
  qed
qed

text \<open>What a replay may come to: an index that is the fold of some prefix, both folds of the whole log
  on success, and success on a good log.\<close>

definition replay_lands :: "'l \<Rightarrow> ((coordinator_error + folded) \<times> index_state) option \<Rightarrow> bool" where
  "replay_lands l out \<longleftrightarrow>
     (\<exists>r ix ws. out = Some (r, ix) \<and> index_folds ws ix \<and>
        (\<forall>acc. r = Inr acc \<longrightarrow> both_fold (log_entries l) acc ix) \<and> (good_log l \<longrightarrow> is_ok r))"

lemma page_positive [simp]: "0 < REBUILD_PAGE_ENTRIES" "REBUILD_PAGE_ENTRIES \<noteq> 0"
  by (simp_all add: REBUILD_PAGE_ENTRIES_def)

lemma page_nonempty: "take REBUILD_PAGE_ENTRIES ys = [] \<longleftrightarrow> ys = []"
  "ys \<noteq> [] \<Longrightarrow> length (drop REBUILD_PAGE_ENTRIES ys) < length ys"
  by auto

lemma fold_pages_lands:
  assumes "log_invar l" "log_entries l = xs @ ys" "both_fold xs acc ix"
  shows "replay_lands l (fold_pages log_read_from l acc ix (take REBUILD_PAGE_ENTRIES ys))"
  using assms(2,3)
proof (induction ys arbitrary: xs acc ix rule: length_induct)
  case (1 ys)
  let ?page = "take REBUILD_PAGE_ENTRIES ys" and ?zs = "drop REBUILD_PAGE_ENTRIES ys"
  show ?case
  proof (cases "ys = []")
    case True
    with "1.prems" show ?thesis
      by (subst fold_pages.simps) (auto simp: both_fold_def replay_lands_def)
  next
    case False
    have split: "log_entries l = xs @ ?page @ ?zs" "log_entries l = (xs @ ?page) @ ?zs"
      using "1.prems"(1) by simp_all
    have "?page \<noteq> []" using False by (simp add: page_nonempty(1))
    from fold_pages_turn [OF assms(1) split(1) "1.prems"(2) this] show ?thesis
      using "1.IH" [rule_format, OF page_nonempty(2) [OF False] split(2)]
      by (auto simp: replay_lands_def)
  qed
qed

lemma replay_returns:
  assumes l: "log_invar l" and ix: "ix_quota ix = None"
  shows "\<exists>r ix'. replay log_read_from l ix = Some (r, ix') \<and>
    (\<forall>acc. r = Inr acc \<longrightarrow> both_fold (log_entries l) acc ix') \<and>
    (\<forall>e. r = Inl e \<longrightarrow> ix' = index_new \<or>
       ix' = ix \<and> \<not> is_ok (log_read_from l 0 REBUILD_PAGE_ENTRIES)) \<and>
    (good_log l \<longrightarrow> is_ok r)"
proof (cases "log_read_from l 0 REBUILD_PAGE_ENTRIES")
  case (Inl e)
  with unreadable [OF Inl] show ?thesis by (simp add: replay_def)
next
  case (Inr first)
  have first: "first = take REBUILD_PAGE_ENTRIES (log_entries l)"
    using next_page [OF l, of "[]" "log_entries l"] Inr by (simp add: version_after_def)
  from fold_pages_lands [OF l _ both_fold_Nil, of "log_entries l"] obtain r ix' zs where
    f: "fold_pages log_read_from l (allocator_new, None) index_new first = Some (r, ix')" "index_folds zs ix'"
    "\<forall>acc'. r = Inr acc' \<longrightarrow> both_fold (log_entries l) acc' ix'" "good_log l \<longrightarrow> is_ok r"
    by (auto simp: first replay_lands_def)
  with Inr clear_is_new [OF ix] index_folds_clear [OF f(2)] show ?thesis
    by (cases r) (auto simp: replay_def)
qed

end

section \<open>Rebuild\<close>

context metadata_log
begin

text \<open>A rebuild leaves an empty index, or the fold of the whole log; on a good log the latter.\<close>

lemma rebuild_loop_lands:
  assumes "log_invar l" "\<forall>e\<in>set (log_entries l). me_version e < u64_max"
    and "log_entries l = xs @ ys" "index_folds xs ix"
    and "start = version_after (last_version_of None xs)"
  shows "\<exists>ix'. rebuild_loop log_read_from l ix start = Some ix' \<and>
    (ix' = index_new \<or> index_folds (log_entries l) ix') \<and>
    (good_log l \<longrightarrow> index_folds (log_entries l) ix')"
  using assms(3-5)
proof (induction ys arbitrary: xs ix start rule: length_induct)
  case (1 ys)
  let ?page = "take REBUILD_PAGE_ENTRIES ys" and ?zs = "drop REBUILD_PAGE_ENTRIES ys"
  have clear: "index_clear ix = index_new" by (rule index_folds_clear [OF "1.prems"(2)])
  have split: "log_entries l = (xs @ ?page) @ ?zs" using "1.prems"(1) by simp
  show ?case
  proof (cases "log_read_from l start REBUILD_PAGE_ENTRIES")
    case (Inl e)
    with unreadable [OF Inl] clear show ?thesis by (subst rebuild_loop.simps) simp
  next
    case (Inr page)
    then have page: "page = ?page" using next_page [OF assms(1) "1.prems"(1)] "1.prems"(3) by simp
    show ?thesis
    proof (cases "ys = []")
      case True
      with Inr page "1.prems" show ?thesis by (subst rebuild_loop.simps) simp
    next
      case False
      then have ne: "?page \<noteq> []" by (simp add: page_nonempty(1))
      have below: "me_version (last ?page) < u64_max"
        using ne assms(2) split by (metis UnCI in_set_takeD last_in_set set_append append_take_drop_id)
      show ?thesis
      proof (cases "index_apply ix ?page")
        case (Inl e)
        have "\<not> good_log l"
        proof
          assume "good_log l"
          then obtain full where "index_folds ((xs @ ?page) @ ?zs) full" using split by (auto simp: good_log_def)
          then show False
            using index_folds_prefix index_folds_append [OF "1.prems"(2), of ?page] Inl by fastforce
        qed
        with Inl Inr page ne clear show ?thesis by (subst rebuild_loop.simps) simp
      next
        case ix': (Inr ix')
        have "index_folds (xs @ ?page) ix'" using index_folds_append [OF "1.prems"(2)] ix' by simp
        from "1.IH" [rule_format, OF page_nonempty(2) [OF False] split this refl]
        show ?thesis
          using Inr page ne ix' below
          by (subst rebuild_loop.simps)
            (simp add: version_advance_def version_after_def last_version_of_def)
      qed
    qed
  qed
qed

end

section \<open>Refold\<close>

lemma missing_after:
  assumes "ascending None (ws @ zs)"
  shows "missing_from (last_version_of None ws) ws = []" "missing_from (last_version_of None ws) zs = zs"
proof -
  have asc: "ascending None ws" "ascending (last_version_of None ws) zs"
    using assms by (simp_all add: ascending_append)
  show "missing_from (last_version_of None ws) zs = zs"
    using asc(2) by (auto simp: missing_from_def filter_id_conv ascending_def split: option.split)
  show "missing_from (last_version_of None ws) ws = []"
  proof (cases "last_version_of None ws")
    case None
    then show ?thesis by (simp add: missing_from_def last_version_of_def split: if_splits)
  next
    case (Some v)
    then show ?thesis
      using ascending_last_ge [OF asc(1) _ Some] by (auto simp: missing_from_def filter_empty_conv not_less)
  qed
qed

lemma missing_page:
  assumes "ascending None (ws @ rest)" "ws @ rest = xs @ page @ zs" "length xs \<le> length ws"
  shows "ws @ missing_from (last_version_of None ws) page =
    (if length (xs @ page) \<le> length ws then ws else xs @ page)"
proof -
  let ?m = "missing_from (last_version_of None ws)"
  have app: "?m (us @ vs) = ?m us @ ?m vs" for us vs by (simp add: missing_from_def)
  obtain p1 where p1: "ws = xs @ p1" "p1 @ rest = page @ zs"
    using assms(2,3) by (metis append_eq_append_conv_if append_eq_conv_conj append_take_drop_id)
  have "?m p1 = []" using missing_after(1) [OF assms(1)] p1(1) app by simp
  show ?thesis
  proof (cases "length page \<le> length p1")
    case True
    then obtain p2 where "p1 = page @ p2" using p1(2) by (metis append_eq_append_conv_if append_eq_conv_conj)
    with \<open>?m p1 = []\<close> app True p1(1) show ?thesis by simp
  next
    case False
    then obtain p2 where p2: "page = p1 @ p2" "rest = p2 @ zs"
      using p1(2) by (auto simp: append_eq_append_conv2)
    have "?m (p2 @ zs) = p2 @ zs" using missing_after(2) [OF assms(1)] p2(2) by simp
    then have "?m p2 = p2" unfolding missing_from_def filter_id_conv by simp
    with \<open>?m p1 = []\<close> app False p1(1) p2(1) show ?thesis by simp
  qed
qed

definition alloc_folds :: "metadata_entry list \<Rightarrow> folded \<Rightarrow> bool" where
  "alloc_folds xs acc \<longleftrightarrow>
     alloc_run allocator_new xs = Inr (fst acc) \<and> snd acc = last_version_of None xs"

context metadata_log
begin

lemma good_prefix_replays:
  assumes "good_log l" "log_entries l = xs @ page @ zs" "alloc_folds xs acc"
  obtains a' where "replay_page (fst acc) page = (Inr (), a')"
proof -
  obtain full where "index_folds (xs @ page @ zs) full" using assms(1,2) by (auto simp: good_log_def)
  then obtain ix where ix: "index_folds xs ix" using index_folds_prefix by blast
  with assms(3) have "both_fold xs acc ix" by (simp add: both_fold_def alloc_folds_def)
  from good_page(1) [OF assms(1,2) this] show ?thesis using that by blast
qed

lemma good_prefix_folds:
  assumes "good_log l" "log_entries l = xs @ zs"
  obtains ix where "index_folds xs ix"
  using assms index_folds_prefix [of xs zs] unfolding good_log_def by metis

text \<open>The index may be ahead of the allocator during a refold, never behind it.\<close>

definition refold_at ::
  "'l \<Rightarrow> metadata_entry list \<Rightarrow> metadata_entry list \<Rightarrow> folded \<Rightarrow> index_state \<Rightarrow> bool" where
  "refold_at l base xs acc ix \<longleftrightarrow>
     alloc_folds xs acc \<and>
     (\<exists>grown rest. log_entries l = (base @ grown) @ rest \<and> length xs \<le> length (base @ grown) \<and>
        index_folds (base @ grown) ix)"

definition refold_lands ::
  "'l \<Rightarrow> metadata_entry list \<Rightarrow> ((unit + folded) \<times> index_state) option \<Rightarrow> bool" where
  "refold_lands l base out \<longleftrightarrow>
     (\<exists>r ix grown rest. out = Some (r, ix) \<and> log_entries l = (base @ grown) @ rest \<and>
        index_folds (base @ grown) ix \<and> (\<forall>acc. r = Inr acc \<longrightarrow> both_fold (log_entries l) acc ix) \<and> (good_log l \<longrightarrow> is_ok r))"

lemma refold_turn:
  assumes l: "log_invar l" and log: "log_entries l = xs @ page @ zs" and pre: "refold_at l base xs acc ix"
    and page: "page \<noteq> []" "log_read_from l start REBUILD_PAGE_ENTRIES = Inr page"
  shows "refold_lands l base (refold log_read_from l acc start ix) \<or>
    (\<exists>acc' ix'. refold_at l base (xs @ page) acc' ix' \<and> refold log_read_from l acc start ix =
       refold log_read_from l acc' (version_after (last_version_of None (xs @ page))) ix')"
proof -
  let ?tail = "me_version (last page)" and ?missing = "missing_from (ix_applied ix) page"
  from pre obtain grown rest where gr: "log_entries l = (base @ grown) @ rest"
    "length xs \<le> length (base @ grown)" "index_folds (base @ grown) ix"
    and acc: "alloc_folds xs acc" unfolding refold_at_def by blast
  define ws where "ws = base @ grown"
  note ws = gr [folded ws_def]
  define to where "to = ws @ ?missing"
  have to: "to = (if length (xs @ page) \<le> length ws then ws else xs @ page)"
    unfolding to_def index_folds_upto [OF ws(3)]
    by (rule missing_page [of ws rest xs page zs]) (use entries_ascending [OF l] ws log in simp_all)
  have len: "length (xs @ page) \<le> length to" by (simp add: to)
  have base: "\<exists>grown. to = base @ grown" by (simp add: to_def ws_def)
  have prefix: "\<exists>more. log_entries l = to @ more"
    by (cases "length (xs @ page) \<le> length ws") (use ws(1) log in \<open>auto simp: to intro: exI [of _ zs]\<close>)
  have apply_iff: "index_apply ix ?missing = Inr ix' \<longleftrightarrow> index_folds to ix'" for ix'
    using index_folds_append [OF ws(3)] by (simp add: to_def)
  have stop: "refold_lands l base (refold log_read_from l acc start ix)"
    if "refold log_read_from l acc start ix = Some (Inl (), ix')" "index_folds us ix'"
      "log_entries l = us @ vs" "\<exists>grown. us = base @ grown" "\<not> good_log l" for ix' us vs
    using that unfolding refold_lands_def by (metis Inl_Inr_False)
  obtain r a' where rp: "replay_page (fst acc) page = (r, a')" by fastforce
  consider (replay) e where "r = Inl e" | (refused) e where "r = Inr ()" "index_apply ix ?missing = Inl e"
    | (folded) ix' where "r = Inr ()" "index_apply ix ?missing = Inr ix'"
    by (cases r; cases "index_apply ix ?missing") auto
  then show ?thesis
  proof cases
    case replay
    then have "\<not> good_log l" using good_prefix_replays [OF _ log acc] rp by (metis Inl_Inr_False prod.inject)
    moreover have "refold log_read_from l acc start ix = Some (Inl (), ix)"
      using replay rp page by (subst refold.simps) (simp add: Let_def)
    ultimately show ?thesis using stop ws(1,3) ws_def by blast
  next
    case refused
    then have "\<not> good_log l"
      using prefix good_prefix_folds apply_iff by (metis Inl_Inr_False)
    moreover have "refold log_read_from l acc start ix = Some (Inl (), ix)"
      using refused rp page by (subst refold.simps) (simp add: Let_def)
    ultimately show ?thesis using stop ws(1,3) ws_def by blast
  next
    case folded
    then have fx: "index_folds to ix'" using apply_iff by simp
    have turn: "refold log_read_from l acc start ix =
        (case version_advance ?tail 1 of
           Inl _ \<Rightarrow> Some (Inl (), ix')
         | Inr nxt \<Rightarrow> refold log_read_from l (a', Some ?tail) nxt ix')"
      using folded rp page by (subst refold.simps) (simp add: Let_def)
    have at: "refold_at l base (xs @ page) (a', Some ?tail) ix'"
    proof -
      have "alloc_folds (xs @ page) (a', Some ?tail)"
        using acc rp folded(1) page(1)
        by (simp add: alloc_folds_def replay_page_iff alloc_run_append) (simp add: last_version_of_def)
      with fx len prefix base show ?thesis unfolding refold_at_def by metis
    qed
    show ?thesis
    proof (cases "version_advance ?tail 1")
      case (Inl e)
      then have "\<not> good_log l" using good_advances [OF _ log page(1)] by auto
      with turn Inl stop fx prefix base show ?thesis by auto
    next
      case (Inr nxt)
      with turn at page_advances [OF Inr page(1), of xs] show ?thesis by auto
    qed
  qed
qed

lemma refold_loop_lands:
  assumes l: "log_invar l" and "log_entries l = xs @ ys" "refold_at l base xs acc ix"
    and "start = version_after (last_version_of None xs)"
  shows "refold_lands l base (refold log_read_from l acc start ix)"
  using assms(2-4)
proof (induction ys arbitrary: xs acc ix start rule: length_induct)
  case (1 ys)
  let ?page = "take REBUILD_PAGE_ENTRIES ys" and ?zs = "drop REBUILD_PAGE_ENTRIES ys"
  from "1.prems"(2) obtain grown rest where ws: "log_entries l = (base @ grown) @ rest"
    "length xs \<le> length (base @ grown)" "index_folds (base @ grown) ix"
    and acc: "alloc_folds xs acc" unfolding refold_at_def by blast
  show ?case
  proof (cases "log_read_from l start REBUILD_PAGE_ENTRIES")
    case (Inl e)
    then have "refold log_read_from l acc start ix = Some (Inl (), ix)" by (subst refold.simps) simp
    with unreadable [OF Inl] ws(1,3) show ?thesis unfolding refold_lands_def by blast
  next
    case (Inr page)
    then have page: "page = ?page" using next_page [OF l "1.prems"(1)] "1.prems"(3) by simp
    show ?thesis
    proof (cases "ys = []")
      case True
      then have "base @ grown = xs" "rest = []" using ws(1,2) "1.prems"(1) by auto
      moreover have "refold log_read_from l acc start ix = Some (Inr acc, ix)"
        using Inr page True by (subst refold.simps) simp
      ultimately show ?thesis
        using ws acc unfolding refold_lands_def both_fold_def alloc_folds_def
        by (metis Inr_inject append_Nil2 is_ok_simps(2))
    next
      case False
      then have ne: "?page \<noteq> []" by (simp add: page_nonempty(1))
      have split: "log_entries l = xs @ ?page @ ?zs" "log_entries l = (xs @ ?page) @ ?zs"
        using "1.prems"(1) by simp_all
      note IH = "1.IH" [rule_format, OF page_nonempty(2) [OF False] split(2) _ refl]
      from refold_turn [OF l split(1) "1.prems"(2) ne Inr [unfolded page]] show ?thesis
      proof (elim disjE exE conjE)
        fix acc' ix' assume "refold_at l base (xs @ ?page) acc' ix'"
        from IH [OF this] show ?thesis if "refold log_read_from l acc start ix =
            refold log_read_from l acc' (version_after (last_version_of None (xs @ ?page))) ix'"
          unfolding that .
      qed
    qed
  qed
qed

end

section \<open>The standby\<close>

abbreviation sb_line :: "standby \<Rightarrow> folded" where
  "sb_line sb \<equiv> (sb_allocator sb, sb_last sb)"

context metadata_log
begin

text \<open>Catch-up counts the entries it folds, and on success both folds are those of the whole log.\<close>

definition standby_lands :: "'l \<Rightarrow> nat \<Rightarrow> ((coordinator_error + nat) \<times> standby) option \<Rightarrow> bool" where
  "standby_lands l want out \<longleftrightarrow>
     (\<exists>r sb. out = Some (r, sb) \<and>
        (\<forall>n. r = Inr n \<longrightarrow> n = want \<and> both_fold (log_entries l) (sb_line sb) (sb_index sb)) \<and>
        (good_log l \<longrightarrow> is_ok r))"

lemma standby_turn:
  assumes l: "log_invar l" and log: "log_entries l = xs @ page @ zs"
    and pre: "both_fold xs (sb_line sb) (sb_index sb)"
    and start: "(case sb_last sb of None \<Rightarrow> Inr 0
                 | Some lst \<Rightarrow> map_errR (Unreplayable lst) (version_advance lst 1)) = Inr start"
    and page: "page \<noteq> []" "log_read_from l start REBUILD_PAGE_ENTRIES = Inr page"
  shows "(\<exists>e sb'. standby_loop log_read_from l n sb = Some (Inl e, sb') \<and> \<not> good_log l) \<or>
    (\<exists>sb'. both_fold (xs @ page) (sb_line sb') (sb_index sb') \<and>
       standby_loop log_read_from l n sb = standby_loop log_read_from l (n + length page) sb')"
proof -
  note good = good_page [OF _ log pre]
  obtain r a' where rp: "replay_page (sb_allocator sb) page = (r, a')" by fastforce
  consider (replay) v e where "r = Inl (v, e)"
    | (refused) e where "r = Inr ()" "index_apply (sb_index sb) page = Inl e"
    | (folded) ix' where "r = Inr ()" "index_apply (sb_index sb) page = Inr ix'"
    by (cases r; cases "index_apply (sb_index sb) page") auto
  then show ?thesis
  proof cases
    case replay
    then show ?thesis
      using good(1) rp start page by (subst standby_loop.simps) auto
  next
    case refused
    then show ?thesis
      using good(2) rp start page by (subst standby_loop.simps) auto
  next
    case folded
    have "both_fold (xs @ page) (a', Some (me_version (last page))) ix'"
      using both_fold_page [OF pre page(1)] rp folded by simp
    then show ?thesis
      using rp start page folded
      by (intro disjI2 exI [of _ "\<lparr>sb_allocator = a', sb_index = ix', sb_last = Some (me_version (last page))\<rparr>"])
        (subst standby_loop.simps, simp)
  qed
qed

lemma standby_loop_lands:
  assumes l: "log_invar l" and "log_entries l = xs @ ys" "both_fold xs (sb_line sb) (sb_index sb)"
  shows "standby_lands l (n + length ys) (standby_loop log_read_from l n sb)"
  using assms(2,3)
proof (induction ys arbitrary: xs sb n rule: length_induct)
  case (1 ys)
  let ?page = "take REBUILD_PAGE_ENTRIES ys" and ?zs = "drop REBUILD_PAGE_ENTRIES ys"
  let ?start = "case sb_last sb of None \<Rightarrow> Inr 0
                 | Some lst \<Rightarrow> map_errR (Unreplayable lst) (version_advance lst 1)"
  have lst: "sb_last sb = last_version_of None xs" using "1.prems"(2) by (simp add: both_fold_def)
  show ?case
  proof (cases ?start)
    case (Inl e)
    then have "xs \<noteq> []" "version_advance (me_version (last xs)) 1 \<noteq> Inr (me_version (last xs) + 1)"
      using lst by (auto simp: last_version_of_def split: if_splits)
    then have "\<not> good_log l" using good_advances [of l "[]" xs ys] "1.prems"(1) by auto
    with Inl show ?thesis by (subst standby_loop.simps) (simp add: standby_lands_def)
  next
    case start: (Inr start)
    then have start_eq: "start = version_after (last_version_of None xs)"
      using lst by (auto simp: version_after_def version_advance_Inr_iff split: option.splits)
    show ?thesis
    proof (cases "log_read_from l start REBUILD_PAGE_ENTRIES")
      case (Inl e)
      with start unreadable [OF Inl] show ?thesis
        by (subst standby_loop.simps) (simp add: standby_lands_def)
    next
      case (Inr page)
      then have page: "page = ?page" using next_page [OF l "1.prems"(1)] start_eq by simp
      show ?thesis
      proof (cases "ys = []")
        case True
        with start Inr page "1.prems" show ?thesis
          by (subst standby_loop.simps) (simp add: standby_lands_def)
      next
        case False
        then have ne: "?page \<noteq> []" by (simp add: page_nonempty(1))
        have split: "log_entries l = xs @ ?page @ ?zs" "log_entries l = (xs @ ?page) @ ?zs"
          using "1.prems"(1) by simp_all
        have total: "n + length ?page + length ?zs = n + length ys" by simp
        from standby_turn [OF l split(1) "1.prems"(2) start ne Inr [unfolded page], of n] show ?thesis
        proof (elim disjE exE conjE)
          fix e sb' assume "standby_loop log_read_from l n sb = Some (Inl e, sb')" "\<not> good_log l"
          then show ?thesis by (simp add: standby_lands_def)
        next
          fix sb' assume "both_fold (xs @ ?page) (sb_line sb') (sb_index sb')"
            "standby_loop log_read_from l n sb = standby_loop log_read_from l (n + length ?page) sb'"
          then show ?thesis
            using "1.IH" page_nonempty(2) [OF False] split(2) total by metis
        qed
      qed
    qed
  qed
qed

end

end
