(* ===== verification/Coordinator_Invariant.thy ===== *)
theory Coordinator_Invariant
  imports Coordinator_Replay
begin

text \<open>
  The coordinator's invariant: the log folds, the index is the fold of a prefix of it, the allocator
  is the replay of a prefix of it, and the published version is never above what the index holds.
  Every request keeps it, over any log that keeps its seam's contract, with any answers from the
  lease, the clock and the reopener.
\<close>

section \<open>The invariant\<close>

definition log_ok :: "('l \<Rightarrow> metadata_entry list) \<Rightarrow> ('l \<Rightarrow> bool) \<Rightarrow> 'l \<Rightarrow> bool" where
  "log_ok entries_of invar l \<longleftrightarrow>
     invar l \<and> (\<forall>e\<in>set (entries_of l). me_version e < u64_max) \<and> (\<exists>ix. index_folds (entries_of l) ix)"

definition folds_prefix :: "metadata_entry list \<Rightarrow> index_state \<Rightarrow> bool" where
  "folds_prefix es ix \<longleftrightarrow> (\<exists>ws rest. es = ws @ rest \<and> index_folds ws ix)"

definition replays_prefix :: "metadata_entry list \<Rightarrow> folded \<Rightarrow> bool" where
  "replays_prefix es acc \<longleftrightarrow> (\<exists>xs rest. es = xs @ rest \<and> alloc_folds xs acc)"

definition published_ok :: "commit_version option \<Rightarrow> index_state \<Rightarrow> bool" where
  "published_ok published ix \<longleftrightarrow>
     (case published of None \<Rightarrow> True | Some v \<Rightarrow> \<exists>a. ix_applied ix = Some a \<and> v \<le> a)"

abbreviation co_line :: "'l coordinator \<Rightarrow> folded" where
  "co_line c \<equiv> (co_allocator c, co_last_committed c)"

definition co_inv :: "('l \<Rightarrow> metadata_entry list) \<Rightarrow> ('l \<Rightarrow> bool) \<Rightarrow> 'l coordinator \<Rightarrow> bool" where
  "co_inv entries_of invar c \<longleftrightarrow>
     log_ok entries_of invar (co_log c) \<and> published_ok (co_published c) (co_index c) \<and>
     (if co_pending_replay c then ix_quota (co_index c) = None \<and> co_published c = None
      else replays_prefix (entries_of (co_log c)) (co_line c) \<and>
           (\<exists>es. index_folds es (co_index c)) \<and>
           (co_lease c \<and> co_reopen c \<or> folds_prefix (entries_of (co_log c)) (co_index c)))"

text \<open>A coordinator that may write: what its index holds is a prefix of the log it writes to.  A
  refold that failed part-way leaves an index ahead of that log, and then the next write refolds.\<close>

definition co_ready :: "('l \<Rightarrow> metadata_entry list) \<Rightarrow> ('l \<Rightarrow> bool) \<Rightarrow> 'l coordinator \<Rightarrow> bool" where
  "co_ready entries_of invar c \<longleftrightarrow>
     co_inv entries_of invar c \<and> \<not> co_pending_replay c \<and>
     folds_prefix (entries_of (co_log c)) (co_index c)"

text \<open>What the lease and the reopener promise: a reopened view is a log that what the index has
  folded is a prefix of, and under an unchanged term no one else has written, so that the log at hand
  still is one.\<close>

definition env_ok :: "('l \<Rightarrow> metadata_entry list) \<Rightarrow> ('l \<Rightarrow> bool) \<Rightarrow> 'l env \<Rightarrow> 'l coordinator \<Rightarrow> bool" where
  "env_ok entries_of invar env c \<longleftrightarrow>
     (case env_reopened env of
        Inl _ \<Rightarrow> True
      | Inr l \<Rightarrow> log_ok entries_of invar l \<and>
          (if co_pending_replay c then \<exists>rest. entries_of l = entries_of (co_log c) @ rest
           else folds_prefix (entries_of l) (co_index c))) \<and>
     (env_term env \<noteq> None \<and> env_term env = co_replayed_term c \<longrightarrow>
        co_pending_replay c \<or> folds_prefix (entries_of (co_log c)) (co_index c))"

fun request_ok :: "request \<Rightarrow> bool" where
  "request_ok (CommitRequest object spans) \<longleftrightarrow> (\<forall>sp\<in>set spans. 0 < cs_count sp)"
| "request_ok _ \<longleftrightarrow> True"

lemma published_ok_simps [simp]: "published_ok None ix" "published_ok (ix_applied ix) ix"
  by (auto simp: published_ok_def split: option.split)

lemma published_ok_mono:
  assumes "published_ok v ix" "index_folds ws ix" "index_folds us ix'" "us = ws @ ext"
  shows "published_ok v ix'"
proof (cases v)
  case (Some n)
  with assms(1) obtain a where a: "ix_applied ix = Some a" "n \<le> a" by (auto simp: published_ok_def)
  have asc: "ascending None us"
    using memory.apply_ordered [OF new_ok] assms(3) by (auto simp: index_folds_def index_new_def)
  from a(1) have "last_version_of None ws = Some a" using index_folds_upto [OF assms(2)] by simp
  then have e: "last ws \<in> set us" "me_version (last ws) = a"
    using assms(4) by (auto simp: last_version_of_def split: if_splits)
  then have b: "last_version_of None us = Some (me_version (last us))" by (auto simp: last_version_of_def)
  with ascending_last_ge [OF asc e(1) b] e(2) a(2) Some index_folds_upto [OF assms(3)]
  show ?thesis by (auto simp: published_ok_def)
qed simp

lemma folds_prefix_quota: "folds_prefix es ix \<Longrightarrow> ix_quota ix = None"
  using index_folds_ok by (auto simp: folds_prefix_def)

lemma folds_prefix_whole: "index_folds es ix \<Longrightarrow> folds_prefix es ix"
  unfolding folds_prefix_def by (intro exI [of _ es] exI [of _ "[]"]) simp

lemma folds_prefix_new: "folds_prefix es index_new"
  unfolding folds_prefix_def by (intro exI [of _ "[]"] exI [of _ es]) simp

lemma folds_prefix_append: "folds_prefix es ix \<Longrightarrow> folds_prefix (es @ fs) ix"
  unfolding folds_prefix_def by (metis append.assoc)

lemma replays_prefix_append: "replays_prefix es acc \<Longrightarrow> replays_prefix (es @ fs) acc"
  unfolding replays_prefix_def by (metis append.assoc)

lemma replays_prefix_whole: "alloc_folds es acc \<Longrightarrow> replays_prefix es acc"
  unfolding replays_prefix_def by (intro exI [of _ es] exI [of _ "[]"]) simp

lemma both_fold_iff: "both_fold es acc ix \<longleftrightarrow> index_folds es ix \<and> alloc_folds es acc"
  by (auto simp: both_fold_def alloc_folds_def)

lemma alloc_folds_step:
  assumes "index_folds xs ix" "\<forall>e\<in>set xs. me_version e < u64_max" "alloc_folds xs acc"
  shows "in_step (fst acc) ix"
  using replay_follows_log [OF _ _ in_step_new, of xs ix] assms new_ok
  by (auto simp: index_folds_def alloc_folds_def)

text \<open>A prefix whose next version is past the whole log is the whole log.\<close>

lemma prefix_is_whole:
  assumes "ascending None (xs @ rest)" "ascending (last_version_of None (xs @ rest)) [e]"
    and "me_version e = version_after (last_version_of None xs)"
  shows "rest = []"
proof (rule ccontr)
  assume ne: "rest \<noteq> []"
  then have last: "last_version_of None (xs @ rest) = Some (me_version (last rest))"
    by (simp add: last_version_of_def)
  with assms(2) have "me_version (last rest) < me_version e" by (simp add: ascending_Cons)
  moreover have "version_after (last_version_of None xs) \<le> me_version (last rest)"
  proof (cases "last_version_of None xs")
    case (Some v)
    have "ascending (Some v) rest" using assms(1) Some by (simp add: ascending_append)
    then have "v < me_version (last rest)" using ne by (simp add: ascending_def)
    with Some show ?thesis by (simp add: version_after_def)
  qed (simp add: version_after_def)
  ultimately show False using assms(3) by simp
qed

section \<open>Replaying keeps it\<close>

context metadata_log
begin

abbreviation co_ok :: "'l coordinator \<Rightarrow> bool" where
  "co_ok \<equiv> co_inv log_entries log_invar"

abbreviation ready :: "'l coordinator \<Rightarrow> bool" where
  "ready \<equiv> co_ready log_entries log_invar"

lemma readyD:
  assumes "ready c"
  shows "log_invar (co_log c)" "\<forall>e\<in>set (log_entries (co_log c)). me_version e < u64_max"
    "folds_prefix (log_entries (co_log c)) (co_index c)"
    "replays_prefix (log_entries (co_log c)) (co_line c)"
    "\<exists>ix. index_folds (log_entries (co_log c)) ix" "published_ok (co_published c) (co_index c)"
    "\<not> co_pending_replay c"
  using assms by (simp_all add: co_ready_def co_inv_def log_ok_def)

lemma try_replay_keeps:
  assumes "co_ok c"
  shows "\<exists>b c'. try_replay log_read_from c = Some (b, c') \<and> co_ok c' \<and> co_log c' = co_log c \<and>
    co_lease c' = co_lease c \<and> co_reopen c' = co_reopen c \<and> co_replayed_term c' = co_replayed_term c \<and>
    (b \<longrightarrow> \<not> co_pending_replay c') \<and>
    (if co_pending_replay c then b \<longrightarrow> index_folds (log_entries (co_log c)) (co_index c') else c' = c)"
proof (cases "co_pending_replay c")
  case False
  with assms show ?thesis by (auto simp: try_replay_def)
next
  case True
  with assms have q: "ix_quota (co_index c) = None" "co_published c = None" "log_invar (co_log c)"
    by (simp_all add: co_inv_def log_ok_def)
  from replay_returns [OF q(3,1)] obtain r ix' where
    r: "replay log_read_from (co_log c) (co_index c) = Some (r, ix')"
    "\<forall>acc. r = Inr acc \<longrightarrow> both_fold (log_entries (co_log c)) acc ix'"
    "\<forall>e. r = Inl e \<longrightarrow> ix' = index_new \<or> ix' = co_index c" by blast
  show ?thesis
  proof (cases r)
    case (Inl e)
    with r(3) q(1) have "ix_quota ix' = None" by (auto simp: new_ok)
    then have "co_ok (c\<lparr>co_index := ix'\<rparr>)" using True assms q(2) by (simp add: co_inv_def)
    with Inl r(1) True show ?thesis by (auto simp: try_replay_def)
  next
    case (Inr acc)
    with r(2) have "both_fold (log_entries (co_log c)) acc ix'" by blast
    with Inr r(1) True assms show ?thesis
      by (cases acc) (auto simp: try_replay_def co_inv_def publish_applied_def both_fold_iff
          folds_prefix_whole replays_prefix_whole)
  qed
qed

text \<open>A refold never moves the index back.\<close>

lemma refold_grows:
  assumes "log_invar l" "folds_prefix (log_entries l) ix" "published_ok v ix"
  shows "\<exists>r ix'. refold log_read_from l (allocator_new, None) 0 ix = Some (r, ix') \<and>
    (\<exists>es. index_folds es ix') \<and> published_ok v ix' \<and>
    (\<forall>acc. r = Inr acc \<longrightarrow> both_fold (log_entries l) acc ix') \<and> (good_log l \<longrightarrow> is_ok r)"
proof -
  from assms(2) obtain ws rest where ws: "log_entries l = ws @ rest" "index_folds ws ix"
    by (auto simp: folds_prefix_def)
  have "refold_at l ws [] (allocator_new, None) ix"
    using ws by (auto simp: refold_at_def alloc_folds_def intro: exI [of _ "[]"])
  from refold_loop_lands [OF assms(1) _ this, of "log_entries l" 0]
  obtain r ix' us more' rest' where
    r: "refold log_read_from l (allocator_new, None) 0 ix = Some (r, ix')"
    "index_folds us ix'" "us = ws @ more'" "\<forall>acc. r = Inr acc \<longrightarrow> both_fold (log_entries l) acc ix'"
    "good_log l \<longrightarrow> is_ok r"
    by (auto simp: version_after_def refold_lands_def)
  with published_ok_mono [OF assms(3) ws(2) r(2,3)] show ?thesis by blast
qed

lemma current_for_term_keeps:
  assumes "co_ok c" "\<not> co_pending_replay c" "env_ok log_entries log_invar env c"
  shows "\<exists>b c'. current_for_term log_read_from env c = Some (b, c') \<and> co_ok c' \<and>
    co_lease c' = co_lease c \<and> (b \<longrightarrow> ready c') \<and>
    (co_log c' = co_log c \<or> env_reopened env = Inr (co_log c'))"
proof (cases "\<not> co_lease c \<or> \<not> co_reopen c \<or> env_term env \<noteq> None \<and> env_term env = co_replayed_term c")
  case True
  have "co_lease c \<and> co_reopen c \<or> folds_prefix (log_entries (co_log c)) (co_index c)"
    using assms(1,2) by (simp add: co_inv_def)
  moreover have "env_term env \<noteq> None \<and> env_term env = co_replayed_term c \<longrightarrow>
      folds_prefix (log_entries (co_log c)) (co_index c)"
    using assms(2,3) unfolding env_ok_def by blast
  ultimately have "ready c" using True assms(1,2) unfolding co_ready_def by blast
  moreover have "current_for_term log_read_from env c = Some (True, c)"
    using True by (auto simp: current_for_term_def)
  ultimately show ?thesis using assms(1) by blast
next
  case stale: False
  show ?thesis
  proof (cases "env_reopened env")
    case (Inl e)
    with stale have "current_for_term log_read_from env c = Some (False, c)"
      by (auto simp: current_for_term_def)
    with assms(1) show ?thesis by blast
  next
    case (Inr l)
    with assms(2,3) have l: "log_ok log_entries log_invar l" "folds_prefix (log_entries l) (co_index c)"
      by (auto simp: env_ok_def)
    have pub: "published_ok (co_published c) (co_index c)" using assms(1) by (simp add: co_inv_def)
    from refold_grows [OF _ l(2) pub] l(1) obtain r ix es where
      r: "refold log_read_from l (allocator_new, None) 0 (co_index c) = Some (r, ix)"
      "index_folds es ix" "published_ok (co_published c) ix"
      "\<forall>acc. r = Inr acc \<longrightarrow> both_fold (log_entries l) acc ix"
      by (auto simp: log_ok_def)
    show ?thesis
    proof (cases r)
      case (Inl u)
      have "co_ok (c\<lparr>co_index := ix\<rparr>)" using stale r(2,3) assms(1,2) by (auto simp: co_inv_def)
      moreover have "current_for_term log_read_from env c = Some (False, c\<lparr>co_index := ix\<rparr>)"
        using stale \<open>env_reopened env = Inr l\<close> r(1) Inl by (auto simp: current_for_term_def)
      ultimately show ?thesis by auto
    next
      case (Inr acc)
      with r(4) have fold: "both_fold (log_entries l) acc ix" by blast
      define c' where "c' = publish_applied (c\<lparr>co_log := l, co_index := ix, co_allocator := fst acc,
        co_last_committed := snd acc, co_replayed_term := env_term env\<rparr>)"
      have fields: "co_log c' = l" "co_index c' = ix" "co_line c' = acc" "co_published c' = ix_applied ix"
        "co_pending_replay c' = co_pending_replay c" "co_lease c' = co_lease c"
        by (simp_all add: c'_def publish_applied_def)
      have "ready c'"
        using fold l(1) assms(2) r(2)
        by (simp add: co_ready_def co_inv_def fields both_fold_iff folds_prefix_whole replays_prefix_whole)
          blast
      moreover have "current_for_term log_read_from env c = Some (True, c')"
        using stale \<open>env_reopened env = Inr l\<close> r(1) Inr
        by (cases acc) (auto simp: current_for_term_def c'_def)
      ultimately show ?thesis
        using fields \<open>env_reopened env = Inr l\<close> by (auto simp: co_ready_def)
    qed
  qed
qed

lemma may_write_keeps:
  assumes "co_ok c" "env_ok log_entries log_invar env c"
  shows "\<exists>r c'. may_write log_read_from env c = Some (r, c') \<and> co_ok c' \<and> co_lease c' = co_lease c \<and>
    (is_ok r \<longrightarrow> ready c' \<and> (co_lease c \<longrightarrow> env_held_at_admission env)) \<and>
    (\<forall>e. r = Inl e \<longrightarrow> e = Unavailable \<or> e = Fenced) \<and>
    (co_log c' = co_log c \<or> env_reopened env = Inr (co_log c'))"
proof -
  from try_replay_keeps [OF assms(1)] obtain b c1 where
    c1: "try_replay log_read_from c = Some (b, c1)" "co_ok c1" "co_log c1 = co_log c"
    "co_lease c1 = co_lease c" "co_replayed_term c1 = co_replayed_term c"
    "b \<longrightarrow> \<not> co_pending_replay c1"
    "if co_pending_replay c then b \<longrightarrow> index_folds (log_entries (co_log c)) (co_index c1) else c1 = c"
    by blast
  show ?thesis
  proof (cases "b \<and> leads c1 (env_held_at_admission env)")
    case False
    with c1(1-4) show ?thesis by (cases b) (auto simp: may_write_def)
  next
    case True
    have "env_ok log_entries log_invar env c1"
      using assms(2) c1(3,5,6,7) True
      by (auto simp: env_ok_def folds_prefix_whole folds_prefix_append split: sum.splits if_splits)
    from current_for_term_keeps [OF c1(2) _ this] True c1(6) obtain b' c2 where
      "current_for_term log_read_from env c1 = Some (b', c2)" "co_ok c2" "co_lease c2 = co_lease c1"
      "b' \<longrightarrow> ready c2" "co_log c2 = co_log c1 \<or> env_reopened env = Inr (co_log c2)"
      by blast
    with True c1(1,3,4) show ?thesis by (cases b') (auto simp: may_write_def leads_def)
  qed
qed

end

section \<open>Taking a position\<close>

context metadata_log
begin

text \<open>Publishing leaves an empty index or the fold of the whole log; the latter if the index held the
  log before the entry, or the log can be read.\<close>

lemma publish_lands:
  assumes l: "log_invar (co_log c)" "\<forall>e\<in>set (log_entries (co_log c)). me_version e < u64_max"
    and log: "log_entries (co_log c) = es @ [entry]" "index_folds (es @ [entry]) full"
    and entry: "me_version entry = version_after (last_version_of None es)"
    and ix: "folds_prefix es (co_index c)"
  shows "\<exists>ix. publish log_read_from c entry =
      Some (c\<lparr>co_index := ix, co_published := ix_applied ix, co_deltas := co_deltas c @ [entry]\<rparr>) \<and>
    (ix = index_new \<or> index_folds (es @ [entry]) ix) \<and>
    (index_folds es (co_index c) \<or> good_log (co_log c) \<longrightarrow> index_folds (es @ [entry]) ix)"
proof -
  from ix obtain ws rest where ws: "es = ws @ rest" "index_folds ws (co_index c)"
    by (auto simp: folds_prefix_def)
  note upto = index_folds_upto [OF ws(2)]
  have asc: "ascending None (es @ [entry])" using entries_ascending [OF l(1)] log(1) by simp
  have below: "me_version entry < u64_max" using l(2) log(1) by simp
  show ?thesis
  proof (cases "index_precedes (co_index c) (me_version entry)")
    case True
    then have "me_version entry = version_after (last_version_of None ws)"
      by (auto simp: index_precedes_def upto version_after_def version_advance_Inr_iff split: option.splits)
    with prefix_is_whole [of ws rest entry] asc ws(1) have "rest = []"
      by (simp add: ascending_append)
    then have whole: "index_folds es (co_index c)" using ws by simp
    then have "index_apply (co_index c) [entry] = Inr full"
      using index_folds_append log(2) by blast
    with True log(2) show ?thesis by (auto simp: publish_def publish_applied_def Let_def)
  next
    case False
    have "\<not> index_folds es (co_index c)"
    proof
      assume "index_folds es (co_index c)"
      from index_folds_upto [OF this] False entry below show False
        by (auto simp: index_precedes_def version_after_def version_advance_def split: option.splits)
    qed
    moreover have "index_clear (co_index c) = index_new" by (rule index_folds_clear [OF ws(2)])
    moreover from rebuild_loop_lands [OF l, of "[]" "es @ [entry]" index_new 0] log(1) obtain ix' where
      "rebuild_loop log_read_from (co_log c) index_new 0 = Some ix'"
      "ix' = index_new \<or> index_folds (es @ [entry]) ix'"
      "good_log (co_log c) \<longrightarrow> index_folds (es @ [entry]) ix'"
      by (auto simp: version_after_def)
    ultimately show ?thesis
      using False by (auto simp: publish_def publish_applied_def rebuild_def Let_def)
  qed
qed

text \<open>What a coordinator that took a position for a staged entry looks like.\<close>

definition took_position :: "'l env \<Rightarrow> 'l coordinator \<Rightarrow> staged_commit \<Rightarrow> 'l coordinator \<Rightarrow> bool" where
  "took_position env c st c' \<longleftrightarrow>
     log_entries (co_log c') = log_entries (co_log c) @ [sc_entry st] \<and>
     alloc_folds (log_entries (co_log c)) (co_line c) \<and>
     alloc_folds (log_entries (co_log c')) (co_line c') \<and>
     co_allocator c' = snd (alloc_apply (co_allocator c) st) \<and>
     co_last_committed c' = Some (me_version (sc_entry st)) \<and>
     co_deltas c' = co_deltas c @ [sc_entry st] \<and> co_epoch c' = co_epoch c \<and>
     co_published c' = ix_applied (co_index c') \<and>
     (co_index c' = index_new \<or> index_folds (log_entries (co_log c')) (co_index c')) \<and>
     (index_folds (log_entries (co_log c)) (co_index c) \<or> good_log (co_log c') \<longrightarrow>
        index_folds (log_entries (co_log c')) (co_index c')) \<and>
     (co_lease c \<longrightarrow> env_held_at_journal env \<and> env_held_after_append env)"

text \<open>What a refusal leaves: everything but the log handle and the term as it was, and the log
  unchanged, unless the lease lapsed while the append was under way.\<close>

definition refused_position :: "'l env \<Rightarrow> 'l coordinator \<Rightarrow> staged_commit \<Rightarrow> coordinator_error \<Rightarrow> 'l coordinator \<Rightarrow> bool" where
  "refused_position env c st e c' \<longleftrightarrow>
     c' = c\<lparr>co_log := co_log c', co_replayed_term := co_replayed_term c'\<rparr> \<and>
     (log_entries (co_log c') = log_entries (co_log c) \<or>
      e = Fenced \<and> co_lease c \<and> \<not> env_held_after_append env \<and> co_replayed_term c' = None \<and>
      log_entries (co_log c') = log_entries (co_log c) @ [sc_entry st])"

lemma append_folds:
  assumes "ready c" "staged_by (co_allocator c) st" "log_append (co_log c) [sc_entry st] = (Inr u, l')"
  obtains full where "log_entries l' = log_entries (co_log c) @ [sc_entry st]" "log_invar l'"
    "\<forall>e\<in>set (log_entries l'). me_version e < u64_max"
    "alloc_folds (log_entries (co_log c)) (co_line c)" "index_folds (log_entries l') full"
    "alloc_folds (log_entries l') (snd (alloc_apply (co_allocator c) st), Some (me_version (sc_entry st)))"
    "me_version (sc_entry st) = version_after (last_version_of None (log_entries (co_log c)))"
proof -
  let ?es = "log_entries (co_log c)"
  note c = readyD [OF assms(1)] and app = assms(3) [unfolded unit_eq [of u]]
  from c(4) obtain xs rest where xs: "?es = xs @ rest" "alloc_folds xs (co_line c)"
    by (auto simp: replays_prefix_def)
  obtain all where all: "index_folds ?es all" using c(5) by blast
  then obtain ix where ix: "index_folds xs ix" using xs(1) index_folds_prefix by metis
  have "in_step (co_allocator c) ix" using alloc_folds_step [OF ix _ xs(2)] c(2) xs(1) by simp
  then have v: "me_version (sc_entry st) = version_after (last_version_of None xs)"
    using staged_version(1) [OF assms(2)] index_folds_upto [OF ix] by (simp add: in_step_def)
  have "rest = []"
    using prefix_is_whole [of xs rest "sc_entry st"] entries_ascending [OF c(1)] xs(1) v
      append_monotonic [OF c(1) app] by simp
  then have whole: "alloc_folds ?es (co_line c)" using xs by simp
  have versions: "\<forall>e\<in>set (?es @ [sc_entry st]). me_version e < u64_max"
    using c(2) staged_version(1,3) [OF assms(2)] by simp
  have entries: "log_entries l' = ?es @ [sc_entry st]" by (rule append_stores [OF c(1) app])
  from staged_extends [OF all [unfolded index_folds_def] c(2) _ assms(2)] whole obtain full where
    full: "index_folds (?es @ [sc_entry st]) full"
    "alloc_run allocator_new (?es @ [sc_entry st]) = Inr (snd (alloc_apply (co_allocator c) st))"
    by (auto simp: alloc_folds_def index_folds_def)
  have "log_invar l'" using append_invar [OF c(1), of "[sc_entry st]"] app by simp
  then show ?thesis
    using that [of full] entries versions whole full v \<open>rest = []\<close> xs(1)
    by (simp add: alloc_folds_def)
qed

lemma take_position_lands:
  assumes "ready c" "staged_by (co_allocator c) st"
  shows "\<exists>r c'. take_position log_append log_read_from env c st = Some (r, c') \<and> ready c' \<and>
    (case r of
       Inl e \<Rightarrow> refused_position env c st e c'
     | Inr (v, asgs) \<Rightarrow> v = me_version (sc_entry st) \<and> asgs = sc_assignments st \<and> took_position env c st c')"
proof (cases "leads c (env_held_at_journal env)")
  case False
  with assms(1) show ?thesis by (auto simp: take_position_def refused_position_def)
next
  case leads: True
  note c = readyD [OF assms(1)]
  obtain ra l' where app: "log_append (co_log c) [sc_entry st] = (ra, l')" by fastforce
  have inv': "log_invar l'" using append_invar [OF c(1), of "[sc_entry st]"] app by simp
  show ?thesis
  proof (cases ra)
    case (Inl e)
    have same: "log_entries l' = log_entries (co_log c)" using append_refused [OF c(1)] app Inl by blast
    define c' where "c' = c\<lparr>co_log := l',
      co_replayed_term := (case e of PreconditionFailed _ \<Rightarrow> None | _ \<Rightarrow> co_replayed_term c)\<rparr>"
    have "take_position log_append log_read_from env c st = Some (Inl (Journal e), c')"
      using leads app Inl by (simp add: take_position_def journal_def c'_def)
    moreover have "ready c'"
      using assms(1) inv' same by (simp add: co_ready_def co_inv_def log_ok_def c'_def)
    ultimately show ?thesis by (simp add: refused_position_def c'_def same)
  next
    case (Inr u)
    from append_folds [OF assms app [unfolded Inr]] obtain full where
      f: "log_entries l' = log_entries (co_log c) @ [sc_entry st]"
      "\<forall>e\<in>set (log_entries l'). me_version e < u64_max"
      "alloc_folds (log_entries (co_log c)) (co_line c)" "index_folds (log_entries l') full"
      "alloc_folds (log_entries l') (snd (alloc_apply (co_allocator c) st), Some (me_version (sc_entry st)))"
      "me_version (sc_entry st) = version_after (last_version_of None (log_entries (co_log c)))" by metis
    have ok': "log_ok log_entries log_invar l'" using inv' f(2,4) by (auto simp: log_ok_def)
    show ?thesis
    proof (cases "leads c (env_held_after_append env)")
      case False
      define c' where "c' = c\<lparr>co_log := l', co_replayed_term := None\<rparr>"
      have "take_position log_append log_read_from env c st = Some (Inl Fenced, c')"
        using leads False app Inr
        by (simp add: take_position_def journal_def still_leads_after_append_def c'_def leads_def)
      moreover have "ready c'"
        using assms(1) ok' f(1)
        by (auto simp: co_ready_def co_inv_def c'_def folds_prefix_append replays_prefix_append)
      ultimately show ?thesis using False f(1) by (auto simp: refused_position_def c'_def leads_def)
    next
      case True
      define c1 where "c1 = c\<lparr>co_log := l', co_allocator := snd (alloc_apply (co_allocator c) st),
        co_last_committed := Some (me_version (sc_entry st))\<rparr>"
      have "folds_prefix (log_entries (co_log c)) (co_index c1)" using c(3) by (simp add: c1_def)
      from publish_lands [of c1, OF _ _ _ _ f(6) this] inv' f(1,2,4) obtain ix where
        p: "publish log_read_from c1 (sc_entry st) =
          Some (c1\<lparr>co_index := ix, co_published := ix_applied ix, co_deltas := co_deltas c1 @ [sc_entry st]\<rparr>)"
        "ix = index_new \<or> index_folds (log_entries l') ix"
        "index_folds (log_entries (co_log c)) (co_index c) \<or> good_log l' \<longrightarrow> index_folds (log_entries l') ix"
        by (auto simp: c1_def)
      define c' where "c' = c1\<lparr>co_index := ix, co_published := ix_applied ix,
        co_deltas := co_deltas c1 @ [sc_entry st]\<rparr>"
      have "take_position log_append log_read_from env c st =
          Some (Inr (me_version (sc_entry st), sc_assignments st), c')"
      proof -
        obtain al where al: "alloc_apply (co_allocator c) st =
            ((me_version (sc_entry st), sc_assignments st), al)"
          using apply_fields(2) [of "co_allocator c" st] by (metis prod.collapse)
        show ?thesis
          using leads True app Inr p(1)
          by (simp add: take_position_def journal_def still_leads_after_append_def leads_def c1_def c'_def al)
      qed
      moreover have "ready c'"
        using ok' p(2) f(5) c(7)
        by (auto simp: co_ready_def co_inv_def c'_def c1_def folds_prefix_new folds_prefix_whole
            replays_prefix_whole intro: exI [of _ "[]"])
      moreover have "took_position env c st c'"
        using f(1,3,5) p(2,3) leads True by (auto simp: took_position_def c'_def c1_def leads_def)
      ultimately show ?thesis by auto
    qed
  qed
qed

end

end
