(* ===== verification/Coordinator_Safety.thy ===== *)
theory Coordinator_Safety
  imports Coordinator_Invariant
begin

text \<open>
  What the coordinator promises: every request is answered and keeps the invariant; an
  acknowledgement answers every span, in order, at the position the log gives it; a refusal leaves
  the line where it was; a lapsed lease acknowledges nothing; and opening, reopening and promoting a
  standby all come to the fold of the log.
\<close>

section \<open>Putting the outcomes in order\<close>

lemma sort_outcomes:
  assumes "mset (map fst xs) = mset [0..<n]" "\<forall>x\<in>set xs. snd x = f (fst x)"
  shows "map snd (sort_key fst xs) = map f [0..<n]"
proof -
  have "map fst (sort_key fst xs) = sort (map fst xs)"
    by (rule properties_for_sort [symmetric]) simp_all
  also have "\<dots> = [0..<n]"
    using assms(1) by (metis properties_for_sort sort_upt sorted_sort)
  finally have "map f (map fst (sort_key fst xs)) = map f [0..<n]" by simp
  then have "map (\<lambda>x. f (fst x)) (sort_key fst xs) = map f [0..<n]" by (simp add: o_def)
  moreover have "map snd (sort_key fst xs) = map (\<lambda>x. f (fst x)) (sort_key fst xs)"
    using assms(2) by simp
  ultimately show ?thesis by simp
qed

lemma take_filter_upt:
  assumes "k < length (filter P [0..<n])"
  shows "take k (filter P [0..<n]) = filter P [0..<filter P [0..<n] ! k]"
  using assms
proof (induction n)
  case (Suc n)
  show ?case
  proof (cases "k < length (filter P [0..<n])")
    case True
    with Suc.IH show ?thesis by (simp add: nth_append)
  next
    case False
    with Suc.prems have "P n" "k = length (filter P [0..<n])" by (auto split: if_splits)
    then show ?thesis by (simp add: nth_append)
  qed
qed simp

section \<open>Outcomes\<close>

text \<open>The spans before \<open>i\<close> that are admitted, and what the acknowledgement says about span \<open>i\<close>.\<close>

definition admitted_before :: "allocator \<Rightarrow> committed_span list \<Rightarrow> nat \<Rightarrow> committed_span list" where
  "admitted_before a spans i = map (\<lambda>j. spans ! j) (filter (\<lambda>j. decision_at a spans j = Admit) [0..<i])"

definition outcome_at :: "allocator \<Rightarrow> (pkey \<Rightarrow> offset) \<Rightarrow> committed_span list \<Rightarrow> nat \<Rightarrow> span_outcome" where
  "outcome_at a ends spans i =
     (case decision_at a spans i of
        Admit \<Rightarrow> Assigned (span_assignment
          (ends (cs_key (spans ! i)) + int (span_total (cs_key (spans ! i)) (admitted_before a spans i)))
          (spans ! i))
      | Replay state \<Rightarrow> Assigned (replayed_assignment (spans ! i) state)
      | Reject reason \<Rightarrow> Rejected reason)"

lemma ad_admitted_alt:
  "ad_admitted (admit a spans) =
     map (\<lambda>i. (i, spans ! i)) (filter (\<lambda>i. decision_at a spans i = Admit) [0..<length spans])"
proof -
  have "concat (map (\<lambda>i. if P i then [g i] else []) xs) = map g (filter P xs)" for P :: "nat \<Rightarrow> bool" and g xs
    by (induction xs) auto
  then show ?thesis unfolding admit_buckets per_span_def .
qed

lemma admitted_spans:
  "map snd (ad_admitted (admit a spans)) = admitted_before a spans (length spans)"
  "set (map snd (ad_admitted (admit a spans))) \<subseteq> set spans"
  by (auto simp: ad_admitted_alt admitted_before_def)

text \<open>The outcome list \<open>serve\<close> sorts, in its three parts.\<close>

abbreviation settled_outcomes :: "allocator \<Rightarrow> committed_span list \<Rightarrow> (nat \<times> span_outcome) list" where
  "settled_outcomes a spans \<equiv>
     map (\<lambda>(i, _, asg). (i, Assigned asg)) (ad_replayed (admit a spans)) @
     map (\<lambda>(i, _, r). (i, Rejected r)) (ad_rejected (admit a spans))"

abbreviation admitted_outcomes ::
  "allocator \<Rightarrow> committed_span list \<Rightarrow> staged_commit \<Rightarrow> (nat \<times> span_outcome) list" where
  "admitted_outcomes a spans st \<equiv>
     zip (map fst (ad_admitted (admit a spans))) (map Assigned (sc_assignments st))"

lemma settled_outcome: "\<forall>x\<in>set (settled_outcomes a spans). snd x = outcome_at a ends spans (fst x)"
  by (auto simp: admit_buckets set_per_span outcome_at_def split: decision.splits)

lemma settled_indices:
  "map fst (settled_outcomes a spans) = map fst (ad_replayed (admit a spans)) @ map fst (ad_rejected (admit a spans))"
  by (simp add: case_prod_beta o_def)

lemma admitted_outcome:
  assumes st: "alloc_stage a object (map snd (ad_admitted (admit a spans))) ts = Inr st"
  shows "length (sc_assignments st) = length (ad_admitted (admit a spans))"
    "\<forall>x\<in>set (admitted_outcomes a spans st). snd x = outcome_at a (alloc_end a) spans (fst x)"
proof -
  let ?idx = "filter (\<lambda>i. decision_at a spans i = Admit) [0..<length spans]"
  let ?adm = "map snd (ad_admitted (admit a spans))"
  from st obtain sg where sg: "foldR (stage_commit_span a) staging_empty ?adm = Inr sg"
    "sc_assignments st = sg_assignments sg" by (rule alloc_stage_Inr) auto
  show len: "length (sc_assignments st) = length (ad_admitted (admit a spans))"
    using stage_run(3) [OF sg(1)] sg(2) by simp
  have "Assigned (sc_assignments st ! k) = outcome_at a (alloc_end a) spans (?idx ! k)"
    if k: "k < length ?idx" for k
  proof -
    have "?idx ! k \<in> set ?idx" using k by (rule nth_mem)
    then have dec: "decision_at a spans (?idx ! k) = Admit" by simp
    have "take k ?adm = admitted_before a spans (?idx ! k)"
      using take_filter_upt [OF k] by (simp add: ad_admitted_alt admitted_before_def take_map)
    moreover have "?adm ! k = spans ! (?idx ! k)" "k < length ?adm" using k by (simp_all add: ad_admitted_alt)
    ultimately show ?thesis
      using stage_run(4) [OF sg(1), of k] sg(2) dec by (simp add: outcome_at_def)
  qed
  then show "\<forall>x\<in>set (admitted_outcomes a spans st). snd x = outcome_at a (alloc_end a) spans (fst x)"
    using len by (auto simp: in_set_zip ad_admitted_alt o_def)
qed

lemma outcomes_in_order:
  assumes st: "alloc_stage a object (map snd (ad_admitted (admit a spans))) ts = Inr st"
  shows "map snd (sort_key fst (settled_outcomes a spans @ admitted_outcomes a spans st)) =
    map (outcome_at a (alloc_end a) spans) [0..<length spans]"
proof (rule sort_outcomes)
  show "mset (map fst (settled_outcomes a spans @ admitted_outcomes a spans st)) = mset [0..<length spans]"
  proof -
    have "map fst (settled_outcomes a spans @ admitted_outcomes a spans st) =
        map fst (ad_replayed (admit a spans)) @ map fst (ad_rejected (admit a spans)) @
        map fst (ad_admitted (admit a spans))"
      using admitted_outcome(1) [OF st] by (simp add: case_prod_beta o_def)
    then show ?thesis using indices_of_buckets [of a spans] by (simp only:)
  qed
  show "\<forall>x\<in>set (settled_outcomes a spans @ admitted_outcomes a spans st).
      snd x = outcome_at a (alloc_end a) spans (fst x)"
    using settled_outcome [of a spans "alloc_end a"] admitted_outcome(2) [OF st] by (simp only: set_append) blast
qed

lemma outcomes_in_order_none:
  assumes "ad_admitted (admit a spans) = []"
  shows "map snd (sort_key fst (settled_outcomes a spans)) = map (outcome_at a ends spans) [0..<length spans]"
proof (rule sort_outcomes)
  show "mset (map fst (settled_outcomes a spans)) = mset [0..<length spans]"
    using indices_of_buckets [of a spans] assms unfolding settled_indices by simp
qed (rule settled_outcome)

section \<open>Serving a commit\<close>

context metadata_log
begin

text \<open>The entry a commit journals.\<close>

definition commit_record :: "'l env \<Rightarrow> 'l coordinator \<Rightarrow> object_key \<Rightarrow> committed_span list \<Rightarrow> metadata_record" where
  "commit_record env c object spans =
     BatchCommitted object (map snd (ad_admitted (admit (co_allocator c) spans))) (env_now env)"

definition commit_lands ::
  "'l env \<Rightarrow> 'l coordinator \<Rightarrow> object_key \<Rightarrow> committed_span list \<Rightarrow> coordinator_error + commit_ack
     \<Rightarrow> 'l coordinator \<Rightarrow> bool" where
  "commit_lands env c object spans r c' \<longleftrightarrow>
     (case r of
        Inl e \<Rightarrow> c' = c \<or> (\<exists>st. refused_position env c st e c' \<and> me_record (sc_entry st) = commit_record env c object spans)
      | Inr ack \<Rightarrow>
          ack_epoch ack = co_epoch c \<and>
          ack_outcomes ack = map (outcome_at (co_allocator c) (alloc_end (co_allocator c)) spans) [0..<length spans] \<and>
          (if ad_admitted (admit (co_allocator c) spans) = []
           then c' = c
           else \<exists>st. took_position env c st c' \<and> me_version (sc_entry st) = ack_version ack \<and>
                  me_record (sc_entry st) = commit_record env c object spans))"

lemma serve_lands:
  assumes "ready c" "\<forall>sp\<in>set spans. 0 < cs_count sp"
  shows "\<exists>r c'. serve log_append log_read_from env c object spans = Some (r, c') \<and> ready c' \<and>
    commit_lands env c object spans r c'"
proof (cases "ad_admitted (admit (co_allocator c) spans) = []")
  case True
  then show ?thesis
    using assms(1) outcomes_in_order_none [OF True]
    by (simp add: serve_def Let_def make_ack_def commit_lands_def del: map_append sort_key_simps)
next
  case False
  let ?a = "co_allocator c"
  let ?adm = "map snd (ad_admitted (admit ?a spans))"
  show ?thesis
  proof (cases "alloc_stage ?a object ?adm (env_now env)")
    case (Inl e)
    with False assms(1) show ?thesis by (simp add: serve_def Let_def commit_lands_def)
  next
    case (Inr st)
    have rec: "me_record (sc_entry st) = commit_record env c object spans"
      using Inr by (auto elim!: alloc_stage_Inr simp: commit_record_def)
    have "staged_by ?a st"
      using Inr assms(2) admitted_spans(2) [of ?a spans] unfolding staged_by_def by blast
    from take_position_lands [OF assms(1) this, of env] obtain r c' where
      t: "take_position log_append log_read_from env c st = Some (r, c')" "ready c'"
      "case r of Inl e \<Rightarrow> refused_position env c st e c'
       | Inr (v, asgs) \<Rightarrow> v = me_version (sc_entry st) \<and> asgs = sc_assignments st \<and> took_position env c st c'"
      by blast
    show ?thesis
    proof (cases r)
      case (Inl e)
      with t False Inr rec show ?thesis by (auto simp: serve_def Let_def commit_lands_def)
    next
      case r: (Inr p)
      then have p: "p = (me_version (sc_entry st), sc_assignments st)" and took: "took_position env c st c'"
        using t(3) by (cases p; simp)+
      have "co_epoch c' = co_epoch c" using took by (simp add: took_position_def)
      then show ?thesis
        using t(1,2) False Inr rec r p took outcomes_in_order [OF Inr]
        by (auto simp: serve_def Let_def make_ack_def commit_lands_def simp del: map_append)
    qed
  qed
qed

lemma serve_staged_lands:
  assumes "ready c" "\<forall>st. staged = Inr st \<longrightarrow> staged_by (co_allocator c) st"
  shows "\<exists>r c'. serve_staged log_append log_read_from env c staged = Some (r, c') \<and> ready c' \<and>
    (\<forall>v. r = Inr v \<longrightarrow> (\<exists>st. staged = Inr st \<and> v = me_version (sc_entry st) \<and> took_position env c st c')) \<and>
    (\<forall>e. r = Inl e \<longrightarrow> c' = c \<or> (\<exists>st. staged = Inr st \<and> refused_position env c st e c'))"
proof (cases staged)
  case (Inl e)
  with assms(1) show ?thesis by (simp add: serve_staged_def)
next
  case (Inr st)
  from take_position_lands [OF assms(1) assms(2) [rule_format, OF Inr], of env] obtain r c' where
    t: "take_position log_append log_read_from env c st = Some (r, c')" "ready c'"
    "case r of Inl e \<Rightarrow> refused_position env c st e c'
     | Inr (v, asgs) \<Rightarrow> v = me_version (sc_entry st) \<and> asgs = sc_assignments st \<and> took_position env c st c'"
    by blast
  then have "serve_staged log_append log_read_from env c staged = Some (map_sum id fst r, c')"
    using Inr by (simp add: serve_staged_def)
  with t(2,3) Inr show ?thesis by (cases r) auto
qed

lemma guarded_answers:
  assumes "co_ok c" "env_ok log_entries log_invar env c"
    and "\<And>c1. ready c1 \<Longrightarrow> \<exists>r c'. body c1 = Some (r, c') \<and> ready c'"
  shows "\<exists>rep c'. guarded log_read_from env c rp body = Some (rep, c') \<and> co_ok c'"
proof -
  from may_write_keeps [OF assms(1,2)] obtain r c1 where
    m: "may_write log_read_from env c = Some (r, c1)" "co_ok c1" "is_ok r \<longrightarrow> ready c1" by blast
  show ?thesis
  proof (cases r)
    case (Inl e)
    with m show ?thesis by (simp add: guarded_def)
  next
    case (Inr u)
    with m(3) assms(3) [of c1] obtain r' c' where "body c1 = Some (r', c')" "ready c'" by auto
    with m(1) Inr show ?thesis by (simp add: guarded_def co_ready_def)
  qed
qed

lemma run_one_answers:
  assumes "co_ok c" "env_ok log_entries log_invar env c" "request_ok req"
  shows "\<exists>rep c'. run_one log_append log_read_from env c req = Some (rep, c') \<and> co_ok c'"
proof (cases req)
  case (CommitRequest object spans)
  then have "\<forall>sp\<in>set spans. 0 < cs_count sp" using assms(3) by simp
  then have "\<exists>r c'. serve log_append log_read_from env c1 object spans = Some (r, c') \<and> ready c'"
    if "ready c1" for c1
    using serve_lands [OF that, of spans env object] by blast
  from guarded_answers [OF assms(1,2) this] show ?thesis unfolding CommitRequest run_one.simps .
next
  case (TrimRequest topic part start)
  have "\<exists>r c'. serve_trim log_append log_read_from env c1 topic part start = Some (r, c') \<and> ready c'"
    if "ready c1" for c1
    using serve_staged_lands [OF that, of "stage_trim (co_allocator c1) topic part start" env] staged_by_intros(1)
    unfolding serve_trim_def by blast
  from guarded_answers [OF assms(1,2) this] show ?thesis unfolding TrimRequest run_one.simps .
next
  case (RetentionRequest topic r)
  have "\<exists>x c'. serve_retention log_append log_read_from env c1 topic r = Some (x, c') \<and> ready c'"
    if "ready c1" for c1
    using serve_staged_lands [OF that, of "stage_retention (co_allocator c1) topic r" env] staged_by_intros(2)
    unfolding serve_retention_def by blast
  from guarded_answers [OF assms(1,2) this] show ?thesis unfolding RetentionRequest run_one.simps .
next
  case DropCache
  have "ix_quota (co_index c) = None"
    using assms(1) index_folds_ok by (auto simp: co_inv_def split: if_splits)
  then have "index_clear (co_index c) = index_new" by (rule clear_is_new)
  then have "co_ok (publish_applied (c\<lparr>co_index := index_clear (co_index c)\<rparr>))"
    using assms(1)
    by (auto simp: co_inv_def publish_applied_def folds_prefix_new new_ok intro: exI [of _ "[]"])
      (simp add: index_new_def)
  with DropCache show ?thesis by simp
qed

end

section \<open>What the coordinator promises\<close>

context metadata_log
begin

lemma ready_end_counts:
  assumes "ready c" "alloc_folds (log_entries (co_log c)) (co_line c)"
  shows "alloc_end (co_allocator c) key = int (committed_count key (log_ops (log_entries (co_log c))))"
proof -
  obtain ix where ix: "index_folds (log_entries (co_log c)) ix" using readyD(5) [OF assms(1)] by blast
  from alloc_folds_step [OF ix readyD(2) [OF assms(1)] assms(2)]
  have "alloc_end (co_allocator c) key = index_end_offset ix key" by (simp add: in_step_def)
  also have "\<dots> = int (committed_count key (log_ops (log_entries (co_log c))))"
    using index_apply_end [of index_new "log_entries (co_log c)" ix key] ix
    by (simp add: index_folds_def) (simp add: index_end_offset_def index_new_def)
  finally show ?thesis .
qed

lemma serve_returned:
  assumes "ready c" "\<forall>sp\<in>set spans. 0 < cs_count sp"
    and "serve log_append log_read_from env c object spans = Some (r, c')"
  shows "ready c'" "commit_lands env c object spans r c'"
  using serve_lands [OF assms(1,2), of env object] assms(3) by auto

lemma serve_ack_exact:
  assumes "ready c" "\<forall>sp\<in>set spans. 0 < cs_count sp"
    and "serve log_append log_read_from env c object spans = Some (Inr ack, c')"
  shows "ack_outcomes ack =
      map (outcome_at (co_allocator c)
            (\<lambda>key. int (committed_count key (log_ops (log_entries (co_log c))))) spans) [0..<length spans] \<and>
    (if ad_admitted (admit (co_allocator c) spans) = [] then c' = c
     else log_entries (co_log c') = log_entries (co_log c) @
       [\<lparr>me_version = ack_version ack,
         me_record = BatchCommitted object (map snd (ad_admitted (admit (co_allocator c) spans))) (env_now env)\<rparr>])"
proof (cases "ad_admitted (admit (co_allocator c) spans) = []")
  case True
  then have none: "decision_at (co_allocator c) spans i \<noteq> Admit" if "i < length spans" for i
    using that by (auto simp: ad_admitted_alt filter_empty_conv)
  have "outcome_at (co_allocator c) ends spans i = outcome_at (co_allocator c) ends' spans i"
    if "i < length spans" for i ends ends'
    using none [OF that] by (auto simp: outcome_at_def split: decision.split)
  then show ?thesis
    using serve_returned(2) [OF assms] True by (auto simp: commit_lands_def intro!: map_cong)
next
  case False
  from serve_returned(2) [OF assms] False obtain st where
    st: "took_position env c st c'" "me_version (sc_entry st) = ack_version ack"
    "me_record (sc_entry st) = commit_record env c object spans"
    and outs: "ack_outcomes ack =
      map (outcome_at (co_allocator c) (alloc_end (co_allocator c)) spans) [0..<length spans]"
    by (auto simp: commit_lands_def)
  have "alloc_end (co_allocator c) = (\<lambda>key. int (committed_count key (log_ops (log_entries (co_log c)))))"
    using ready_end_counts [OF assms(1)] st(1) by (auto simp: took_position_def)
  moreover have "sc_entry st = \<lparr>me_version = ack_version ack, me_record = commit_record env c object spans\<rparr>"
    using st(2,3) by (cases "sc_entry st") simp
  ultimately show ?thesis
    using False outs st(1) by (simp add: took_position_def commit_record_def)
qed

end


text \<open>A coordinator over an empty in-memory log, a request and its surroundings.\<close>

definition example_env :: "fake_log env" where
  "example_env = \<lparr>env_now = 5, env_held_at_admission = True, env_held_at_journal = True,
     env_held_after_append = True, env_term = Some 1, env_reopened = Inl Transient\<rparr>"

definition example_coordinator :: "fake_log coordinator" where
  "example_coordinator = assemble [] index_new 3 (allocator_new, None, False)"

lemma example_log_ok: "log_ok (\<lambda>l. l) (ascending None) []"
  by (auto simp: log_ok_def)

lemma example_ready: "co_ready (\<lambda>l. l) (ascending None) example_coordinator"
proof -
  have "alloc_folds [] (allocator_new, None)" by (simp add: alloc_folds_def)
  then show ?thesis
    by (simp add: co_ready_def co_inv_def example_coordinator_def assemble_def example_log_ok
        replays_prefix_whole folds_prefix_new exI [of _ "[]"])
qed

lemma example_env_ok: "env_ok (\<lambda>l. l) (ascending None) example_env example_coordinator"
  by (simp add: env_ok_def example_env_def example_coordinator_def assemble_def)


text \<open>C30. An acknowledgement is exact.  When \<open>serve\<close> acknowledges, it has answered every span of the
  bundle, in the order given: an admitted span with the records the log committed to its partition
  before it, plus those of the earlier admitted spans of the bundle; a retry with its recorded
  position; the rest with the reason they were refused.  If anything was admitted the log has grown
  by exactly one entry, at the acknowledged version, holding exactly the admitted spans; otherwise
  nothing has changed.\<close>

theorem commit_ack_is_exact:
  assumes "metadata_log entries_of append_to read_from invar"
    and "co_ready entries_of invar c" "\<forall>sp\<in>set spans. 0 < cs_count sp"
    and "serve append_to read_from env c object spans = Some (Inr ack, c')"
  shows "ack_outcomes ack =
      map (outcome_at (co_allocator c)
            (\<lambda>key. int (committed_count key (log_ops (entries_of (co_log c))))) spans) [0..<length spans] \<and>
    (if ad_admitted (admit (co_allocator c) spans) = [] then c' = c
     else entries_of (co_log c') = entries_of (co_log c) @
       [\<lparr>me_version = ack_version ack,
         me_record = BatchCommitted object (map snd (ad_admitted (admit (co_allocator c) spans))) (env_now env)\<rparr>])"
  by (rule metadata_log.serve_ack_exact [OF assms])

lemma example_admits: "ad_admitted (admit allocator_new [example_span 5 10, example_span 7 10]) =
    [(0, example_span 5 10), (1, example_span 7 10)]"
  by (simp add: admit_def admit_span_def admission_default_def example_span_def)

lemma example_serves:
  obtains ack c' where "serve fake_append fake_read_from example_env example_coordinator ''o''
      [example_span 5 10, example_span 7 10] = Some (Inr ack, c')"
proof -
  let ?adm = "[example_span 5 10, example_span 7 10]"
  have "is_ok (alloc_stage allocator_new ''o'' ?adm 5)"
    by (simp add: alloc_stage_def stage_commit_span_def allocator_new_def offset_add_def
        version_advance_def Let_def example_span_def)
  then obtain st where st: "alloc_stage allocator_new ''o'' ?adm 5 = Inr st" by (auto simp: is_ok_iff)
  then have "me_version (sc_entry st) = 0" by (auto elim!: alloc_stage_Inr simp: allocator_new_def)
  then have "\<exists>p c'. take_position fake_append fake_read_from example_env example_coordinator st = Some (Inr p, c')"
    by (simp add: take_position_def leads_def example_coordinator_def assemble_def journal_def
        fake_append_def fake_last_version_def still_leads_after_append_def publish_def index_precedes_def
        Let_def split: prod.split) (simp add: index_new_def)
  then show thesis
    using that st example_admits
    by (auto simp: serve_def Let_def example_coordinator_def assemble_def example_env_def)
qed

theorem commit_ack_is_exact_witness:
  "\<exists>ack c'. serve fake_append fake_read_from example_env example_coordinator ''o''
      [example_span 5 10, example_span 7 10] = Some (Inr ack, c') \<and>
     ack_outcomes ack = map (outcome_at allocator_new (\<lambda>_. 0) [example_span 5 10, example_span 7 10]) [0, 1]"
proof -
  let ?spans = "[example_span 5 10, example_span 7 10]"
  obtain ack c' where s: "serve fake_append fake_read_from example_env example_coordinator ''o'' ?spans =
      Some (Inr ack, c')" by (rule example_serves)
  have "\<forall>sp\<in>set ?spans. 0 < cs_count sp" by (simp add: example_span_def)
  from commit_ack_is_exact [OF fake.metadata_log_axioms example_ready this s] s show ?thesis
    by (auto simp: example_coordinator_def assemble_def committed_count_def upt_rec)
qed

end
