(* ===== verification/Coordinator_Guarantees.thy ===== *)
theory Coordinator_Guarantees
  imports Coordinator_Safety
begin

text \<open>
  The coordinator seen from its clients: what was acknowledged can be read at once, at the offset
  acknowledged; a refusal or a lapsed lease leaves the line where it was; and every way of coming up
  (open, deferred open, promotion) serves the fold of the log.
\<close>

section \<open>Reading what was just committed\<close>

lemma fetch_at_entry:
  assumes "part_inv p" "ix_partitions s key = Some p" "r \<in> set (part_entries p)" "pi_log_start p \<le> or_base r"
  shows "\<exists>bs. find_batches s key (or_base r) mb = Inr bs \<and> bs \<noteq> [] \<and> batch_reference (hd bs) = r"
proof -
  let ?w = "wanted (or_base r) p"
  from assms(1) obtain a where a: "dense a (part_entries p) (pi_end p)" by (rule part_invE)
  from assms(3) obtain xs ys where xs: "part_entries p = xs @ r # ys" by (auto simp: in_set_conv_decomp)
  have "sorted_wrt (\<lambda>x y. or_end x \<le> or_base y) (xs @ r # ys)"
    using dense_strictly_ascending [OF a] xs by simp
  then have "\<forall>x\<in>set xs. \<not> or_base r < or_end x" by (auto simp: sorted_wrt_append)
  moreover have "or_base r < or_end r" using dense_bounds(2) [OF a assms(3)] .
  ultimately have refs: "map batch_reference ?w = r # filter (\<lambda>x. or_base r < or_end x) ys"
    by (simp add: wanted_refs xs)
  then have ne: "?w \<noteq> []" by auto
  let ?bs = "pg_batches (fill (page_new mb) ?w)"
  have "pg_batches (page_new mb) = []" by (simp add: page_new_def)
  then have "?bs \<noteq> []" "\<exists>rest. ?w = ?bs @ rest"
    using fill_nonempty [OF _ ne] fill_prefix [of "page_new mb" ?w] by auto
  then have "?bs \<noteq> []" "hd ?bs = hd ?w" by (auto, metis hd_append2)
  moreover have "batch_reference (hd ?w) = r" using refs by (cases ?w) auto
  ultimately show ?thesis using find_batches_fill [OF assms(1,2,4), of mb] by auto
qed

lemma entries_frame:
  "part_entries (observe p w) = part_entries p" "part_entries (p\<lparr>pi_end := x\<rparr>) = part_entries p"
  "pi_log_start (push p e) = pi_log_start p" "pi_log_start (observe p w) = pi_log_start p"
  by (simp_all add: part_entries_def observe_def push_alt)

text \<open>Where a commit leaves its spans.\<close>

lemma commits_entries:
  assumes "log_run parts (commits object ts spans) = Inr (parts', cs)"
  shows "pi_log_start (part_of parts' key) = pi_log_start (part_of parts key)"
    "j < length spans \<Longrightarrow>
       \<lparr>or_object = object,
        or_base = pi_end (part_of parts (cs_key (spans ! j))) + int (span_total (cs_key (spans ! j)) (take j spans)),
        or_count = cs_count (spans ! j)\<rparr> \<in> set (part_entries (part_of parts' (cs_key (spans ! j))))"
proof -
  have "(\<forall>key. pi_log_start (part_of parts' key) = pi_log_start (part_of parts key)) \<and>
    (\<forall>j<length spans. \<lparr>or_object = object,
        or_base = pi_end (part_of parts (cs_key (spans ! j))) + int (span_total (cs_key (spans ! j)) (take j spans)),
        or_count = cs_count (spans ! j)\<rparr> \<in> set (part_entries (part_of parts' (cs_key (spans ! j)))))"
    using assms
  proof (induction spans arbitrary: parts' cs rule: rev_induct)
    case Nil
    then show ?case by (simp add: log_run_def)
  next
    case (snoc sp spans)
    from snoc.prems obtain mid cs1 where mid: "log_run parts (commits object ts spans) = Inr (mid, cs1)"
      "log_step (mid, cs1) (Commit object sp ts) = Inr (parts', cs)"
      by (auto simp: log_run_def foldR_snoc bindR_Inr_iff)
    note IH = snoc.IH [OF mid(1)]
    have e: "pi_end (part_of mid (cs_key sp)) =
        pi_end (part_of parts (cs_key sp)) + int (span_total (cs_key sp) spans)"
      using log_run_end [OF mid(1) [unfolded log_run_def], of "cs_key sp"] by (simp add: committed_count_commits)
    define q where "q = observe ((push (part_of mid (cs_key sp)) (commit_entry (part_of mid (cs_key sp)) object sp))
        \<lparr>pi_end := pi_end (part_of mid (cs_key sp)) + int (cs_count sp)\<rparr>) (time_span_at ts)"
    have parts': "parts' = mid(cs_key sp \<mapsto> q)"
      using mid(2) by (auto simp: log_step_def bindR_Inr_iff offset_add_Inr_iff q_def split: if_splits)
    have q: "part_entries q = part_entries (part_of mid (cs_key sp)) @
        [\<lparr>or_object = object, or_base = pi_end (part_of mid (cs_key sp)), or_count = cs_count sp\<rparr>]"
      "pi_log_start q = pi_log_start (part_of mid (cs_key sp))"
      by (simp_all add: q_def entries_frame commit_entry_def)
    have "set (part_entries (part_of mid key)) \<subseteq> set (part_entries (part_of parts' key))" for key
      by (simp add: parts' q del: fun_upd_apply) blast
    moreover have "pi_log_start (part_of parts' key) = pi_log_start (part_of mid key)" for key
      by (simp add: parts' q del: fun_upd_apply)
    ultimately show ?case
      using IH e q(1) by (auto simp: less_Suc_eq nth_append parts' simp del: fun_upd_apply)
  qed
  then show "pi_log_start (part_of parts' key) = pi_log_start (part_of parts key)"
    "j < length spans \<Longrightarrow>
       \<lparr>or_object = object,
        or_base = pi_end (part_of parts (cs_key (spans ! j))) + int (span_total (cs_key (spans ! j)) (take j spans)),
        or_count = cs_count (spans ! j)\<rparr> \<in> set (part_entries (part_of parts' (cs_key (spans ! j))))"
    by blast+
qed

lemma committed_span_fetches:
  assumes "index_folds es ix" "index_folds (es @ [\<lparr>me_version = v, me_record = BatchCommitted object spans ts\<rparr>]) ix'"
    and "j < length spans" "base = index_end_offset ix (cs_key (spans ! j)) + int (span_total (cs_key (spans ! j)) (take j spans))"
  shows "\<exists>bs. find_batches ix' (cs_key (spans ! j)) base mb = Inr bs \<and> bs \<noteq> [] \<and>
    batch_reference (hd bs) = \<lparr>or_object = object, or_base = base, or_count = cs_count (spans ! j)\<rparr>"
proof -
  let ?key = "cs_key (spans ! j)"
  let ?r = "\<lparr>or_object = object, or_base = base, or_count = cs_count (spans ! j)\<rparr>"
  have "index_apply ix [\<lparr>me_version = v, me_record = BatchCommitted object spans ts\<rparr>] = Inr ix'"
    using index_folds_append [OF assms(1)] assms(2) by blast
  from index_apply_refines(4) [OF this] obtain cs where
    run: "log_run (ix_partitions ix) (commits object ts spans) = Inr (ix_partitions ix', cs)"
    by (auto simp: record_ops_def)
  note ce = commits_entries [OF run]
  have mem: "?r \<in> set (part_entries (part_of (ix_partitions ix') ?key))"
    using ce(2) [OF assms(3)] assms(4) by (simp add: index_end_part)
  then obtain p where p: "ix_partitions ix' ?key = Some p"
    by (auto simp: part_of_def part_entries_def partition_default_def split: option.splits)
  have "part_inv p" "part_inv (part_of (ix_partitions ix) ?key)"
    using index_folds_ok [OF assms(2)] index_folds_ok [OF assms(1)] p
    by (auto simp: index_inv_def parts_inv_def intro: parts_inv_part_of [unfolded parts_inv_def])
  moreover from this have "pi_log_start p \<le> base"
    using ce(1) [of ?key] assms(4) p by (simp add: part_of_def part_inv_def index_end_part split: option.splits)
  ultimately show ?thesis using fetch_at_entry [of p ix' ?key ?r] p mem by (simp add: part_of_def)
qed

context metadata_log
begin

lemma serve_ack_readable:
  assumes c: "ready c" "\<forall>sp\<in>set spans. 0 < cs_count sp"
    and s: "serve log_append log_read_from env c object spans = Some (Inr ack, c')"
    and ix: "index_folds (log_entries (co_log c)) (co_index c) \<or>
      (\<forall>start n. is_ok (log_read_from (co_log c') start n))"
    and i: "i < length spans" "decision_at (co_allocator c) spans i = Admit"
    and base: "ack_outcomes ack ! i = Assigned asg"
  shows "co_published c' = Some (ack_version ack) \<and> ix_applied (co_index c') = Some (ack_version ack) \<and>
    (\<exists>bs. find_batches (co_index c') (cs_key (spans ! i)) (as_base_offset asg) mb = Inr bs \<and> bs \<noteq> [] \<and>
       batch_reference (hd bs) =
         \<lparr>or_object = object, or_base = as_base_offset asg, or_count = cs_count (spans ! i)\<rparr>)"
proof -
  let ?a = "co_allocator c" and ?es = "log_entries (co_log c)"
  let ?idx = "filter (\<lambda>i. decision_at ?a spans i = Admit) [0..<length spans]"
  let ?adm = "map snd (ad_admitted (admit ?a spans))"
  have "i \<in> set ?idx" using i by simp
  then obtain k where k: "k < length ?idx" "?idx ! k = i" by (metis in_set_conv_nth)
  then have ne: "ad_admitted (admit ?a spans) \<noteq> []" by (auto simp: ad_admitted_alt)
  from serve_returned [OF c s] ne obtain st where
    st: "took_position env c st c'" "me_version (sc_entry st) = ack_version ack"
    "me_record (sc_entry st) = commit_record env c object spans"
    and outs: "ack_outcomes ack = map (outcome_at ?a (alloc_end ?a) spans) [0..<length spans]"
    and ready': "ready c'" by (auto simp: commit_lands_def)
  have entry: "sc_entry st = \<lparr>me_version = ack_version ack, me_record = BatchCommitted object ?adm (env_now env)\<rparr>"
    using st(2,3) by (cases "sc_entry st") (simp add: commit_record_def)
  from st(1) have log': "log_entries (co_log c') = ?es @ [sc_entry st]" by (simp add: took_position_def)
  have "(\<forall>start n. is_ok (log_read_from (co_log c') start n)) \<Longrightarrow> good_log (co_log c')"
    using readyD(2,5) [OF ready'] by (simp add: good_log_def)
  then have full: "index_folds (?es @ [sc_entry st]) (co_index c')"
    using st(1) ix by (auto simp: took_position_def)
  obtain all where all: "index_folds ?es all" using readyD(5) [OF c(1)] by blast
  from st(1) have "alloc_folds ?es (co_line c)" by (simp add: took_position_def)
  from alloc_folds_step [OF all readyD(2) [OF c(1)] this]
  have "alloc_end ?a = index_end_offset all" by (simp add: in_step_def fun_eq_iff)
  moreover have adm: "k < length ?adm" "?adm ! k = spans ! i" "take k ?adm = admitted_before ?a spans i"
    using k take_filter_upt [OF k(1)] by (simp_all add: ad_admitted_alt admitted_before_def take_map)
  ultimately have "as_base_offset asg =
      index_end_offset all (cs_key (?adm ! k)) + int (span_total (cs_key (?adm ! k)) (take k ?adm))"
    using base outs i by (auto simp: outcome_at_def span_assignment_def)
  from committed_span_fetches [OF all full [unfolded entry] adm(1) this, of mb] adm(2)
  have fetch: "\<exists>bs. find_batches (co_index c') (cs_key (spans ! i)) (as_base_offset asg) mb = Inr bs \<and> bs \<noteq> [] \<and>
     batch_reference (hd bs) = \<lparr>or_object = object, or_base = as_base_offset asg, or_count = cs_count (spans ! i)\<rparr>"
    by simp
  have "ix_applied (co_index c') = Some (ack_version ack)"
    using index_folds_upto [OF full] st(2) by (simp add: last_version_of_def)
  with fetch st(1) show ?thesis by (simp add: took_position_def)
qed

lemma serve_refused:
  assumes "ready c" "\<forall>sp\<in>set spans. 0 < cs_count sp"
    and "serve log_append log_read_from env c object spans = Some (Inl e, c')"
  shows "co_line c' = co_line c \<and> co_index c' = co_index c \<and> co_published c' = co_published c \<and>
    co_deltas c' = co_deltas c \<and>
    (log_entries (co_log c') = log_entries (co_log c) \<or>
     e = Fenced \<and> co_lease c \<and> \<not> env_held_after_append env \<and> co_replayed_term c' = None \<and>
     (\<exists>v. log_entries (co_log c') = log_entries (co_log c) @
       [\<lparr>me_version = v, me_record =
          BatchCommitted object (map snd (ad_admitted (admit (co_allocator c) spans))) (env_now env)\<rparr>]))"
proof -
  from serve_returned(2) [OF assms] consider "c' = c"
    | st where "refused_position env c st e c'" "me_record (sc_entry st) = commit_record env c object spans"
    by (auto simp: commit_lands_def)
  then show ?thesis
  proof cases
    case 2
    from 2(1) have frame: "co_line c' = co_line c \<and> co_index c' = co_index c \<and>
        co_published c' = co_published c \<and> co_deltas c' = co_deltas c"
      unfolding refused_position_def by (metis (no_types, lifting) coordinator.select_convs
          coordinator.surjective coordinator.update_convs(1,11))
    have "sc_entry st = \<lparr>me_version = me_version (sc_entry st), me_record = commit_record env c object spans\<rparr>"
      using 2(2) by (cases "sc_entry st") simp
    with 2(1) frame show ?thesis by (auto simp: refused_position_def commit_record_def)
  qed simp
qed

end

section \<open>Coming up\<close>

context metadata_log
begin

lemma both_fold_unique: "both_fold es acc ix \<Longrightarrow> both_fold es acc' ix' \<Longrightarrow> acc = acc' \<and> ix = ix'"
  by (auto simp: both_fold_def index_folds_def prod_eq_iff)

lemma open_lands:
  assumes "log_invar l" "\<forall>e\<in>set (log_entries l). me_version e < u64_max" "ix_quota index = None"
  shows "\<exists>out. coordinator_open log_read_from l index epoch = Some out \<and>
    (case out of
       Inl (e, ix) \<Rightarrow> (ix = index_new \<or> ix = index \<and> \<not> is_ok (log_read_from l 0 REBUILD_PAGE_ENTRIES)) \<and>
         \<not> good_log l
     | Inr c \<Rightarrow> ready c \<and> co_log c = l \<and> co_epoch c = epoch \<and> index_folds (log_entries l) (co_index c) \<and>
         alloc_run allocator_new (log_entries l) = Inr (co_allocator c) \<and>
         co_last_committed c = last_version_of None (log_entries l) \<and>
         co_published c = ix_applied (co_index c))"
proof -
  from replay_returns [OF assms(1,3)] obtain r ix where
    r: "replay log_read_from l index = Some (r, ix)" "\<forall>acc. r = Inr acc \<longrightarrow> both_fold (log_entries l) acc ix"
    "\<forall>e. r = Inl e \<longrightarrow> ix = index_new \<or> ix = index \<and> \<not> is_ok (log_read_from l 0 REBUILD_PAGE_ENTRIES)"
    "good_log l \<longrightarrow> is_ok r" by blast
  show ?thesis
  proof (cases r)
    case (Inl e)
    with r show ?thesis by (auto simp: coordinator_open_def)
  next
    case (Inr acc)
    with r(2) have fold: "both_fold (log_entries l) acc ix" by blast
    define c where "c = assemble l ix epoch (fst acc, snd acc, False)"
    have opened: "coordinator_open log_read_from l index epoch = Some (Inr c)"
      using r(1) Inr by (cases acc) (simp add: coordinator_open_def c_def)
    have pub: "snd acc = ix_applied ix"
      using fold index_folds_upto by (auto simp: both_fold_def)
    have "log_ok log_entries log_invar l"
      using assms(1,2) fold by (auto simp: log_ok_def both_fold_def)
    then have "ready c"
      using fold pub
      by (cases acc) (auto simp: co_ready_def co_inv_def c_def assemble_def both_fold_iff folds_prefix_whole
          replays_prefix_whole)
    with opened fold pub show ?thesis
      by (auto simp: c_def assemble_def both_fold_def)
  qed
qed

lemma promote_is_open:
  assumes l: "log_invar l" "good_log l" and log: "log_entries l = xs @ ys"
    and sb: "both_fold xs (sb_line sb) (sb_index sb)" and index: "ix_quota index = None"
  shows "\<exists>c. promote log_read_from l epoch sb = Some (Inr c) \<and>
    coordinator_open log_read_from l index epoch = Some (Inr c)"
proof -
  from standby_loop_lands [OF l(1) log sb, of 0] l(2) obtain n sb' where
    sb': "standby_loop log_read_from l 0 sb = Some (Inr n, sb')"
    "both_fold (log_entries l) (sb_line sb') (sb_index sb')"
    by (auto simp: standby_lands_def is_ok_iff)
  from replay_returns [OF l(1) index] l(2) obtain acc ix where
    r: "replay log_read_from l index = Some (Inr acc, ix)" "both_fold (log_entries l) acc ix"
    by (auto simp: is_ok_iff)
  from both_fold_unique [OF sb'(2) r(2)] have eq: "acc = (sb_allocator sb', sb_last sb')" "ix = sb_index sb'"
    by auto
  have "promote log_read_from l epoch sb =
      Some (Inr (assemble l (sb_index sb') epoch (sb_allocator sb', sb_last sb', False)))"
    by (simp add: promote_def standby_catch_up_def sb'(1))
  moreover have "coordinator_open log_read_from l index epoch =
      Some (Inr (assemble l (sb_index sb') epoch (sb_allocator sb', sb_last sb', False)))"
    by (simp add: coordinator_open_def r(1) eq)
  ultimately show ?thesis by blast
qed

end

section \<open>Leases\<close>

lemma may_write_frame:
  "may_write read_from env c = Some (r, c') \<Longrightarrow> co_deltas c' = co_deltas c"
  by (auto simp: may_write_def try_replay_def current_for_term_def publish_applied_def
      split: option.splits if_splits sum.splits prod.splits bool.splits)

context metadata_log
begin

lemma lapsed_take_position:
  assumes "ready c" "co_lease c" "\<not> (env_held_at_journal env \<and> env_held_after_append env)"
  shows "\<not> took_position env c st c'" "refused_position env c st e c' \<Longrightarrow> co_deltas c' = co_deltas c"
proof -
  show "\<not> took_position env c st c'" using assms by (auto simp: took_position_def)
  show "refused_position env c st e c' \<Longrightarrow> co_deltas c' = co_deltas c"
    unfolding refused_position_def
    by (metis coordinator.select_convs(5) coordinator.surjective coordinator.update_convs(1,11))
qed

lemma guarded_returns:
  assumes "co_ok c" "env_ok log_entries log_invar env c"
    and "guarded log_read_from env c rp body = Some (rep, c')"
  obtains e where "rep = rp (Inl e)" "co_deltas c' = co_deltas c"
  | c1 r where "ready c1" "co_lease c1 = co_lease c" "co_deltas c1 = co_deltas c"
      "co_lease c \<longrightarrow> env_held_at_admission env" "body c1 = Some (r, c')" "rep = rp r"
proof -
  from may_write_keeps [OF assms(1,2)] obtain r c1 where
    m: "may_write log_read_from env c = Some (r, c1)" "co_lease c1 = co_lease c"
    "is_ok r \<longrightarrow> ready c1 \<and> (co_lease c \<longrightarrow> env_held_at_admission env)" by blast
  note d = may_write_frame [OF m(1)]
  show thesis
  proof (cases r)
    case (Inl e)
    with m(1) assms(3) have "rep = rp (Inl e)" "c' = c1" by (simp_all add: guarded_def)
    with d that(1) show ?thesis by simp
  next
    case (Inr u)
    with m(1) assms(3) obtain r' where "body c1 = Some (r', c')" "rep = rp r'"
      by (auto simp: guarded_def)
    with m(2,3) Inr d that(2) show ?thesis by auto
  qed
qed

lemma lapsed_staged:
  assumes "co_ok c" "env_ok log_entries log_invar env c" "co_lease c"
    and "\<not> (env_held_at_admission env \<and> env_held_at_journal env \<and> env_held_after_append env)"
    and "guarded log_read_from env c VersionReply
      (\<lambda>self. serve_staged log_append log_read_from env self (stage self)) = Some (rep, c')"
    and "\<And>self st. stage self = Inr st \<Longrightarrow> staged_by (co_allocator self) st"
  shows "co_deltas c' = co_deltas c \<and> (\<forall>v. rep \<noteq> VersionReply (Inr v))"
  using assms(1,2,5)
proof (cases rule: guarded_returns)
  case (2 c1 r)
  from serve_staged_lands [OF 2(1), of "stage c1" env] assms(6) 2(5) have
    ok: "\<forall>v. r = Inr v \<longrightarrow> (\<exists>st. took_position env c1 st c')"
    and bad: "\<forall>e. r = Inl e \<longrightarrow> c' = c1 \<or> (\<exists>st. refused_position env c1 st e c')" by fastforce+
  have "\<not> (env_held_at_journal env \<and> env_held_after_append env)" using assms(3,4) 2(4) by blast
  note lap = lapsed_take_position [OF 2(1) _ this]
  show ?thesis
    using ok bad lap 2(2,3,6) assms(3) by (cases r) auto
qed simp

lemma lapsed_lease:
  assumes "co_ok c" "env_ok log_entries log_invar env c" "request_ok req" "co_lease c"
    and lapsed: "\<not> (env_held_at_admission env \<and> env_held_at_journal env \<and> env_held_after_append env)"
    and run: "run_one log_append log_read_from env c req = Some (rep, c')"
  shows "co_deltas c' = co_deltas c \<and> (\<forall>v. rep \<noteq> VersionReply (Inr v)) \<and>
    (\<forall>object spans ack. req = CommitRequest object spans \<and> rep = CommitReply (Inr ack) \<longrightarrow>
       ad_admitted (admit (co_allocator c') spans) = [])"
proof (cases req)
  case (CommitRequest object spans)
  from assms(1,2) run [unfolded CommitRequest run_one.simps] show ?thesis
  proof (cases rule: guarded_returns)
    case (2 c1 r)
    have pos: "\<forall>sp\<in>set spans. 0 < cs_count sp" using assms(3) CommitRequest by simp
    have "\<not> (env_held_at_journal env \<and> env_held_after_append env)" using lapsed 2(4) assms(4) by blast
    note lap = lapsed_take_position [OF 2(1) _ this]
    from serve_returned(2) [OF 2(1) pos 2(5)] lap 2(2,3,6) assms(4) CommitRequest show ?thesis
      by (cases r) (auto simp: commit_lands_def split: if_splits)
  qed (simp add: CommitRequest)
next
  case (TrimRequest topic part start)
  from lapsed_staged [OF assms(1,2,4) lapsed, of "\<lambda>c. stage_trim (co_allocator c) topic part start"]
    staged_by_intros(1) run TrimRequest show ?thesis
    unfolding serve_trim_def [abs_def] run_one.simps by (simp add: serve_trim_def)
next
  case (RetentionRequest topic r)
  from lapsed_staged [OF assms(1,2,4) lapsed, of "\<lambda>c. stage_retention (co_allocator c) topic r"]
    staged_by_intros(2) run RetentionRequest show ?thesis
    by (simp add: serve_retention_def)
next
  case DropCache
  with run show ?thesis by (auto simp: publish_applied_def)
qed

end

section \<open>What clients rely on\<close>




definition fenced_coordinator :: "fake_log coordinator" where
  "fenced_coordinator = fenced_by example_coordinator"

definition lapsed_env :: "fake_log env" where
  "lapsed_env = example_env\<lparr>env_held_at_journal := False\<rparr>"

lemma fenced_ready: "co_ready (\<lambda>l. l) (ascending None) fenced_coordinator"
  using example_ready by (auto simp: co_ready_def co_inv_def fenced_coordinator_def fenced_by_def)

lemma lapsed_env_ok: "env_ok (\<lambda>l. l) (ascending None) lapsed_env fenced_coordinator"
  by (simp add: env_ok_def lapsed_env_def example_env_def fenced_coordinator_def fenced_by_def
      example_coordinator_def assemble_def)

lemma lapsed_refuses:
  "serve fake_append fake_read_from lapsed_env fenced_coordinator ''o'' [example_span 5 10, example_span 7 10] =
     Some (Inl Fenced, fenced_coordinator)"
proof -
  have "is_ok (alloc_stage allocator_new ''o'' [example_span 5 10, example_span 7 10] 5)"
    by (simp add: alloc_stage_def stage_commit_span_def allocator_new_def offset_add_def
        version_advance_def Let_def example_span_def)
  then show ?thesis
    using example_admits
    by (auto simp: serve_def Let_def fenced_coordinator_def fenced_by_def example_coordinator_def assemble_def
        lapsed_env_def example_env_def take_position_def leads_def is_ok_iff)
qed


text \<open>C26. A lapsed lease acknowledges nothing new.  A coordinator fenced by a lease that is not held
  when a request is admitted, when it is journaled or when the append has returned publishes no
  entry, acknowledges no trim or retention change, and acknowledges a commit only if no span of it
  was admitted (every one a retry already on the line, or refused).\<close>

theorem lapsed_lease_acknowledges_nothing:
  assumes "metadata_log entries_of append_to read_from invar"
    and "co_inv entries_of invar c" "env_ok entries_of invar env c" "request_ok req" "co_lease c"
    and "\<not> (env_held_at_admission env \<and> env_held_at_journal env \<and> env_held_after_append env)"
    and "run_one append_to read_from env c req = Some (rep, c')"
  shows "co_deltas c' = co_deltas c \<and> (\<forall>v. rep \<noteq> VersionReply (Inr v)) \<and>
    (\<forall>object spans ack. req = CommitRequest object spans \<and> rep = CommitReply (Inr ack) \<longrightarrow>
       ad_admitted (admit (co_allocator c') spans) = [])"
  by (rule metadata_log.lapsed_lease [OF assms])

theorem lapsed_lease_acknowledges_nothing_witness:
  "\<exists>rep c'. run_one fake_append fake_read_from lapsed_env fenced_coordinator
      (RetentionRequest ''t'' None) = Some (rep, c') \<and> co_deltas c' = [] \<and> rep \<noteq> VersionReply (Inr 0)"
proof -
  have inv: "co_inv (\<lambda>l. l) (ascending None) fenced_coordinator" using fenced_ready by (simp add: co_ready_def)
  obtain rep c' where r: "run_one fake_append fake_read_from lapsed_env fenced_coordinator
      (RetentionRequest ''t'' None) = Some (rep, c')"
    using metadata_log.run_one_answers [OF fake.metadata_log_axioms inv lapsed_env_ok,
        of "RetentionRequest ''t'' None"] by auto
  have "co_lease fenced_coordinator" "\<not> env_held_at_journal lapsed_env" "co_deltas fenced_coordinator = []"
    by (simp_all add: fenced_coordinator_def fenced_by_def lapsed_env_def example_coordinator_def assemble_def)
  with lapsed_lease_acknowledges_nothing [OF fake.metadata_log_axioms inv lapsed_env_ok _ _ _ r] r
  show ?thesis by auto
qed

text \<open>C28. Opening always returns, and serves the fold of the log or nothing: a coordinator that comes up
  has replayed every entry into its allocator and its index and may write; one that is refused hands
  back an index that is empty, or untouched if the first read failed; and on a log that can be read and
  folds it is never refused.\<close>

theorem open_serves_the_whole_log:
  assumes "metadata_log entries_of append_to read_from invar"
    and "invar l" "\<forall>e\<in>set (entries_of l). me_version e < u64_max" "ix_quota index = None"
  shows "\<exists>out. coordinator_open read_from l index epoch = Some out \<and>
    (case out of
       Inl (e, ix) \<Rightarrow> (ix = index_new \<or> ix = index \<and> \<not> is_ok (read_from l 0 REBUILD_PAGE_ENTRIES)) \<and>
         \<not> ((\<forall>start n. is_ok (read_from l start n)) \<and> is_ok (index_apply index_new (entries_of l)))
     | Inr c \<Rightarrow> co_ready entries_of invar c \<and> co_log c = l \<and> co_epoch c = epoch \<and>
         index_apply index_new (entries_of l) = Inr (co_index c) \<and>
         alloc_run allocator_new (entries_of l) = Inr (co_allocator c) \<and>
         co_last_committed c = last_version_of None (entries_of l) \<and>
         co_published c = ix_applied (co_index c))"
proof -
  have "metadata_log.good_log entries_of read_from l"
    if "\<forall>start n. is_ok (read_from l start n)" "is_ok (index_apply index_new (entries_of l))"
    using that assms(3) by (auto simp: metadata_log.good_log_def [OF assms(1)] index_folds_def is_ok_iff)
  with metadata_log.open_lands [OF assms] show ?thesis
    by (fastforce simp: index_folds_def split: sum.splits)
qed

theorem open_serves_the_whole_log_witness:
  "\<exists>c. coordinator_open fake_read_from example_log index_new 3 = Some (Inr c) \<and>
     index_apply index_new example_log = Inr (co_index c)"
proof -
  have "ascending None example_log" by (simp add: ascending_def example_log_def)
  from open_serves_the_whole_log [OF fake.metadata_log_axioms this example_versions, of index_new 3]
  obtain out where out: "coordinator_open fake_read_from example_log index_new 3 = Some out"
    and split: "case out of
       Inl (e, ix) \<Rightarrow> (ix = index_new \<or> ix = index_new \<and> \<not> is_ok (fake_read_from example_log 0 REBUILD_PAGE_ENTRIES)) \<and>
         \<not> ((\<forall>start n. is_ok (fake_read_from example_log start n)) \<and> is_ok (index_apply index_new example_log))
     | Inr c \<Rightarrow> co_ready (\<lambda>l. l) (ascending None) c \<and> co_log c = example_log \<and> co_epoch c = 3 \<and>
         index_apply index_new example_log = Inr (co_index c) \<and>
         alloc_run allocator_new example_log = Inr (co_allocator c) \<and>
         co_last_committed c = last_version_of None example_log \<and>
         co_published c = ix_applied (co_index c)"
    using new_ok by auto
  have "is_ok (fake_read_from example_log start n)" for start n by (simp add: fake_read_from_def)
  with out split example_folds show ?thesis by (cases out) auto
qed

text \<open>C29. A promotion is a cold open.  A standby that has folded any prefix of the log, promoted over a
  log that can be read and folds, becomes exactly the coordinator that opening the log afresh gives,
  down to the allocator's producer table and the index.\<close>

theorem promotion_equals_cold_open:
  assumes "metadata_log entries_of append_to read_from invar"
    and "invar l" "\<forall>e\<in>set (entries_of l). me_version e < u64_max" "ix_quota index = None"
    and "\<forall>start n. is_ok (read_from l start n)" "is_ok (index_apply index_new (entries_of l))"
    and "entries_of l = xs @ ys" "index_apply index_new xs = Inr (sb_index sb)"
    and "alloc_run allocator_new xs = Inr (sb_allocator sb)" "sb_last sb = last_version_of None xs"
  shows "\<exists>c. promote read_from l epoch sb = Some (Inr c) \<and>
    coordinator_open read_from l index epoch = Some (Inr c)"
proof -
  have "metadata_log.good_log entries_of read_from l"
    using assms(3,5,6) by (auto simp: metadata_log.good_log_def [OF assms(1)] index_folds_def is_ok_iff)
  moreover have "both_fold xs (sb_line sb) (sb_index sb)"
    using assms(8-10) by (simp add: both_fold_def index_folds_def)
  ultimately show ?thesis using metadata_log.promote_is_open [OF assms(1,2)] assms(4,7) by blast
qed

theorem promotion_equals_cold_open_witness:
  "\<exists>c. promote fake_read_from example_log 3 (standby_new index_new) = Some (Inr c) \<and>
     coordinator_open fake_read_from example_log index_new 3 = Some (Inr c)"
proof -
  have "ascending None example_log" by (simp add: ascending_def example_log_def)
  moreover have "index_clear index_new = index_new" using new_ok clear_is_new by blast
  moreover have "index_apply index_new [] = Inr index_new" using memory.apply_nothing [OF new_ok] .
  ultimately show ?thesis
    using promotion_equals_cold_open [OF fake.metadata_log_axioms _ example_versions _ _ example_folds,
        of index_new "[]" example_log "standby_new index_new" 3] new_ok
    by (simp add: fake_read_from_def standby_new_def)
qed

end
