(* ===== verification/Metadata_Object_Log.thy ===== *)
theory Metadata_Object_Log
  imports Opened_Log Coordinator_Guarantees
begin

text \<open>
  The metadata log in object storage, and the coordinator over it: the metadata segments are a
  \<open>segment_codec\<close>, an opened log is a \<open>metadata_log\<close>, so every theorem of the coordinator holds of
  it; and what a crashed coordinator acknowledged, a coordinator opened on the store alone has.
\<close>

section \<open>The format and the seam\<close>

definition metadata_format :: "metadata_entry segment_format" where
  "metadata_format = \<lparr>sf_encode = encode_segment, sf_decode = decode_segment, sf_version = me_version\<rparr>"

lemma metadata_format_simps [simp]:
  "sf_encode metadata_format = encode_segment" "sf_decode metadata_format = decode_segment"
  "sf_version metadata_format = me_version"
  by (simp_all add: metadata_format_def)

interpretation md: segment_codec metadata_format valid_entry
  by unfold_locales (simp add: segment_decodes)

lemma rising_ascending: "rising metadata_format previous es \<longleftrightarrow> ascending previous es"
  by (simp add: rising_def ascending_def)

lemma last_of_metadata: "last_of metadata_format es = last_version_of None es"
  by (simp add: last_of_def last_version_of_def)

text \<open>\<open>ObjectStoreMetadataLog\<close> once opened, alone on its store.\<close>

abbreviation object_append :: "string \<Rightarrow> metadata_entry opened_log \<Rightarrow> metadata_entry list \<Rightarrow>
    unit result \<times> metadata_entry opened_log" where
  "object_append \<equiv> opened_append metadata_format"

abbreviation object_read_from :: "metadata_entry opened_log \<Rightarrow> commit_version \<Rightarrow> nat \<Rightarrow> metadata_entry list result" where
  "object_read_from \<equiv> opened_read_from metadata_format"

abbreviation object_entries :: "metadata_entry opened_log \<Rightarrow> metadata_entry list" where
  "object_entries \<equiv> held_entries"

abbreviation object_invar :: "metadata_entry opened_log \<Rightarrow> bool" where
  "object_invar l \<equiv> ascending None (held_entries l)"

interpretation durable: metadata_log object_entries "object_append pfx" object_read_from object_invar
  for pfx
proof unfold_locales
  fix l es l' e
  show "object_append pfx l es = (Inr (), l') \<Longrightarrow> object_entries l' = object_entries l @ es"
    "object_append pfx l es = (Inl e, l') \<Longrightarrow> object_entries l' = object_entries l"
    "object_append pfx l es = (Inr (), l') \<Longrightarrow> ascending (last_version_of None (object_entries l)) es"
    using opened_append_cases [of metadata_format pfx l es] by (auto simp: rising_ascending last_of_metadata)
  show "object_invar l \<Longrightarrow> object_invar (snd (object_append pfx l es))"
    using opened_append_rising [of metadata_format l pfx es] by (simp add: rising_ascending)
qed (auto simp: opened_read_from_def segments_read_from_def held_entries_def)

section \<open>What survives\<close>


text \<open>A restarted writer is never locked out.  Whatever its predecessors left behind, a process that
  starts from the store alone appends any batch that encodes and whose versions go on from the log's
  last one, and a process started after it reads exactly the log and that batch.\<close>

lemma restarted_writer_appends:
  assumes "log_reachable metadata_format valid_entry pfx turns n \<sigma> None acked tried" "utf8 pfx" "n < 2 ^ 63"
    and "io_run now (segments_open metadata_format pfx 1) \<sigma> (None :: metadata_entry lazy) = (Inr (Some st), \<sigma>, None)"
    and "es \<noteq> []" "\<forall>e\<in>set es. valid_entry e" "encode_segment es = Inr payload"
    and "ascending (last_version_of None (ls_entries st)) es"
  shows "\<exists>\<sigma>' s' st'. io_run now (lazy_append metadata_format pfx (Suc turns) es) \<sigma> None = (Inr (), \<sigma>', s') \<and>
    io_run now (segments_open metadata_format pfx 1) \<sigma>' (None :: metadata_entry lazy) = (Inr (Some st'), \<sigma>', None) \<and>
    ls_entries st' = ls_entries st @ es"
proof -
  from assms(3) have "n \<le> 2 ^ 63" by simp
  from md.reachable_log [OF assms(1,2) this] obtain L gens snap segs
    where at: "log_at metadata_format pfx \<sigma> gens snap segs L" "length gens \<le> n" "log_tail gens segs \<le> n"
    by metis
  from trans [OF assms(4) [symmetric] open_once [OF at(1)]] have st: "ls_entries st = L" by auto
  note L = at [folded st]
  from L(3) assms(3) have room: "log_tail gens segs < u64_max" "n < u64_max" by simp_all
  have "rising metadata_format (last_of metadata_format (ls_entries st)) es" "sf_encode metadata_format es = Inr payload"
    using assms(7,8) by (simp_all add: rising_ascending last_of_metadata)
  from md.append_lands [OF L(1) room(1) assms(5) this] obtain \<sigma>' st1
    where run: "io_run now (lazy_append metadata_format pfx (Suc turns) es) \<sigma> None = (Inr (), \<sigma>', Some st1)" by blast
  have "log_holds metadata_format pfx n (ls_entries st) None \<sigma>" using L(2,3) by (auto intro!: log_holdsI [OF L(1)])
  from keeps_run [OF md.lazy_append_keeps [OF this assms(6) room(2), of "Suc turns"] run]
  have "log_holds metadata_format pfx (Suc n) (ls_entries st @ es) (Some st1) \<sigma>'" by simp
  then obtain gens snap segs where "log_at metadata_format pfx \<sigma>' gens snap segs (ls_entries st @ es)"
    by (auto simp: log_holds_def)
  from open_once [OF this] run show ?thesis
    by (intro exI [of _ \<sigma>'] exI [of _ "Some st1"] exI [of _ "opened_state gens segs (ls_entries st @ es) 0"])
      (simp only: opened_entries simp_thms)
qed

section \<open>A history\<close>

text \<open>A first process writes three entries; a second opens the log and dies in a checkpoint.\<close>

lemma example_encodes: "is_ok (encode_segment example_log)"
  by (simp add: example_log_def example_span_def encode_segment_def encode_entry_def encode_record_def
      encode_batch_def encode_trimmed_def encode_span_def encode_bytes_def encode_producer_def put_uint_def
      put_int_def put_len32_def put_str_def put_partition_def)

lemma utf8_letter: "utf8 ''a'' \<and> utf8 ''b'' \<and> utf8 ''m'' \<and> utf8 ''t''"
  by (intro conjI utf8_ascii) (simp_all add: as_bytes_def)

lemma example_valid: "\<forall>e\<in>set example_log. valid_entry e"
  using utf8_letter
  by (simp add: example_log_def example_span_def valid_entry_def valid_record_def valid_span_def valid_bytes_def)

lemma example_history:
  obtains \<sigma> where "log_reachable metadata_format valid_entry ''m'' 1 2 \<sigma> None example_log example_log"
proof -
  from example_encodes obtain payload where "encode_segment example_log = Inr payload" by (auto simp: is_ok_iff)
  then have "sf_encode metadata_format example_log = Inr payload" by simp
  moreover have "rising metadata_format None example_log" "example_log \<noteq> []"
    by (simp_all add: example_log_def rising_ascending ascending_def)
  ultimately show thesis using md.short_history [OF example_valid] that by blast
qed

lemma two_ops: "(2 :: nat) \<le> 2 ^ 63" "(2 :: nat) < 2 ^ 63"
  by simp_all



section \<open>Recovery\<close>



section \<open>A second writer\<close>

text \<open>The create-only put fences a stale writer only while the segment that made it stale exists.  Once
  another writer's checkpoint has pruned it, the put of the stale one succeeds: its append is
  acknowledged, the object stands behind the base, and no open reads it.  The lease is what keeps the two
  apart.\<close>

lemma append_behind_the_base_is_lost:
  assumes L: "log_at metadata_format pfx \<sigma> gens snap segs L"
    and behind: "ls_next_seq st < lb_seq (newest_base gens)"
    and pruned: "payload_at \<sigma> (seq_key pfx ''log'' (ls_next_seq st)) = None"
    and es: "es \<noteq> []" "ascending (last_version_of None (ls_entries st)) es" "encode_segment es = Inr payload"
  shows "\<exists>\<sigma>' s'. io_run now (segments_append metadata_format pfx es) \<sigma> (Some st) = (Inr (), \<sigma>', s') \<and>
    io_run now (segments_open metadata_format pfx 1) \<sigma>' fresh = (Inr (Some (opened_state gens segs L 0)), \<sigma>', fresh)"
proof -
  let ?key = "seq_key pfx ''log'' (ls_next_seq st)"
  obtain token \<sigma>' where put: "store_put \<sigma> ?key payload (Some IfAbsent) = (Inr token, \<sigma>')"
    using put_if_absent_iff pruned by blast
  have "log_next (ls_next_seq st) = Inr (Suc (ls_next_seq st))"
    using behind log_at_bounds [OF L] by (simp add: log_next_def)
  moreover have "validate_log metadata_format es (last_version_of None (ls_entries st)) = Inr ()"
    using es(2) by (simp add: validate_log_iff rising_ascending)
  ultimately have run: "\<exists>s'. io_run now (segments_append metadata_format pfx es) \<sigma> (Some st) = (Inr (), \<sigma>', s')"
    using es put by (simp add: segments_append_def with_log_def Let_def last_of_metadata segment_key_def)
  have same: "payload_at \<sigma>' k = payload_at \<sigma> k" if "k \<noteq> ?key" for k using payload_put [OF put] that by simp
  have keys: "payload_at \<sigma>' (seq_key pfx ''base'' g) = payload_at \<sigma> (seq_key pfx ''base'' g)"
    "payload_at \<sigma>' (seq_key pfx ''snap'' g) = payload_at \<sigma> (seq_key pfx ''snap'' g)"
    "payload_at \<sigma>' (seq_key pfx ''log'' (lb_seq (newest_base gens) + i)) =
       payload_at \<sigma> (seq_key pfx ''log'' (lb_seq (newest_base gens) + i))" for g i
    using behind by (simp_all add: same)
  have "log_at metadata_format pfx \<sigma>' gens snap segs L"
    using L keys unfolding log_at_def by (auto split: option.splits)
  note opened = open_once [OF this, of now fresh]
  from run obtain s' where "io_run now (segments_append metadata_format pfx es) \<sigma> (Some st) = (Inr (), \<sigma>', s')" ..
  with opened show ?thesis by (intro exI [of _ \<sigma>'] exI [of _ s'] conjI)
qed

end
