(* ===== verification/Consumer_Groups.thy ===== *)
theory Consumer_Groups
  imports Core_Types
begin

text \<open>
  Consumer groups: the state machine of one group (\<open>group_state.rs\<close>), the coordinator that holds
  them (\<open>group_coordinator.rs\<close>), the election of a leader and a protocol (\<open>group_protocol.rs\<close>), and
  the broker's fencing of group requests (\<open>oqueue-broker/src/fencing.rs\<close>).
\<close>

section \<open>Identities\<close>

type_synonym group_id = string

definition group_id_new :: "string \<Rightarrow> group_id result" where
  "group_id_new name = (if name = [] then Inl EmptyGroupId else Inr name)"

definition member_id_new :: "string \<Rightarrow> string result" where
  "member_id_new name = (if name = [] then Inl EmptyMemberId else Inr name)"

section \<open>The state machine\<close>

datatype group_event =
    Join
  | JoinBarrierComplete
  | SyncComplete
  | MemberJoinedDuringSync
  | MemberLeft
  | AllMembersGone
  | Expire

datatype group_state = Empty | PreparingRebalance | CompletingRebalance | Stable | Dead

text \<open>The names \<open>Debug\<close> gives them, which the refusal carries.\<close>

primrec debug_event :: "group_event \<Rightarrow> string" where
  "debug_event Join = ''Join''"
| "debug_event JoinBarrierComplete = ''JoinBarrierComplete''"
| "debug_event SyncComplete = ''SyncComplete''"
| "debug_event MemberJoinedDuringSync = ''MemberJoinedDuringSync''"
| "debug_event MemberLeft = ''MemberLeft''"
| "debug_event AllMembersGone = ''AllMembersGone''"
| "debug_event Expire = ''Expire''"

primrec debug_state :: "group_state \<Rightarrow> string" where
  "debug_state Empty = ''Empty''"
| "debug_state PreparingRebalance = ''PreparingRebalance''"
| "debug_state CompletingRebalance = ''CompletingRebalance''"
| "debug_state Stable = ''Stable''"
| "debug_state Dead = ''Dead''"

text \<open>Generations are 32-bit; the builds check overflow, so one past the last panics.\<close>

definition generation_next :: "int \<Rightarrow> int result" where
  "generation_next g = (if g < i32_max then Inr (g + 1) else Inl Panicked)"

definition GENERATION_INITIAL :: int where
  "GENERATION_INITIAL = 0"

definition ASSIGNMENT_INITIAL :: int where
  "ASSIGNMENT_INITIAL = -1"

definition transition :: "group_state \<Rightarrow> group_event \<Rightarrow> int \<Rightarrow> int \<Rightarrow> (group_state \<times> int \<times> int) result" where
  "transition self event generation assignment_epoch =
     (if (self, event) \<in> {(Empty, Join), (Stable, Join), (CompletingRebalance, MemberJoinedDuringSync),
           (PreparingRebalance, MemberLeft), (Stable, MemberLeft), (CompletingRebalance, MemberLeft)}
      then Inr (PreparingRebalance, generation, assignment_epoch)
      else if (self, event) = (Empty, Expire) then Inr (Dead, generation, assignment_epoch)
      else if (self, event) = (PreparingRebalance, JoinBarrierComplete)
      then bindR (generation_next generation) (\<lambda>g. Inr (CompletingRebalance, g, assignment_epoch))
      else if (self, event) \<in> {(PreparingRebalance, AllMembersGone), (Stable, AllMembersGone),
           (CompletingRebalance, AllMembersGone)}
      then Inr (Empty, generation, assignment_epoch)
      else if (self, event) = (CompletingRebalance, SyncComplete) then Inr (Stable, generation, generation)
      else Inl (IllegalGroupTransition (debug_state self) (debug_event event)))"

section \<open>The coordinator\<close>

record group_roster =
  ro_protocol_type :: string
  ro_protocol_name :: string
  ro_member_ids :: "string list"

record group_record =
  gr_state :: group_state
  gr_generation :: int
  gr_assignment_epoch :: int

definition FRESH :: group_record where
  "FRESH = \<lparr>gr_state = Empty, gr_generation = GENERATION_INITIAL, gr_assignment_epoch = ASSIGNMENT_INITIAL\<rparr>"

record group_coordinator =
  gc_groups :: "group_id \<rightharpoonup> group_record"
  gc_rosters :: "group_id \<rightharpoonup> group_roster"

definition gc_new :: group_coordinator where
  "gc_new = \<lparr>gc_groups = Map.empty, gc_rosters = Map.empty\<rparr>"

definition gc_current :: "group_coordinator \<Rightarrow> group_id \<Rightarrow> group_record" where
  "gc_current self grp = (case gc_groups self grp of Some r \<Rightarrow> r | None \<Rightarrow> FRESH)"

definition gc_transition :: "group_coordinator \<Rightarrow> group_id \<Rightarrow> group_event \<Rightarrow> group_record result \<times> group_coordinator" where
  "gc_transition self grp event =
     (let current = gc_current self grp
      in case transition (gr_state current) event (gr_generation current) (gr_assignment_epoch current) of
           Inl e \<Rightarrow> (Inl e, self)
         | Inr (st, generation, assignment_epoch) \<Rightarrow>
             let rec = \<lparr>gr_state = st, gr_generation = generation, gr_assignment_epoch = assignment_epoch\<rparr>
             in (Inr rec, self\<lparr>gc_groups := (gc_groups self)(grp \<mapsto> rec)\<rparr>))"

definition gc_record :: "group_coordinator \<Rightarrow> group_id \<Rightarrow> group_record option" where
  "gc_record self grp = gc_groups self grp"

definition gc_roster :: "group_coordinator \<Rightarrow> group_id \<Rightarrow> group_roster option" where
  "gc_roster self grp = gc_rosters self grp"

definition gc_set_roster :: "group_coordinator \<Rightarrow> group_id \<Rightarrow> group_roster option \<Rightarrow> group_coordinator" where
  "gc_set_roster self grp roster = self\<lparr>gc_rosters := (gc_rosters self)(grp := roster)\<rparr>"

section \<open>Election\<close>

record candidate =
  ca_member_id :: string
  ca_protocols :: "string list"

record elected =
  el_leader :: string
  el_protocol_name :: string

text \<open>One vote: the first entry of the tally with that name is incremented.\<close>

fun count_vote :: "string \<Rightarrow> (string \<times> nat) list \<Rightarrow> (string \<times> nat) list" where
  "count_vote name [] = []"
| "count_vote name ((n, k) # votes) =
     (if n = name then (n, k + 1) # votes else (n, k) # count_vote name votes)"

definition cast_vote :: "string list \<Rightarrow> (string \<times> nat) list \<Rightarrow> candidate \<Rightarrow> (string \<times> nat) list" where
  "cast_vote candidates votes member =
     (case find (\<lambda>name. name \<in> set candidates) (ca_protocols member) of
        None \<Rightarrow> votes
      | Some voted_for \<Rightarrow> count_vote voted_for votes)"

definition pick_winner :: "(string \<times> nat) list \<Rightarrow> string \<times> nat" where
  "pick_winner votes = foldl (\<lambda>winner entry. if snd entry > snd winner then entry else winner) (hd votes) (tl votes)"

definition elect :: "candidate list \<Rightarrow> elected option" where
  "elect members =
     (case members of
        [] \<Rightarrow> None
      | leader # rest \<Rightarrow>
          let candidates = foldl (\<lambda>names member. filter (\<lambda>name. name \<in> set (ca_protocols member)) names)
                             (ca_protocols leader) rest
          in if candidates = [] then None
             else
               let votes = foldl (cast_vote candidates) (map (\<lambda>name. (name, 0)) candidates) members
               in Some \<lparr>el_leader = ca_member_id leader, el_protocol_name = fst (pick_winner votes)\<rparr>)"

section \<open>Fencing\<close>

record node_readiness =
  nr_is_coordinator :: bool
  nr_coordinator_available :: bool
  nr_load_in_progress :: bool

record fencing_context =
  fc_node :: node_readiness
  fc_member_tracked :: bool
  fc_record :: "group_record option"
  fc_generation_id :: "int option"
  fc_acceptable_states :: "group_state list option"

definition for_this_node ::
  "bool \<Rightarrow> bool \<Rightarrow> group_record option \<Rightarrow> int option \<Rightarrow> group_state list option \<Rightarrow> fencing_context" where
  "for_this_node still_loading member_tracked rec generation_id acceptable_states =
     \<lparr>fc_node = \<lparr>nr_is_coordinator = True, nr_coordinator_available = True, nr_load_in_progress = still_loading\<rparr>,
      fc_member_tracked = member_tracked, fc_record = rec, fc_generation_id = generation_id,
      fc_acceptable_states = acceptable_states\<rparr>"

datatype refusal =
    CoordinatorLoadInProgress
  | NotCoordinator
  | CoordinatorNotAvailable
  | UnknownMember
  | IllegalGeneration
  | RebalanceInProgress

definition fence :: "fencing_context \<Rightarrow> refusal + unit" where
  "fence ctx =
     (if nr_load_in_progress (fc_node ctx) then Inl CoordinatorLoadInProgress
      else if \<not> nr_is_coordinator (fc_node ctx) then Inl NotCoordinator
      else if \<not> nr_coordinator_available (fc_node ctx) then Inl CoordinatorNotAvailable
      else if \<not> fc_member_tracked ctx then Inl UnknownMember
      else case fc_record ctx of
             None \<Rightarrow> Inl UnknownMember
           | Some rec \<Rightarrow>
               if (case fc_generation_id ctx of Some g \<Rightarrow> gr_generation rec \<noteq> g | None \<Rightarrow> False)
               then Inl IllegalGeneration
               else if (case fc_acceptable_states ctx of Some states \<Rightarrow> gr_state rec \<notin> set states | None \<Rightarrow> False)
               then Inl RebalanceInProgress
               else Inr ())"

section \<open>Who wins an election\<close>

lemma common_protocols:
  "foldl (\<lambda>names member. filter (\<lambda>name. name \<in> set (ca_protocols member)) names) names members =
     filter (\<lambda>name. \<forall>m\<in>set members. name \<in> set (ca_protocols m)) names"
  by (induction members arbitrary: names) (simp_all add: conj_commute)

text \<open>The tally: the votes of each name stand at its first entry.\<close>

fun tally :: "(string \<Rightarrow> nat) \<Rightarrow> string set \<Rightarrow> string list \<Rightarrow> (string \<times> nat) list" where
  "tally f seen [] = []"
| "tally f seen (n # ns) = (n, if n \<in> seen then 0 else f n) # tally f (insert n seen) ns"

lemma tally_cong: "\<forall>n. n \<notin> seen \<longrightarrow> f n = g n \<Longrightarrow> tally f seen ns = tally g seen ns"
  by (induction ns arbitrary: seen) auto

lemma count_vote_tally: "name \<notin> seen \<Longrightarrow> count_vote name (tally f seen ns) = tally (f(name := f name + 1)) seen ns"
  by (induction ns arbitrary: seen) (auto intro!: tally_cong split: if_splits)

lemma map_fst_tally [simp]: "map fst (tally f seen ns) = ns"
  by (induction ns arbitrary: seen) auto

definition support :: "string list \<Rightarrow> candidate list \<Rightarrow> string \<Rightarrow> nat" where
  "support common members name =
     length (filter (\<lambda>m. find (\<lambda>p. p \<in> set common) (ca_protocols m) = Some name) members)"

lemma cast_votes:
  "foldl (cast_vote common) (tally f {} names) members = tally (\<lambda>n. f n + support common members n) {} names"
proof (induction members arbitrary: f)
  case (Cons m members)
  have "cast_vote common (tally f {} names) m =
      tally (\<lambda>n. f n + (if find (\<lambda>p. p \<in> set common) (ca_protocols m) = Some n then 1 else 0)) {} names"
    by (cases "find (\<lambda>p. p \<in> set common) (ca_protocols m)") (auto simp: cast_vote_def count_vote_tally intro!: tally_cong)
  with Cons.IH [of "\<lambda>n. f n + (if find (\<lambda>p. p \<in> set common) (ca_protocols m) = Some n then 1 else 0)"] show ?case
    by (auto simp: support_def intro!: tally_cong)
qed (simp add: support_def)

lemma tally_zero: "map (\<lambda>name. (name, 0)) names = tally (\<lambda>_. 0) {} names"
proof -
  have "tally (\<lambda>_. 0) seen names = map (\<lambda>name. (name, 0)) names" for seen
    by (induction names arbitrary: seen) auto
  then show ?thesis by simp
qed

text \<open>Scanning forward and replacing only on a strictly greater count finds the first of the largest.\<close>

lemma first_maximum:
  fixes h :: "'a \<Rightarrow> nat"
  shows "foldl (\<lambda>w e. if h e > h w then e else w) w xs = hd (filter (\<lambda>e. \<forall>e'\<in>set (w # xs). h e' \<le> h e) (w # xs))"
proof (induction xs arbitrary: w)
  case (Cons x xs)
  show ?case
  proof (cases "h x > h w")
    case True
    then have "(\<forall>e'\<in>set (w # x # xs). h e' \<le> h e) \<longleftrightarrow> (\<forall>e'\<in>set (x # xs). h e' \<le> h e)" for e by auto
    moreover from True have "\<not> (\<forall>e'\<in>set (x # xs). h e' \<le> h w)" by auto
    ultimately show ?thesis using Cons.IH [of x] True by simp
  next
    case False
    then have same: "(\<forall>e'\<in>set (w # x # xs). h e' \<le> h e) \<longleftrightarrow> (\<forall>e'\<in>set (w # xs). h e' \<le> h e)" for e by auto
    have "\<not> (\<forall>e'\<in>set (w # xs). h e' \<le> h x)" if "\<not> (\<forall>e'\<in>set (w # xs). h e' \<le> h w)"
      using that False by (force simp: not_le)
    then show ?thesis using Cons.IH [of w] False unfolding same by (auto simp: filter.simps)
  qed
qed simp

lemma tally_value: "(n, k) \<in> set (tally f seen ns) \<Longrightarrow> n \<in> set ns \<and> k \<le> f n"
  by (induction ns arbitrary: seen) (auto split: if_splits)

lemma tally_has: "n \<in> set ns \<Longrightarrow> n \<notin> seen \<Longrightarrow> (n, f n) \<in> set (tally f seen ns)"
proof (induction ns arbitrary: seen)
  case (Cons a ns)
  then show ?case by (cases "n = a") simp_all
qed simp

lemma tally_bound_iff: "(\<forall>e'\<in>set (tally f {} ns). snd e' \<le> k) \<longleftrightarrow> (\<forall>n\<in>set ns. f n \<le> k)"
  using tally_value [of _ _ f "{}" ns] tally_has [of _ ns "{}" f] by fastforce

lemma tally_first:
  "\<forall>n\<in>seen. f n < M \<Longrightarrow> fst (hd (filter (\<lambda>e. M \<le> snd e) (tally f seen ns) @ [(d, M)])) =
     hd (filter (\<lambda>n. M \<le> f n) ns @ [d])"
  by (induction ns arbitrary: seen) (auto split: if_splits simp: not_le)

lemma pick_winner_tally:
  assumes "ns \<noteq> []"
  shows "fst (pick_winner (tally f {} ns)) = hd (filter (\<lambda>n. \<forall>m\<in>set ns. f m \<le> f n) ns)"
proof -
  define M where "M = Max (f ` set ns)"
  have "M \<in> f ` set ns" unfolding M_def using assms by (intro Max_in) simp_all
  then have M: "\<forall>n\<in>set ns. f n \<le> M" "\<exists>n\<in>set ns. f n = M" by (auto simp: M_def)
  have t: "tally f {} ns \<noteq> []" using assms by (cases ns) auto
  have top: "(\<forall>m\<in>set ns. f m \<le> k) \<longleftrightarrow> M \<le> k" for k using M by (metis order_trans)
  have "pick_winner (tally f {} ns) = hd (filter (\<lambda>e. \<forall>e'\<in>set (tally f {} ns). snd e' \<le> snd e) (tally f {} ns))"
    unfolding pick_winner_def using first_maximum [of snd "hd (tally f {} ns)" "tl (tally f {} ns)"] t by simp
  also have "\<dots> = hd (filter (\<lambda>e. M \<le> snd e) (tally f {} ns))" by (simp add: tally_bound_iff top)
  finally have w: "pick_winner (tally f {} ns) = hd (filter (\<lambda>e. M \<le> snd e) (tally f {} ns))" .
  have "\<exists>n\<in>set ns. (n, M) \<in> set (tally f {} ns)" using M(2) tally_has [of _ ns "{}" f] by fastforce
  then have "filter (\<lambda>e. M \<le> snd e) (tally f {} ns) \<noteq> []" by (force simp: filter_empty_conv)
  moreover have "filter (\<lambda>n. M \<le> f n) ns \<noteq> []" using M by (auto simp: filter_empty_conv)
  ultimately show ?thesis using tally_first [of "{}" f M ns "[]"] by (simp add: w top)
qed

text \<open>C34. What an election decides.  The leader is the first member; the protocol is chosen among the
  names every member advertises, in the leader's order of preference: each member votes for the first of
  them in its own list, and the first with the most votes wins.  Nothing is elected exactly when there is
  no member, or no name that all advertise.\<close>

theorem elect_picks_the_most_voted:
  "elect members =
     (case members of
        [] \<Rightarrow> None
      | leader # rest \<Rightarrow>
          (let common = filter (\<lambda>n. list_all (\<lambda>m. n \<in> set (ca_protocols m)) rest) (ca_protocols leader)
           in if common = [] then None
              else Some \<lparr>el_leader = ca_member_id leader,
                 el_protocol_name = hd (filter (\<lambda>n. list_all (\<lambda>m. support common members m \<le> support common members n) common) common)\<rparr>))"
  by (cases members) (simp_all add: elect_def Let_def common_protocols tally_zero cast_votes pick_winner_tally list_all_iff
      del: foldl_Cons)

section \<open>Generations\<close>

text \<open>What a group's record always satisfies.\<close>

definition record_ok :: "group_record \<Rightarrow> bool" where
  "record_ok r \<longleftrightarrow>
     -1 \<le> gr_assignment_epoch r \<and> gr_assignment_epoch r \<le> gr_generation r \<and>
     0 \<le> gr_generation r \<and> gr_generation r \<le> i32_max \<and>
     (gr_state r = Stable \<longrightarrow> gr_assignment_epoch r = gr_generation r) \<and>
     (gr_state r = CompletingRebalance \<longrightarrow> gr_assignment_epoch r < gr_generation r)"

lemma fresh_ok: "record_ok FRESH"
  by (simp add: record_ok_def FRESH_def GENERATION_INITIAL_def ASSIGNMENT_INITIAL_def)

text \<open>An accepted event moves the generation exactly at a closed join barrier, and the assignment epoch
  exactly at a completed sync, to the generation.\<close>

lemma transition_moves:
  assumes "transition s event g a = Inr (s', g', a')"
  shows "g' = (if event = JoinBarrierComplete then g + 1 else g) \<and> g' \<le> max g i32_max \<and>
    a' = (if event = SyncComplete then g else a) \<and> s \<noteq> Dead \<and>
    (s' = Stable \<longleftrightarrow> event = SyncComplete) \<and> (s' = CompletingRebalance \<longleftrightarrow> event = JoinBarrierComplete)"
  using assms by (auto simp: transition_def generation_next_def bindR_def split: if_splits)

lemma transition_ok:
  assumes "record_ok r" "transition (gr_state r) event (gr_generation r) (gr_assignment_epoch r) = Inr (s', g', a')"
  shows "record_ok \<lparr>gr_state = s', gr_generation = g', gr_assignment_epoch = a'\<rparr>"
  using assms transition_moves [OF assms(2)] by (auto simp: record_ok_def split: if_splits)

lemma transition_error:
  "transition s event g a = Inl e \<Longrightarrow>
     e = IllegalGroupTransition (debug_state s) (debug_event event) \<or> e = Panicked \<and> g \<ge> i32_max"
  by (auto simp: transition_def generation_next_def bindR_def split: if_splits)

text \<open>A run of events, each accepted or refused.\<close>

definition gc_run :: "group_coordinator \<Rightarrow> (group_id \<times> group_event) list \<Rightarrow> group_coordinator" where
  "gc_run = foldl (\<lambda>c (grp, event). snd (gc_transition c grp event))"

lemma gc_run_simps [simp]:
  "gc_run c [] = c" "gc_run c ((grp, event) # es) = gc_run (snd (gc_transition c grp event)) es"
  "gc_run c (xs @ ys) = gc_run (gc_run c xs) ys"
  by (simp_all add: gc_run_def)

definition gc_ok :: "group_coordinator \<Rightarrow> bool" where
  "gc_ok c \<longleftrightarrow> (\<forall>grp. record_ok (gc_current c grp))"

lemma gc_current_update [simp]:
  "gc_current (c\<lparr>gc_groups := (gc_groups c)(grp \<mapsto> r)\<rparr>) g = (if g = grp then r else gc_current c g)"
  by (simp add: gc_current_def)

lemma gc_transition_ok: "gc_ok c \<Longrightarrow> gc_ok (snd (gc_transition c grp event))"
  unfolding gc_ok_def
  by (auto simp: gc_transition_def Let_def split: sum.splits prod.splits intro: transition_ok)

lemma gc_run_ok: "gc_ok c \<Longrightarrow> gc_ok (gc_run c es)"
proof (induction es arbitrary: c)
  case (Cons ge es)
  then show ?case by (cases ge) (simp add: gc_transition_ok)
qed simp

lemma gc_new_ok: "gc_ok gc_new"
  by (simp add: gc_ok_def gc_new_def gc_current_def fresh_ok)

lemma gc_transition_generation: "gr_generation (gc_current c g) \<le> gr_generation (gc_current (snd (gc_transition c grp event)) g)"
  by (auto simp: gc_transition_def Let_def dest!: transition_moves split: sum.splits prod.splits)

lemma gc_run_generation: "gr_generation (gc_current c g) \<le> gr_generation (gc_current (gc_run c es) g)"
proof (induction es arbitrary: c)
  case (Cons ge es)
  obtain grp event where ge: "ge = (grp, event)" by (cases ge)
  have "gr_generation (gc_current c g) \<le> gr_generation (gc_current (snd (gc_transition c grp event)) g)"
    by (rule gc_transition_generation)
  also have "\<dots> \<le> gr_generation (gc_current (gc_run (snd (gc_transition c grp event)) es) g)" by (rule Cons.IH)
  finally show ?case by (simp add: ge)
qed simp

text \<open>The two epochs of a group.  After any sequence of events on any groups, accepted or refused, every
  group's assignment epoch is at most its generation; they are equal in every stable group and differ in
  every group that waits for its leader's assignment; and the generation never overflows its 32 bits.\<close>

lemma group_epochs_are_consistent:
  "record_ok (gc_current (gc_run gc_new events) grp)"
  using gc_run_ok [OF gc_new_ok] by (simp add: gc_ok_def)

text \<open>C33. A member of an old generation never passes the fence.  Once the join barrier of its group has
  closed again, whatever happened since, every request of the member that names its old generation is
  refused; when the node has replayed its log and tracks the member, with the illegal generation.\<close>

theorem old_generation_is_fenced:
  assumes "gen \<le> gr_generation (gc_current c grp)"
    and "is_ok (fst (gc_transition c grp JoinBarrierComplete))"
    and "c' = gc_run (snd (gc_transition c grp JoinBarrierComplete)) later"
  shows "\<exists>why. fence (for_this_node still_loading tracked (gc_record c' grp) (Some gen) states) = Inl why \<and>
    (\<not> still_loading \<longrightarrow> tracked \<longrightarrow> gc_record c' grp \<noteq> None \<longrightarrow> why = IllegalGeneration)"
proof -
  have "gr_generation (gc_current (snd (gc_transition c grp JoinBarrierComplete)) grp) = gr_generation (gc_current c grp) + 1"
    using assms(2)
    by (auto simp: gc_transition_def Let_def dest!: transition_moves split: sum.splits prod.splits)
  with gc_run_generation [of "snd (gc_transition c grp JoinBarrierComplete)" grp later] assms(1,3)
  have "gen < gr_generation (gc_current c' grp)" by simp
  then show ?thesis
    by (auto simp: fence_def for_this_node_def gc_record_def gc_current_def split: option.splits)
qed

theorem old_generation_is_fenced_witness:
  "\<exists>c' why. c' = gc_run (snd (gc_transition (gc_run gc_new [(''g'', Join)]) ''g'' JoinBarrierComplete))
       [(''g'', SyncComplete), (''h'', Join)] \<and>
     fence (for_this_node False True (gc_record c' ''g'') (Some 0) (Some [Stable])) = Inl why \<and> why = IllegalGeneration"
proof -
  let ?c = "gc_run gc_new [(''g'', Join)]"
  define c' where "c' = gc_run (snd (gc_transition ?c ''g'' JoinBarrierComplete)) [(''g'', SyncComplete), (''h'', Join)]"
  note eval = gc_new_def gc_transition_def gc_current_def transition_def generation_next_def FRESH_def
    GENERATION_INITIAL_def ASSIGNMENT_INITIAL_def Let_def gc_record_def
  have "0 \<le> gr_generation (gc_current ?c ''g'')" "is_ok (fst (gc_transition ?c ''g'' JoinBarrierComplete))"
    by (simp_all add: eval)
  from old_generation_is_fenced [OF this c'_def, of False True "Some [Stable]"]
  have "\<exists>why. fence (for_this_node False True (gc_record c' ''g'') (Some 0) (Some [Stable])) = Inl why \<and>
    (gc_record c' ''g'' \<noteq> None \<longrightarrow> why = IllegalGeneration)" by simp
  moreover have "gc_record c' ''g'' \<noteq> None" by (simp add: c'_def eval)
  ultimately show ?thesis using c'_def by blast
qed

end
