(* ===== verification/Group_Log.thy ===== *)
theory Group_Log
  imports Consumer_Groups
begin

text \<open>
  What the broker keeps of its consumer groups: the group metadata log
  (\<open>group_metadata_record.rs\<close>, \<open>group_metadata_log.rs\<close>), the actor through which every group
  transition goes (\<open>oqueue-broker/src/group_transitions.rs\<close>), and the committed offsets
  (\<open>oqueue-broker/src/offset_commit.rs\<close>), live and replayed after a restart.

  The trait \<open>GroupMetadataLog\<close> is the locale \<open>group_log\<close>.  Other tasks append to the log between two
  requests of a handler; \<open>others\<close> is what they do to it before each attempt to append.
\<close>

section \<open>Records\<close>

datatype group_metadata_record =
    OffsetCommitted group_id topic_id int int
  | GroupTransitioned group_id group_event
  | GroupRosterUpdated group_id "group_roster option"

record group_metadata_entry =
  ge_version :: commit_version
  ge_record :: group_metadata_record

section \<open>The in-memory log\<close>

type_synonym fake_group_log = "group_metadata_entry list"

fun group_validate :: "group_metadata_entry list \<Rightarrow> commit_version option \<Rightarrow> unit result" where
  "group_validate [] previous = Inr ()"
| "group_validate (entry # entries) previous =
     (case previous of
        Some prev \<Rightarrow>
          if ge_version entry \<le> prev then Inl (NonMonotonicCommitVersion prev (ge_version entry))
          else group_validate entries (Some (ge_version entry))
      | None \<Rightarrow> group_validate entries (Some (ge_version entry)))"

definition group_last :: "group_metadata_entry list \<Rightarrow> commit_version option" where
  "group_last es = (if es = [] then None else Some (ge_version (last es)))"

definition fake_group_append :: "fake_group_log \<Rightarrow> group_metadata_entry list \<Rightarrow> unit result \<times> fake_group_log" where
  "fake_group_append held entries =
     (case group_validate entries (group_last held) of
        Inl e \<Rightarrow> (Inl e, held)
      | Inr _ \<Rightarrow> (Inr (), held @ entries))"

definition fake_group_read_from :: "fake_group_log \<Rightarrow> commit_version \<Rightarrow> nat \<Rightarrow> group_metadata_entry list result" where
  "fake_group_read_from held start max_entries =
     Inr (take max_entries (filter (\<lambda>entry. ge_version entry \<ge> start) held))"

definition fake_group_last_version :: "fake_group_log \<Rightarrow> commit_version option result" where
  "fake_group_last_version held = Inr (group_last held)"

section \<open>Appending a record\<close>

text \<open>The loop that \<open>append_durably\<close> and \<open>CommittedOffsets::commit\<close> share: read the last version,
  append at the next one, try again when another writer was first.  The version is returned for the
  second.\<close>

primrec append_attempts ::
  "('l \<Rightarrow> group_metadata_entry list \<Rightarrow> unit result \<times> 'l) \<Rightarrow> ('l \<Rightarrow> commit_version option result) \<Rightarrow>
     (nat \<Rightarrow> 'l \<Rightarrow> 'l) \<Rightarrow> nat \<Rightarrow> 'l \<Rightarrow> group_metadata_record \<Rightarrow> commit_version result \<times> 'l"
where
  "append_attempts app last_version others 0 log rec = (Inl Transient, log)"
| "append_attempts app last_version others (Suc n) log rec =
     (case bindR (last_version log) (\<lambda>lst. case lst of Some v \<Rightarrow> version_advance v 1 | None \<Rightarrow> Inr 0) of
        Inl e \<Rightarrow> (Inl e, log)
      | Inr nxt \<Rightarrow>
          (case app (others n log) [\<lparr>ge_version = nxt, ge_record = rec\<rparr>] of
             (Inr _, log') \<Rightarrow> (Inr nxt, log')
           | (Inl (NonMonotonicCommitVersion _ _), log') \<Rightarrow> append_attempts app last_version others n log' rec
           | (Inl e, log') \<Rightarrow> (Inl e, log')))"

definition MAX_APPEND_RETRIES :: nat where
  "MAX_APPEND_RETRIES = 8"

definition append_durably ::
  "('l \<Rightarrow> group_metadata_entry list \<Rightarrow> unit result \<times> 'l) \<Rightarrow> ('l \<Rightarrow> commit_version option result) \<Rightarrow>
     (nat \<Rightarrow> 'l \<Rightarrow> 'l) \<Rightarrow> 'l \<Rightarrow> group_metadata_record \<Rightarrow> unit result \<times> 'l"
where
  "append_durably app last_version others log rec =
     (case append_attempts app last_version others MAX_APPEND_RETRIES log rec of
        (Inl e, log') \<Rightarrow> (Inl e, log')
      | (Inr _, log') \<Rightarrow> (Inr (), log'))"

section \<open>The actor\<close>

definition handle_one ::
  "('l \<Rightarrow> group_metadata_entry list \<Rightarrow> unit result \<times> 'l) \<Rightarrow> ('l \<Rightarrow> commit_version option result) \<Rightarrow>
     (nat \<Rightarrow> 'l \<Rightarrow> 'l) \<Rightarrow> group_coordinator \<Rightarrow> 'l \<Rightarrow> group_id \<Rightarrow> group_event \<Rightarrow>
     group_record result \<times> group_coordinator \<times> 'l"
where
  "handle_one app last_version others coordinator log grp event =
     (let current = (case gc_record coordinator grp of Some r \<Rightarrow> r | None \<Rightarrow> FRESH)
      in case transition (gr_state current) event (gr_generation current) (gr_assignment_epoch current) of
           Inl e \<Rightarrow> (Inl e, coordinator, log)
         | Inr _ \<Rightarrow>
             (case append_durably app last_version others log (GroupTransitioned grp event) of
                (Inl e, log') \<Rightarrow> (Inl e, coordinator, log')
              | (Inr _, log') \<Rightarrow>
                  (case gc_transition coordinator grp event of
                     (Inl e, coordinator') \<Rightarrow> (Inl e, coordinator', log')
                   | (Inr rec, coordinator') \<Rightarrow>
                       (Inr rec,
                        if event \<in> {AllMembersGone, Expire} then gc_set_roster coordinator' grp None else coordinator',
                        log'))))"

definition update_roster ::
  "('l \<Rightarrow> group_metadata_entry list \<Rightarrow> unit result \<times> 'l) \<Rightarrow> ('l \<Rightarrow> commit_version option result) \<Rightarrow>
     (nat \<Rightarrow> 'l \<Rightarrow> 'l) \<Rightarrow> group_coordinator \<Rightarrow> 'l \<Rightarrow> group_id \<Rightarrow> group_roster option \<Rightarrow>
     unit result \<times> group_coordinator \<times> 'l"
where
  "update_roster app last_version others coordinator log grp roster =
     (case append_durably app last_version others log (GroupRosterUpdated grp roster) of
        (Inl e, log') \<Rightarrow> (Inl e, coordinator, log')
      | (Inr _, log') \<Rightarrow> (Inr (), gc_set_roster coordinator grp roster, log'))"

datatype group_request =
    RequestTransition group_id group_event
  | RequestRoster group_id "group_roster option"

definition serve_request ::
  "('l \<Rightarrow> group_metadata_entry list \<Rightarrow> unit result \<times> 'l) \<Rightarrow> ('l \<Rightarrow> commit_version option result) \<Rightarrow>
     (nat \<Rightarrow> 'l \<Rightarrow> 'l) \<Rightarrow> group_coordinator \<times> 'l \<Rightarrow> group_request \<Rightarrow> group_coordinator \<times> 'l"
where
  "serve_request app last_version others state request =
     (case request of
        RequestTransition grp event \<Rightarrow> snd (handle_one app last_version others (fst state) (snd state) grp event)
      | RequestRoster grp roster \<Rightarrow> snd (update_roster app last_version others (fst state) (snd state) grp roster))"

section \<open>Committed offsets\<close>

type_synonym offset_key = "group_id \<times> topic_id \<times> int"
type_synonym offset_map = "offset_key \<rightharpoonup> commit_version \<times> int"

definition apply_offset :: "offset_map \<Rightarrow> commit_version \<Rightarrow> group_metadata_record \<Rightarrow> offset_map" where
  "apply_offset offsets version rec =
     (case rec of
        OffsetCommitted grp topic part off \<Rightarrow>
          let key = (grp, topic, part);
              stale = (case offsets key of Some (existing, _) \<Rightarrow> existing \<ge> version | None \<Rightarrow> False)
          in if stale then offsets else offsets(key \<mapsto> (version, off))
      | GroupTransitioned _ _ \<Rightarrow> offsets
      | GroupRosterUpdated _ _ \<Rightarrow> offsets)"

definition MAX_COMMIT_RETRIES :: nat where
  "MAX_COMMIT_RETRIES = 8"

definition commit_offset ::
  "('l \<Rightarrow> group_metadata_entry list \<Rightarrow> unit result \<times> 'l) \<Rightarrow> ('l \<Rightarrow> commit_version option result) \<Rightarrow>
     (nat \<Rightarrow> 'l \<Rightarrow> 'l) \<Rightarrow> offset_map \<times> 'l \<Rightarrow> group_id \<Rightarrow> topic_id \<Rightarrow> int \<Rightarrow> int \<Rightarrow> unit result \<times> offset_map \<times> 'l"
where
  "commit_offset app last_version others state grp topic part off =
     (let rec = OffsetCommitted grp topic part off
      in case append_attempts app last_version others MAX_COMMIT_RETRIES (snd state) rec of
           (Inl e, log') \<Rightarrow> (Inl e, fst state, log')
         | (Inr version, log') \<Rightarrow> (Inr (), apply_offset (fst state) version rec, log'))"

definition get_offset :: "offset_map \<Rightarrow> group_id \<Rightarrow> topic_id \<Rightarrow> int \<Rightarrow> int option" where
  "get_offset offsets grp topic part = map_option snd (offsets (grp, topic, part))"

section \<open>Replay\<close>

definition REPLAY_PAGE_SIZE :: nat where
  "REPLAY_PAGE_SIZE = 256"

text \<open>The body of the loop over a page, with the groups poisoned so far.\<close>

definition replay_entry ::
  "group_coordinator \<times> group_id set \<Rightarrow> group_metadata_entry \<Rightarrow> unit result \<times> group_coordinator \<times> group_id set"
where
  "replay_entry state entry =
     (case state of (coordinator, poisoned) \<Rightarrow>
        case ge_record entry of
          GroupTransitioned grp event \<Rightarrow>
            if grp \<in> poisoned then (Inr (), coordinator, poisoned)
            else
              (case gc_transition coordinator grp event of
                 (Inr _, coordinator') \<Rightarrow>
                   (Inr (), if event \<in> {AllMembersGone, Expire} then gc_set_roster coordinator' grp None else coordinator',
                    poisoned)
               | (Inl (IllegalGroupTransition _ _), coordinator') \<Rightarrow> (Inr (), coordinator', insert grp poisoned)
               | (Inl other, coordinator') \<Rightarrow> (Inl other, coordinator', poisoned))
        | GroupRosterUpdated grp roster \<Rightarrow>
            (Inr (), if grp \<notin> poisoned then gc_set_roster coordinator grp roster else coordinator, poisoned)
        | OffsetCommitted _ _ _ _ \<Rightarrow> (Inr (), coordinator, poisoned))"

fun fold_until :: "('s \<Rightarrow> 'e \<Rightarrow> unit result \<times> 's) \<Rightarrow> 's \<Rightarrow> 'e list \<Rightarrow> unit result \<times> 's" where
  "fold_until f s [] = (Inr (), s)"
| "fold_until f s (x # xs) =
     (case f s x of
        (Inl e, s') \<Rightarrow> (Inl e, s')
      | (Inr _, s') \<Rightarrow> fold_until f s' xs)"

text \<open>The loop over pages of both replays: a short page is the last.\<close>

partial_function (option) replay_pages ::
  "(commit_version \<Rightarrow> nat \<Rightarrow> group_metadata_entry list result) \<Rightarrow> ('s \<Rightarrow> group_metadata_entry \<Rightarrow> unit result \<times> 's) \<Rightarrow>
     commit_version \<Rightarrow> 's \<Rightarrow> (unit result \<times> 's) option"
where
  "replay_pages read_from f start s =
     (case read_from start REPLAY_PAGE_SIZE of
        Inl e \<Rightarrow> Some (Inl e, s)
      | Inr page \<Rightarrow>
          (case fold_until f s page of
             (Inl e, s') \<Rightarrow> Some (Inl e, s')
           | (Inr _, s') \<Rightarrow>
               if page = [] \<or> length page < REPLAY_PAGE_SIZE then Some (Inr (), s')
               else
                 (case version_advance (ge_version (last page)) 1 of
                    Inl e \<Rightarrow> Some (Inl e, s')
                  | Inr start' \<Rightarrow> replay_pages read_from f start' s')))"

definition replay_transitions ::
  "('l \<Rightarrow> commit_version \<Rightarrow> nat \<Rightarrow> group_metadata_entry list result) \<Rightarrow> group_coordinator \<Rightarrow> 'l \<Rightarrow>
     (unit result \<times> group_coordinator) option"
where
  "replay_transitions read_from coordinator log =
     map_option (\<lambda>(r, coordinator', _). (r, coordinator'))
       (replay_pages (read_from log) replay_entry 0 (coordinator, {}))"

definition replay_offsets ::
  "('l \<Rightarrow> commit_version \<Rightarrow> nat \<Rightarrow> group_metadata_entry list result) \<Rightarrow> offset_map \<Rightarrow> 'l \<Rightarrow> (unit result \<times> offset_map) option"
where
  "replay_offsets read_from held log =
     map_option (\<lambda>(r, offsets). (r, if is_ok r then offsets else held))
       (replay_pages (read_from log)
          (\<lambda>offsets entry. (Inr (), apply_offset offsets (ge_version entry) (ge_record entry))) 0 Map.empty)"

end
