(* ===== verification/Group_Segment.thy ===== *)
theory Group_Segment
  imports Segment_Frame Group_Log
begin

text \<open>
  The bytes of one group-metadata-log segment (\<open>group_segment.rs\<close>): committed offsets, group
  transitions and rosters.  The module has its own cursor with the reads of \<open>metadata_segment.rs\<close>; the
  ones it adds are the group identifier and the roster.
\<close>

section \<open>The fields\<close>

definition event_tag :: "group_event \<Rightarrow> nat" where
  "event_tag event =
     (case event of
        Join \<Rightarrow> 1
      | JoinBarrierComplete \<Rightarrow> 2
      | SyncComplete \<Rightarrow> 3
      | MemberJoinedDuringSync \<Rightarrow> 4
      | MemberLeft \<Rightarrow> 5
      | AllMembersGone \<Rightarrow> 6
      | Expire \<Rightarrow> 7)"

definition event_from :: "nat \<Rightarrow> group_event option" where
  "event_from tag =
     (if tag = 1 then Some Join
      else if tag = 2 then Some JoinBarrierComplete
      else if tag = 3 then Some SyncComplete
      else if tag = 4 then Some MemberJoinedDuringSync
      else if tag = 5 then Some MemberLeft
      else if tag = 6 then Some AllMembersGone
      else if tag = 7 then Some Expire
      else None)"

definition cur_group :: "group_id reader_of" where
  "cur_group self =
     bindR (cur_string self) (\<lambda>(raw, self).
     bindR (cur_checked self (group_id_new raw)) (\<lambda>grp. Inr (grp, self)))"

definition cur_event :: "group_event reader_of" where
  "cur_event self =
     bindR (cur_u8 self) (\<lambda>(tag, self).
       case event_from tag of Some event \<Rightarrow> Inr (event, self) | None \<Rightarrow> Inl (cur_malformed self))"

definition put_roster :: "group_roster option writer_of" where
  "put_roster out roster =
     (case roster of
        None \<Rightarrow> put_uint 1 out 0
      | Some roster \<Rightarrow>
          bindR (put_uint 1 out 1) (\<lambda>out.
          bindR (put_str out (ro_protocol_type roster)) (\<lambda>out.
          bindR (put_str out (ro_protocol_name roster)) (\<lambda>out.
          bindR (put_len16 out (length (ro_member_ids roster))) (\<lambda>out.
            foldR put_str out (ro_member_ids roster))))))"

definition cur_roster :: "group_roster option reader_of" where
  "cur_roster self =
     bindR (cur_u8 self) (\<lambda>(tag, self).
       if tag = 0 then Inr (None, self)
       else if tag = 1 then
         bindR (cur_string self) (\<lambda>(protocol_type, self).
         bindR (cur_string self) (\<lambda>(protocol_name, self).
         bindR (cur_u16 self) (\<lambda>(count, self).
         bindR (cur_repeat cur_string count self) (\<lambda>(member_ids, self).
           Inr (Some \<lparr>ro_protocol_type = protocol_type, ro_protocol_name = protocol_name,
                      ro_member_ids = member_ids\<rparr>, self)))))
       else Inl (cur_malformed self))"

section \<open>The segment\<close>

definition TAG_OFFSET :: nat where "TAG_OFFSET = 1"
definition TAG_TRANSITION :: nat where "TAG_TRANSITION = 2"
definition TAG_ROSTER :: nat where "TAG_ROSTER = 3"

lemmas group_tag_defs = TAG_OFFSET_def TAG_TRANSITION_def TAG_ROSTER_def

definition GROUP_MAGIC :: "byte list" where
  "GROUP_MAGIC = as_bytes ''OQGL''"

definition GROUP_FORMAT :: nat where
  "GROUP_FORMAT = 1"

definition encode_group_record :: "group_metadata_record writer_of" where
  "encode_group_record out rec =
     (case rec of
        OffsetCommitted grp topic part off \<Rightarrow>
          bindR (put_uint 1 out TAG_OFFSET) (\<lambda>out.
          bindR (put_str out grp) (\<lambda>out.
          bindR (put_str out topic) (\<lambda>out.
          bindR (put_int 4 out part) (\<lambda>out. put_int 8 out off))))
      | GroupTransitioned grp event \<Rightarrow>
          bindR (put_uint 1 out TAG_TRANSITION) (\<lambda>out.
          bindR (put_str out grp) (\<lambda>out. put_uint 1 out (event_tag event)))
      | GroupRosterUpdated grp roster \<Rightarrow>
          bindR (put_uint 1 out TAG_ROSTER) (\<lambda>out.
          bindR (put_str out grp) (\<lambda>out. put_roster out roster)))"

definition encode_group_entry :: "group_metadata_entry writer_of" where
  "encode_group_entry out entry =
     bindR (put_uint 8 out (ge_version entry)) (\<lambda>out. encode_group_record out (ge_record entry))"

definition group_encode :: "group_metadata_entry list \<Rightarrow> byte list result" where
  "group_encode entries =
     bindR (put_uint 1 GROUP_MAGIC GROUP_FORMAT) (\<lambda>out.
     bindR (put_len32 out (length entries)) (\<lambda>out. foldR encode_group_entry out entries))"

definition decode_offset_record :: "group_metadata_record reader_of" where
  "decode_offset_record cur =
     bindR (cur_group cur) (\<lambda>(grp, cur).
     bindR (cur_topic cur) (\<lambda>(topic, cur).
     bindR (cur_int 4 cur) (\<lambda>(part, cur).
     bindR (cur_i64 cur) (\<lambda>(off, cur). Inr (OffsetCommitted grp topic part off, cur)))))"

definition decode_transition_record :: "group_metadata_record reader_of" where
  "decode_transition_record cur =
     bindR (cur_group cur) (\<lambda>(grp, cur).
     bindR (cur_event cur) (\<lambda>(event, cur). Inr (GroupTransitioned grp event, cur)))"

definition decode_roster_record :: "group_metadata_record reader_of" where
  "decode_roster_record cur =
     bindR (cur_group cur) (\<lambda>(grp, cur).
     bindR (cur_roster cur) (\<lambda>(roster, cur). Inr (GroupRosterUpdated grp roster, cur)))"

definition decode_group_record :: "group_metadata_record reader_of" where
  "decode_group_record cur =
     (let at = cur_at cur
      in bindR (cur_u8 cur) (\<lambda>(tag, cur).
           if tag = TAG_OFFSET then decode_offset_record cur
           else if tag = TAG_TRANSITION then decode_transition_record cur
           else if tag = TAG_ROSTER then decode_roster_record cur
           else Inl (MalformedMetadataSegment at)))"

definition decode_group_entry :: "group_metadata_entry reader_of" where
  "decode_group_entry cur =
     bindR (cur_u64 cur) (\<lambda>(version, cur).
     bindR (decode_group_record cur) (\<lambda>(rec, cur).
       Inr (\<lparr>ge_version = version, ge_record = rec\<rparr>, cur)))"

definition group_decode :: "byte list \<Rightarrow> group_metadata_entry list result" where
  "group_decode bytes =
     bindR (cur_take 4 \<lparr>cur_bytes = bytes, cur_at = 0\<rparr>) (\<lambda>(magic, cur).
       if magic \<noteq> GROUP_MAGIC then Inl (cur_malformed cur)
       else bindR (cur_u8 cur) (\<lambda>(format, cur).
         if format \<noteq> GROUP_FORMAT then Inl (cur_malformed cur)
         else bindR (cur_u32 cur) (\<lambda>(count, cur).
           bindR (cur_repeat decode_group_entry count cur) (\<lambda>(entries, cur).
             if cur_at cur \<noteq> length bytes then Inl (cur_malformed cur) else Inr entries))))"

section \<open>Fields read back\<close>

definition valid_roster :: "group_roster \<Rightarrow> bool" where
  "valid_roster r \<longleftrightarrow>
     utf8 (ro_protocol_type r) \<and> utf8 (ro_protocol_name r) \<and> (\<forall>m\<in>set (ro_member_ids r). utf8 m)"

definition valid_group_record :: "group_metadata_record \<Rightarrow> bool" where
  "valid_group_record rec =
     (case rec of
        OffsetCommitted grp topic part off \<Rightarrow> valid_name grp \<and> valid_name topic \<and> fits_int 4 part \<and> fits_int 8 off
      | GroupTransitioned grp event \<Rightarrow> valid_name grp
      | GroupRosterUpdated grp roster \<Rightarrow> valid_name grp \<and> (\<forall>r. roster = Some r \<longrightarrow> valid_roster r))"

definition valid_group_entry :: "group_metadata_entry \<Rightarrow> bool" where
  "valid_group_entry e \<longleftrightarrow> fits_u 8 (ge_version e) \<and> valid_group_record (ge_record e)"

lemma event_from_iff: "event_from tag = Some event \<longleftrightarrow> tag = event_tag event"
  by (cases event) (auto simp: event_from_def event_tag_def)

lemma event_tag_simps [simp]: "event_from (event_tag event) = Some event" "event_tag event < 256"
  by (simp add: event_from_iff) (cases event; simp add: event_tag_def)

lemma group_codec: "codec put_str cur_group valid_name"
  by (rule codec_checkedI [OF str.codec_axioms, of group_id_new "\<lambda>k. k"])
    (auto simp: group_id_new_def cur_group_def split: if_splits)

lemma event_codec: "codec (\<lambda>out event. put_uint 1 out (event_tag event)) cur_event (\<lambda>_. True)"
  by (rule codec_checkedI [OF uint.codec_axioms [of 1], where raw_of = event_tag and
        check = "\<lambda>tag. case event_from tag of Some event \<Rightarrow> Inr event | None \<Rightarrow> Inl Transient"])
    (auto simp: cur_event_def event_from_iff cur_checked_def bindR_def split: option.splits sum.splits)

lemma roster_codec: "codec put_roster cur_roster (\<lambda>x. \<forall>r. x = Some r \<longrightarrow> valid_roster r)"
proof (rule codec_optionI)
  show "codec (\<lambda>out r. bindR (put_str out (ro_protocol_type r)) (\<lambda>out.
        bindR (put_str out (ro_protocol_name r)) (\<lambda>out.
        bindR (put_len16 out (length (ro_member_ids r))) (\<lambda>out. foldR put_str out (ro_member_ids r)))))
      (\<lambda>c. bindR (cur_string c) (\<lambda>(ty, c). bindR (cur_string c) (\<lambda>(name, c).
        bindR (cur_u16 c) (\<lambda>(count, c). bindR (cur_repeat cur_string count c) (\<lambda>(ids, c).
          Inr (\<lparr>ro_protocol_type = ty, ro_protocol_name = name, ro_member_ids = ids\<rparr>, c)))))) valid_roster"
    by (rule codec_recordI [OF str.codec_axioms codec_pair [OF str.codec_axioms str.counted_list16],
          where build = "\<lambda>ty (name, ids). \<lparr>ro_protocol_type = ty, ro_protocol_name = name, ro_member_ids = ids\<rparr>"
            and fst_of = ro_protocol_type and snd_of = "\<lambda>r. (ro_protocol_name r, ro_member_ids r)"])
      (auto simp: bindR_assoc split_def valid_roster_def)
qed (simp_all add: put_roster_def cur_roster_def bindR_assoc split_def cong: if_cong)

section \<open>Records read back\<close>

definition offset_fields :: "group_metadata_record \<Rightarrow> group_id \<times> topic_id \<times> int \<times> int" where
  "offset_fields rec =
     (case rec of OffsetCommitted grp topic part off \<Rightarrow> (grp, topic, part, off) | _ \<Rightarrow> ([], [], 0, 0))"

definition transition_fields :: "group_metadata_record \<Rightarrow> group_id \<times> group_event" where
  "transition_fields rec = (case rec of GroupTransitioned grp event \<Rightarrow> (grp, event) | _ \<Rightarrow> ([], Join))"

definition roster_fields :: "group_metadata_record \<Rightarrow> group_id \<times> group_roster option" where
  "roster_fields rec = (case rec of GroupRosterUpdated grp roster \<Rightarrow> (grp, roster) | _ \<Rightarrow> ([], None))"

lemma offset_record_codec:
  "codec (\<lambda>out r. bindR (put_str out (fst (offset_fields r))) (\<lambda>out.
       bindR (put_str out (fst (snd (offset_fields r)))) (\<lambda>out.
       bindR (put_int 4 out (fst (snd (snd (offset_fields r))))) (\<lambda>out.
         put_int 8 out (snd (snd (snd (offset_fields r))))))))
     decode_offset_record (\<lambda>r. valid_group_record r \<and> (\<exists>g t p off. r = OffsetCommitted g t p off))"
  by (rule codec_checkedI [OF codec_pair [OF group_codec codec_pair [OF topic_codec
          codec_pair [OF sint.codec_axioms sint.codec_axioms]]],
        where check = "\<lambda>(grp, topic, part, off). Inr (OffsetCommitted grp topic part off)" and raw_of = offset_fields])
    (auto simp: offset_fields_def decode_offset_record_def bindR_assoc split_def valid_group_record_def
      split: group_metadata_record.splits)

lemma transition_record_codec:
  "codec (\<lambda>out r. bindR (put_str out (fst (transition_fields r))) (\<lambda>out.
       put_uint 1 out (event_tag (snd (transition_fields r)))))
     decode_transition_record (\<lambda>r. valid_group_record r \<and> (\<exists>g event. r = GroupTransitioned g event))"
  by (rule codec_checkedI [OF codec_pair [OF group_codec event_codec],
        where check = "\<lambda>(grp, event). Inr (GroupTransitioned grp event)" and raw_of = transition_fields])
    (auto simp: transition_fields_def decode_transition_record_def bindR_assoc split_def valid_group_record_def
      split: group_metadata_record.splits)

lemma roster_record_codec:
  "codec (\<lambda>out r. bindR (put_str out (fst (roster_fields r))) (\<lambda>out. put_roster out (snd (roster_fields r))))
     decode_roster_record (\<lambda>r. valid_group_record r \<and> (\<exists>g roster. r = GroupRosterUpdated g roster))"
  by (rule codec_checkedI [OF codec_pair [OF group_codec roster_codec],
        where check = "\<lambda>(grp, roster). Inr (GroupRosterUpdated grp roster)" and raw_of = roster_fields])
    (auto simp: roster_fields_def decode_roster_record_def bindR_assoc split_def valid_group_record_def
      split: group_metadata_record.splits)

definition decode_group_tagged :: "nat \<Rightarrow> nat \<Rightarrow> group_metadata_record reader_of" where
  "decode_group_tagged at tag cur =
     (if tag = TAG_OFFSET then decode_offset_record cur
      else if tag = TAG_TRANSITION then decode_transition_record cur
      else if tag = TAG_ROSTER then decode_roster_record cur
      else Inl (MalformedMetadataSegment at))"

lemma decode_group_record_tagged:
  "\<forall>c. decode_group_record c = bindR (cur_u8 c) (\<lambda>(tag, c'). decode_group_tagged (cur_at c) tag c')"
  by (simp add: decode_group_record_def decode_group_tagged_def Let_def)

lemmas group_alternatives = encode_group_record_def decode_group_tagged_def group_tag_defs
  offset_fields_def transition_fields_def roster_fields_def

lemma group_alternative_written:
  assumes "codec putX getX validX" "validX r" "is_ok (encode_group_record out r)" "t < 256"
    and "\<forall>out. encode_group_record out r = bindR (put_uint 1 out t) (\<lambda>out. putX out r)"
    and "\<forall>at c. decode_group_tagged at t c = getX c"
  shows "\<exists>bs. writes encode_group_record r bs \<and> reads decode_group_record r bs"
  by (rule tagged_written [where put = encode_group_record and get = decode_group_record and
        pick = decode_group_tagged, OF assms(1-5) decode_group_record_tagged assms(6)])

lemma group_alternative_read:
  assumes "codec putX getX validX" "cur_u8 c = Inr (t, d)" "getX d = Inr (r, c')"
    and "\<forall>out r. validX r \<longrightarrow> encode_group_record out r = bindR (put_uint 1 out t) (\<lambda>out. putX out r)"
    and "\<forall>r. validX r \<longrightarrow> valid_group_record r"
  shows "valid_group_record r \<and> (\<exists>bs. consumed c c' bs \<and> writes encode_group_record r bs)"
  using tagged_read [where put = encode_group_record, OF assms(1-4)] assms(5) by blast

lemma group_record_written:
  assumes "valid_group_record r" and ok: "is_ok (encode_group_record out r)"
  shows "\<exists>bs. writes encode_group_record r bs \<and> reads decode_group_record r bs"
proof (cases r)
  case OffsetCommitted
  with assms show ?thesis
    by (intro group_alternative_written [OF offset_record_codec _ ok, of TAG_OFFSET])
      (simp_all add: group_alternatives)
next
  case GroupTransitioned
  with assms show ?thesis
    by (intro group_alternative_written [OF transition_record_codec _ ok, of TAG_TRANSITION])
      (simp_all add: group_alternatives)
next
  case GroupRosterUpdated
  with assms show ?thesis
    by (intro group_alternative_written [OF roster_record_codec _ ok, of TAG_ROSTER])
      (simp_all add: group_alternatives)
qed

lemma group_record_read:
  assumes "decode_group_record c = Inr (r, c')"
  shows "valid_group_record r \<and> (\<exists>bs. consumed c c' bs \<and> writes encode_group_record r bs)"
proof -
  from assms obtain tag d where u: "cur_u8 c = Inr (tag, d)" and t: "decode_group_tagged (cur_at c) tag d = Inr (r, c')"
    by (auto simp: decode_group_record_tagged bindR_Inr_iff)
  from t consider "tag = TAG_OFFSET" "decode_offset_record d = Inr (r, c')"
    | "tag = TAG_TRANSITION" "decode_transition_record d = Inr (r, c')"
    | "tag = TAG_ROSTER" "decode_roster_record d = Inr (r, c')"
    by (auto simp: decode_group_tagged_def split: if_splits)
  then show ?thesis
  proof cases
    case 1
    show ?thesis
      by (rule group_alternative_read [OF offset_record_codec u 1(2)]) (auto simp: group_alternatives 1(1))
  next
    case 2
    show ?thesis
      by (rule group_alternative_read [OF transition_record_codec u 2(2)]) (auto simp: group_alternatives 2(1))
  next
    case 3
    show ?thesis
      by (rule group_alternative_read [OF roster_record_codec u 3(2)]) (auto simp: group_alternatives 3(1))
  qed
qed

interpretation group_rec: codec encode_group_record decode_group_record valid_group_record
  by unfold_locales (use group_record_written group_record_read in blast)+

lemma group_entry_codec: "codec encode_group_entry decode_group_entry valid_group_entry"
  by (rule codec_recordI [OF uint.codec_axioms [of 8] group_rec.codec_axioms,
        where build = "\<lambda>version rec. \<lparr>ge_version = version, ge_record = rec\<rparr>"
          and fst_of = ge_version and snd_of = ge_record])
    (auto simp: encode_group_entry_def decode_group_entry_def valid_group_entry_def)

section \<open>The round trip\<close>

lemma group_framed:
  "group_encode entries = framed_put GROUP_MAGIC GROUP_FORMAT
     (\<lambda>out xs. bindR (put_len32 out (length xs)) (\<lambda>out. foldR encode_group_entry out xs)) entries"
  "group_decode bytes = framed_get GROUP_MAGIC GROUP_FORMAT
     (\<lambda>c. bindR (cur_u32 c) (\<lambda>(n, c). cur_repeat decode_group_entry n c)) bytes"
  by (simp add: group_encode_def framed_put_def put_uint_def)
    (simp only: group_decode_def framed_get_def bindR_assoc split_def)

lemma group_segment_iff:
  "group_decode bytes = Inr entries \<longleftrightarrow> group_encode entries = Inr bytes \<and> (\<forall>e\<in>set entries. valid_group_entry e)"
proof -
  have "length GROUP_MAGIC = 4" "GROUP_FORMAT < 256" by (simp_all add: GROUP_MAGIC_def GROUP_FORMAT_def)
  from framed_iff [OF codec.counted_list [OF group_entry_codec] this] show ?thesis unfolding group_framed .
qed

text \<open>The group segment format is a bijection: bytes decode to a list of group entries if and only if
  that list, every field within its type's range, encodes to those bytes.  Transitions, offsets and
  rosters read back as they were written, the event by an explicit tag and not by its place in the
  enumeration.\<close>

lemma group_segment_round_trip:
  "group_decode bytes = Inr entries \<longleftrightarrow> group_encode entries = Inr bytes \<and> list_all valid_group_entry entries"
  by (simp add: group_segment_iff list_all_iff)

end
