(* ===== verification/Group_Replay.thy ===== *)
theory Group_Replay
  imports Group_Log
begin

text \<open>
  What a restart loses of the groups: nothing.  The locale \<open>group_log\<close> is the contract of the log;
  inside it, every request the actor serves keeps the coordinator equal to the replay of the log, and
  the replay loops return.  Offsets need no order: applied in any order they give the same map.
\<close>

section \<open>The contract\<close>

locale group_log =
  fixes entries :: "'l \<Rightarrow> group_metadata_entry list"
    and app :: "'l \<Rightarrow> group_metadata_entry list \<Rightarrow> unit result \<times> 'l"
    and read_from :: "'l \<Rightarrow> commit_version \<Rightarrow> nat \<Rightarrow> group_metadata_entry list result"
    and last_version :: "'l \<Rightarrow> commit_version option result"
    and invar :: "'l \<Rightarrow> bool"
  assumes append_stores: "invar l \<Longrightarrow> app l es = (Inr (), l') \<Longrightarrow> entries l' = entries l @ es"
    and append_refused: "invar l \<Longrightarrow> app l es = (Inl e, l') \<Longrightarrow> entries l' = entries l"
    and append_invar: "invar l \<Longrightarrow> invar (snd (app l es))"
    and versions_rise: "invar l \<Longrightarrow> sorted_wrt (<) (map ge_version (entries l))"
    and read_page: "invar l \<Longrightarrow> read_from l start n = Inr page \<Longrightarrow>
      page = take n (filter (\<lambda>e. ge_version e \<ge> start) (entries l))"
    and last_is_last: "invar l \<Longrightarrow> last_version l = Inr v \<Longrightarrow> v = group_last (entries l)"

lemma group_validate_iff:
  "group_validate es previous = Inr () \<longleftrightarrow>
     sorted_wrt (<) (map ge_version es) \<and> (\<forall>p. previous = Some p \<longrightarrow> (\<forall>e\<in>set es. p < ge_version e))"
  by (induction es previous rule: group_validate.induct) (force split: option.splits)+

lemma sorted_last_max:
  assumes "sorted_wrt (<) (map ge_version es)" "group_last es = Some v" "e \<in> set es"
  shows "ge_version e \<le> v"
  using assms by (induction es rule: rev_induct) (auto simp: group_last_def sorted_wrt_append intro: less_imp_le)

lemma rises_after:
  assumes "sorted_wrt (<) (map ge_version es)" "group_validate es' (group_last es) = Inr ()"
  shows "sorted_wrt (<) (map ge_version (es @ es'))"
proof (cases "group_last es")
  case None
  then have "es = []" by (simp add: group_last_def split: if_splits)
  with assms(2) show ?thesis by (simp add: group_validate_iff)
next
  case (Some v)
  with assms sorted_last_max [OF assms(1) Some] show ?thesis
    by (fastforce simp: group_validate_iff sorted_wrt_append)
qed

interpretation fake_group: group_log "\<lambda>l. l" fake_group_append fake_group_read_from fake_group_last_version
  "\<lambda>l. sorted_wrt (<) (map ge_version l)"
proof unfold_locales
  fix l es l' e
  show "fake_group_append l es = (Inr (), l') \<Longrightarrow> l' = l @ es" "fake_group_append l es = (Inl e, l') \<Longrightarrow> l' = l"
    by (auto simp: fake_group_append_def split: sum.splits)
  show "sorted_wrt (<) (map ge_version l) \<Longrightarrow> sorted_wrt (<) (map ge_version (snd (fake_group_append l es)))"
    using rises_after [of l es] by (auto simp: fake_group_append_def split: sum.splits)
qed (auto simp: fake_group_read_from_def fake_group_last_version_def)

section \<open>Replay returns\<close>

lemma fold_until_append:
  "fold_until f s (xs @ ys) = (case fold_until f s xs of (Inl e, s') \<Rightarrow> (Inl e, s') | (Inr _, s') \<Rightarrow> fold_until f s' ys)"
  by (induction xs arbitrary: s) (auto split: prod.splits sum.splits)

context group_log
begin

lemma rest_of_page:
  assumes "invar l" "filter (\<lambda>e. ge_version e \<ge> start) (entries l) = page @ ys" "page \<noteq> []"
  shows "filter (\<lambda>e. ge_version e \<ge> ge_version (last page) + 1) (entries l) = ys"
proof -
  have "sorted_wrt (<) (map ge_version (filter (\<lambda>e. ge_version e \<ge> start) (entries l)))"
    using versions_rise [OF assms(1)] by (simp add: sorted_wrt_map sorted_wrt_filter)
  then have s: "sorted_wrt (<) (map ge_version (page @ ys))" by (simp only: assms(2))
  have page: "ge_version e \<le> ge_version (last page)" if "e \<in> set page" for e
    using s that sorted_last_max [of page "ge_version (last page)" e] assms(3) by (simp add: sorted_wrt_append group_last_def)
  have ys: "ge_version (last page) < ge_version e" if "e \<in> set ys" for e
    using s that assms(3) by (simp add: sorted_wrt_append)
  have "last page \<in> set (filter (\<lambda>e. ge_version e \<ge> start) (entries l))" unfolding assms(2) using assms(3) by simp
  then have "start \<le> ge_version (last page)" by simp
  then have "filter (\<lambda>e. ge_version e \<ge> ge_version (last page) + 1) (entries l) =
      filter (\<lambda>e. ge_version e \<ge> ge_version (last page) + 1) (filter (\<lambda>e. ge_version e \<ge> start) (entries l))"
    by (auto simp: intro: filter_cong)
  also have "\<dots> = ys" using page ys by (force simp: assms(2) filter_empty_conv filter_id_conv not_le Suc_le_eq)
  finally show ?thesis .
qed

lemma pages_fold:
  assumes "invar l" "\<forall>start n. is_ok (read_from l start n)" "\<forall>e\<in>set (entries l). ge_version e < u64_max"
    and "filter (\<lambda>e. ge_version e \<ge> start) (entries l) = ys"
  shows "replay_pages (read_from l) f start s = Some (fold_until f s ys)"
  using assms(4)
proof (induction "length ys" arbitrary: start s ys rule: less_induct)
  case less
  define page where "page = take REPLAY_PAGE_SIZE ys"
  define rest where "rest = drop REPLAY_PAGE_SIZE ys"
  have ys: "ys = page @ rest" by (simp add: page_def rest_def)
  obtain p where "read_from l start REPLAY_PAGE_SIZE = Inr p" using assms(2) by (auto simp: is_ok_iff)
  with read_page [OF assms(1) this] have read: "read_from l start REPLAY_PAGE_SIZE = Inr page"
    by (simp only: less.prems page_def)
  show ?case
  proof (cases "page = [] \<or> length page < REPLAY_PAGE_SIZE")
    case True
    then have "rest = []" by (auto simp: page_def rest_def REPLAY_PAGE_SIZE_def)
    with True read ys show ?thesis
      by (auto simp: replay_pages.simps [of _ f start] split: prod.splits sum.splits)
  next
    case False
    then have ne: "page \<noteq> []" and shorter: "length rest < length ys" by (auto simp: ys)
    have "last page \<in> set (entries l)" using less.prems ne by (metis filter_is_subset in_mono last_in_set Un_iff set_append ys)
    then have adv: "version_advance (ge_version (last page)) 1 = Inr (ge_version (last page) + 1)"
      using assms(3) by (fastforce simp: version_advance_def)
    from rest_of_page [OF assms(1) _ ne] less.prems ys
    have "filter (\<lambda>e. ge_version e \<ge> ge_version (last page) + 1) (entries l) = rest" by simp
    from less.hyps [OF shorter this] read adv False show ?thesis
      by (simp add: replay_pages.simps [of _ f start] ys fold_until_append split: prod.splits sum.splits)
  qed
qed

lemma replay_folds:
  assumes "invar l" "\<forall>start n. is_ok (read_from l start n)" "\<forall>e\<in>set (entries l). ge_version e < u64_max"
  shows "replay_pages (read_from l) f 0 s = Some (fold_until f s (entries l))"
  by (rule pages_fold [OF assms]) simp

end

section \<open>The actor and the log\<close>

fun is_offset :: "group_metadata_record \<Rightarrow> bool" where
  "is_offset (OffsetCommitted _ _ _ _) \<longleftrightarrow> True"
| "is_offset _ \<longleftrightarrow> False"

text \<open>The other writers of the log commit offsets, and nothing else.\<close>

definition commits_only ::
  "('l \<Rightarrow> group_metadata_entry list) \<Rightarrow> ('l \<Rightarrow> bool) \<Rightarrow> (nat \<Rightarrow> 'l \<Rightarrow> 'l) \<Rightarrow> bool" where
  "commits_only entries invar others \<longleftrightarrow>
     (\<forall>i l. invar l \<longrightarrow> invar (others i l) \<and>
        (\<exists>es. entries (others i l) = entries l @ es \<and> (\<forall>e\<in>set es. is_offset (ge_record e))))"

text \<open>The coordinator that replaying \<open>es\<close> gives; no group is poisoned.\<close>

definition replays_to :: "group_metadata_entry list \<Rightarrow> group_coordinator \<Rightarrow> bool" where
  "replays_to es c \<longleftrightarrow> fold_until replay_entry (gc_new, {}) es = (Inr (), c, {})"

lemma replay_offset_entries:
  "\<forall>e\<in>set es. is_offset (ge_record e) \<Longrightarrow> fold_until replay_entry st es = (Inr (), st)"
proof (induction es arbitrary: st)
  case (Cons e es)
  then show ?case by (cases st; cases "ge_record e") (simp_all add: replay_entry_def)
qed simp

lemma replays_to_snoc:
  assumes "replays_to xs c" "\<forall>e\<in>set es. is_offset (ge_record e)"
  shows "fold_until replay_entry (gc_new, {}) (xs @ es @ [e]) = replay_entry (c, {}) e"
    and "replays_to (xs @ es) c"
  using assms replay_offset_entries [OF assms(2)]
  by (auto simp: replays_to_def fold_until_append split: prod.splits sum.splits)

context group_log
begin

lemma attempts_outcome:
  assumes "commits_only entries invar others"
  shows "invar l \<Longrightarrow> append_attempts app last_version others n l rec = (r, l') \<Longrightarrow>
    invar l' \<and> (\<exists>es. (\<forall>e\<in>set es. is_offset (ge_record e)) \<and>
      entries l' = entries l @ es @ (case r of Inr v \<Rightarrow> [\<lparr>ge_version = v, ge_record = rec\<rparr>] | Inl _ \<Rightarrow> []))"
proof (induction n arbitrary: l)
  case 0
  then show ?case by auto
next
  case (Suc n)
  show ?case
  proof (cases "bindR (last_version l) (\<lambda>lst. case lst of Some v \<Rightarrow> version_advance v 1 | None \<Rightarrow> Inr 0)")
    case (Inl e)
    with Suc.prems(2) have "r = Inl e \<and> l' = l" by simp
    with Suc.prems(1) show ?thesis by auto
  next
    case (Inr v)
    let ?e = "\<lparr>ge_version = v, ge_record = rec\<rparr>"
    from assms Suc.prems(1) obtain es where o: "invar (others n l)" "entries (others n l) = entries l @ es"
      "\<forall>e\<in>set es. is_offset (ge_record e)"
      unfolding commits_only_def by blast
    obtain res l2 where a: "app (others n l) [?e] = (res, l2)" by fastforce
    with append_invar [OF o(1), of "[?e]"] have inv2: "invar l2" by simp
    show ?thesis
    proof (cases res)
      case (Inr u)
      with a append_stores [OF o(1), of "[?e]" l2] have "entries l2 = entries l @ es @ [?e]" by (simp add: o(2))
      moreover have "r = Inr v \<and> l' = l2" using Suc.prems(2) \<open>bindR _ _ = Inr v\<close> a Inr by simp
      ultimately show ?thesis using inv2 o(3) by auto
    next
      case (Inl e)
      with a append_refused [OF o(1), of "[?e]" e l2] have same: "entries l2 = entries l @ es" by (simp add: o(2))
      show ?thesis
      proof (cases "\<exists>a b. e = NonMonotonicCommitVersion a b")
        case True
        then have "append_attempts app last_version others n l2 rec = (r, l')"
          using Suc.prems(2) \<open>bindR _ _ = Inr v\<close> a Inl by auto
        from Suc.IH [OF inv2 this] same o(3) show ?thesis by fastforce
      next
        case False
        then have "r = Inl e \<and> l' = l2"
          using Suc.prems(2) \<open>bindR _ _ = Inr v\<close> a Inl by (auto split: error.splits)
        with inv2 same o(3) show ?thesis by auto
      qed
    qed
  qed
qed

lemma durably_outcome:
  assumes "commits_only entries invar others" "invar l" "append_durably app last_version others l rec = (r, l')"
  shows "invar l' \<and> (\<exists>v es. (\<forall>e\<in>set es. is_offset (ge_record e)) \<and>
    entries l' = entries l @ es @ (if r = Inr () then [\<lparr>ge_version = v, ge_record = rec\<rparr>] else []))"
proof -
  obtain r' l2 where a: "append_attempts app last_version others MAX_APPEND_RETRIES l rec = (r', l2)" by fastforce
  from attempts_outcome [OF assms(1,2) a] a assms(3) show ?thesis
    by (cases r') (auto simp: append_durably_def)
qed

lemma handle_one_keeps:
  assumes "commits_only entries invar others" "invar l" "replays_to (entries l) c"
    and "handle_one app last_version others c l grp event = (r, c', l')"
  shows "invar l' \<and> replays_to (entries l') c'"
proof -
  define current where "current = (case gc_record c grp of Some r \<Rightarrow> r | None \<Rightarrow> FRESH)"
  have cur: "current = gc_current c grp" by (simp add: current_def gc_record_def gc_current_def)
  obtain d l2 where d: "append_durably app last_version others l (GroupTransitioned grp event) = (d, l2)" by fastforce
  from durably_outcome [OF assms(1,2) d] obtain v es where out: "invar l2" "\<forall>e\<in>set es. is_offset (ge_record e)"
    "entries l2 = entries l @ es @ (if d = Inr () then [\<lparr>ge_version = v, ge_record = GroupTransitioned grp event\<rparr>] else [])"
    by blast
  note step = replays_to_snoc [OF assms(3) out(2)]
  show ?thesis
  proof (cases "transition (gr_state current) event (gr_generation current) (gr_assignment_epoch current)")
    case (Inl e)
    with assms show ?thesis by (simp add: handle_one_def Let_def current_def)
  next
    case (Inr t)
    show ?thesis
    proof (cases d)
      case (Inl e)
      with Inr d assms(4) step(2) out show ?thesis by (auto simp: handle_one_def Let_def current_def)
    next
      case (Inr u)
      obtain s g a where t: "t = (s, g, a)" by (cases t)
      from \<open>transition _ _ _ _ = Inr t\<close> t cur
      have "gc_transition c grp event = (Inr \<lparr>gr_state = s, gr_generation = g, gr_assignment_epoch = a\<rparr>,
          c\<lparr>gc_groups := (gc_groups c)(grp \<mapsto> \<lparr>gr_state = s, gr_generation = g, gr_assignment_epoch = a\<rparr>)\<rparr>)"
        by (simp add: gc_transition_def Let_def)
      with \<open>transition _ _ _ _ = Inr t\<close> d Inr assms(4) step(1) out show ?thesis
        by (auto simp: handle_one_def Let_def current_def replay_entry_def replays_to_def split: if_splits)
    qed
  qed
qed

lemma update_roster_keeps:
  assumes "commits_only entries invar others" "invar l" "replays_to (entries l) c"
    and "update_roster app last_version others c l grp roster = (r, c', l')"
  shows "invar l' \<and> replays_to (entries l') c'"
proof -
  obtain d l2 where d: "append_durably app last_version others l (GroupRosterUpdated grp roster) = (d, l2)" by fastforce
  from durably_outcome [OF assms(1,2) d] obtain v es where out: "invar l2" "\<forall>e\<in>set es. is_offset (ge_record e)"
    "entries l2 = entries l @ es @ (if d = Inr () then [\<lparr>ge_version = v, ge_record = GroupRosterUpdated grp roster\<rparr>] else [])"
    by blast
  from replays_to_snoc [OF assms(3) out(2)] out d assms(4) show ?thesis
    by (cases d) (auto simp: update_roster_def replays_to_def replay_entry_def)
qed

lemma serve_keeps:
  assumes "commits_only entries invar others" "invar l" "replays_to (entries l) c"
    and "serve_request app last_version others (c, l) req = (c', l')"
  shows "invar l' \<and> replays_to (entries l') c'"
proof (cases req)
  case (RequestTransition grp event)
  obtain r where "handle_one app last_version others c l grp event = (r, c', l')"
    using assms(4) RequestTransition by (cases "handle_one app last_version others c l grp event") (simp add: serve_request_def)
  then show ?thesis by (rule handle_one_keeps [OF assms(1-3)])
next
  case (RequestRoster grp roster)
  obtain r where "update_roster app last_version others c l grp roster = (r, c', l')"
    using assms(4) RequestRoster by (cases "update_roster app last_version others c l grp roster") (simp add: serve_request_def)
  then show ?thesis by (rule update_roster_keeps [OF assms(1-3)])
qed

lemma serve_all_keeps:
  assumes "\<forall>(others, req)\<in>set reqs. commits_only entries invar others" "invar l" "replays_to (entries l) c"
    and "foldl (\<lambda>st (others, req). serve_request app last_version others st req) (c, l) reqs = (c', l')"
  shows "invar l' \<and> replays_to (entries l') c'"
  using assms
proof (induction reqs arbitrary: c l)
  case (Cons or reqs)
  obtain others req where or: "or = (others, req)" by (cases or)
  obtain c1 l1 where s: "serve_request app last_version others (c, l) req = (c1, l1)" by fastforce
  from Cons.prems(1) or have "commits_only entries invar others" by simp
  from serve_keeps [OF this Cons.prems(2,3) s] Cons.IH [of l1 c1] Cons.prems(1,4) or s show ?case by simp
qed simp

end

text \<open>C11. A restart does not change the groups.  Over any log that keeps its contract, whatever requests the
  actor served, refused, or lost to a failing or contended log, with any offset commits of other tasks in
  between, replaying the log into a fresh coordinator returns and gives exactly the coordinator that was
  live: every group's state, generation, epoch and roster.\<close>

theorem restart_keeps_the_groups:
  assumes "group_log entries app read_from last_version invar" "invar l0" "entries l0 = []"
    and "\<forall>(others, req)\<in>set reqs. commits_only entries invar others"
    and "foldl (\<lambda>st (others, req). serve_request app last_version others st req) (gc_new, l0) reqs = (live, l)"
    and "\<forall>start n. is_ok (read_from l start n)" "\<forall>e\<in>set (entries l). ge_version e < u64_max"
  shows "replay_transitions read_from gc_new l = Some (Inr (), live)"
proof -
  have "replays_to (entries l0) gc_new" by (simp add: assms(3) replays_to_def)
  from group_log.serve_all_keeps [OF assms(1,4,2) this assms(5)] have "invar l" "replays_to (entries l) live" by simp_all
  with group_log.replay_folds [OF assms(1) _ assms(6,7), of replay_entry "(gc_new, {})"] show ?thesis
    by (simp add: replay_transitions_def replays_to_def)
qed

text \<open>Alone, the first attempt succeeds.\<close>

lemma fake_append_durably:
  assumes "(case group_last l of Some v \<Rightarrow> version_advance v 1 | None \<Rightarrow> Inr 0) = Inr nxt"
  shows "append_durably fake_group_append fake_group_last_version (\<lambda>_ l. l) l rec =
    (Inr (), l @ [\<lparr>ge_version = nxt, ge_record = rec\<rparr>])"
proof -
  have retries: "MAX_APPEND_RETRIES = Suc 7" by (simp add: MAX_APPEND_RETRIES_def)
  have "group_validate [\<lparr>ge_version = nxt, ge_record = rec\<rparr>] (group_last l) = Inr ()"
    using assms by (auto simp: group_validate_iff version_advance_def split: option.splits if_splits)
  then have app: "fake_group_append l [\<lparr>ge_version = nxt, ge_record = rec\<rparr>] =
      (Inr (), l @ [\<lparr>ge_version = nxt, ge_record = rec\<rparr>])"
    by (simp add: fake_group_append_def del: group_validate.simps)
  have "append_attempts fake_group_append fake_group_last_version (\<lambda>_ l. l) MAX_APPEND_RETRIES l rec =
      (Inr nxt, l @ [\<lparr>ge_version = nxt, ge_record = rec\<rparr>])"
    unfolding retries append_attempts.simps by (simp add: fake_group_last_version_def app assms del: One_nat_def)
  then show ?thesis by (simp add: append_durably_def)
qed

theorem restart_keeps_the_groups_witness:
  "\<exists>live l. foldl (\<lambda>st (others, req). serve_request fake_group_append fake_group_last_version others st req) (gc_new, [])
       [(\<lambda>_ l. l, RequestTransition ''g'' Join), (\<lambda>_ l. l, RequestTransition ''g'' SyncComplete),
        (\<lambda>_ l. l, RequestTransition ''g'' JoinBarrierComplete)] = (live, l) \<and>
     length l = 2 \<and> replay_transitions fake_group_read_from gc_new l = Some (Inr (), live)"
proof -
  let ?reqs = "[(\<lambda>_ l. l, RequestTransition ''g'' Join), (\<lambda>_ l. l, RequestTransition ''g'' SyncComplete),
        (\<lambda>_ l. l, RequestTransition ''g'' JoinBarrierComplete)] ::
      ((nat \<Rightarrow> group_metadata_entry list \<Rightarrow> group_metadata_entry list) \<times> group_request) list"
  obtain live l where run: "foldl (\<lambda>st (others, req). serve_request fake_group_append fake_group_last_version others st req)
      (gc_new, []) ?reqs = (live, l)" by fastforce
  then have l: "l = [\<lparr>ge_version = 0, ge_record = GroupTransitioned ''g'' Join\<rparr>,
      \<lparr>ge_version = 1, ge_record = GroupTransitioned ''g'' JoinBarrierComplete\<rparr>]"
    by (simp add: serve_request_def handle_one_def fake_append_durably group_last_def gc_record_def gc_new_def gc_transition_def
        gc_current_def transition_def generation_next_def FRESH_def Let_def version_advance_def GENERATION_INITIAL_def)
  have "replay_transitions fake_group_read_from gc_new l = Some (Inr (), live)"
    by (rule restart_keeps_the_groups [OF fake_group.group_log_axioms _ _ _ run])
      (auto simp: l commits_only_def fake_group_read_from_def)
  with run l show ?thesis by auto
qed

section \<open>Offsets in any order\<close>

definition commits_of :: "group_metadata_entry list \<Rightarrow> offset_key \<Rightarrow> (commit_version \<times> int) set" where
  "commits_of es key =
     {(v, off). \<lparr>ge_version = v, ge_record = OffsetCommitted (fst key) (fst (snd key)) (snd (snd key)) off\<rparr> \<in> set es}"

abbreviation apply_entry :: "offset_map \<Rightarrow> group_metadata_entry \<Rightarrow> offset_map" where
  "apply_entry offsets e \<equiv> apply_offset offsets (ge_version e) (ge_record e)"

text \<open>The map has, for each key, the commit of the highest version.\<close>

definition newest_in :: "(commit_version \<times> int) set \<Rightarrow> (commit_version \<times> int) option \<Rightarrow> bool" where
  "newest_in commits held \<longleftrightarrow>
     (case held of
        None \<Rightarrow> commits = {}
      | Some (v, off) \<Rightarrow> (v, off) \<in> commits \<and> (\<forall>(v', off')\<in>commits. v' \<le> v))"

definition newest_commits :: "group_metadata_entry list \<Rightarrow> offset_map \<Rightarrow> bool" where
  "newest_commits es m \<longleftrightarrow> (\<forall>key. newest_in (commits_of es key) (m key))"

lemma newest_in_insert:
  "newest_in commits held \<Longrightarrow>
     newest_in (insert (v, off) commits) (case held of
        Some (existing, old) \<Rightarrow> if v \<le> existing then Some (existing, old) else Some (v, off)
      | None \<Rightarrow> Some (v, off))"
  by (cases held) (fastforce simp: newest_in_def)+

lemma apply_offset_at:
  "apply_offset m v (OffsetCommitted grp topic part off) key =
     (if key = (grp, topic, part)
      then (case m key of
              Some (existing, old) \<Rightarrow> if v \<le> existing then Some (existing, old) else Some (v, off)
            | None \<Rightarrow> Some (v, off))
      else m key)"
  by (auto simp: apply_offset_def Let_def split: option.splits)

lemma commits_of_snoc:
  "commits_of (es @ [e]) key = commits_of es key \<union>
     (case ge_record e of
        OffsetCommitted grp topic part off \<Rightarrow> if key = (grp, topic, part) then {(ge_version e, off)} else {}
      | _ \<Rightarrow> {})"
  by (cases e; cases "ge_record e"; cases key) (auto simp: commits_of_def)

lemma newest_commits_step:
  assumes "newest_commits es m"
  shows "newest_commits (es @ [e]) (apply_entry m e)"
proof (cases "ge_record e")
  case (OffsetCommitted grp topic part off)
  with assms newest_in_insert [of "commits_of es (grp, topic, part)" "m (grp, topic, part)" "ge_version e" off]
  show ?thesis by (simp add: newest_commits_def commits_of_snoc apply_offset_at)
qed (use assms in \<open>simp_all add: newest_commits_def commits_of_snoc apply_offset_def\<close>)

lemma newest_commits_fold: "newest_commits es (foldl apply_entry Map.empty es)"
  by (induction es rule: rev_induct) (simp_all add: newest_commits_step newest_commits_def [of "[]"] newest_in_def commits_of_def)

lemma newest_commits_unique:
  assumes "newest_commits es m" "newest_commits es' m'" "set es = set es'" "inj_on ge_version (set es)"
  shows "m = m'"
proof
  fix key
  have same: "commits_of es key = commits_of es' key" by (simp add: commits_of_def assms(3))
  have one: "off = off'" if "(v, off) \<in> commits_of es key" "(v, off') \<in> commits_of es key" for v off off'
  proof -
    from that have "\<lparr>ge_version = v, ge_record = OffsetCommitted (fst key) (fst (snd key)) (snd (snd key)) off\<rparr> \<in> set es"
      "\<lparr>ge_version = v, ge_record = OffsetCommitted (fst key) (fst (snd key)) (snd (snd key)) off'\<rparr> \<in> set es"
      by (simp_all add: commits_of_def)
    from inj_onD [OF assms(4) _ this] show ?thesis by simp
  qed
  have new: "newest_in (commits_of es key) (m key)" "newest_in (commits_of es key) (m' key)"
    using assms(1,2) [unfolded newest_commits_def, rule_format, of key] same by simp_all
  show "m key = m' key"
  proof (cases "m key")
    case None
    with new show ?thesis by (cases "m' key") (auto simp: newest_in_def)
  next
    case (Some p)
    then obtain v off where p: "m key = Some (v, off)" by (cases p) simp
    with new obtain v' off' where p': "m' key = Some (v', off')" by (cases "m' key") (auto simp: newest_in_def)
    from new p p' have "v = v'" by (auto simp: newest_in_def intro: antisym)
    with new p p' one show ?thesis by (auto simp: newest_in_def)
  qed
qed

lemma offsets_replay:
  assumes "group_log entries app read_from last_version invar" "invar l"
    and "\<forall>start n. is_ok (read_from l start n)" "\<forall>e\<in>set (entries l). ge_version e < u64_max"
  shows "replay_offsets read_from held l = Some (Inr (), foldl apply_entry Map.empty (entries l))"
proof -
  have fold: "fold_until (\<lambda>offsets e. (Inr (), apply_entry offsets e)) s es = (Inr (), foldl apply_entry s es)" for s es
    by (induction es arbitrary: s) auto
  from group_log.replay_folds [OF assms, of "\<lambda>offsets e. (Inr (), apply_entry offsets e)" Map.empty]
  show ?thesis by (simp add: replay_offsets_def fold)
qed

lemma newest_commits_at_least:
  assumes "newest_commits es m" "\<lparr>ge_version = v, ge_record = OffsetCommitted grp topic part off\<rparr> \<in> set es"
  shows "\<exists>v' off'. m (grp, topic, part) = Some (v', off') \<and> v \<le> v' \<and>
    \<lparr>ge_version = v', ge_record = OffsetCommitted grp topic part off'\<rparr> \<in> set es"
proof -
  have "newest_in (commits_of es (grp, topic, part)) (m (grp, topic, part))"
    using assms(1) unfolding newest_commits_def by blast
  moreover have "(v, off) \<in> commits_of es (grp, topic, part)" using assms(2) by (simp add: commits_of_def)
  ultimately show ?thesis by (cases "m (grp, topic, part)") (auto simp: newest_in_def commits_of_def)
qed

text \<open>Committed offsets survive a restart, and their order in memory does not matter.  Over any log that
  keeps its contract, replaying the offsets returns, and gives the map that results from applying the log's
  entries in any order, as concurrent commits do after their appends; for each group and partition it holds
  the offset of the commit with the highest version.\<close>

lemma replayed_offsets_are_order_free:
  assumes "group_log entries app read_from last_version invar" "invar l"
    and "\<forall>start n. is_ok (read_from l start n)" "\<forall>e\<in>set (entries l). ge_version e < u64_max"
    and "mset applied = mset (entries l)"
  shows "replay_offsets read_from held l = Some (Inr (), foldl apply_entry Map.empty applied) \<and>
    newest_commits (entries l) (foldl apply_entry Map.empty applied)"
proof -
  have sets: "set applied = set (entries l)" using assms(5) mset_eq_setD by blast
  have "inj_on ge_version (set (entries l))"
    using group_log.versions_rise [OF assms(1,2)]
    by (metis distinct_map strict_sorted_iff)
  then have same: "foldl apply_entry Map.empty applied = foldl apply_entry Map.empty (entries l)"
    using newest_commits_unique [OF newest_commits_fold newest_commits_fold, of applied "entries l"] sets by simp
  from offsets_replay [OF assms(1-4)] newest_commits_fold [of "entries l"] show ?thesis by (simp add: same)
qed


end
