(* ===== verification/Group_Object_Log.thy ===== *)
theory Group_Object_Log
  imports Opened_Log Group_Segment Group_Replay
begin

text \<open>
  The group metadata log in object storage (\<open>ObjectStoreGroupMetadataLog\<close> of \<open>object_store_log.rs\<close>):
  its segments are a \<open>segment_codec\<close> and the opened log is a \<open>group_log\<close>, so what a broker acknowledged
  to its consumers is what a broker restarted on the store serves.
\<close>

definition group_format :: "group_metadata_entry segment_format" where
  "group_format = \<lparr>sf_encode = group_encode, sf_decode = group_decode, sf_version = ge_version\<rparr>"

lemma group_format_simps [simp]:
  "sf_encode group_format = group_encode" "sf_decode group_format = group_decode" "sf_version group_format = ge_version"
  by (simp_all add: group_format_def)

interpretation gd: segment_codec group_format valid_group_entry
  by unfold_locales (simp add: group_segment_iff)

lemma rising_group: "rising group_format None es \<longleftrightarrow> sorted_wrt (<) (map ge_version es)"
  by (simp add: rising_def)

lemma last_of_group: "last_of group_format es = group_last es"
  by (simp add: last_of_def group_last_def)

interpretation stored: group_log held_entries "opened_append group_format pfx" "opened_read_from group_format"
  "opened_last_version group_format" "\<lambda>l. rising group_format None (held_entries l)"
  for pfx
proof unfold_locales
  fix l es l' e v
  show "opened_append group_format pfx l es = (Inr (), l') \<Longrightarrow> held_entries l' = held_entries l @ es"
    "opened_append group_format pfx l es = (Inl e, l') \<Longrightarrow> held_entries l' = held_entries l"
    using opened_append_cases [of group_format pfx l es] by auto
  show "opened_last_version group_format l = Inr v \<Longrightarrow> v = group_last (held_entries l)"
    by (auto simp: opened_last_version_def segments_last_version_def held_entries_def last_of_group)
  show "rising group_format None (held_entries l) \<Longrightarrow> rising group_format None (held_entries (snd (opened_append group_format pfx l es)))"
    by (rule opened_append_rising)
qed (auto simp: rising_group opened_read_from_def segments_read_from_def held_entries_def)


text \<open>A consumer joins and commits twice.\<close>

definition example_groups :: "group_metadata_entry list" where
  "example_groups =
     [\<lparr>ge_version = 0, ge_record = GroupTransitioned ''g'' Join\<rparr>,
      \<lparr>ge_version = 1, ge_record = OffsetCommitted ''g'' ''t'' 0 5\<rparr>,
      \<lparr>ge_version = 2, ge_record = OffsetCommitted ''g'' ''t'' 0 9\<rparr>]"

lemma example_groups_encode: "is_ok (group_encode example_groups)"
  by (simp add: example_groups_def group_encode_def encode_group_entry_def encode_group_record_def put_uint_def
      put_int_def put_len32_def put_str_def)

lemma utf8_names: "utf8 ''g''" "utf8 ''t''"
  by (rule utf8_ascii, simp add: as_bytes_def)+

lemma example_groups_valid: "\<forall>e\<in>set example_groups. valid_group_entry e"
  using utf8_names by (simp add: example_groups_def valid_group_entry_def valid_group_record_def fits_int_def)


section \<open>Two writers of one process\<close>

text \<open>An append during which another task of the process, appending \<open>es'\<close>, runs from start to end: after
  this one has read the position under the lock, before its put.\<close>

definition raced_append ::
  "'e segment_format \<Rightarrow> string \<Rightarrow> 'e list \<Rightarrow> 'e opened_log \<Rightarrow> 'e list \<Rightarrow> unit result \<times> 'e opened_log" where
  "raced_append F pfx es' l es =
     (case segments_append F pfx es of
        Load rest \<Rightarrow>
          (case io_run 0 (segments_append F pfx es') (fst l) (Some (snd l)) of (_, \<sigma>, s) \<Rightarrow>
             case io_run 0 (rest (Some (snd l))) \<sigma> s of
               (r, \<tau>, Some st) \<Rightarrow> (r, (\<tau>, st))
             | (r, \<tau>, None) \<Rightarrow> (Inl (MalformedMetadataSegment 0), (\<tau>, snd l)))
      | _ \<Rightarrow> opened_append F pfx l es)"

lemma append_takes_the_key:
  assumes "io_run now (segments_append F pfx es) \<sigma> (Some st) = (Inr (), \<sigma>', Some st')" "es \<noteq> []"
  shows "payload_at \<sigma>' (seq_key pfx ''log'' (ls_next_seq st)) \<noteq> None"
  using assms payload_put [of \<sigma> "seq_key pfx ''log'' (ls_next_seq st)"]
  by (auto simp: segments_append_def with_log_def Let_def try_io_def segment_key_def split: if_splits sum.splits prod.splits)

text \<open>C35. A commit that loses a race is refused, not retried.  When another task of the broker appends to the
  group log while a commit is between reading the position and its create-only put, the put is answered
  with a failed precondition.  The commit loop retries a version conflict and nothing else, so after this
  first of its eight attempts it hands the refusal to its caller: no offset is recorded, and the log has
  the other task's entries only.\<close>

theorem lost_race_is_not_retried:
  assumes other: "io_run 0 (segments_append group_format pfx es') \<sigma> (Some st) = (Inr (), \<sigma>', Some st')" "es' \<noteq> []"
    and ours: "(case group_last (ls_entries st) of Some v \<Rightarrow> version_advance v 1 | None \<Rightarrow> Inr 0) = Inr nxt"
      "group_encode [\<lparr>ge_version = nxt, ge_record = OffsetCommitted grp topic part off\<rparr>] = Inr payload"
  shows "commit_offset (raced_append group_format pfx es') (opened_last_version group_format) (\<lambda>_ l. l)
      (offsets, (\<sigma>, st)) grp topic part off =
    (Inl (PreconditionFailed (seq_key pfx ''log'' (ls_next_seq st))), offsets, (\<sigma>', st'))"
proof -
  let ?e = "\<lparr>ge_version = nxt, ge_record = OffsetCommitted grp topic part off\<rparr>"
  let ?key = "seq_key pfx ''log'' (ls_next_seq st)"
  have put: "store_put \<sigma>' ?key payload (Some IfAbsent) = (Inl (PreconditionFailed ?key), \<sigma>')"
    using append_takes_the_key [OF other] put_refused [of \<sigma>' ?key payload "Some IfAbsent"] put_if_absent_iff [of \<sigma>' ?key payload]
    by (cases "store_put \<sigma>' ?key payload (Some IfAbsent)"; cases "fst (store_put \<sigma>' ?key payload (Some IfAbsent))") auto
  have "rising group_format (group_last (ls_entries st)) [?e]"
    using ours(1) by (auto simp: rising_def version_advance_def split: option.splits if_splits)
  then have valid: "validate_log group_format [?e] (last_of group_format (ls_entries st)) = Inr ()"
    unfolding validate_log_iff last_of_group .
  have app: "raced_append group_format pfx es' (\<sigma>, st) [?e] = (Inl (PreconditionFailed ?key), (\<sigma>', st'))"
    using other(1) ours(2) put valid
    by (simp add: raced_append_def segments_append_def [of _ _ "[?e]"] with_log_def Let_def segment_key_def del: validate_log.simps)
  have "MAX_COMMIT_RETRIES = Suc 7" by (simp add: MAX_COMMIT_RETRIES_def)
  moreover have "append_attempts (raced_append group_format pfx es') (opened_last_version group_format) (\<lambda>_ l. l) (Suc 7)
      (\<sigma>, st) (ge_record ?e) = (Inl (PreconditionFailed ?key), (\<sigma>', st'))"
    unfolding append_attempts.simps
    using ours(1) app by (simp add: opened_last_version_def segments_last_version_def last_of_group del: One_nat_def)
  ultimately show ?thesis by (simp add: commit_offset_def Let_def)
qed

theorem lost_race_is_not_retried_witness:
  "\<exists>st \<sigma>' st'. ls_entries st = [] \<and>
     io_run 0 (segments_append group_format ''g'' [\<lparr>ge_version = 0, ge_record = GroupTransitioned ''g'' Join\<rparr>]) (\<lambda>_. None) (Some st) =
       (Inr (), \<sigma>', Some st') \<and>
     commit_offset (raced_append group_format ''g'' [\<lparr>ge_version = 0, ge_record = GroupTransitioned ''g'' Join\<rparr>])
       (opened_last_version group_format) (\<lambda>_ l. l) (Map.empty, (\<lambda>_. None, st)) ''g'' ''t'' 0 5 =
     (Inl (PreconditionFailed (seq_key ''g'' ''log'' 0)), Map.empty, (\<sigma>', st'))"
proof -
  let ?es = "[\<lparr>ge_version = 0, ge_record = GroupTransitioned ''g'' Join\<rparr>]" and ?key = "seq_key ''g'' ''log'' 0"
  let ?st = "opened_state [] [] [] 0 :: group_metadata_entry log_state"
  have st: "ls_entries ?st = []" "ls_next_seq ?st = 0" by (simp_all add: opened_state_def newest_base_def)
  have "is_ok (group_encode ?es)"
    by (simp add: group_encode_def encode_group_entry_def encode_group_record_def put_uint_def put_len32_def put_str_def)
  then obtain bytes where bytes: "group_encode ?es = Inr bytes" by (auto simp: is_ok_iff)
  have "is_ok (group_encode [\<lparr>ge_version = 0, ge_record = OffsetCommitted ''g'' ''t'' 0 5\<rparr>])"
    by (simp add: group_encode_def encode_group_entry_def encode_group_record_def put_uint_def put_int_def put_len32_def put_str_def)
  then obtain payload where ours: "group_encode [\<lparr>ge_version = 0, ge_record = OffsetCommitted ''g'' ''t'' 0 5\<rparr>] = Inr payload"
    by (auto simp: is_ok_iff)
  have "payload_at (\<lambda>_. None) ?key = None" by (simp add: payload_at_def)
  then obtain token \<sigma>' where "store_put (\<lambda>_. None) ?key bytes (Some IfAbsent) = (Inr token, \<sigma>')"
    using put_if_absent_iff by blast
  with bytes st obtain st' where run: "io_run 0 (segments_append group_format ''g'' ?es) (\<lambda>_. None) (Some ?st) = (Inr (), \<sigma>', Some st')"
    by (simp add: segments_append_def with_log_def Let_def last_of_def segment_key_def log_next_def)
  have "(case group_last (ls_entries ?st) of Some v \<Rightarrow> version_advance v 1 | None \<Rightarrow> Inr 0) = Inr 0"
    by (simp add: st group_last_def)
  from lost_race_is_not_retried [OF run _ this ours, of Map.empty] run st show ?thesis
    by (intro exI [of _ ?st] exI [of _ \<sigma>'] exI [of _ st']) simp
qed

end
