(* ===== verification/Expiry_Heap.thy ===== *)
theory Expiry_Heap
  imports Index_State "HOL-Library.Product_Lexorder"
begin

text \<open>
  The retention heap (\<open>oqueue-compact/src/retention.rs\<close>): one deadline per partition, the newest commit's
  time plus the topic's retention, and a round that trims what is overdue.  A \<open>BTreeSet\<close> is its elements in
  ascending order; the map of armed partitions is an association list.
\<close>

section \<open>The heap\<close>

definition DEFAULT_RETENTION_MS :: int where
  "DEFAULT_RETENTION_MS = 604800000"

record expiry_heap =
  eh_due :: "(int \<times> topic_id \<times> partition_id) list"
  eh_armed :: "(pkey \<times> int) list"
  eh_topics :: "topic_id list"
  eh_retention_ms :: int
  eh_topic_retention_ms :: "topic_id \<Rightarrow> int option"
  eh_popped :: nat

definition heap_new :: "int \<Rightarrow> expiry_heap" where
  "heap_new retention_ms = \<lparr>eh_due = [], eh_armed = [], eh_topics = [], eh_retention_ms = retention_ms,
     eh_topic_retention_ms = Map.empty, eh_popped = 0\<rparr>"

definition heap_deadline :: "expiry_heap \<Rightarrow> index_state \<Rightarrow> pkey \<Rightarrow> int option" where
  "heap_deadline self index key =
     (case index_time_span index key of
        None \<Rightarrow> None
      | Some span \<Rightarrow>
          if ts_max span = 0 then None
          else
            let retention = (case eh_topic_retention_ms self (fst key) of Some r \<Rightarrow> r | None \<Rightarrow> eh_retention_ms self)
            in if ts_max span + retention \<le> i64_max then Some (ts_max span + retention) else None)"

definition heap_track :: "index_state \<Rightarrow> expiry_heap \<Rightarrow> pkey \<Rightarrow> expiry_heap" where
  "heap_track index self key =
     (if map_of (eh_armed self) key \<noteq> None then self
      else case heap_deadline self index key of
             None \<Rightarrow> self
           | Some deadline \<Rightarrow>
               self\<lparr>eh_armed := AList.update key deadline (eh_armed self),
                    eh_topics := insort_insert (fst key) (eh_topics self),
                    eh_due := insort_insert (deadline, key) (eh_due self)\<rparr>)"

definition heap_rebuilt :: "index_state \<Rightarrow> pkey list \<Rightarrow> int \<Rightarrow> expiry_heap" where
  "heap_rebuilt index partitions retention_ms = foldl (heap_track index) (heap_new retention_ms) partitions"

definition heap_rearm :: "index_state \<Rightarrow> topic_id \<Rightarrow> expiry_heap \<Rightarrow> partition_id \<Rightarrow> expiry_heap" where
  "heap_rearm index topic self part =
     (case map_of (eh_armed self) (topic, part) of
        None \<Rightarrow> heap_track index self (topic, part)
      | Some deadline \<Rightarrow>
          heap_track index
            (self\<lparr>eh_armed := AList.delete (topic, part) (eh_armed self),
                  eh_due := remove1 (deadline, topic, part) (eh_due self)\<rparr>) (topic, part))"

definition heap_set_topic_retention :: "index_state \<Rightarrow> expiry_heap \<Rightarrow> topic_id \<Rightarrow> int option \<Rightarrow> expiry_heap" where
  "heap_set_topic_retention index self topic retention_ms =
     (let changed = (case retention_ms of
                       Some value \<Rightarrow> eh_topic_retention_ms self topic \<noteq> Some value
                     | None \<Rightarrow> eh_topic_retention_ms self topic \<noteq> None)
      in if \<not> changed then self
         else
           let self = self\<lparr>eh_topic_retention_ms := (eh_topic_retention_ms self)(topic := retention_ms)\<rparr>;
               partitions = map snd (filter (\<lambda>key. fst key = topic) (map fst (eh_armed self)))
           in foldl (heap_rearm index topic) self partitions)"

definition heap_topics_after :: "expiry_heap \<Rightarrow> topic_id option \<Rightarrow> nat \<Rightarrow> topic_id list" where
  "heap_topics_after self after limit =
     (let topics = take limit (case after of Some topic \<Rightarrow> filter (\<lambda>t. topic < t) (eh_topics self) | None \<Rightarrow> eh_topics self)
      in if length topics < limit \<and> after \<noteq> None then topics @ take (limit - length topics) (eh_topics self) else topics)"

text \<open>The partition leaves the heap; its topic too when no other partition of it is armed.\<close>

definition heap_disarm :: "expiry_heap \<Rightarrow> pkey \<Rightarrow> expiry_heap" where
  "heap_disarm self key =
     (let self = self\<lparr>eh_armed := AList.delete key (eh_armed self)\<rparr>
      in if list_ex (\<lambda>k. fst k = fst key) (map fst (eh_armed self)) then self
         else self\<lparr>eh_topics := remove1 (fst key) (eh_topics self)\<rparr>)"

fun pop_due ::
  "index_state \<Rightarrow> timestamp \<Rightarrow> (int \<times> pkey) list \<Rightarrow> expiry_heap \<times> metadata_record list \<times> pkey list \<Rightarrow>
     expiry_heap \<times> metadata_record list \<times> pkey list" where
  "pop_due index now [] (self, trims, rearm) = (self\<lparr>eh_due := []\<rparr>, trims, rearm)"
| "pop_due index now ((deadline, key) # rest) (self, trims, rearm) =
     (if deadline > now then (self\<lparr>eh_due := (deadline, key) # rest\<rparr>, trims, rearm)
      else
        let self = self\<lparr>eh_popped := eh_popped self + 1\<rparr>
        in if map_of (eh_armed self) key \<noteq> Some deadline then pop_due index now rest (self, trims, rearm)
           else if heap_deadline self index key = Some deadline
           then let self = heap_disarm self key;
                    end = index_end_offset index key
                in pop_due index now rest
                     (self, if index_log_start index key < end then trims @ [Trimmed (fst key) (snd key) end] else trims, rearm)
           else pop_due index now rest (heap_disarm self key, trims, rearm @ [key]))"

definition heap_due :: "index_state \<Rightarrow> timestamp \<Rightarrow> expiry_heap \<Rightarrow> metadata_record list \<times> expiry_heap" where
  "heap_due index now self =
     (case pop_due index now (eh_due self) (self\<lparr>eh_popped := 0\<rparr>, [], []) of
        (self, trims, rearm) \<Rightarrow> (trims, foldl (heap_track index) self rearm))"

section \<open>The books of the heap\<close>

text \<open>With \<open>due\<close> the queue as it stands: one entry per armed partition, in order of deadline, and every
  armed topic among the topics to reconcile.\<close>

definition heap_sound :: "(int \<times> pkey) list \<Rightarrow> expiry_heap \<Rightarrow> bool" where
  "heap_sound due self \<longleftrightarrow>
     sorted due \<and> distinct due \<and> distinct (map fst (eh_armed self)) \<and>
     set due = (\<lambda>(key, d). (d, key)) ` set (eh_armed self) \<and>
     sorted (eh_topics self) \<and> distinct (eh_topics self) \<and> (\<forall>e\<in>set (eh_armed self). fst (fst e) \<in> set (eh_topics self))"

abbreviation heap_ok :: "expiry_heap \<Rightarrow> bool" where
  "heap_ok self \<equiv> heap_sound (eh_due self) self"

lemma heap_soundD:
  assumes "heap_sound due self"
  shows "(d, key) \<in> set due \<longleftrightarrow> map_of (eh_armed self) key = Some d" "sorted due" "distinct due"
    "distinct (map fst (eh_armed self))"
  using assms by (auto simp: heap_sound_def)

lemma heap_ok_new: "heap_ok (heap_new r)"
  by (simp add: heap_sound_def heap_new_def)

lemma deadline_same:
  "eh_retention_ms a = eh_retention_ms b \<Longrightarrow> eh_topic_retention_ms a = eh_topic_retention_ms b \<Longrightarrow>
     heap_deadline a = heap_deadline b"
  by (intro ext) (simp only: heap_deadline_def)

lemma deadline_update [simp]:
  "heap_deadline (self\<lparr>eh_due := x\<rparr>) = heap_deadline self" "heap_deadline (self\<lparr>eh_armed := a\<rparr>) = heap_deadline self"
  "heap_deadline (self\<lparr>eh_popped := n\<rparr>) = heap_deadline self" "heap_deadline (heap_disarm self key) = heap_deadline self"
  by (rule deadline_same; simp add: heap_disarm_def Let_def)+

lemma sound_popped [simp]: "heap_sound due (self\<lparr>eh_popped := n\<rparr>) = heap_sound due self"
  "heap_sound due (self\<lparr>eh_due := x\<rparr>) = heap_sound due self"
  by (simp_all add: heap_sound_def)

lemma armed_track:
  "map_of (eh_armed (heap_track index self key)) k =
     (if k = key \<and> map_of (eh_armed self) key = None then heap_deadline self index key else map_of (eh_armed self) k)"
  by (auto simp: heap_track_def split: option.splits)

lemma track_same [simp]:
  "heap_deadline (heap_track index self key) = heap_deadline self" "eh_popped (heap_track index self key) = eh_popped self"
  "eh_topic_retention_ms (heap_track index self key) = eh_topic_retention_ms self"
  by (auto simp: heap_track_def split: option.splits intro!: deadline_same)

lemma ok_track:
  assumes "heap_ok self"
  shows "heap_ok (heap_track index self key)"
proof (cases "map_of (eh_armed self) key = None \<and> heap_deadline self index key \<noteq> None")
  case True
  then obtain d where d: "map_of (eh_armed self) key = None" "heap_deadline self index key = Some d" by auto
  then have track: "heap_track index self key =
      self\<lparr>eh_armed := AList.update key d (eh_armed self), eh_topics := insort_insert (fst key) (eh_topics self),
           eh_due := insort_insert (d, key) (eh_due self)\<rparr>"
    by (simp add: heap_track_def)
  have "set (AList.update key d (eh_armed self)) = insert (key, d) (set (eh_armed self))"
    using d(1) by (simp add: update_None_snoc)
  with assms d(1) show ?thesis
    unfolding track heap_sound_def
    by (auto simp: sorted_insort_insert distinct_insort_insert set_insort_insert)
next
  case False
  then have "heap_track index self key = self" by (auto simp: heap_track_def)
  with assms show ?thesis by simp
qed

lemma ok_tracks: "heap_ok self \<Longrightarrow> heap_ok (foldl (heap_track index) self keys)"
  by (induction keys arbitrary: self) (simp_all add: ok_track)

lemma armed_tracks:
  "map_of (eh_armed (foldl (heap_track index) self keys)) k =
     (if k \<in> set keys \<and> map_of (eh_armed self) k = None then heap_deadline self index k else map_of (eh_armed self) k)"
  by (induction keys arbitrary: self) (auto simp: armed_track)

lemma popped_tracks: "eh_popped (foldl (heap_track index) self keys) = eh_popped self"
  by (induction keys arbitrary: self) simp_all

lemma armed_disarm: "eh_armed (heap_disarm self key) = AList.delete key (eh_armed self)"
  by (simp add: heap_disarm_def Let_def)

lemma sound_disarm:
  assumes "heap_sound ((d, key) # rest) self"
  shows "heap_sound rest (heap_disarm self key)"
proof -
  have armed: "set (AList.delete key (eh_armed self)) = {e \<in> set (eh_armed self). fst e \<noteq> key}"
    by (auto simp: AList.delete_eq)
  have one: "e = d" if "(key, e) \<in> set (eh_armed self)" for e
    using that heap_soundD(1,4) [OF assms] by (metis eq_key_imp_eq_value list.set_intros(1) map_of_SomeD)
  have due: "set rest = (\<lambda>(key, d). (d, key)) ` set (AList.delete key (eh_armed self))"
  proof -
    have mem: "(e, k) \<in> set ((d, key) # rest) \<longleftrightarrow> (k, e) \<in> set (eh_armed self)" for e k
      using heap_soundD(1) [OF assms, of e k] heap_soundD(4) [OF assms] by simp
    have "(e, k) \<in> set rest \<longleftrightarrow> (k, e) \<in> set (eh_armed self) \<and> k \<noteq> key" for e k
      using mem [of e k] mem [of d key] one [of e] heap_soundD(3) [OF assms] by auto
    then show ?thesis by (auto simp: armed image_iff)
  qed
  have topics: "fst (fst e) \<in> set (eh_topics (heap_disarm self key))" if "e \<in> set (AList.delete key (eh_armed self))" for e
  proof (cases "fst (fst e) = fst key")
    case True
    with that have "list_ex (\<lambda>k. fst k = fst key) (map fst (AList.delete key (eh_armed self)))" by (force simp: list_ex_iff)
    then show ?thesis using assms that armed by (simp add: heap_disarm_def Let_def heap_sound_def)
  next
    case False
    then show ?thesis using assms that armed by (simp add: heap_disarm_def Let_def heap_sound_def)
  qed
  have "sorted (eh_topics (heap_disarm self key)) \<and> distinct (eh_topics (heap_disarm self key))"
    using assms by (simp add: heap_sound_def heap_disarm_def Let_def sorted_remove1)
  with due topics assms show ?thesis by (simp add: heap_sound_def armed_disarm distinct_delete)
qed

section \<open>A round\<close>

definition overdue :: "timestamp \<Rightarrow> int \<times> pkey \<Rightarrow> bool" where
  "overdue now entry \<longleftrightarrow> fst entry \<le> now"

definition trims_of :: "index_state \<Rightarrow> expiry_heap \<Rightarrow> (int \<times> pkey) list \<Rightarrow> metadata_record list" where
  "trims_of index self popped =
     map (\<lambda>(_, key). Trimmed (fst key) (snd key) (index_end_offset index key))
       (filter (\<lambda>(deadline, key). heap_deadline self index key = Some deadline \<and>
          index_log_start index key < index_end_offset index key) popped)"

lemma pop_due_eq:
  assumes "heap_sound due self" "pop_due index now due (self, trims, rearm) = (self', trims', rearm')"
  shows "heap_ok self' \<and> eh_due self' = dropWhile (overdue now) due \<and> heap_deadline self' = heap_deadline self \<and>
    eh_popped self' = eh_popped self + length (takeWhile (overdue now) due) \<and>
    map_of (eh_armed self') k = (if k \<in> snd ` set (takeWhile (overdue now) due) then None else map_of (eh_armed self) k) \<and>
    trims' = trims @ trims_of index self (takeWhile (overdue now) due) \<and>
    rearm' = rearm @ map snd (filter (\<lambda>(deadline, key). heap_deadline self index key \<noteq> Some deadline) (takeWhile (overdue now) due))"
  using assms
proof (induction due arbitrary: self trims rearm)
  case Nil
  then show ?case by (auto simp: trims_of_def)
next
  case (Cons entry rest)
  obtain deadline key where [simp]: "entry = (deadline, key)" by (cases entry)
  show ?case
  proof (cases "deadline > now")
    case True
    with Cons.prems show ?thesis by (auto simp: trims_of_def overdue_def)
  next
    case False
    have armed: "map_of (eh_armed self) key = Some deadline" using heap_soundD(1) [OF Cons.prems(1), of deadline key] by simp
    let ?self = "heap_disarm (self\<lparr>eh_popped := eh_popped self + 1\<rparr>) key"
    have sound: "heap_sound rest ?self" using sound_disarm [of deadline key rest] Cons.prems(1) by simp
    have popped: "eh_popped ?self = eh_popped self + 1" by (simp add: heap_disarm_def Let_def)
    have deadlines: "heap_deadline ?self = heap_deadline self" by simp
    have m: "map_of (eh_armed ?self) = (map_of (eh_armed self))(key := None)" by (simp add: armed_disarm)
    have t: "trims_of index ?self = trims_of index self" by (simp add: trims_of_def fun_eq_iff)
    show ?thesis
    proof (cases "heap_deadline self index key = Some deadline")
      case True
      with Cons.prems(2) False armed
      have "pop_due index now rest (?self, if index_log_start index key < index_end_offset index key
          then trims @ [Trimmed (fst key) (snd key) (index_end_offset index key)] else trims, rearm) = (self', trims', rearm')"
        by (simp add: Let_def)
      note ih = Cons.IH [OF sound this, unfolded popped deadlines m t]
      with True False show ?thesis by (auto simp: trims_of_def overdue_def)
    next
      case neq: False
      with Cons.prems(2) False armed have "pop_due index now rest (?self, trims, rearm @ [key]) = (self', trims', rearm')"
        by (simp add: Let_def)
      note ih = Cons.IH [OF sound this, unfolded popped deadlines m t]
      with neq False show ?thesis by (auto simp: trims_of_def overdue_def)
    qed
  qed
qed

lemma mem_map_snd: "k \<in> set (map snd (filter P xs)) \<longleftrightarrow> (\<exists>d. (d, k) \<in> set xs \<and> P (d, k))"
  by force

lemma due_prefix:
  assumes "heap_ok self"
  shows "takeWhile (overdue now) (eh_due self) = filter (overdue now) (eh_due self)"
proof -
  have "sorted_wrt (\<lambda>x y. overdue now y \<longrightarrow> overdue now x) (eh_due self)"
    by (rule sorted_wrt_mono_rel [OF _ heap_soundD(2) [OF assms]]) (auto simp: overdue_def less_eq_prod_def)
  then show ?thesis by (rule sorted_filter_partition)
qed

lemma heap_due_eq:
  assumes "heap_ok self" "heap_due index now self = (trims, self')"
  shows "heap_ok self'" "trims = trims_of index self (filter (overdue now) (eh_due self))"
    "eh_popped self' = length (filter (overdue now) (eh_due self))"
    "map_of (eh_armed self') key =
       (case map_of (eh_armed self) key of
          None \<Rightarrow> None
        | Some d \<Rightarrow> if now < d then Some d else if heap_deadline self index key = Some d then None else heap_deadline self index key)"
proof -
  obtain mid rearm where pop: "pop_due index now (eh_due self) (self\<lparr>eh_popped := 0\<rparr>, [], []) = (mid, trims, rearm)"
    "self' = foldl (heap_track index) mid rearm"
    using assms(2) by (auto simp: heap_due_def split: prod.splits)
  let ?popped = "filter (overdue now) (eh_due self)"
  note eq = pop_due_eq [OF _ pop(1), where k = key, simplified sound_popped, OF assms(1), unfolded due_prefix [OF assms(1)]]
  have t: "trims_of index (self\<lparr>eh_popped := 0\<rparr>) = trims_of index self" by (simp add: trims_of_def fun_eq_iff)
  show "heap_ok self'" using eq ok_tracks pop(2) by blast
  show "trims = trims_of index self ?popped" using eq t by simp
  show "eh_popped self' = length ?popped" using eq popped_tracks pop(2) by simp
  have dead: "heap_deadline mid = heap_deadline self" using eq by simp
  have arm: "map_of (eh_armed mid) key = (if key \<in> snd ` set ?popped then None else map_of (eh_armed self) key)"
    using eq by simp
  have rearm: "rearm = map snd (filter (\<lambda>(deadline, key). heap_deadline self index key \<noteq> Some deadline) ?popped)"
    using eq by simp
  have mem: "(d, key) \<in> set ?popped \<longleftrightarrow> map_of (eh_armed self) key = Some d \<and> d \<le> now" for d
    using heap_soundD(1) [OF assms(1), of d key] by (auto simp: overdue_def)
  have "key \<in> snd ` set ?popped \<longleftrightarrow> (\<exists>d. (d, key) \<in> set ?popped)" by force
  moreover have "key \<in> set rearm \<longleftrightarrow> (\<exists>d. (d, key) \<in> set ?popped \<and> heap_deadline self index key \<noteq> Some d)"
    unfolding rearm mem_map_snd by simp
  ultimately show "map_of (eh_armed self') key =
       (case map_of (eh_armed self) key of
          None \<Rightarrow> None
        | Some d \<Rightarrow> if now < d then Some d else if heap_deadline self index key = Some d then None else heap_deadline self index key)"
    unfolding pop(2) armed_tracks arm dead mem by (auto split: option.splits)
qed


definition example_index :: index_state where
  "example_index = index_new\<lparr>ix_partitions := [(''t'', 0) \<mapsto>
     partition_default\<lparr>pi_end := 3, pi_when := Some (time_span_at 1000)\<rparr>]\<rparr>"


section \<open>Retention overrides\<close>

lemma armed_rearm:
  assumes "heap_ok self"
  shows "heap_ok (heap_rearm index topic self part)"
    "map_of (eh_armed (heap_rearm index topic self part)) k =
       (if k = (topic, part) then heap_deadline self index k else map_of (eh_armed self) k)"
    "heap_deadline (heap_rearm index topic self part) = heap_deadline self"
proof -
  have "heap_ok (self\<lparr>eh_armed := AList.delete (topic, part) (eh_armed self), eh_due := remove1 (d, topic, part) (eh_due self)\<rparr>)"
    if "map_of (eh_armed self) (topic, part) = Some d" for d
  proof -
    have "(e, k) \<in> set (remove1 (d, topic, part) (eh_due self)) \<longleftrightarrow> (k, e) \<in> set (AList.delete (topic, part) (eh_armed self))" for e k
      using heap_soundD(1) [OF assms, of e k] heap_soundD(3,4) [OF assms] that
      by (auto simp: AList.delete_eq dest: eq_key_imp_eq_value)
    then have "set (remove1 (d, topic, part) (eh_due self)) = (\<lambda>(k, e). (e, k)) ` set (AList.delete (topic, part) (eh_armed self))"
      by (auto simp del: set_remove1_eq simp: image_iff)
    moreover have "set (AList.delete (topic, part) (eh_armed self)) \<subseteq> set (eh_armed self)" by (auto simp: AList.delete_eq)
    ultimately show ?thesis using assms
      by (auto simp: heap_sound_def sorted_remove1 distinct_delete simp del: set_remove1_eq)
  qed
  then show "heap_ok (heap_rearm index topic self part)"
    using assms by (auto simp: heap_rearm_def split: option.splits intro!: ok_track)
  show "map_of (eh_armed (heap_rearm index topic self part)) k =
       (if k = (topic, part) then heap_deadline self index k else map_of (eh_armed self) k)"
    by (auto simp: heap_rearm_def armed_track split: option.splits)
  show "heap_deadline (heap_rearm index topic self part) = heap_deadline self"
    by (auto simp: heap_rearm_def split: option.splits)
qed

lemma armed_rearms:
  assumes "heap_ok self"
  shows "heap_ok (foldl (heap_rearm index topic) self parts) \<and>
    map_of (eh_armed (foldl (heap_rearm index topic) self parts)) k =
       (if fst k = topic \<and> snd k \<in> set parts then heap_deadline self index k else map_of (eh_armed self) k) \<and>
    heap_deadline (foldl (heap_rearm index topic) self parts) = heap_deadline self"
  using assms
proof (induction parts arbitrary: self)
  case (Cons part parts)
  note r = armed_rearm [OF Cons.prems, of index topic part]
  from Cons.IH [OF r(1)] show ?case by (cases k) (auto simp: r(2) r(3))
qed simp

text \<open>An override arms every armed partition of its topic at its new deadline, and leaves the others.\<close>

lemma set_topic_retention_rearms:
  assumes "heap_ok self" "eh_topic_retention_ms self topic \<noteq> retention"
    and "self' = heap_set_topic_retention index self topic retention"
  shows "heap_ok self'" "eh_topic_retention_ms self' = (eh_topic_retention_ms self)(topic := retention)"
    "map_of (eh_armed self') k =
       (if fst k = topic \<and> map_of (eh_armed self) k \<noteq> None then heap_deadline self' index k else map_of (eh_armed self) k)"
proof -
  let ?new = "self\<lparr>eh_topic_retention_ms := (eh_topic_retention_ms self)(topic := retention)\<rparr>"
  let ?parts = "map snd (filter (\<lambda>key. fst key = topic) (map fst (eh_armed self)))"
  have self': "self' = foldl (heap_rearm index topic) ?new ?parts"
    using assms(2) unfolding assms(3) heap_set_topic_retention_def by (auto simp: Let_def split: option.splits)
  have ok: "heap_ok ?new" using assms(1) by (simp add: heap_sound_def)
  note r = armed_rearms [OF ok, of index topic ?parts k]
  show "heap_ok self'" using r self' by simp
  have "eh_topic_retention_ms (foldl (heap_rearm index topic) h ps) = eh_topic_retention_ms h" for h ps
    by (induction ps arbitrary: h) (auto simp: heap_rearm_def split: option.splits)
  then show "eh_topic_retention_ms self' = (eh_topic_retention_ms self)(topic := retention)" by (simp add: self')
  have "fst k = topic \<and> snd k \<in> set ?parts \<longleftrightarrow> fst k = topic \<and> map_of (eh_armed self) k \<noteq> None"
    by (cases k) (auto simp: map_of_eq_None_iff image_iff)
  with r show "map_of (eh_armed self') k =
       (if fst k = topic \<and> map_of (eh_armed self) k \<noteq> None then heap_deadline self' index k else map_of (eh_armed self) k)"
    unfolding self' by (cases k) auto
qed



end
