(* ===== verification/Object_Lifecycle.thy ===== *)
theory Object_Lifecycle
  imports Object_Store Staleness "HOL-Library.List_Lexorder" "HOL-Library.Char_ord"
begin

text \<open>
  Objects after the index stops naming them (\<open>oqueue-compact/src/lifecycle.rs\<close>, \<open>gc.rs\<close>): released, seen
  without references, waited for, queued, deleted, and quarantined when the store keeps refusing.  The
  delete of \<open>ObjectStore\<close> is the locale \<open>object_deleter\<close>, interpreted on the store of \<open>store/fake.rs\<close> with
  the storms it can show.  The lifecycle reads one number per object from the index, \<open>refs\<close>.
\<close>

section \<open>The deletion inequality\<close>

abbreviation i64_min :: int where "i64_min \<equiv> - 9223372036854775808"

definition sat_i64 :: "int \<Rightarrow> int" where
  "sat_i64 n = max i64_min (min i64_max n)"

definition MAX_IN_FLIGHT_FETCH_MS :: int where
  "MAX_IN_FLIGHT_FETCH_MS = 240000"

definition MAX_CLOCK_SKEW_MS :: int where
  "MAX_CLOCK_SKEW_MS = 10000"

definition DELETION_DELAY_MS :: int where
  "DELETION_DELAY_MS = 600000"

record gc_terms =
  gt_metadata_staleness_ms :: int
  gt_fetch_duration_ms :: int
  gt_clock_skew_ms :: int

definition gc_configured :: gc_terms where
  "gc_configured = \<lparr>gt_metadata_staleness_ms = int MAX_METADATA_STALENESS_MS, gt_fetch_duration_ms = MAX_IN_FLIGHT_FETCH_MS,
     gt_clock_skew_ms = MAX_CLOCK_SKEW_MS\<rparr>"

definition gc_bound :: "gc_terms \<Rightarrow> int" where
  "gc_bound self = sat_i64 (sat_i64 (gt_metadata_staleness_ms self + gt_fetch_duration_ms self) + gt_clock_skew_ms self)"

definition gc_check :: "gc_terms \<Rightarrow> int \<Rightarrow> unit result" where
  "gc_check self delay_ms =
     (let bound_ms = gc_bound self
      in if delay_ms > bound_ms then Inr () else Inl (GcInequalityViolated delay_ms bound_ms))"

section \<open>The lifecycle\<close>

definition DELETE_BATCH_KEYS :: nat where
  "DELETE_BATCH_KEYS = 1000"

definition DELETION_BACKLOG_KEYS :: nat where
  "DELETION_BACKLOG_KEYS = 100000"

definition QUARANTINE_AFTER_REFUSALS :: nat where
  "QUARANTINE_AFTER_REFUSALS = 5"

record sweep_report =
  sw_deleted :: nat
  sw_refused :: nat
  sw_quarantined :: "object_key list"

record lifecycle =
  lc_delay_ms :: int
  lc_logical :: "(object_key \<times> timestamp option) list"
  lc_queue :: "object_key list"
  lc_leaving :: "object_key set"
  lc_refusals :: "object_key \<Rightarrow> nat option"
  lc_quarantined :: "object_key list"

definition lifecycle_new :: "int \<Rightarrow> gc_terms \<Rightarrow> lifecycle result" where
  "lifecycle_new delay_ms terms =
     bindR (gc_check terms delay_ms) (\<lambda>_.
       Inr \<lparr>lc_delay_ms = delay_ms, lc_logical = [], lc_queue = [], lc_leaving = {}, lc_refusals = Map.empty,
            lc_quarantined = []\<rparr>)"

definition lc_release :: "lifecycle \<Rightarrow> object_key \<Rightarrow> lifecycle" where
  "lc_release self key =
     (if key \<in> lc_leaving self then self
      else case map_of (lc_logical self) key of
             None \<Rightarrow> self\<lparr>lc_logical := lc_logical self @ [(key, None)]\<rparr>
           | Some _ \<Rightarrow> self)"

definition lc_backlog :: "lifecycle \<Rightarrow> nat" where
  "lc_backlog self = length (lc_logical self) + length (lc_queue self)"

definition lc_admits :: "lifecycle \<Rightarrow> bool" where
  "lc_admits self \<longleftrightarrow> lc_backlog self < DELETION_BACKLOG_KEYS"

text \<open>One object that waits, looked at by a sweep: its clock, and whether it is due.\<close>

definition look :: "(object_key \<Rightarrow> nat) \<Rightarrow> timestamp \<Rightarrow> object_key \<times> timestamp option \<Rightarrow> object_key \<times> timestamp option" where
  "look refs now entry =
     (case entry of (key, zero_since) \<Rightarrow>
        if refs key > 0 then (key, None)
        else case zero_since of None \<Rightarrow> (key, Some now) | Some since \<Rightarrow> (key, Some since))"

definition is_due :: "(object_key \<Rightarrow> nat) \<Rightarrow> timestamp \<Rightarrow> int \<Rightarrow> object_key \<times> timestamp option \<Rightarrow> bool" where
  "is_due refs now delay entry \<longleftrightarrow>
     (case entry of (key, zero_since) \<Rightarrow>
        refs key = 0 \<and> (case zero_since of None \<Rightarrow> False | Some since \<Rightarrow> sat_i64 (now - since) \<ge> delay))"

definition lc_enqueue :: "lifecycle \<Rightarrow> object_key \<Rightarrow> lifecycle" where
  "lc_enqueue self key = self\<lparr>lc_logical := AList.delete key (lc_logical self), lc_leaving := insert key (lc_leaving self),
     lc_queue := lc_queue self @ [key]\<rparr>"

definition lc_promote :: "(object_key \<Rightarrow> nat) \<Rightarrow> timestamp \<Rightarrow> lifecycle \<Rightarrow> lifecycle" where
  "lc_promote refs now self =
     (let due = sort (map fst (filter (is_due refs now (lc_delay_ms self)) (lc_logical self)))
      in foldl lc_enqueue (self\<lparr>lc_logical := map (look refs now) (lc_logical self)\<rparr>) due)"

definition lc_forget :: "lifecycle \<Rightarrow> object_key \<Rightarrow> lifecycle" where
  "lc_forget self key = self\<lparr>lc_refusals := (lc_refusals self)(key := None), lc_leaving := lc_leaving self - {key}\<rparr>"

definition lc_refuse :: "lifecycle \<times> sweep_report \<Rightarrow> object_key \<Rightarrow> lifecycle \<times> sweep_report" where
  "lc_refuse st key =
     (case st of (self, report) \<Rightarrow>
        let refused = (case lc_refusals self key of Some n \<Rightarrow> n | None \<Rightarrow> 0) + 1;
            report = report\<lparr>sw_refused := sw_refused report + 1\<rparr>
        in if refused \<ge> QUARANTINE_AFTER_REFUSALS
           then (self\<lparr>lc_refusals := (lc_refusals self)(key := None), lc_quarantined := lc_quarantined self @ [key]\<rparr>,
                 report\<lparr>sw_quarantined := sw_quarantined report @ [key]\<rparr>)
           else (self\<lparr>lc_refusals := (lc_refusals self)(key \<mapsto> refused), lc_queue := lc_queue self @ [key]\<rparr>, report))"

text \<open>The delete of the store: its state, the keys, the answer.\<close>

type_synonym 's deleter = "'s \<Rightarrow> object_key list \<Rightarrow> unit result \<times> 's"

fun sweep_each :: "'s deleter \<Rightarrow> lifecycle \<times> sweep_report \<times> 's \<Rightarrow> object_key list \<Rightarrow> lifecycle \<times> sweep_report \<times> 's" where
  "sweep_each del st [] = st"
| "sweep_each del (self, report, s) (key # batch) =
     (case del s [key] of
        (Inr _, s) \<Rightarrow> sweep_each del (lc_forget self key, report\<lparr>sw_deleted := sw_deleted report + 1\<rparr>, s) batch
      | (Inl _, s) \<Rightarrow> (case lc_refuse (self, report) key of (self, report) \<Rightarrow> sweep_each del (self, report, s) batch))"

definition lc_sweep ::
  "'s deleter \<Rightarrow> (object_key \<Rightarrow> nat) \<Rightarrow> timestamp \<Rightarrow> lifecycle \<times> 's \<Rightarrow> sweep_report \<times> lifecycle \<times> 's" where
  "lc_sweep del refs now st =
     (case st of (self, s) \<Rightarrow>
        let self = lc_promote refs now self;
            n = min (length (lc_queue self)) DELETE_BATCH_KEYS;
            batch = take n (lc_queue self);
            self = self\<lparr>lc_queue := drop n (lc_queue self)\<rparr>;
            report = \<lparr>sw_deleted = 0, sw_refused = 0, sw_quarantined = []\<rparr>
        in if batch = [] then (report, self, s)
           else case del s batch of
                  (Inr _, s) \<Rightarrow> (report\<lparr>sw_deleted := length batch\<rparr>, foldl lc_forget self batch, s)
                | (Inl _, s) \<Rightarrow> (case sweep_each del (self, report, s) batch of (self, report, s) \<Rightarrow> (report, self, s)))"

section \<open>The contract of a delete\<close>

locale object_deleter =
  fixes held :: "'s \<Rightarrow> object_key set"
    and del :: "'s deleter"
  assumes deleted: "del s keys = (Inr (), s') \<Longrightarrow> held s' = held s - set keys"
    and only_those: "del s keys = (r, s') \<Longrightarrow> held s - set keys \<subseteq> held s' \<and> held s' \<subseteq> held s"

text \<open>The fake's delete with the answers its fault schedule will give.\<close>

fun fake_delete :: "(store \<times> error option list) deleter" where
  "fake_delete (slots, []) keys = (Inr (), store_delete slots keys, [])"
| "fake_delete (slots, None # storms) keys = (Inr (), store_delete slots keys, storms)"
| "fake_delete (slots, Some e # storms) keys = (Inl e, slots, storms)"

abbreviation stored_keys :: "store \<times> 'f \<Rightarrow> object_key set" where
  "stored_keys st \<equiv> {key. payload_at (fst st) key \<noteq> None}"

lemma fake_delete_held:
  "fake_delete st keys = (r, st') \<Longrightarrow> stored_keys st - set keys \<subseteq> stored_keys st' \<and> stored_keys st' \<subseteq> stored_keys st \<and>
     (r = Inr () \<longrightarrow> stored_keys st' = stored_keys st - set keys)"
  by (cases "(st, keys)" rule: fake_delete.cases) (auto simp: payload_delete split: if_splits)

interpretation fake_delete: object_deleter stored_keys fake_delete
  by unfold_locales (use fake_delete_held in blast)+

end
