(* ===== verification/Deletion_Safety.thy ===== *)
theory Deletion_Safety
  imports Object_Lifecycle
begin

text \<open>
  What the lifecycle promises of every object: it is deleted only after it was seen without references for
  the whole deletion delay, it is deleted in the end, and until then it is never lost from the books.
\<close>

section \<open>Promotion\<close>

lemma enqueue_all:
  "foldl lc_enqueue self ks =
     self\<lparr>lc_logical := filter (\<lambda>(k, _). k \<notin> set ks) (lc_logical self), lc_leaving := lc_leaving self \<union> set ks,
          lc_queue := lc_queue self @ ks\<rparr>"
proof (induction ks arbitrary: self)
  case (Cons k ks)
  have "filter (\<lambda>(k, _). k \<notin> set ks) (AList.delete k al) = filter (\<lambda>(j, _). j \<notin> set (k # ks)) al" for al :: "(object_key \<times> timestamp option) list"
    by (auto simp: AList.delete_eq intro!: filter_cong)
  then show ?case by (simp add: Cons.IH lc_enqueue_def [of self k])
qed simp

definition due_keys :: "(object_key \<Rightarrow> nat) \<Rightarrow> timestamp \<Rightarrow> lifecycle \<Rightarrow> object_key list" where
  "due_keys refs now self = sort (map fst (filter (is_due refs now (lc_delay_ms self)) (lc_logical self)))"

lemma set_due_keys:
  "key \<in> set (due_keys refs now self) \<longleftrightarrow>
     refs key = 0 \<and> (\<exists>since. (key, Some since) \<in> set (lc_logical self) \<and> lc_delay_ms self \<le> sat_i64 (now - since))"
proof -
  have "key \<in> set (due_keys refs now self) \<longleftrightarrow> (\<exists>z. (key, z) \<in> set (lc_logical self) \<and> is_due refs now (lc_delay_ms self) (key, z))"
    by (auto simp: due_keys_def image_iff)
  also have "\<dots> \<longleftrightarrow> refs key = 0 \<and> (\<exists>since. (key, Some since) \<in> set (lc_logical self) \<and> lc_delay_ms self \<le> sat_i64 (now - since))"
    by (auto simp: is_due_def split: option.splits)
  finally show ?thesis .
qed

lemma promote_eq:
  "lc_promote refs now self =
     self\<lparr>lc_logical := filter (\<lambda>(k, _). k \<notin> set (due_keys refs now self)) (map (look refs now) (lc_logical self)),
          lc_leaving := lc_leaving self \<union> set (due_keys refs now self),
          lc_queue := lc_queue self @ due_keys refs now self\<rparr>"
  by (simp add: lc_promote_def due_keys_def Let_def enqueue_all)

lemma fst_look [simp]: "fst (look refs now e) = fst e"
  by (simp add: look_def split: prod.splits option.splits)

lemma keys_promote:
  "fst ` set (lc_logical (lc_promote refs now self)) = fst ` set (lc_logical self) - set (due_keys refs now self)"
proof -
  have "fst ` set (filter (\<lambda>(k, _). k \<notin> D) (map (look refs now) al)) = fst ` set al - D" for D al
    by (induction al) (auto simp: case_prod_beta)
  then show ?thesis by (simp add: promote_eq)
qed

lemma forget_all:
  "foldl lc_forget self ks =
     self\<lparr>lc_refusals := (\<lambda>k. if k \<in> set ks then None else lc_refusals self k), lc_leaving := lc_leaving self - set ks\<rparr>"
proof (induction ks arbitrary: self)
  case (Cons k ks)
  then show ?case by (auto simp: lc_forget_def fun_eq_iff intro!: lifecycle.equality)
qed simp

section \<open>What a sweep leaves alone\<close>

lemma sweep_each_logical:
  "sweep_each del (self, report, s) ks = (self', report', s') \<Longrightarrow>
     lc_logical self' = lc_logical self \<and> lc_delay_ms self' = lc_delay_ms self \<and>
     set (lc_queue self') \<subseteq> set (lc_queue self) \<union> set ks"
proof (induction ks arbitrary: self report s)
  case (Cons k ks)
  from Cons.prems Cons.IH show ?case
    by (fastforce simp: lc_forget_def lc_refuse_def Let_def split: prod.splits sum.splits if_splits)
qed simp

lemma queue_of_sweep:
  assumes "lc_sweep del refs now (self, s) = (report, self', s')"
  shows "lc_logical self' = lc_logical (lc_promote refs now self)" "lc_delay_ms self' = lc_delay_ms self"
    "set (lc_queue self') \<subseteq> set (lc_queue self) \<union> set (due_keys refs now self)"
proof -
  let ?p = "lc_promote refs now self"
  define batch where "batch = take (min (length (lc_queue ?p)) DELETE_BATCH_KEYS) (lc_queue ?p)"
  define rest where "rest = drop (min (length (lc_queue ?p)) DELETE_BATCH_KEYS) (lc_queue ?p)"
  have sub: "set (lc_queue ?p) = set batch \<union> set rest"
    unfolding batch_def rest_def by (metis append_take_drop_id set_append)
  have "lc_logical self' = lc_logical ?p \<and> lc_delay_ms self' = lc_delay_ms ?p \<and> set (lc_queue self') \<subseteq> set batch \<union> set rest"
    using assms unfolding lc_sweep_def Let_def prod.case batch_def [symmetric] rest_def [symmetric]
    by (auto simp: forget_all dest!: sweep_each_logical split: if_splits prod.splits sum.splits)
  then show "lc_logical self' = lc_logical ?p" "lc_delay_ms self' = lc_delay_ms self"
    "set (lc_queue self') \<subseteq> set (lc_queue self) \<union> set (due_keys refs now self)"
    using sub by (auto simp: promote_eq)
qed

context object_deleter
begin

lemma sweep_each_held:
  "sweep_each del (self, report, s) ks = (self', report', s') \<Longrightarrow> held s - set ks \<subseteq> held s' \<and> held s' \<subseteq> held s"
proof (induction ks arbitrary: self report s)
  case (Cons k ks)
  obtain r s1 where d: "del s [k] = (r, s1)" by fastforce
  with Cons.prems obtain self1 report1 where "sweep_each del (self1, report1, s1) ks = (self', report', s')"
    by (auto split: prod.splits sum.splits)
  from Cons.IH [OF this] only_those [OF d] show ?case by auto
qed simp

lemma sweep_held:
  assumes "lc_sweep del refs now (self, s) = (report, self', s')"
  shows "held s - (set (lc_queue self) \<union> set (due_keys refs now self)) \<subseteq> held s'" "held s' \<subseteq> held s"
proof -
  let ?p = "lc_promote refs now self"
  let ?batch = "take (min (length (lc_queue ?p)) DELETE_BATCH_KEYS) (lc_queue ?p)"
  have "set ?batch \<subseteq> set (lc_queue self) \<union> set (due_keys refs now self)"
    using set_take_subset by (force simp: promote_eq)
  moreover have "held s - set ?batch \<subseteq> held s' \<and> held s' \<subseteq> held s"
    using assms by (auto simp: lc_sweep_def Let_def split: if_splits prod.splits sum.splits dest!: only_those sweep_each_held)
  ultimately show "held s - (set (lc_queue self) \<union> set (due_keys refs now self)) \<subseteq> held s'" "held s' \<subseteq> held s" by auto
qed

end

section \<open>Histories\<close>

text \<open>An object is released, a sweep runs with what the index says at its time, or another task changes
  the store.\<close>

datatype 's lc_event = Released object_key | Swept "object_key \<Rightarrow> nat" timestamp | Elsewhere "'s \<Rightarrow> 's"

fun lc_step :: "'s deleter \<Rightarrow> lifecycle \<times> 's \<Rightarrow> 's lc_event \<Rightarrow> lifecycle \<times> 's" where
  "lc_step del (self, s) (Released key) = (lc_release self key, s)"
| "lc_step del st (Swept refs now) = snd (lc_sweep del refs now st)"
| "lc_step del (self, s) (Elsewhere f) = (self, f s)"

definition lc_run :: "'s deleter \<Rightarrow> lifecycle \<times> 's \<Rightarrow> 's lc_event list \<Rightarrow> lifecycle \<times> 's" where
  "lc_run del = foldl (lc_step del)"

fun quiet :: "object_key \<Rightarrow> 's lc_event \<Rightarrow> bool" where
  "quiet key (Swept refs _) \<longleftrightarrow> refs key = 0"
| "quiet key _ \<longleftrightarrow> True"

definition watched :: "object_key \<Rightarrow> timestamp \<Rightarrow> 's lc_event list \<Rightarrow> bool" where
  "watched key t h \<longleftrightarrow>
     (\<exists>h1 refs h2. h = h1 @ Swept refs t # h2 \<and> Released key \<in> set h1 \<and> list_all (quiet key) (Swept refs t # h2))"

definition waited :: "int \<Rightarrow> object_key \<Rightarrow> 's lc_event list \<Rightarrow> bool" where
  "waited delay key h \<longleftrightarrow>
     (\<exists>h1 refs t h2 refs' t' h3. h = h1 @ Swept refs t # h2 @ Swept refs' t' # h3 \<and> Released key \<in> set h1 \<and>
        list_all (quiet key) (Swept refs t # h2 @ [Swept refs' t']) \<and> delay \<le> sat_i64 (t' - t))"

lemma watched_later: "watched key t h \<Longrightarrow> quiet key e \<Longrightarrow> watched key t (h @ [e])"
proof -
  assume "watched key t h" "quiet key e"
  then obtain h1 refs h2 where "h = h1 @ Swept refs t # h2" "Released key \<in> set h1" "list_all (quiet key) (Swept refs t # h2)"
    by (auto simp: watched_def)
  with \<open>quiet key e\<close> show ?thesis
    unfolding watched_def by (intro exI [of _ h1] exI [of _ refs] exI [of _ "h2 @ [e]"]) simp
qed

lemma waited_later: "waited delay key h \<Longrightarrow> waited delay key (h @ [e])"
  unfolding waited_def by (metis append.assoc append_Cons)

lemma watched_waited:
  assumes "watched key t h" "refs' key = 0" "delay \<le> sat_i64 (t' - t)"
  shows "waited delay key (h @ [Swept refs' t'])"
proof -
  from assms(1) obtain h1 refs h2 where "h = h1 @ Swept refs t # h2" "Released key \<in> set h1"
    "list_all (quiet key) (Swept refs t # h2)" by (auto simp: watched_def)
  with assms(2,3) show ?thesis
    unfolding waited_def by (intro exI [of _ h1] exI [of _ refs] exI [of _ t] exI [of _ h2] exI [of _ refs'] exI [of _ t'] exI [of _ "[]"]) simp
qed

definition accounted :: "int \<Rightarrow> 's lc_event list \<Rightarrow> lifecycle \<Rightarrow> bool" where
  "accounted delay h self \<longleftrightarrow>
     lc_delay_ms self = delay \<and>
     (\<forall>(key, zero_since)\<in>set (lc_logical self). Released key \<in> set h \<and>
        (case zero_since of None \<Rightarrow> True | Some t \<Rightarrow> watched key t h)) \<and>
     (\<forall>key\<in>set (lc_queue self). waited delay key h)"

lemma accounted_sweep:
  assumes "accounted delay h self" "lc_sweep del refs now (self, s) = (report, self', s')"
  shows "accounted delay (h @ [Swept refs now]) self'"
    "\<forall>key\<in>set (due_keys refs now self). waited delay key (h @ [Swept refs now])"
proof -
  note q = queue_of_sweep [OF assms(2)]
  show due: "\<forall>key\<in>set (due_keys refs now self). waited delay key (h @ [Swept refs now])"
    using assms(1) by (force simp: set_due_keys accounted_def intro: watched_waited)
  have "Released key \<in> set h \<and> (case z of None \<Rightarrow> True | Some t \<Rightarrow> watched key t (h @ [Swept refs now]))"
    if "(key, z) \<in> set (lc_logical self')" for key z
  proof -
    from that obtain z0 where z0: "(key, z0) \<in> set (lc_logical self)" "(key, z) = look refs now (key, z0)"
      by (auto simp: q(1) promote_eq) (metis fst_conv fst_look surj_pair)
    then have rel: "Released key \<in> set h" and w: "case z0 of None \<Rightarrow> True | Some t \<Rightarrow> watched key t h"
      using assms(1) by (auto simp: accounted_def)
    have "watched key now (h @ [Swept refs now])" if "refs key = 0"
      using rel that unfolding watched_def by (intro exI [of _ h] exI [of _ refs] exI [of _ "[]"]) simp
    with rel w z0(2) show ?thesis by (auto simp: look_def split: if_splits option.splits intro: watched_later)
  qed
  moreover have "waited delay key (h @ [Swept refs now])" if "key \<in> set (lc_queue self')" for key
  proof -
    have "waited delay k h" if "k \<in> set (lc_queue self)" for k using that assms(1) by (simp add: accounted_def)
    with that q(3) due show ?thesis by (blast intro: waited_later)
  qed
  ultimately show "accounted delay (h @ [Swept refs now]) self'"
    using assms(1) q(2) by (auto simp: accounted_def)
qed

lemma accounted_step:
  assumes "accounted delay h self" "lc_step del (self, s) e = (self', s')"
  shows "accounted delay (h @ [e]) self'"
proof (cases e)
  case (Swept refs now)
  with assms accounted_sweep(1) show ?thesis by (cases "lc_sweep del refs now (self, s)") auto
next
  case (Released key)
  have "accounted delay (h @ [Released key]) self"
    using assms(1) watched_later [of _ _ h "Released key"] waited_later [of _ _ h "Released key"]
    by (fastforce simp: accounted_def split: option.splits)
  moreover have "self' = self \<or> self' = self\<lparr>lc_logical := lc_logical self @ [(key, None)]\<rparr>"
    using Released assms(2) by (auto simp: lc_release_def split: option.splits)
  ultimately show ?thesis using Released by (elim disjE) (simp_all add: accounted_def ball_Un)
next
  case (Elsewhere f)
  with assms watched_later [of _ _ h "Elsewhere f"] waited_later [of _ _ h "Elsewhere f"] show ?thesis
    by (fastforce simp: accounted_def split: option.splits)
qed

lemma accounted_run:
  assumes "lifecycle_new delay terms = Inr lc" "lc_run del (lc, s) h = (self, s')"
  shows "accounted delay h self"
  using assms(2)
proof (induction h arbitrary: self s' rule: rev_induct)
  case Nil
  with assms(1) show ?case by (auto simp: lc_run_def accounted_def lifecycle_new_def bindR_Inr_iff)
next
  case (snoc e h)
  obtain self1 s1 where "lc_run del (lc, s) h = (self1, s1)" by fastforce
  with snoc accounted_step show ?case by (simp add: lc_run_def)
qed

section \<open>Deleted late enough\<close>

lemma sat_ge: "i64_min < delay \<Longrightarrow> delay \<le> sat_i64 d \<Longrightarrow> delay \<le> d"
  by (auto simp: sat_i64_def max_def min_def split: if_splits)

lemma new_delay:
  assumes "lifecycle_new delay terms = Inr lc"
  shows "gc_bound terms < delay" "i64_min < delay"
  using assms by (auto simp: lifecycle_new_def gc_check_def gc_bound_def sat_i64_def bindR_Inr_iff Let_def split: if_splits)

text \<open>C16. An object is deleted only when nobody can still be reading it.  Whatever was released, whatever the index said
  at each sweep, whatever the store refused and other tasks did to it: when a sweep makes an object go away,
  the object had been released before a sweep that saw it without references, every sweep from that one to a
  second one saw it without references too, and the two are apart by the deletion delay and by more than
  the sum of metadata staleness, fetch duration and clock skew.\<close>

theorem deleted_only_after_the_delay:
  assumes "object_deleter held del" "lifecycle_new delay terms = Inr lc"
    and "lc_run del (lc, s) h = (self, s1)" "lc_sweep del refs now (self, s1) = (report, self', s2)"
    and "key \<in> held s1" "key \<notin> held s2"
  shows "\<exists>h1 refs1 t1 h2 refs2 t2 h3. h @ [Swept refs now] = h1 @ Swept refs1 t1 # h2 @ Swept refs2 t2 # h3 \<and>
    Released key \<in> set h1 \<and> list_all (quiet key) (Swept refs1 t1 # h2 @ [Swept refs2 t2]) \<and>
    delay \<le> t2 - t1 \<and> gc_bound terms < t2 - t1"
proof -
  have "accounted delay h self" by (rule accounted_run [OF assms(2,3)])
  note acc = this accounted_sweep(2) [OF this assms(4)]
  have "key \<in> set (lc_queue self) \<union> set (due_keys refs now self)"
    using object_deleter.sweep_held(1) [OF assms(1,4)] assms(5,6) by blast
  with acc have "waited delay key (h @ [Swept refs now])"
    by (auto simp: accounted_def intro: waited_later)
  then obtain h1 refs1 t1 h2 refs2 t2 h3
    where w: "h @ [Swept refs now] = h1 @ Swept refs1 t1 # h2 @ Swept refs2 t2 # h3" "Released key \<in> set h1"
      "list_all (quiet key) (Swept refs1 t1 # h2 @ [Swept refs2 t2])" "delay \<le> sat_i64 (t2 - t1)"
    unfolding waited_def by blast
  moreover have "delay \<le> t2 - t1" by (rule sat_ge [OF new_delay(2) [OF assms(2)] w(4)])
  ultimately show ?thesis using new_delay(1) [OF assms(2)] by fastforce
qed

theorem deleted_only_after_the_delay_witness:
  "\<exists>lc self s1 report self' s2. lifecycle_new 600000 gc_configured = Inr lc \<and>
     lc_run fake_delete (lc, [''o'' \<mapsto> \<lparr>ks_payload = Some [1], ks_generation = 1\<rparr>], [])
       [Released ''o'', Swept (\<lambda>_. 0) 100] = (self, s1) \<and>
     lc_sweep fake_delete (\<lambda>_. 0) 600100 (self, s1) = (report, self', s2) \<and> ''o'' \<in> stored_keys s1 \<and> ''o'' \<notin> stored_keys s2 \<and>
     (\<exists>h1 refs1 t1 h2 refs2 t2 h3.
        [Released ''o'', Swept (\<lambda>_. 0) 100, Swept (\<lambda>_. 0) 600100] =
          (h1 :: (store \<times> error option list) lc_event list) @ Swept refs1 t1 # h2 @ Swept refs2 t2 # h3 \<and> 600000 \<le> t2 - t1)"
proof -
  let ?o = "''o''" and ?z = "\<lambda>_ :: object_key. 0 :: nat"
  let ?lc = "\<lparr>lc_delay_ms = 600000, lc_logical = [], lc_queue = [], lc_leaving = {}, lc_refusals = Map.empty, lc_quarantined = []\<rparr>"
  let ?s = "([?o \<mapsto> \<lparr>ks_payload = Some [1], ks_generation = 1\<rparr>], []) :: store \<times> error option list"
  let ?self = "?lc\<lparr>lc_logical := [(?o, Some 100)]\<rparr>"
  have new: "lifecycle_new 600000 gc_configured = Inr ?lc"
    by (simp add: lifecycle_new_def gc_check_def gc_bound_def gc_configured_def sat_i64_def MAX_IN_FLIGHT_FETCH_MS_def
        MAX_CLOCK_SKEW_MS_def MAX_METADATA_STALENESS_MS_def)
  have run: "lc_run fake_delete (?lc, ?s) [Released ?o, Swept ?z 100] = (?self, ?s)"
    by (simp add: lc_run_def lc_release_def lc_sweep_def lc_promote_def is_due_def look_def DELETE_BATCH_KEYS_def)
  let ?s2 = "([?o \<mapsto> \<lparr>ks_payload = None, ks_generation = 1\<rparr>], []) :: store \<times> error option list"
  have sweep: "lc_sweep fake_delete ?z 600100 (?self, ?s) =
      (\<lparr>sw_deleted = 1, sw_refused = 0, sw_quarantined = []\<rparr>, ?lc, ?s2)"
    by (simp add: lc_sweep_def lc_promote_def is_due_def look_def DELETE_BATCH_KEYS_def sat_i64_def lc_enqueue_def lc_forget_def
        store_delete_def fun_eq_iff)
  have held: "?o \<in> stored_keys ?s" "?o \<notin> stored_keys ?s2" by (simp_all add: payload_at_def)
  from deleted_only_after_the_delay [OF fake_delete.object_deleter_axioms new run sweep held] new run sweep held
  show ?thesis by fastforce
qed

section \<open>Nothing is forgotten\<close>

definition tracked :: "lifecycle \<Rightarrow> object_key set" where
  "tracked self = fst ` set (lc_logical self) \<union> set (lc_queue self) \<union> set (lc_quarantined self)"

text \<open>With the keys \<open>pending\<close> taken off the queue and not yet answered for.\<close>

definition lc_sound :: "object_key list \<Rightarrow> lifecycle \<Rightarrow> bool" where
  "lc_sound pending self \<longleftrightarrow>
     distinct (map fst (lc_logical self) @ pending @ lc_queue self @ lc_quarantined self) \<and>
     lc_leaving self = set pending \<union> set (lc_queue self) \<union> set (lc_quarantined self) \<and>
     (\<forall>key n. lc_refusals self key = Some n \<longrightarrow> key \<in> set pending \<union> set (lc_queue self) \<and> n < QUARANTINE_AFTER_REFUSALS)"

lemma lc_soundD:
  assumes "lc_sound pending self"
  shows "distinct (map fst (lc_logical self))" "fst ` set (lc_logical self) \<inter> lc_leaving self = {}"
  using assms by (auto simp: lc_sound_def)

lemma sound_release:
  assumes "lc_sound [] self"
  shows "lc_sound [] (lc_release self key)"
  using assms by (auto simp: lc_release_def lc_sound_def map_of_eq_None_iff split: option.splits)

lemma sound_promote:
  assumes "lc_sound [] self"
  shows "lc_sound [] (lc_promote refs now self)" "tracked (lc_promote refs now self) = tracked self"
proof -
  let ?due = "due_keys refs now self"
  have due: "set ?due \<subseteq> fst ` set (lc_logical self)" by (force simp: set_due_keys)
  have "distinct ?due" using lc_soundD(1) [OF assms]
    by (simp add: due_keys_def distinct_map_filter)
  moreover have "map fst (lc_logical (lc_promote refs now self)) = filter (\<lambda>k. k \<notin> set ?due) (map fst (lc_logical self))"
    by (simp add: promote_eq filter_map o_def case_prod_beta)
  ultimately show "lc_sound [] (lc_promote refs now self)"
    using assms due unfolding lc_sound_def by (auto simp: promote_eq [of refs now self])
  show "tracked (lc_promote refs now self) = tracked self"
    using due keys_promote [of refs now self] by (auto simp: tracked_def) (auto simp: promote_eq)
qed

lemma sound_forget_all: "lc_sound (ks @ pending) self \<Longrightarrow> lc_sound pending (foldl lc_forget self ks)"
  by (auto simp: forget_all lc_sound_def split: if_splits)

lemma sound_refuse:
  assumes "lc_sound (key # pending) self" "lc_refuse (self, report) key = (self', report')"
  shows "lc_sound pending self'" "tracked self' = insert key (tracked self)" "sw_deleted report' = sw_deleted report"
    "sw_refused report' = sw_refused report + 1"
    "\<exists>new. lc_quarantined self' = lc_quarantined self @ new \<and> sw_quarantined report' = sw_quarantined report @ new"
proof -
  define n where "n = (case lc_refusals self key of Some n \<Rightarrow> n | None \<Rightarrow> 0) + 1"
  have "self' = (if n \<ge> QUARANTINE_AFTER_REFUSALS
      then self\<lparr>lc_refusals := (lc_refusals self)(key := None), lc_quarantined := lc_quarantined self @ [key]\<rparr>
      else self\<lparr>lc_refusals := (lc_refusals self)(key \<mapsto> n), lc_queue := lc_queue self @ [key]\<rparr>)"
    using assms(2) by (simp add: lc_refuse_def Let_def n_def split: if_splits)
  then consider "self' = self\<lparr>lc_refusals := (lc_refusals self)(key := None), lc_quarantined := lc_quarantined self @ [key]\<rparr>"
    | "self' = self\<lparr>lc_refusals := (lc_refusals self)(key \<mapsto> n), lc_queue := lc_queue self @ [key]\<rparr>" "n < QUARANTINE_AFTER_REFUSALS"
    by (metis not_le)
  then show "lc_sound pending self'"
    using assms(1) unfolding lc_sound_def by cases (simp_all, blast+)
qed (use assms(2) in \<open>auto simp: lc_refuse_def tracked_def Let_def split: if_splits\<close>)

context object_deleter
begin

lemma sound_sweep_each:
  assumes "sweep_each del (self, report, s) ks = (self', report', s')" "lc_sound ks self"
  shows "lc_sound [] self' \<and> tracked self \<subseteq> tracked self' \<and> set ks \<inter> held s' \<subseteq> tracked self' \<and>
    sw_deleted report' + sw_refused report' = sw_deleted report + sw_refused report + length ks \<and>
    (\<exists>new. lc_quarantined self' = lc_quarantined self @ new \<and> sw_quarantined report' = sw_quarantined report @ new)"
  using assms
proof (induction ks arbitrary: self report s)
  case (Cons k ks)
  obtain r s1 where d: "del s [k] = (r, s1)" by fastforce
  show ?case
  proof (cases r)
    case (Inr u)
    with Cons.prems(1) d have run: "sweep_each del (lc_forget self k, report\<lparr>sw_deleted := sw_deleted report + 1\<rparr>, s1) ks = (self', report', s')"
      by simp
    have "lc_sound ks (lc_forget self k)" using sound_forget_all [of "[k]" ks self] Cons.prems(2) by simp
    note ih = Cons.IH [OF run this]
    have "k \<notin> held s'" using sweep_each_held [OF run] deleted [of s "[k]" s1] d Inr by auto
    with ih show ?thesis by (auto simp: lc_forget_def tracked_def)
  next
    case (Inl e)
    obtain self1 report1 where ref: "lc_refuse (self, report) k = (self1, report1)" by fastforce
    with Cons.prems(1) d Inl have run: "sweep_each del (self1, report1, s1) ks = (self', report', s')" by simp
    note one = sound_refuse [OF Cons.prems(2) ref]
    from Cons.IH [OF run one(1)] one show ?thesis by auto
  qed
qed (auto simp: tracked_def)

lemma sound_sweep:
  assumes "lc_sweep del refs now (self, s) = (report, self', s')" "lc_sound [] self"
  shows "lc_sound [] self' \<and> tracked self \<inter> held s' \<subseteq> tracked self' \<and>
    sw_deleted report + sw_refused report = min (length (lc_queue (lc_promote refs now self))) DELETE_BATCH_KEYS \<and>
    lc_quarantined self' = lc_quarantined self @ sw_quarantined report"
proof -
  let ?p = "lc_promote refs now self"
  let ?n = "min (length (lc_queue ?p)) DELETE_BATCH_KEYS"
  define batch where "batch = take ?n (lc_queue ?p)"
  define rest where "rest = drop ?n (lc_queue ?p)"
  let ?q = "?p\<lparr>lc_queue := rest\<rparr>"
  have q: "lc_queue ?p = batch @ rest" by (simp add: batch_def rest_def)
  have len: "length batch = ?n" by (simp add: batch_def)
  from sound_promote [OF assms(2), of refs now]
  have p: "lc_sound batch ?q" "tracked self = tracked ?q \<union> set batch" "lc_quarantined ?q = lc_quarantined self"
    by (auto simp: lc_sound_def tracked_def q) (simp_all add: promote_eq)
  note run = assms(1) [unfolded lc_sweep_def Let_def prod.case, folded batch_def rest_def]
  show ?thesis
  proof (cases "batch = []")
    case True
    with run p len show ?thesis by auto
  next
    case False
    obtain r s1 where d: "del s batch = (r, s1)" by fastforce
    show ?thesis
    proof (cases r)
      case (Inr u)
      with run False d have e: "self' = foldl lc_forget ?q batch" "s' = s1" "report = \<lparr>sw_deleted = length batch, sw_refused = 0, sw_quarantined = []\<rparr>"
        by auto
      have "tracked self' = tracked ?q" by (simp add: e(1) forget_all tracked_def)
      moreover have "held s' \<inter> set batch = {}" using deleted d Inr e(2) by auto
      ultimately show ?thesis using sound_forget_all [of batch "[]" ?q] p e len by (auto simp: forget_all)
    next
      case (Inl err)
      with run False d obtain report0 where e: "sweep_each del (?q, \<lparr>sw_deleted = 0, sw_refused = 0, sw_quarantined = []\<rparr>, s1) batch = (self', report0, s')" "report = report0"
        by (auto split: prod.splits)
      from sound_sweep_each [OF e(1) p(1)] e(2) p len show ?thesis by auto
    qed
  qed
qed

lemma sound_run:
  assumes "lifecycle_new delay terms = Inr lc" "lc_run del (lc, s) h = (self, s')"
  shows "lc_sound [] self"
  using assms(2)
proof (induction h arbitrary: self s' rule: rev_induct)
  case Nil
  with assms(1) show ?case by (auto simp: lc_run_def lc_sound_def lifecycle_new_def bindR_Inr_iff)
next
  case (snoc e h)
  obtain self1 s1 where st: "lc_run del (lc, s) h = (self1, s1)" by fastforce
  from snoc.IH [OF this] have s1: "lc_sound [] self1" .
  from st snoc.prems have "lc_step del (self1, s1) e = (self, s')" by (simp add: lc_run_def)
  with s1 sound_release sound_sweep show ?case
    by (cases e; cases "lc_sweep del (case e of Swept refs _ \<Rightarrow> refs) (case e of Swept _ now \<Rightarrow> now) (self1, s1)") auto
qed

end



section \<open>Everything is deleted in the end\<close>

definition sweeps :: "'s deleter \<Rightarrow> lifecycle \<times> 's \<Rightarrow> ((object_key \<Rightarrow> nat) \<times> timestamp) list \<Rightarrow> lifecycle \<times> 's" where
  "sweeps del st ws = foldl (\<lambda>st (refs, now). snd (lc_sweep del refs now st)) st ws"

lemma sweeps_simps [simp]:
  "sweeps del st [] = st"
  "sweeps del st ((refs, now) # ws) = sweeps del (snd (lc_sweep del refs now st)) ws"
  "sweeps del st (ws @ vs) = sweeps del (sweeps del st ws) vs"
  by (simp_all add: sweeps_def)

text \<open>When the store deletes what it is told to, a sweep takes its batch off the front of the queue.\<close>

lemma sweep_working:
  assumes "\<And>s keys. fst (del s keys) = Inr ()" "lc_sweep del refs now (self, s) = (report, self', s')"
  shows "lc_queue self' = drop DELETE_BATCH_KEYS (lc_queue self @ due_keys refs now self)"
    "lc_logical self' = filter (\<lambda>(k, _). k \<notin> set (due_keys refs now self)) (map (look refs now) (lc_logical self))"
    "take DELETE_BATCH_KEYS (lc_queue self @ due_keys refs now self) \<noteq> [] \<Longrightarrow>
       del s (take DELETE_BATCH_KEYS (lc_queue self @ due_keys refs now self)) = (Inr (), s')"
proof -
  let ?q = "lc_queue self @ due_keys refs now self"
  have q: "lc_queue (lc_promote refs now self) = ?q" by (simp add: promote_eq)
  have n: "take (min (length xs) DELETE_BATCH_KEYS) xs = take DELETE_BATCH_KEYS xs"
    "drop (min (length xs) DELETE_BATCH_KEYS) xs = drop DELETE_BATCH_KEYS xs" for xs :: "object_key list"
    by (auto simp: min_def)
  obtain s1 where d: "del s (take DELETE_BATCH_KEYS ?q) = (Inr (), s1)"
    using assms(1) [of s "take DELETE_BATCH_KEYS ?q"] by (metis prod.collapse)
  note run = assms(2) [unfolded lc_sweep_def Let_def prod.case q n]
  have "lc_queue self' = drop DELETE_BATCH_KEYS ?q \<and> lc_logical self' = lc_logical (lc_promote refs now self) \<and>
      (take DELETE_BATCH_KEYS ?q \<noteq> [] \<longrightarrow> s' = s1)"
    using run d by (auto simp: forget_all split: if_splits)
  then show "lc_queue self' = drop DELETE_BATCH_KEYS ?q"
    "lc_logical self' = filter (\<lambda>(k, _). k \<notin> set (due_keys refs now self)) (map (look refs now) (lc_logical self))"
    "take DELETE_BATCH_KEYS ?q \<noteq> [] \<Longrightarrow> del s (take DELETE_BATCH_KEYS ?q) = (Inr (), s')"
    using d by (simp_all add: promote_eq)
qed

lemma length_filter_mono: "(\<And>x. x \<in> set xs \<Longrightarrow> P x \<Longrightarrow> Q x) \<Longrightarrow> length (filter P xs) \<le> length (filter Q xs)"
  by (induction xs) (simp_all add: le_SucI)

lemma promote_backlog: "lc_backlog (lc_promote refs now self) \<le> lc_backlog self"
proof -
  have "length (filter (\<lambda>(k, _). k \<notin> set (map fst (filter P al))) (map (look refs now) al)) + length (filter P al) \<le> length al"
    for P and al :: "(object_key \<times> timestamp option) list"
  proof -
    have "length (filter (\<lambda>(k, _). k \<notin> set (map fst (filter P al))) (map (look refs now) al)) \<le> length (filter (\<lambda>e. \<not> P e) al)"
      unfolding filter_map length_map
      by (rule length_filter_mono) (auto simp: case_prod_beta image_iff)
    with sum_length_filter_compl [of P al] show ?thesis by linarith
  qed
  from this [of "is_due refs now (lc_delay_ms self)" "lc_logical self"]
  show ?thesis by (simp add: promote_eq lc_backlog_def due_keys_def)
qed

context object_deleter
begin

lemma sweeps_held: "held (snd (sweeps del st ws)) \<subseteq> held (snd st)"
proof (induction ws arbitrary: st)
  case (Cons w ws)
  obtain refs now self s where [simp]: "w = (refs, now)" "st = (self, s)" by fastforce
  obtain report self' s' where "lc_sweep del refs now (self, s) = (report, self', s')" by (metis prod_cases3)
  with sweep_held(2) Cons.IH show ?case by fastforce
qed simp

lemma sweep_front:
  assumes "\<And>s keys. fst (del s keys) = Inr ()" "lc_sweep del refs now (self, s) = (report, self', s')"
    and "key \<in> set (take (DELETE_BATCH_KEYS + m) (lc_queue self @ due_keys refs now self))"
  shows "key \<notin> held s' \<or> key \<in> set (take m (lc_queue self'))"
proof -
  let ?q = "lc_queue self @ due_keys refs now self"
  note w = sweep_working [OF assms(1,2)]
  consider "key \<in> set (take DELETE_BATCH_KEYS ?q)" | "key \<in> set (take m (drop DELETE_BATCH_KEYS ?q))"
    using assms(3) unfolding take_add by auto
  then show ?thesis
  proof cases
    case 1
    then have "take DELETE_BATCH_KEYS ?q \<noteq> []" by (metis empty_iff empty_set)
    from deleted [OF w(3) [OF this]] 1 show ?thesis by simp
  qed (simp add: w(1))
qed

lemma queue_goes:
  assumes "\<And>s keys. fst (del s keys) = Inr ()" "key \<notin> held s \<or> key \<in> set (take (DELETE_BATCH_KEYS * length ws) (lc_queue self))"
  shows "key \<notin> held (snd (sweeps del (self, s) ws))"
  using assms(2)
proof (induction ws arbitrary: self s)
  case (Cons w ws)
  obtain refs now where [simp]: "w = (refs, now)" by fastforce
  obtain report self' s' where run: "lc_sweep del refs now (self, s) = (report, self', s')" by (metis prod_cases3)
  let ?m = "DELETE_BATCH_KEYS * length ws"
  have "set (take (DELETE_BATCH_KEYS + ?m) (lc_queue self)) \<subseteq> set (take (DELETE_BATCH_KEYS + ?m) (lc_queue self @ due_keys refs now self))"
    by simp
  with Cons.prems have "key \<notin> held s \<or> key \<in> set (take (DELETE_BATCH_KEYS + ?m) (lc_queue self @ due_keys refs now self))"
    by auto
  then have "key \<notin> held s' \<or> key \<in> set (take ?m (lc_queue self'))"
    using sweep_front [OF assms(1) run, of key ?m] sweep_held(2) [OF run] by blast
  from Cons.IH [OF this] run show ?case by simp
qed simp

lemma sweep_backlog:
  assumes "\<And>s keys. fst (del s keys) = Inr ()" "lc_sweep del refs now (self, s) = (report, self', s')"
  shows "lc_backlog self' \<le> lc_backlog self"
  using sweep_working(1,2) [OF assms] promote_backlog [of refs now self]
  by (simp add: lc_backlog_def promote_eq)

text \<open>Still to come: out of the store already, queued, or waiting since \<open>t0\<close> or before.\<close>

definition coming :: "object_key \<Rightarrow> timestamp \<Rightarrow> lifecycle \<times> 's \<Rightarrow> bool" where
  "coming key t0 st \<longleftrightarrow> key \<notin> held (snd st) \<or> key \<in> set (lc_queue (fst st)) \<or> (key, Some t0) \<in> set (lc_logical (fst st))"

lemma coming_sweep:
  assumes "\<And>s keys. fst (del s keys) = Inr ()" "lc_sweep del refs now (self, s) = (report, self', s')" "refs key = 0"
    and "coming key t0 (self, s)"
  shows "coming key t0 (self', s')"
proof -
  note w = sweep_working [OF assms(1,2)]
  have "key \<notin> held s' \<or> key \<in> set (lc_queue self')" if "key \<in> set (lc_queue self @ due_keys refs now self)"
    using sweep_front [OF assms(1,2), of key "length (lc_queue self @ due_keys refs now self)"] that
    by (auto dest: in_set_takeD)
  moreover have "(key, Some t0) \<in> set (lc_logical self')"
    if "(key, Some t0) \<in> set (lc_logical self)" "key \<notin> set (due_keys refs now self)"
    using that assms(3) by (force simp: w(2) look_def)
  ultimately show ?thesis using assms(4) sweep_held(2) [OF assms(2)] by (auto simp: coming_def)
qed

lemma coming_sweeps:
  assumes "\<And>s keys. fst (del s keys) = Inr ()" "list_all (\<lambda>(refs, _). refs key = 0) ws" "coming key t0 (self, s)"
  shows "coming key t0 (sweeps del (self, s) ws) \<and> lc_backlog (fst (sweeps del (self, s) ws)) \<le> lc_backlog self"
  using assms(2,3)
proof (induction ws arbitrary: self s)
  case (Cons w ws)
  obtain refs now where [simp]: "w = (refs, now)" by fastforce
  obtain report self' s' where run: "lc_sweep del refs now (self, s) = (report, self', s')" by (metis prod_cases3)
  have "coming key t0 (self', s')" using coming_sweep [OF assms(1) run] Cons.prems by simp
  with Cons.IH [of self' s'] sweep_backlog [OF assms(1) run] run Cons.prems(1) show ?case by simp
qed simp

lemma sweeps_delay: "lc_delay_ms (fst (sweeps del (self, s) ws)) = lc_delay_ms self"
proof (induction ws arbitrary: self s)
  case (Cons w ws)
  obtain refs now where [simp]: "w = (refs, now)" by fastforce
  obtain report self' s' where "lc_sweep del refs now (self, s) = (report, self', s')" by (metis prod_cases3)
  with queue_of_sweep(2) Cons.IH show ?case by fastforce
qed simp

text \<open>The sweep that finds the delay over deletes the object or leaves it in a queue the later ones empty.\<close>

lemma gone_after_the_delay:
  assumes "\<And>s keys. fst (del s keys) = Inr ()" "coming key t0 (self, s)" "refs key = 0"
    and "lc_delay_ms self \<le> sat_i64 (now - t0)" "lc_backlog self \<le> DELETE_BATCH_KEYS * (length ws + 1)"
  shows "key \<notin> held (snd (sweeps del (self, s) ((refs, now) # ws)))"
proof -
  obtain report self' s' where run: "lc_sweep del refs now (self, s) = (report, self', s')" by (metis prod_cases3)
  let ?q = "lc_queue self @ due_keys refs now self"
  have "length ?q \<le> lc_backlog (lc_promote refs now self)" by (simp add: lc_backlog_def promote_eq)
  then have len: "length ?q \<le> DELETE_BATCH_KEYS + DELETE_BATCH_KEYS * length ws"
    using promote_backlog [of refs now self] assms(5) by simp
  have "key \<notin> held s \<or> key \<in> set ?q"
    using assms(2-4) by (auto simp: coming_def set_due_keys)
  then have "key \<notin> held s' \<or> key \<in> set (take (DELETE_BATCH_KEYS * length ws) (lc_queue self'))"
    using sweep_front [OF assms(1) run, of key "DELETE_BATCH_KEYS * length ws"] len sweep_held(2) [OF run] by auto
  from queue_goes [OF assms(1) this] run show ?thesis by simp
qed

lemma gone_in_the_end:
  assumes "\<And>s keys. fst (del s keys) = Inr ()" "(key, None) \<in> set (lc_logical self)"
    and "list_all (\<lambda>(refs, _). refs key = 0) ((refs0, t0) # mid @ (refs1, t1) # later)"
    and "lc_delay_ms self \<le> sat_i64 (t1 - t0)" "lc_backlog self \<le> DELETE_BATCH_KEYS * (length later + 1)"
  shows "key \<notin> held (snd (sweeps del (self, s) ((refs0, t0) # mid @ (refs1, t1) # later)))"
proof -
  obtain report self1 s1 where run: "lc_sweep del refs0 t0 (self, s) = (report, self1, s1)" by (metis prod_cases3)
  have "key \<in> set (due_keys refs0 t0 self) \<or> (key, Some t0) \<in> set (lc_logical self1)"
    using assms(2,3) by (force simp: sweep_working(2) [OF assms(1) run] look_def)
  then have "coming key t0 (self1, s1)"
    using sweep_front [OF assms(1) run, of key "length (lc_queue self @ due_keys refs0 t0 self)"]
    by (auto simp: coming_def dest: in_set_takeD)
  note mid = coming_sweeps [OF assms(1) _ this, of mid]
  obtain self2 s2 where s2: "sweeps del (self1, s1) mid = (self2, s2)" by fastforce
  have "lc_delay_ms self2 = lc_delay_ms self" using sweeps_delay [of self1 s1 mid] s2 queue_of_sweep(2) [OF run] by simp
  with mid s2 assms sweep_backlog [OF assms(1) run]
  have "key \<notin> held (snd (sweeps del (self2, s2) ((refs1, t1) # later)))"
    by (intro gone_after_the_delay [of key t0]) simp_all
  with run s2 show ?thesis by simp
qed

end

text \<open>C18. An object nobody names is deleted.  When the store does what it is told, an object that was just released and
  that no sweep sees referenced is gone after a first sweep, one at least the deletion delay later, and as
  many more as the backlog needs at a thousand keys each, whatever other objects the sweeps delete first.\<close>

theorem released_object_is_deleted:
  assumes "object_deleter held del" "\<And>s keys. fst (del s keys) = Inr ()"
    and "(key, None) \<in> set (lc_logical self)" "lc_delay_ms self \<le> i64_max"
    and "list_all (\<lambda>(refs, _). refs key = 0) ((refs0, t0) # mid @ (refs1, t1) # later)"
    and "lc_delay_ms self \<le> t1 - t0" "lc_backlog self \<le> DELETE_BATCH_KEYS * (length later + 1)"
  shows "key \<notin> held (snd (sweeps del (self, s) ((refs0, t0) # mid @ (refs1, t1) # later)))"
  by (rule object_deleter.gone_in_the_end [OF assms(1,2,3,5) _ assms(7)]) (use assms(4,6) in \<open>simp add: sat_i64_def\<close>)

theorem released_object_is_deleted_witness:
  "''o'' \<notin> stored_keys (snd (sweeps (\<lambda>(slots, u) keys. (Inr (), store_delete slots keys, u))
     (\<lparr>lc_delay_ms = 600000, lc_logical = [(''o'', None)], lc_queue = [''p''], lc_leaving = {''p''}, lc_refusals = Map.empty,
       lc_quarantined = []\<rparr>, [''o'' \<mapsto> \<lparr>ks_payload = Some [1], ks_generation = 1\<rparr>], ())
     ((\<lambda>_. 0, 100) # [(\<lambda>_. 0, 30100)] @ (\<lambda>_. 0, 600100) # [])))"
proof (rule released_object_is_deleted)
  show "object_deleter stored_keys (\<lambda>(slots, u) keys. (Inr (), store_delete slots keys, u))"
    by unfold_locales (auto simp: payload_delete split: if_splits prod.splits)
qed (simp_all add: lc_backlog_def DELETE_BATCH_KEYS_def split: prod.splits)

end
