(* ===== verification/Retention.thy ===== *)
theory Retention
  imports Index_Fetch Coordinator_Replay Expiry_Heap Deletion_Safety
begin

text \<open>
  The retention task of the broker (\<open>oqueue-broker/src/retention.rs\<close>): it follows the metadata log with an
  index of its own, arms the expiry heap, trims what is overdue through the coordinator, releases the objects
  the trims dropped and sweeps the ones whose time is over.  What the task talks to is the record \<open>outside\<close>,
  over one state of the world: the log, the topic catalog, the coordinator and the store.
\<close>

section \<open>The task\<close>

record retention =
  rt_index :: index_state
  rt_heap :: expiry_heap
  rt_lifecycle :: lifecycle
  rt_reconciliation_cursor :: "topic_id option"
  rt_synced :: bool

record 'w outside =
  out_read_from :: "'w \<Rightarrow> commit_version \<Rightarrow> nat \<Rightarrow> metadata_entry list result"
  out_topic_retention_ms :: "'w \<Rightarrow> topic_id \<Rightarrow> int option result"
  out_trim :: "'w \<Rightarrow> topic_id \<Rightarrow> partition_id \<Rightarrow> offset \<Rightarrow> (coordinator_error + commit_version) \<times> 'w"
  out_delete :: "'w deleter"

definition CONFIG_RECONCILIATION_BATCH :: nat where
  "CONFIG_RECONCILIATION_BATCH = 64"

definition retention_new :: "index_state \<Rightarrow> retention result" where
  "retention_new index =
     bindR (lifecycle_new DELETION_DELAY_MS gc_configured) (\<lambda>lifecycle.
       Inr \<lparr>rt_index = index_clear index, rt_heap = heap_new DEFAULT_RETENTION_MS, rt_lifecycle = lifecycle,
            rt_reconciliation_cursor = None, rt_synced = False\<rparr>)"

definition apply_override :: "(topic_id \<Rightarrow> int option result) \<Rightarrow> index_state \<Rightarrow> expiry_heap \<Rightarrow> topic_id \<Rightarrow> expiry_heap" where
  "apply_override catalog index heap topic =
     (case catalog topic of Inr retention_ms \<Rightarrow> heap_set_topic_retention index heap topic retention_ms | Inl _ \<Rightarrow> heap)"

definition rt_arm :: "(topic_id \<Rightarrow> int option result) \<Rightarrow> index_state \<Rightarrow> expiry_heap \<Rightarrow> metadata_entry \<Rightarrow> expiry_heap" where
  "rt_arm catalog index heap entry =
     (case me_record entry of
        BatchCommitted _ spans _ \<Rightarrow>
          foldl (\<lambda>heap span. heap_track index (apply_override catalog index heap (cs_topic span)) (cs_key span)) heap spans
      | TopicRetentionChanged topic _ \<Rightarrow> apply_override catalog index heap topic
      | _ \<Rightarrow> heap)"

partial_function (option) rt_rebuild_loop ::
  "(commit_version \<Rightarrow> nat \<Rightarrow> metadata_entry list result) \<Rightarrow> (topic_id \<Rightarrow> int option result) \<Rightarrow> retention \<Rightarrow> commit_version \<Rightarrow>
     retention option"
where
  "rt_rebuild_loop read_from catalog self start =
     (case read_from start REBUILD_PAGE_ENTRIES of
        Inl _ \<Rightarrow> Some (self\<lparr>rt_index := index_clear (rt_index self)\<rparr>)
      | Inr page \<Rightarrow>
          if page = [] then Some (self\<lparr>rt_synced := True\<rparr>)
          else
            (case version_advance (me_version (last page)) 1 of
               Inl _ \<Rightarrow> Some (self\<lparr>rt_index := index_clear (rt_index self)\<rparr>)
             | Inr after \<Rightarrow>
                 (case index_apply (rt_index self) page of
                    Inl _ \<Rightarrow> Some (self\<lparr>rt_index := index_clear (rt_index self)\<rparr>)
                  | Inr index \<Rightarrow>
                      rt_rebuild_loop read_from catalog
                        (self\<lparr>rt_index := index, rt_heap := foldl (rt_arm catalog index) (rt_heap self) page\<rparr>) after)))"

definition rt_rebuild :: "'w outside \<Rightarrow> 'w \<Rightarrow> retention \<Rightarrow> retention option" where
  "rt_rebuild out w self =
     rt_rebuild_loop (out_read_from out w) (out_topic_retention_ms out w)
       (self\<lparr>rt_synced := False, rt_index := index_clear (rt_index self), rt_heap := heap_new DEFAULT_RETENTION_MS\<rparr>) 0"

definition rt_fold :: "'w outside \<Rightarrow> 'w \<Rightarrow> retention \<Rightarrow> metadata_entry \<Rightarrow> retention option" where
  "rt_fold out w self entry =
     (if (case ix_applied (rt_index self) of Some applied \<Rightarrow> me_version entry \<le> applied | None \<Rightarrow> False) then Some self
      else case index_apply (rt_index self) [entry] of
             Inl _ \<Rightarrow> rt_rebuild out w self
           | Inr index \<Rightarrow>
               Some (self\<lparr>rt_index := index, rt_heap := rt_arm (out_topic_retention_ms out w) index (rt_heap self) entry\<rparr>))"

definition rt_reconcile :: "'w outside \<Rightarrow> 'w \<Rightarrow> retention \<Rightarrow> retention" where
  "rt_reconcile out w self =
     (let topics = heap_topics_after (rt_heap self) (rt_reconciliation_cursor self) CONFIG_RECONCILIATION_BATCH
      in if topics = [] then self\<lparr>rt_reconciliation_cursor := None\<rparr>
         else self\<lparr>rt_heap := foldl (apply_override (out_topic_retention_ms out w) (rt_index self)) (rt_heap self) topics,
                   rt_reconciliation_cursor := Some (last topics)\<rparr>)"

section \<open>The objects below an offset\<close>

text \<open>The loop over one page: whether it returned, and the dropped objects and the cursor.\<close>

fun below_page :: "offset \<Rightarrow> indexed_batch list \<Rightarrow> object_key list \<Rightarrow> offset \<Rightarrow> bool \<times> object_key list \<times> offset" where
  "below_page start [] dropped cursor = (False, dropped, cursor)"
| "below_page start (batch # page) dropped cursor =
     (case ref_end_offset (batch_reference batch) of
        Inl _ \<Rightarrow> (True, dropped, cursor)
      | Inr end \<Rightarrow>
          if end > start then (True, dropped, cursor)
          else below_page start page (dropped @ [or_object (batch_reference batch)]) end)"

lemma below_page_advances:
  assumes "below_page start page dropped cursor = (False, dropped', cursor')" "page \<noteq> []"
    and "\<And>b. b \<in> set page \<Longrightarrow> \<exists>e. ref_end_offset (batch_reference b) = Inr e \<and> low < e"
  shows "low < cursor' \<and> cursor' \<le> start"
  using assms
proof (induction page arbitrary: dropped cursor)
  case (Cons b page)
  from Cons.prems(3) [of b] obtain e where e: "ref_end_offset (batch_reference b) = Inr e" "low < e" by auto
  show ?case
  proof (cases page)
    case Nil
    with Cons.prems(1) e show ?thesis by (auto split: if_splits)
  next
    case (Cons c cs)
    with Cons.IH Cons.prems e show ?thesis by (auto split: if_splits)
  qed
qed simp

function below_loop :: "index_state \<Rightarrow> pkey \<Rightarrow> offset \<Rightarrow> object_key list \<Rightarrow> offset \<Rightarrow> object_key list" where
  "below_loop index key start dropped cursor =
     (if cursor < start then
        (case find_batches index key cursor u64_max of
           Inl _ \<Rightarrow> dropped
         | Inr page \<Rightarrow>
             if page = [] then dropped
             else case below_page start page dropped cursor of
                    (True, dropped', _) \<Rightarrow> dropped'
                  | (False, dropped', cursor') \<Rightarrow> below_loop index key start dropped' cursor')
      else dropped)"
  by pat_completeness auto
termination
proof (relation "measure (\<lambda>(_, _, start, _, cursor). nat (start - cursor))", goal_cases)
  case (2 index key start dropped cursor page finished found dropped' cursor')
  then have "below_page start page dropped cursor = (False, dropped', cursor')" by simp
  from below_page_advances [OF this 2(3)] find_batches_ends [OF 2(2)] have "cursor < cursor'" by metis
  with 2 show ?case by auto
qed simp

declare below_loop.simps [simp del]

definition rt_below :: "index_state \<Rightarrow> pkey \<Rightarrow> offset \<Rightarrow> object_key list" where
  "rt_below index key start = below_loop index key start [] (index_log_start index key)"

section \<open>A round\<close>

fun rt_trims :: "'w outside \<Rightarrow> metadata_record list \<Rightarrow> retention \<times> 'w \<Rightarrow> bool \<times> retention \<times> 'w" where
  "rt_trims out [] (self, w) = (True, self, w)"
| "rt_trims out (Trimmed topic part start # trims) (self, w) =
     (let dropped = rt_below (rt_index self) (topic, part) start
      in case out_trim out w topic part start of
           (Inr _, w) \<Rightarrow>
             rt_trims out trims (self\<lparr>rt_lifecycle := foldl lc_release (rt_lifecycle self) dropped\<rparr>, w)
         | (Inl Unavailable, w) \<Rightarrow> (False, self, w)
         | (Inl _, w) \<Rightarrow> rt_trims out trims (self\<lparr>rt_heap := heap_track (rt_index self) (rt_heap self) (topic, part)\<rparr>, w))"
| "rt_trims out (_ # trims) st = rt_trims out trims st"

definition rt_serve :: "'w outside \<Rightarrow> timestamp \<Rightarrow> retention \<times> 'w \<Rightarrow> bool \<times> retention \<times> 'w" where
  "rt_serve out now st =
     (case st of (self, w) \<Rightarrow>
        let self = rt_reconcile out w self;
            (running, self, w) =
              (if lc_admits (rt_lifecycle self)
               then case heap_due (rt_index self) now (rt_heap self) of
                      (trims, heap) \<Rightarrow> rt_trims out trims (self\<lparr>rt_heap := heap\<rparr>, w)
               else (True, self, w))
        in if \<not> running then (False, self, w)
           else case lc_sweep (out_delete out) (index_references (rt_index self)) now (rt_lifecycle self, w) of
                  (_, lifecycle, w) \<Rightarrow> (True, self\<lparr>rt_lifecycle := lifecycle\<rparr>, w))"

definition rt_round :: "'w outside \<Rightarrow> timestamp \<Rightarrow> retention \<times> 'w \<Rightarrow> (bool \<times> retention \<times> 'w) option" where
  "rt_round out now st =
     (case st of (self, w) \<Rightarrow>
        (case (if rt_synced self then Some self else rt_rebuild out w self) of
           None \<Rightarrow> None
         | Some self \<Rightarrow> if \<not> rt_synced self then Some (True, self, w) else Some (rt_serve out now (self, w))))"

end
