(* ===== verification/Retention_Safety.thy ===== *)
theory Retention_Safety
  imports Retention "HOL-Library.Code_Target_Nat"
begin

text \<open>
  What the retention task does to the objects of the store, whatever it is told and whatever fails: the
  objects it releases are those its trims dropped, and the ones it deletes had no name in its index for the
  whole deletion delay.  A rebuild ends, and a task that says it is in step is.
\<close>

section \<open>What is below an offset\<close>

text \<open>The entries of a run in which the ends ascend, up to a bound.\<close>

definition ends_upto :: "offset \<Rightarrow> indexed_batch list \<Rightarrow> object_key list" where
  "ends_upto start bs = map (or_object \<circ> batch_reference) (filter (\<lambda>b. or_end (batch_reference b) \<le> start) bs)"

lemma ends_upto_simps [simp]:
  "ends_upto start [] = []" "ends_upto start (bs @ cs) = ends_upto start bs @ ends_upto start cs"
  by (simp_all add: ends_upto_def)

lemma below_page_eq:
  assumes "sorted (map (or_end \<circ> batch_reference) bs)"
    and "\<forall>b\<in>set bs. ref_end_offset (batch_reference b) = Inr (or_end (batch_reference b))"
  shows "below_page start bs dropped cursor =
    (list_ex (\<lambda>b. start < or_end (batch_reference b)) bs, dropped @ ends_upto start bs,
     if ends_upto start bs = [] then cursor else or_end (batch_reference (last (filter (\<lambda>b. or_end (batch_reference b) \<le> start) bs))))"
  using assms
proof (induction bs arbitrary: dropped cursor)
  case (Cons b bs)
  show ?case
  proof (cases "start < or_end (batch_reference b)")
    case True
    then have "filter (\<lambda>b. or_end (batch_reference b) \<le> start) bs = []"
      using Cons.prems(1) by (auto simp: filter_empty_conv)
    with True Cons.prems show ?thesis by (simp add: ends_upto_def)
  next
    case False
    with Cons show ?thesis by (auto simp: ends_upto_def)
  qed
qed (simp add: ends_upto_def)

lemma wanted_ends:
  assumes "part_inv p"
  shows "sorted (map (or_end \<circ> batch_reference) (wanted cursor p))"
    "\<forall>b\<in>set (wanted cursor p). ref_end_offset (batch_reference b) = Inr (or_end (batch_reference b)) \<and> cursor < or_end (batch_reference b)"
proof -
  from assms obtain a where a: "dense a (part_entries p) (pi_end p)" by (rule part_invE)
  have "sorted (map or_end rs)" if "dense c rs e" for c rs e
    using that
  proof (induction rs arbitrary: c)
    case (Cons r rs)
    then have d: "dense (or_end r) rs e" by auto
    from dense_bounds(1,2) [OF d] Cons.IH [OF d] show ?case by fastforce
  qed simp
  from this [OF a] have "sorted (map or_end (part_entries p))" .
  then have "sorted (map or_end (filter (\<lambda>r. cursor < or_end r) (part_entries p)))" by (rule sorted_filter)
  then show "sorted (map (or_end \<circ> batch_reference) (wanted cursor p))"
    by (simp flip: wanted_refs)
  show "\<forall>b\<in>set (wanted cursor p). ref_end_offset (batch_reference b) = Inr (or_end (batch_reference b)) \<and> cursor < or_end (batch_reference b)"
    using part_end_ok(1) [OF assms] by (auto simp: wanted_def part_batches_refs [symmetric])
qed

lemma below_loop_eq:
  assumes "index_reach q s" "ix_partitions s key = Some p" "pi_log_start p \<le> cursor"
  shows "below_loop s key start dropped cursor = dropped @ ends_upto start (wanted cursor p)"
  using assms(3)
proof (induction "nat (start - cursor)" arbitrary: dropped cursor rule: less_induct)
  case less
  note ends = wanted_ends [OF index_reach_part [OF assms(1,2)], of cursor]
  show ?case
  proof (cases "cursor < start")
    case False
    then have "ends_upto start (wanted cursor p) = []" using ends(2) by (fastforce simp: ends_upto_def filter_empty_conv)
    with False show ?thesis by (simp add: below_loop.simps)
  next
    case True
    obtain page where page: "find_batches s key cursor u64_max = Inr page"
      using find_batches_reach [OF assms(1,2) less.prems] by auto
    show ?thesis
    proof (cases "page = []")
      case True
      with find_batches_prefix [OF assms(1,2) less.prems page] have "wanted cursor p = []" by (metis append_Nil)
      with True page \<open>cursor < start\<close> show ?thesis by (simp add: below_loop.simps)
    next
      case False
      let ?e = "or_end (batch_reference (last page))"
      have resume: "wanted cursor p = page @ wanted ?e p"
        by (rule fetch_resumes_where_it_stopped [OF assms(1,2) less.prems page False])
      have sorted: "sorted (map (or_end \<circ> batch_reference) page)"
        and ok: "\<forall>b\<in>set page. ref_end_offset (batch_reference b) = Inr (or_end (batch_reference b))"
        using ends resume by (simp_all add: sorted_append)
      note eq = below_page_eq [OF sorted ok, of start dropped cursor]
      have gt: "cursor < ?e" using ends(2) resume False by auto
      show ?thesis
      proof (cases "list_ex (\<lambda>b. start < or_end (batch_reference b)) page")
        case True
        then obtain b where b: "b \<in> set page" "start < or_end (batch_reference b)" by (auto simp: list_ex_iff)
        have "start < or_end (batch_reference c)" if "c \<in> set (wanted ?e p)" for c
          using b ends(1) that unfolding resume by (fastforce simp: sorted_append)
        then have "ends_upto start (wanted ?e p) = []" by (fastforce simp: ends_upto_def filter_empty_conv)
        with True eq page False \<open>cursor < start\<close> resume show ?thesis by (simp add: below_loop.simps)
      next
        case none: False
        then have all: "filter (\<lambda>b. or_end (batch_reference b) \<le> start) page = page" by (auto simp: list_ex_iff filter_id_conv)
        with none eq False have "below_page start page dropped cursor = (False, dropped @ ends_upto start page, ?e)"
          by (simp add: ends_upto_def)
        with page False \<open>cursor < start\<close>
        have "below_loop s key start dropped cursor = below_loop s key start (dropped @ ends_upto start page) ?e"
          by (simp add: below_loop.simps [of s key start dropped cursor])
        also have "\<dots> = (dropped @ ends_upto start page) @ ends_upto start (wanted ?e p)"
          using less.hyps [of ?e] gt True less.prems by auto
        finally show ?thesis unfolding resume by simp
      qed
    qed
  qed
qed

text \<open>The objects a trim releases are those it drops.  For any index the log can produce, the walk ends and returns, in
  order, the object of every entry of the partition that lies between the log start and the new start, so an
  object the trim drops is never left out and one it keeps a part of is never released for it.\<close>

lemma released_is_what_the_trim_drops:
  assumes "index_reach q s" "ix_partitions s key = Some p"
  shows "rt_below s key start =
    map or_object (filter (\<lambda>r. pi_log_start p < or_end r \<and> or_end r \<le> start) (part_entries p))"
proof -
  have "rt_below s key start = ends_upto start (wanted (pi_log_start p) p)"
    using below_loop_eq [OF assms order_refl] assms(2) by (simp add: rt_below_def index_log_start_def)
  also have "\<dots> = map or_object (filter (\<lambda>r. or_end r \<le> start) (map batch_reference (wanted (pi_log_start p) p)))"
    by (simp add: ends_upto_def filter_map o_def)
  finally show ?thesis unfolding wanted_refs by (simp add: conj_commute cong: conj_cong)
qed


section \<open>The lifecycle inside the task\<close>

lemma run_append: "lc_run del st (xs @ ys) = lc_run del (lc_run del st xs) ys"
  by (simp add: lc_run_def)

lemma run_releases: "lc_run del (self, w) (map Released ks) = (foldl lc_release self ks, w)"
  by (induction ks arbitrary: self) (simp_all add: lc_run_def)

text \<open>What happens to the lifecycle and the world before the sweep of a round.\<close>

definition before_sweep :: "'w outside \<Rightarrow> 'w lc_event \<Rightarrow> bool" where
  "before_sweep out e \<longleftrightarrow>
     (case e of
        Swept _ _ \<Rightarrow> False
      | Released _ \<Rightarrow> True
      | Elsewhere f \<Rightarrow> \<exists>topic part start. f = (\<lambda>w. snd (out_trim out w topic part start)))"

text \<open>One trim of the round, as events of the lifecycle.\<close>

definition rt_trim_one :: "'w outside \<Rightarrow> topic_id \<Rightarrow> partition_id \<Rightarrow> offset \<Rightarrow> retention \<times> 'w \<Rightarrow> bool \<times> retention \<times> 'w" where
  "rt_trim_one out topic part start st = rt_trims out [Trimmed topic part start] st"

lemma rt_trims_Cons:
  "rt_trims out (Trimmed topic part start # trims) st =
     (case rt_trim_one out topic part start st of (running, st') \<Rightarrow> if running then rt_trims out trims st' else (False, st'))"
  by (cases st) (auto simp: rt_trim_one_def Let_def split: prod.splits sum.splits coordinator_error.splits)

lemma rt_trim_one_run:
  assumes "rt_trim_one out topic part start (self, w) = (running, self', w')"
  shows "rt_index self' = rt_index self \<and> rt_synced self' = rt_synced self \<and>
    (\<exists>es. list_all (before_sweep out) es \<and> lc_run (out_delete out) (rt_lifecycle self, w) es = (rt_lifecycle self', w'))"
proof -
  let ?else = "Elsewhere (\<lambda>w. snd (out_trim out w topic part start))"
  obtain r w1 where t: "out_trim out w topic part start = (r, w1)" by fastforce
  let ?ks = "case r of Inr _ \<Rightarrow> rt_below (rt_index self) (topic, part) start | Inl _ \<Rightarrow> []"
  have "rt_index self' = rt_index self \<and> rt_synced self' = rt_synced self \<and> w' = w1 \<and>
      rt_lifecycle self' = foldl lc_release (rt_lifecycle self) ?ks"
    using assms t by (auto simp: rt_trim_one_def split: sum.splits coordinator_error.splits)
  moreover have "lc_run (out_delete out) (rt_lifecycle self, w) (?else # map Released ?ks) =
      (foldl lc_release (rt_lifecycle self) ?ks, w1)"
    using t run_releases [of "out_delete out" "rt_lifecycle self" w1 ?ks] by (simp add: lc_run_def)
  moreover have "list_all (before_sweep out) (?else # map Released ?ks)" by (auto simp: before_sweep_def list_all_iff)
  ultimately show ?thesis by (intro conjI exI [of _ "?else # map Released ?ks"]) simp_all
qed

lemma rt_trims_run:
  assumes "rt_trims out trims (self, w) = (running, self', w')"
  shows "rt_index self' = rt_index self \<and> rt_synced self' = rt_synced self \<and>
    (\<exists>es. list_all (before_sweep out) es \<and> lc_run (out_delete out) (rt_lifecycle self, w) es = (rt_lifecycle self', w'))"
  using assms
proof (induction trims arbitrary: self w)
  case Nil
  then show ?case by (auto simp: lc_run_def intro: exI [of _ "[]"])
next
  case (Cons rec trims)
  show ?case
  proof (cases "\<exists>topic part start. rec = Trimmed topic part start")
    case False
    then have "rt_trims out (rec # trims) (self, w) = rt_trims out trims (self, w)" by (cases rec) auto
    with Cons show ?thesis by simp
  next
    case True
    then obtain topic part start where [simp]: "rec = Trimmed topic part start" by blast
    obtain on mid w1 where one: "rt_trim_one out topic part start (self, w) = (on, mid, w1)" by (metis prod_cases3)
    from rt_trim_one_run [OF one] obtain es where es: "list_all (before_sweep out) es" "rt_index mid = rt_index self" "rt_synced mid = rt_synced self"
      "lc_run (out_delete out) (rt_lifecycle self, w) es = (rt_lifecycle mid, w1)" by blast
    show ?thesis
    proof (cases on)
      case False
      with Cons.prems one es show ?thesis by (auto simp: rt_trims_Cons)
    next
      case True
      with Cons.prems one have "rt_trims out trims (mid, w1) = (running, self', w')" by (simp add: rt_trims_Cons)
      from Cons.IH [OF this] obtain fs where "list_all (before_sweep out) fs" "rt_index self' = rt_index mid" "rt_synced self' = rt_synced mid"
        "lc_run (out_delete out) (rt_lifecycle mid, w1) fs = (rt_lifecycle self', w')" by blast
      with es show ?thesis by (intro conjI exI [of _ "es @ fs"]) (simp_all add: run_append)
    qed
  qed
qed

text \<open>A round is some releases, and a sweep with the task's own index when it ran to its end.\<close>

lemma rt_serve_run:
  assumes "rt_serve out now (self, w) = (running, self', w')"
  shows "rt_index self' = rt_index self \<and> rt_synced self' = rt_synced self \<and>
    (\<exists>es mid w1. list_all (before_sweep out) es \<and> lc_run (out_delete out) (rt_lifecycle self, w) es = (mid, w1) \<and>
       (if running then snd (lc_sweep (out_delete out) (index_references (rt_index self)) now (mid, w1)) = (rt_lifecycle self', w')
        else (mid, w1) = (rt_lifecycle self', w')))"
proof -
  let ?r = "rt_reconcile out w self"
  have rec: "rt_index ?r = rt_index self" "rt_synced ?r = rt_synced self" "rt_lifecycle ?r = rt_lifecycle self"
    by (simp_all add: rt_reconcile_def Let_def)
  obtain on mid w1 where mid: "(if lc_admits (rt_lifecycle ?r)
      then case heap_due (rt_index ?r) now (rt_heap ?r) of (trims, heap) \<Rightarrow> rt_trims out trims (?r\<lparr>rt_heap := heap\<rparr>, w)
      else (True, ?r, w)) = (on, mid, w1)" by (metis prod_cases3)
  have "rt_index mid = rt_index self \<and> rt_synced mid = rt_synced self \<and>
      (\<exists>es. list_all (before_sweep out) es \<and> lc_run (out_delete out) (rt_lifecycle self, w) es = (rt_lifecycle mid, w1))"
  proof (cases "lc_admits (rt_lifecycle ?r)")
    case True
    obtain trims heap where "heap_due (rt_index ?r) now (rt_heap ?r) = (trims, heap)" by fastforce
    with True mid have "rt_trims out trims (?r\<lparr>rt_heap := heap\<rparr>, w) = (on, mid, w1)" by simp
    from rt_trims_run [OF this] rec show ?thesis by simp
  next
    case False
    with mid rec show ?thesis by (auto simp: lc_run_def intro!: exI [of _ "[]"])
  qed
  then obtain es where es: "rt_index mid = rt_index self" "rt_synced mid = rt_synced self" "list_all (before_sweep out) es"
    "lc_run (out_delete out) (rt_lifecycle self, w) es = (rt_lifecycle mid, w1)" by blast
  from assms mid es show ?thesis
    by (auto simp: rt_serve_def Let_def split: prod.splits if_splits intro!: exI [of _ es])
qed

section \<open>Histories of the task\<close>

text \<open>The rounds that swept, with the index and the time of each.\<close>

inductive rt_reaches :: "'w outside \<Rightarrow> (index_state \<times> timestamp) list \<Rightarrow> retention \<times> 'w \<Rightarrow> bool" for out where
  started: "index_reach None index \<Longrightarrow> retention_new index = Inr self \<Longrightarrow> rt_reaches out [] (self, w)"
| folded: "rt_reaches out rounds (self, w) \<Longrightarrow> rt_fold out w self entry = Some self' \<Longrightarrow> rt_reaches out rounds (self', w)"
| lagged: "rt_reaches out rounds (self, w) \<Longrightarrow> rt_rebuild out w self = Some self' \<Longrightarrow> rt_reaches out rounds (self', w)"
| ticked: "rt_reaches out rounds (self, w) \<Longrightarrow> rt_round out now (self, w) = Some (running, self', w') \<Longrightarrow>
    rt_reaches out (rounds @ (if running \<and> rt_synced self' then [(rt_index self', now)] else [])) (self', w')"
| others: "rt_reaches out rounds (self, w) \<Longrightarrow> rt_reaches out rounds (self, f w)"

definition sweeps_in :: "'w lc_event list \<Rightarrow> ((object_key \<Rightarrow> nat) \<times> timestamp) list" where
  "sweeps_in h = concat (map (\<lambda>e. case e of Swept refs now \<Rightarrow> [(refs, now)] | _ \<Rightarrow> []) h)"

lemma sweeps_in_simps [simp]:
  "sweeps_in [] = []" "sweeps_in (h @ h') = sweeps_in h @ sweeps_in h'" "sweeps_in (Swept refs now # h) = (refs, now) # sweeps_in h"
  by (simp_all add: sweeps_in_def)

lemma sweeps_in_none: "list_all (before_sweep out) es \<Longrightarrow> sweeps_in es = []"
  by (induction es) (auto simp: sweeps_in_def before_sweep_def split: lc_event.splits)

lemma quiet_sweeps: "list_all (quiet key) h \<longleftrightarrow> list_all (\<lambda>(refs, _). refs key = 0) (sweeps_in h)"
proof (induction h)
  case (Cons e h)
  then show ?case by (cases e) (simp_all add: sweeps_in_def)
qed simp

definition explains :: "'w lc_event list \<Rightarrow> (index_state \<times> timestamp) list \<Rightarrow> retention \<Rightarrow> bool" where
  "explains h rounds self \<longleftrightarrow>
     accounted DELETION_DELAY_MS h (rt_lifecycle self) \<and> sweeps_in h = map (\<lambda>(index, now). (index_references index, now)) rounds"

text \<open>What holds of the task at every moment: its index is one the log can produce, and a history of its
  lifecycle has exactly the rounds' sweeps.\<close>

definition rt_sound :: "(index_state \<times> timestamp) list \<Rightarrow> retention \<Rightarrow> 'w itself \<Rightarrow> bool" where
  "rt_sound rounds self _ \<longleftrightarrow>
     index_reach None (rt_index self) \<and> list_all (\<lambda>(index, _). index_reach None index) rounds \<and>
     (\<exists>h :: 'w lc_event list. explains h rounds self)"

lemma rebuild_loop_index:
  assumes "rt_rebuild_loop read_from catalog self start = Some self'" "index_reach None (rt_index self)"
  shows "index_reach None (rt_index self') \<and> rt_lifecycle self' = rt_lifecycle self"
proof -
  let ?P = "\<lambda>self self'. index_reach None (rt_index self) \<longrightarrow> index_reach None (rt_index self') \<and> rt_lifecycle self' = rt_lifecycle self"
  have "?P self self'"
  proof (rule rt_rebuild_loop.raw_induct [where P = "\<lambda>_ _ self _ self'. ?P self self'", OF _ assms(1)], goal_cases)
    case (1 f read_from catalog self start self')
    from 1(2) 1(1) [of read_from catalog _ _ self'] show ?case
      by (auto split: sum.splits if_splits dest: index_reach.folded intro: index_reach.cleared)
  qed
  with assms(2) show ?thesis by simp
qed

lemma rebuild_index:
  assumes "rt_rebuild out w self = Some self'" "index_reach None (rt_index self)"
  shows "index_reach None (rt_index self')" "rt_lifecycle self' = rt_lifecycle self"
  using rebuild_loop_index [OF assms(1) [unfolded rt_rebuild_def]] assms(2) by (simp_all add: index_reach.cleared)

lemma accounted_more:
  assumes "accounted delay h self" "lc_run del (self, w) es = (self', w')"
  shows "accounted delay (h @ es) self'"
  using assms
proof (induction es arbitrary: h self w)
  case (Cons e es)
  obtain mid w1 where mid: "lc_step del (self, w) e = (mid, w1)" by fastforce
  from Cons.IH [OF accounted_step [OF Cons.prems(1) mid], of w1] Cons.prems(2) mid show ?case by (simp add: lc_run_def)
qed (simp add: lc_run_def)

text \<open>One round, seen from the lifecycle's history.\<close>

lemma rt_round_history:
  fixes out :: "'w outside"
  assumes "rt_round out now (self, w) = Some (running, self', w')" "index_reach None (rt_index self)"
    and "explains (h :: 'w lc_event list) rounds self"
  shows "index_reach None (rt_index self') \<and>
    (\<exists>h mid w1. accounted DELETION_DELAY_MS (h :: 'w lc_event list) mid \<and>
       sweeps_in h = map (\<lambda>(index, now). (index_references index, now)) rounds \<and>
       (\<exists>es. list_all (before_sweep out) es \<and> lc_run (out_delete out) (rt_lifecycle self, w) es = (mid, w1)) \<and>
       (if running \<and> rt_synced self'
        then snd (lc_sweep (out_delete out) (index_references (rt_index self')) now (mid, w1)) = (rt_lifecycle self', w')
        else (mid, w1) = (rt_lifecycle self', w')))"
proof -
  obtain s1 where s1: "(if rt_synced self then Some self else rt_rebuild out w self) = Some s1"
    using assms(1) by (auto simp: rt_round_def split: option.splits)
  have reach: "index_reach None (rt_index s1)" and lc: "rt_lifecycle s1 = rt_lifecycle self"
    using s1 assms(2) rebuild_index [of out w self s1] by (auto split: if_splits)
  have acc: "accounted DELETION_DELAY_MS h (rt_lifecycle self)"
    and swept: "sweeps_in h = map (\<lambda>(index, now). (index_references index, now)) rounds"
    using assms(3) by (simp_all add: explains_def)
  show ?thesis
  proof (cases "rt_synced s1")
    case False
    with assms(1) s1 have "running" "self' = s1" "w' = w" by (auto simp: rt_round_def)
    with False reach lc acc swept show ?thesis
      by (intro conjI exI [of _ h] exI [of _ "rt_lifecycle self"] exI [of _ w] exI [of _ "[]"]) (simp_all add: lc_run_def)
  next
    case True
    with assms(1) s1 have "rt_serve out now (s1, w) = (running, self', w')" by (auto simp: rt_round_def)
    from rt_serve_run [OF this] lc obtain es mid w1
      where r: "rt_index self' = rt_index s1" "rt_synced self' = rt_synced s1" "list_all (before_sweep out) es"
        "lc_run (out_delete out) (rt_lifecycle self, w) es = (mid, w1)"
        "if running then snd (lc_sweep (out_delete out) (index_references (rt_index s1)) now (mid, w1)) = (rt_lifecycle self', w')
         else (mid, w1) = (rt_lifecycle self', w')" by auto
    from accounted_more [OF acc r(4)] sweeps_in_none [OF r(3)] swept r reach True show ?thesis
      by (intro conjI exI [of _ "h @ es"] exI [of _ mid] exI [of _ w1] exI [of _ es]) simp_all
  qed
qed

lemma accounted_new: "lifecycle_new delay terms = Inr lc \<Longrightarrow> accounted delay [] lc"
  by (auto simp: accounted_def lifecycle_new_def bindR_Inr_iff)

lemma reaches_sound:
  fixes out :: "'w outside"
  assumes "rt_reaches out rounds st"
  shows "index_reach None (rt_index (fst st)) \<and> list_all (\<lambda>(index, _). index_reach None index) rounds \<and>
    (\<exists>h :: 'w lc_event list. explains h rounds (fst st))"
  using assms
proof (induction rule: rt_reaches.induct)
  case (started index self w)
  then have "rt_index self = index_clear index" "lifecycle_new DELETION_DELAY_MS gc_configured = Inr (rt_lifecycle self)"
    by (auto simp: retention_new_def bindR_Inr_iff)
  moreover from this(2) have "accounted DELETION_DELAY_MS ([] :: 'w lc_event list) (rt_lifecycle self)"
    by (rule accounted_new)
  ultimately show ?case using started(1) index_reach.cleared by (auto simp: explains_def intro!: exI [of _ "[]"])
next
  case (folded rounds self w entry self')
  then have "index_reach None (rt_index self') \<and> rt_lifecycle self' = rt_lifecycle self"
    using rebuild_index [of out w self self']
    by (auto simp: rt_fold_def split: if_splits sum.splits option.splits intro: index_reach.folded)
  with folded.IH show ?case by (auto simp: explains_def)
next
  case (lagged rounds self w self')
  with rebuild_index [of out w self self'] show ?case by (auto simp: explains_def)
next
  case (ticked rounds self w now running self' w')
  from ticked.IH obtain h :: "'w lc_event list" where h: "explains h rounds self" by auto
  from rt_round_history [OF ticked(2) _ h] ticked.IH obtain h1 :: "'w lc_event list" and mid w1
    where r: "index_reach None (rt_index self')" "accounted DELETION_DELAY_MS h1 mid"
      "sweeps_in h1 = map (\<lambda>(index, now). (index_references index, now)) rounds"
      "if running \<and> rt_synced self'
        then snd (lc_sweep (out_delete out) (index_references (rt_index self')) now (mid, w1)) = (rt_lifecycle self', w')
        else (mid, w1) = (rt_lifecycle self', w')" by auto
  show ?case
  proof (cases "running \<and> rt_synced self'")
    case True
    with r(4) obtain report where "lc_sweep (out_delete out) (index_references (rt_index self')) now (mid, w1) = (report, rt_lifecycle self', w')"
      by (metis prod.collapse)
    from accounted_sweep(1) [OF r(2) this] r(1,3) ticked.IH True show ?thesis
      by (auto simp: explains_def intro!: exI [of _ "h1 @ [Swept (index_references (rt_index self')) now]"])
  next
    case False
    with r ticked.IH show ?thesis by (auto simp: explains_def)
  qed
qed simp

definition names_object :: "index_state \<Rightarrow> object_key \<Rightarrow> bool" where
  "names_object index object \<longleftrightarrow>
     (\<exists>key p. ix_partitions index key = Some p \<and> object \<in> or_object ` set (part_entries p))"

lemma unreferenced_unnamed: "index_reach None index \<Longrightarrow> index_references index object = 0 \<Longrightarrow> \<not> names_object index object"
  unfolding names_object_def using unreferenced_object_is_unnamed [of None index object] by blast

lemma split_rounds:
  assumes "map f rounds = s1 @ x # s2 @ y # s3"
  obtains r1 a r2 b r3 where "rounds = r1 @ a # r2 @ b # r3" "f a = x" "map f r2 = s2" "f b = y"
proof -
  have one: "\<exists>r1 a rest. rs = r1 @ a # rest \<and> f a = x \<and> map f r1 = s1 \<and> map f rest = s2" if "map f rs = s1 @ x # s2" for rs x s1 s2
  proof -
    from that obtain r1 r where "rs = r1 @ r" "map f r1 = s1" "map f r = x # s2" by (metis map_eq_append_conv)
    moreover from this(3) obtain a rest where "r = a # rest" "f a = x" "map f rest = s2" by (cases r) auto
    ultimately show ?thesis by blast
  qed
  from one [OF assms] obtain r1 a rest where "rounds = r1 @ a # rest" "f a = x" and rest: "map f rest = s2 @ y # s3" by blast
  moreover from one [OF rest] obtain r2 b r3 where "rest = r2 @ b # r3" "map f r2 = s2" "f b = y" by blast
  ultimately show thesis using that by blast
qed

lemma waited_rounds:
  assumes "waited delay key h" "i64_min < delay" "list_all (\<lambda>(index, _). index_reach None index) rounds"
    and "sweeps_in h = map (\<lambda>(index, now). (index_references index, now)) rounds"
  shows "\<exists>r1 i1 t1 r2 i2 t2 r3. rounds = r1 @ (i1, t1) # r2 @ (i2, t2) # r3 \<and> delay \<le> t2 - t1 \<and>
    list_all (\<lambda>(index, _). \<not> names_object index key) ((i1, t1) # r2 @ [(i2, t2)])"
proof -
  from assms(1) obtain h1 refs t h2 refs' t' h3
    where w: "h = h1 @ Swept refs t # h2 @ Swept refs' t' # h3" "list_all (quiet key) (Swept refs t # h2 @ [Swept refs' t'])"
      "delay \<le> sat_i64 (t' - t)" unfolding waited_def by blast
  have "map (\<lambda>(index, now). (index_references index, now)) rounds =
      sweeps_in h1 @ (refs, t) # sweeps_in h2 @ (refs', t') # sweeps_in h3"
    using assms(4) unfolding w(1) by simp
  then obtain r1 a r2 b r3 where r: "rounds = r1 @ a # r2 @ b # r3" "(\<lambda>(index, now). (index_references index, now)) a = (refs, t)"
      "map (\<lambda>(index, now). (index_references index, now)) r2 = sweeps_in h2" "(\<lambda>(index, now). (index_references index, now)) b = (refs', t')"
    by (rule split_rounds)
  have quiet: "refs key = 0" "refs' key = 0" "list_all (\<lambda>(refs, _). refs key = 0) (sweeps_in h2)"
    using w(2) by (simp_all add: quiet_sweeps)
  then have "list_all (\<lambda>(index, _). index_references index key = 0) (a # r2 @ [b])"
    using r(2,4) unfolding r(3) [symmetric] by (auto simp: list_all_iff)
  moreover have "list_all (\<lambda>(index, _). index_reach None index) (a # r2 @ [b])" using assms(3) r(1) by simp
  ultimately have "list_all (\<lambda>(index, _). \<not> names_object index key) (a # r2 @ [b])"
    using unreferenced_unnamed by (force simp: list_all_iff)
  moreover obtain i1 i2 where "a = (i1, t)" "b = (i2, t')" using r(2,4) by (cases a; cases b) auto
  ultimately show ?thesis using r(1) sat_ge [OF assms(2) w(3)] by metis
qed

lemma held_before_sweep:
  assumes "\<And>w topic part start. held w \<subseteq> held (snd (out_trim out w topic part start))"
    and "list_all (before_sweep out) es" "lc_run del (lc, w) es = (lc', w')"
  shows "held w \<subseteq> held w'"
  using assms(2,3)
proof (induction es arbitrary: lc w)
  case (Cons e es)
  obtain mid w1 where mid: "lc_step del (lc, w) e = (mid, w1)" by fastforce
  have "held w \<subseteq> held w1" using mid Cons.prems(1) by (cases e) (auto simp: before_sweep_def intro: subsetD [OF assms(1)])
  with Cons mid show ?case by (fastforce simp: lc_run_def)
qed (simp add: lc_run_def)

text \<open>C9. Retention never deletes data that is in use.  Over any life of the task, with any log, catalog, coordinator and
  store behind it and any other task between its rounds: when a round makes an object go away, there were two
  rounds apart by at least the deletion delay, and at each of them and at every round between no partition of the
  task's index had an entry in that object.\<close>

theorem retention_deletes_only_unnamed:
  fixes out :: "'w outside"
  assumes "object_deleter held (out_delete out)"
    and "\<And>w topic part start. held w \<subseteq> held (snd (out_trim out w topic part start))"
    and "rt_reaches out rounds (self, w)" "rt_round out now (self, w) = Some (running, self', w')"
    and "object \<in> held w" "object \<notin> held w'"
  shows "\<exists>r1 i1 t1 r2 i2 t2 r3. rounds @ [(rt_index self', now)] = r1 @ (i1, t1) # r2 @ (i2, t2) # r3 \<and>
    DELETION_DELAY_MS \<le> t2 - t1 \<and> list_all (\<lambda>(index, _). \<not> names_object index object) ((i1, t1) # r2 @ [(i2, t2)])"
proof -
  from reaches_sound [OF assms(3)] obtain h :: "'w lc_event list"
    where s: "index_reach None (rt_index self)" "list_all (\<lambda>(index, _). index_reach None index) rounds" "explains h rounds self"
    by auto
  from rt_round_history [OF assms(4) s(1,3)] obtain h1 :: "'w lc_event list" and mid w1 es
    where r: "index_reach None (rt_index self')" "accounted DELETION_DELAY_MS h1 mid"
      "sweeps_in h1 = map (\<lambda>(index, now). (index_references index, now)) rounds"
      "list_all (before_sweep out) es" "lc_run (out_delete out) (rt_lifecycle self, w) es = (mid, w1)"
      "if running \<and> rt_synced self'
        then snd (lc_sweep (out_delete out) (index_references (rt_index self')) now (mid, w1)) = (rt_lifecycle self', w')
        else (mid, w1) = (rt_lifecycle self', w')" by blast
  have in1: "object \<in> held w1" using held_before_sweep [OF assms(2) r(4,5)] assms(5) by blast
  with assms(6) r(6) obtain report
    where sweep: "lc_sweep (out_delete out) (index_references (rt_index self')) now (mid, w1) = (report, rt_lifecycle self', w')"
    by (metis (no_types, lifting) prod.collapse prod.inject)
  have "object \<in> set (lc_queue mid) \<union> set (due_keys (index_references (rt_index self')) now mid)"
    using object_deleter.sweep_held(1) [OF assms(1) sweep] in1 assms(6) by blast
  with accounted_sweep(2) [OF r(2) sweep] r(2)
  have "waited DELETION_DELAY_MS object (h1 @ [Swept (index_references (rt_index self')) now])"
    by (auto simp: accounted_def intro: waited_later)
  from waited_rounds [OF this, of "rounds @ [(rt_index self', now)]"] s(2) r(1,3) show ?thesis
    by (simp add: DELETION_DELAY_MS_def)
qed

text \<open>A task over a log of one commit: the partition expires, the trim is journaled and folded, and the object
  goes two rounds later.\<close>

definition example_outside :: "(metadata_entry list \<times> store) outside" where
  "example_outside =
     \<lparr>out_read_from = \<lambda>(log, _) start n. Inr (take n (filter (\<lambda>e. start \<le> me_version e) log)),
      out_topic_retention_ms = \<lambda>_ _. Inr None,
      out_trim = \<lambda>(log, slots) topic part start. (Inr 1, (log @ [\<lparr>me_version = 1, me_record = Trimmed topic part start\<rparr>], slots)),
      out_delete = \<lambda>(log, slots) keys. (Inr (), (log, store_delete slots keys))\<rparr>"

abbreviation held_objects :: "metadata_entry list \<times> store \<Rightarrow> object_key set" where
  "held_objects w \<equiv> {key. payload_at (snd w) key \<noteq> None}"

definition example_world :: "metadata_entry list \<Rightarrow> metadata_entry list \<times> store" where
  "example_world log = (log, [''a'' \<mapsto> \<lparr>ks_payload = Some [1], ks_generation = 1\<rparr>])"

definition example_task :: retention where
  "example_task =
     \<lparr>rt_index = index_new, rt_heap = heap_new DEFAULT_RETENTION_MS,
      rt_lifecycle = \<lparr>lc_delay_ms = DELETION_DELAY_MS, lc_logical = [], lc_queue = [], lc_leaving = {}, lc_refusals = Map.empty,
        lc_quarantined = []\<rparr>, rt_reconciliation_cursor = None, rt_synced = True\<rparr>"

lemma example_started: "rt_reaches example_outside [] (example_task, example_world [])"
proof -
  have clear: "index_clear index_new = index_new" by (rule clear_is_new) (simp add: index_new_def)
  then have new: "retention_new index_new = Inr (example_task\<lparr>rt_synced := False\<rparr>)"
    by (simp add: retention_new_def example_task_def lifecycle_new_def gc_check_def gc_bound_def gc_configured_def sat_i64_def
        MAX_IN_FLIGHT_FETCH_MS_def MAX_CLOCK_SKEW_MS_def MAX_METADATA_STALENESS_MS_def DELETION_DELAY_MS_def)
  have "rt_rebuild example_outside (example_world []) (example_task\<lparr>rt_synced := False\<rparr>) = Some example_task"
    using clear by (simp add: rt_rebuild_def rt_rebuild_loop.simps example_outside_def example_world_def example_task_def)
  from rt_reaches.lagged [OF rt_reaches.started [OF index_reach.fresh new] this] show ?thesis .
qed

lemma example_life:
  "case rt_fold example_outside (example_world (take 1 example_log)) example_task (hd example_log) of
     Some s1 \<Rightarrow>
      (case rt_round example_outside 604800005 (s1, example_world (take 1 example_log)) of
         Some (True, s2, w2) \<Rightarrow>
          (case rt_fold example_outside w2 s2 (last (fst w2)) of
             Some s3 \<Rightarrow>
              (case rt_round example_outside 604800006 (s3, w2) of
                 Some (True, s4, w4) \<Rightarrow> payload_at (snd w4) ''a'' \<noteq> None \<and>
                  (case rt_round example_outside 605400006 (s4, w4) of
                     Some (True, s5, w5) \<Rightarrow> payload_at (snd w5) ''a'' = None
                   | _ \<Rightarrow> False)
               | _ \<Rightarrow> False)
           | _ \<Rightarrow> False)
       | _ \<Rightarrow> False)
   | None \<Rightarrow> False"
  by code_simp

lemma case_someE:
  assumes "case r of Some x \<Rightarrow> P x | None \<Rightarrow> False"
  obtains x where "r = Some x" "P x"
  using assms by (cases r) auto

lemma case_runE:
  assumes "case r of Some (True, s, w) \<Rightarrow> P s w | _ \<Rightarrow> False"
  obtains s w where "r = Some (True, s, w)" "P s w"
  using assms by (cases r) (auto split: bool.splits prod.splits)

lemma example_run:
  obtains s1 s2 w2 s3 s4 w4 s5 w5
  where "rt_fold example_outside (example_world (take 1 example_log)) example_task (hd example_log) = Some s1"
    "rt_round example_outside 604800005 (s1, example_world (take 1 example_log)) = Some (True, s2, w2)"
    "rt_fold example_outside w2 s2 (last (fst w2)) = Some s3" "rt_round example_outside 604800006 (s3, w2) = Some (True, s4, w4)"
    "rt_round example_outside 605400006 (s4, w4) = Some (True, s5, w5)" "payload_at (snd w4) ''a'' \<noteq> None" "payload_at (snd w5) ''a'' = None"
proof -
  obtain s1 where s1: "rt_fold example_outside (example_world (take 1 example_log)) example_task (hd example_log) = Some s1" and life1: "case rt_round example_outside 604800005 (s1, example_world (take 1 example_log)) of
         Some (True, s2, w2) \<Rightarrow>
          (case rt_fold example_outside w2 s2 (last (fst w2)) of
             Some s3 \<Rightarrow>
              (case rt_round example_outside 604800006 (s3, w2) of
                 Some (True, s4, w4) \<Rightarrow> payload_at (snd w4) ''a'' \<noteq> None \<and>
                  (case rt_round example_outside 605400006 (s4, w4) of
                     Some (True, s5, w5) \<Rightarrow> payload_at (snd w5) ''a'' = None
                   | _ \<Rightarrow> False)
               | _ \<Rightarrow> False)
           | _ \<Rightarrow> False)
       | _ \<Rightarrow> False"
    by (rule case_someE [OF example_life])
  from life1 obtain s2 w2 where s2: "rt_round example_outside 604800005 (s1, example_world (take 1 example_log)) = Some (True, s2, w2)" and life2: "case rt_fold example_outside w2 s2 (last (fst w2)) of
             Some s3 \<Rightarrow>
              (case rt_round example_outside 604800006 (s3, w2) of
                 Some (True, s4, w4) \<Rightarrow> payload_at (snd w4) ''a'' \<noteq> None \<and>
                  (case rt_round example_outside 605400006 (s4, w4) of
                     Some (True, s5, w5) \<Rightarrow> payload_at (snd w5) ''a'' = None
                   | _ \<Rightarrow> False)
               | _ \<Rightarrow> False)
           | _ \<Rightarrow> False" by (rule case_runE)
  from life2 obtain s3 where s3: "rt_fold example_outside w2 s2 (last (fst w2)) = Some s3" and life3: "case rt_round example_outside 604800006 (s3, w2) of
                 Some (True, s4, w4) \<Rightarrow> payload_at (snd w4) ''a'' \<noteq> None \<and>
                  (case rt_round example_outside 605400006 (s4, w4) of
                     Some (True, s5, w5) \<Rightarrow> payload_at (snd w5) ''a'' = None
                   | _ \<Rightarrow> False)
               | _ \<Rightarrow> False" by (rule case_someE)
  from life3 obtain s4 w4 where s4: "rt_round example_outside 604800006 (s3, w2) = Some (True, s4, w4)"
    and life4: "payload_at (snd w4) ''a'' \<noteq> None \<and>
      (case rt_round example_outside 605400006 (s4, w4) of Some (True, s5, w5) \<Rightarrow> payload_at (snd w5) ''a'' = None | _ \<Rightarrow> False)"
    by (rule case_runE)
  from conjunct2 [OF life4] obtain s5 w5 where s5: "rt_round example_outside 605400006 (s4, w4) = Some (True, s5, w5)"
    and gone: "payload_at (snd w5) ''a'' = None" by (rule case_runE)
  show thesis by (rule that [OF s1 s2 s3 s4 s5 conjunct1 [OF life4] gone])
qed

theorem retention_deletes_only_unnamed_witness:
  "\<exists>rounds self w self' w'. rt_reaches example_outside rounds (self, w) \<and>
     rt_round example_outside 605400006 (self, w) = Some (True, self', w') \<and> ''a'' \<in> held_objects w \<and> ''a'' \<notin> held_objects w' \<and>
     (\<exists>r1 i1 t1 r2 i2 t2 r3. rounds @ [(rt_index self', 605400006)] = r1 @ (i1, t1) # r2 @ (i2, t2) # r3 \<and>
        DELETION_DELAY_MS \<le> t2 - t1 \<and> list_all (\<lambda>(index, _). \<not> names_object index ''a'') ((i1, t1) # r2 @ [(i2, t2)]))"
proof -
  let ?out = example_outside and ?w = "example_world (take 1 example_log)"
  from example_run obtain s1 s2 w2 s3 s4 w4 s5 w5
    where run: "rt_fold ?out ?w example_task (hd example_log) = Some s1" "rt_round ?out 604800005 (s1, ?w) = Some (True, s2, w2)"
      "rt_fold ?out w2 s2 (last (fst w2)) = Some s3" "rt_round ?out 604800006 (s3, w2) = Some (True, s4, w4)"
      "rt_round ?out 605400006 (s4, w4) = Some (True, s5, w5)" "payload_at (snd w4) ''a'' \<noteq> None" "payload_at (snd w5) ''a'' = None"
    by metis
  have "rt_reaches ?out [] (example_task, ?w)" using rt_reaches.others [OF example_started, of "\<lambda>_. ?w"] .
  note rt_reaches.folded [OF this run(1)]
  note rt_reaches.ticked [OF this run(2)]
  note rt_reaches.folded [OF this run(3)]
  note reach = rt_reaches.ticked [OF this run(4)]
  have del: "object_deleter held_objects (out_delete ?out)"
    by unfold_locales (auto simp: example_outside_def payload_delete split: prod.splits if_splits)
  have keep: "\<And>w topic part start. held_objects w \<subseteq> held_objects (snd (out_trim ?out w topic part start))"
    by (auto simp: example_outside_def split: prod.splits)
  have "''a'' \<in> held_objects w4" "''a'' \<notin> held_objects w5" using run(6,7) by simp_all
  from retention_deletes_only_unnamed [OF del keep reach run(5) this] reach run(5) this show ?thesis by blast
qed

section \<open>A rebuild tells the truth\<close>

lemma ok_override: "heap_ok heap \<Longrightarrow> heap_ok (apply_override catalog index heap topic)"
proof -
  assume ok: "heap_ok heap"
  have "heap_ok (heap_set_topic_retention index heap topic r)" for r
  proof (cases "eh_topic_retention_ms heap topic = r")
    case True
    then have "heap_set_topic_retention index heap topic r = heap"
      by (cases r) (simp_all add: heap_set_topic_retention_def)
    with ok show ?thesis by simp
  qed (use set_topic_retention_rearms(1) [OF ok _ refl] in blast)
  with ok show ?thesis by (simp add: apply_override_def split: sum.split)
qed

lemma ok_arm: "heap_ok heap \<Longrightarrow> heap_ok (rt_arm catalog index heap entry)"
proof -
  assume ok: "heap_ok heap"
  have "heap_ok (foldl (\<lambda>heap span. heap_track index (apply_override catalog index heap (cs_topic span)) (cs_key span)) h spans)"
    if "heap_ok h" for h spans
    using that by (induction spans arbitrary: h) (simp_all add: ok_track ok_override)
  with ok show ?thesis by (simp add: rt_arm_def ok_override split: metadata_record.split)
qed

lemma ok_arms: "heap_ok heap \<Longrightarrow> heap_ok (foldl (rt_arm catalog index) heap page)"
  by (induction page arbitrary: heap) (simp_all add: ok_arm)

context metadata_log
begin

lemma rt_rebuild_lands:
  assumes "log_invar l" "\<forall>e\<in>set (log_entries l). me_version e < u64_max"
    and "log_entries l = xs @ ys" "index_folds xs (rt_index self)" "heap_ok (rt_heap self)" "\<not> rt_synced self"
    and "start = version_after (last_version_of None xs)"
  shows "\<exists>self'. rt_rebuild_loop (log_read_from l) catalog self start = Some self' \<and>
    (if rt_synced self' then index_folds (log_entries l) (rt_index self') else rt_index self' = index_new) \<and>
    heap_ok (rt_heap self') \<and> (good_log l \<longrightarrow> rt_synced self')"
  using assms(3-7)
proof (induction ys arbitrary: xs self start rule: length_induct)
  case (1 ys)
  let ?page = "take REBUILD_PAGE_ENTRIES ys" and ?zs = "drop REBUILD_PAGE_ENTRIES ys"
  have clear: "index_clear (rt_index self) = index_new" by (rule index_folds_clear [OF "1.prems"(2)])
  have split: "log_entries l = (xs @ ?page) @ ?zs" using "1.prems"(1) by simp
  show ?case
  proof (cases "log_read_from l start REBUILD_PAGE_ENTRIES")
    case (Inl e)
    with unreadable [OF Inl] clear "1.prems"(3,4) show ?thesis by (subst rt_rebuild_loop.simps) simp
  next
    case (Inr page)
    then have page: "page = ?page" using next_page [OF assms(1) "1.prems"(1)] "1.prems"(5) by simp
    show ?thesis
    proof (cases "ys = []")
      case True
      with Inr page "1.prems" show ?thesis by (subst rt_rebuild_loop.simps) simp
    next
      case False
      then have ne: "?page \<noteq> []" by (simp add: page_nonempty(1))
      have below: "me_version (last ?page) < u64_max"
        using ne assms(2) split by (metis UnCI in_set_takeD last_in_set set_append append_take_drop_id)
      then have adv: "version_advance (me_version (last ?page)) 1 = Inr (me_version (last ?page) + 1)"
        by (simp add: version_advance_def)
      show ?thesis
      proof (cases "index_apply (rt_index self) ?page")
        case (Inl e)
        have "\<not> good_log l"
        proof
          assume "good_log l"
          then obtain full where "index_folds ((xs @ ?page) @ ?zs) full" using split by (auto simp: good_log_def)
          then show False
            using index_folds_prefix index_folds_append [OF "1.prems"(2), of ?page] Inl by fastforce
        qed
        with Inl Inr page ne clear adv "1.prems"(3,4) show ?thesis by (subst rt_rebuild_loop.simps) simp
      next
        case ix': (Inr ix')
        let ?self = "self\<lparr>rt_index := ix', rt_heap := foldl (rt_arm catalog ix') (rt_heap self) ?page\<rparr>"
        have folds: "index_folds (xs @ ?page) (rt_index ?self)" using index_folds_append [OF "1.prems"(2)] ix' by simp
        have ok: "heap_ok (rt_heap ?self)" using ok_arms [OF "1.prems"(3)] by simp
        have sync: "\<not> rt_synced ?self" using "1.prems"(4) by simp
        from "1.IH" [rule_format, OF page_nonempty(2) [OF False] split folds ok sync refl]
        show ?thesis
          using Inr page ne ix' adv
          by (subst rt_rebuild_loop.simps) (simp add: version_after_def last_version_of_def)
      qed
    qed
  qed
qed

end



end
