(* ===== verification/Compaction_Plan.thy ===== *)
theory Compaction_Plan
  imports Complex_Main Index_Fetch
begin

text \<open>
  Planning a compaction (\<open>oqueue-compact/src/read_amp.rs\<close>, \<open>read_amp/\<close>, \<open>cost.rs\<close>, \<open>plan.rs\<close>, \<open>layout.rs\<close>,
  \<open>sweep.rs\<close>): a walk over the index measures how many objects a range of one partition is spread over and
  which whole objects it covers, a plan is made where that is worth it, its inputs are derived from the index,
  and a sweep fills a round with plans within a budget.  The two counts whose quotient is compared are far
  below the numbers a double holds exactly, so the quotient is a rational.
\<close>

section \<open>The walk (read_amp/walk.rs)\<close>

record extent =
  ex_first_base :: offset
  ex_last_end :: offset
  ex_records :: int
  ex_tail :: bool
  ex_whole :: bool

text \<open>The vector of objects in the order they were seen, with the map into it, is an association list.\<close>

record range_walk =
  wk_start :: offset
  wk_end :: offset
  wk_seen :: "(object_key \<times> extent) list"
  wk_barred :: "object_key list"

definition walk_over :: "offset \<Rightarrow> offset \<Rightarrow> range_walk" where
  "walk_over start end = \<lparr>wk_start = start, wk_end = end, wk_seen = [], wk_barred = []\<rparr>"

definition walk_bar :: "range_walk \<Rightarrow> object_key \<Rightarrow> range_walk" where
  "walk_bar self key = self\<lparr>wk_barred := List.insert key (wk_barred self)\<rparr>"

definition walk_visit :: "range_walk \<Rightarrow> indexed_batch \<Rightarrow> (offset option \<times> range_walk) result" where
  "walk_visit self batch =
     (let reference = batch_reference batch; base = or_base reference
      in bindR (ref_end_offset reference) (\<lambda>object_end.
        let past = base \<ge> wk_end self;
            key = or_object reference;
            whole = (\<not> past \<and> base \<ge> wk_start self \<and> object_end \<le> wk_end self);
            extent =
              (case map_of (wk_seen self) key of
                 Some extent \<Rightarrow>
                   \<lparr>ex_first_base = min (ex_first_base extent) base, ex_last_end = max (ex_last_end extent) object_end,
                    ex_records = ex_records extent + (object_end - base), ex_tail = (ex_tail extent \<or> batch_bytes batch \<noteq> None),
                    ex_whole = (ex_whole extent \<and> whole)\<rparr>
               | None \<Rightarrow>
                   \<lparr>ex_first_base = base, ex_last_end = object_end, ex_records = object_end - base,
                    ex_tail = (batch_bytes batch \<noteq> None), ex_whole = whole\<rparr>)
        in Inr (if past then None else Some object_end, self\<lparr>wk_seen := AList.update key extent (wk_seen self)\<rparr>)))"

section \<open>The survey (read_amp.rs, read_amp/survey.rs)\<close>

definition COMPACTED_OBJECT_RECORDS :: int where
  "COMPACTED_OBJECT_RECORDS = 524288"

definition objects_needed :: "int \<Rightarrow> nat" where
  "objects_needed records =
     (let needed = records div COMPACTED_OBJECT_RECORDS + (if records mod COMPACTED_OBJECT_RECORDS \<noteq> 0 then 1 else 0)
      in if needed < 0 then u64_max else nat needed)"

record read_amp =
  ra_objects_touched :: nat
  ra_objects_needed :: nat
  ra_records :: int
  ra_tail_objects :: nat
  ra_first_tail_base :: "offset option"
  ra_history_objects :: nat
  ra_history_records :: int
  ra_covered :: "(offset \<times> offset) option"

definition read_amp_empty :: read_amp where
  "read_amp_empty = \<lparr>ra_objects_touched = 0, ra_objects_needed = 0, ra_records = 0, ra_tail_objects = 0,
     ra_first_tail_base = None, ra_history_objects = 0, ra_history_records = 0, ra_covered = None\<rparr>"

text \<open>One object counted by the loop of \<open>finish\<close>, with the range it is covered by.\<close>

definition count_extent :: "read_amp \<Rightarrow> offset \<times> offset \<Rightarrow> extent \<Rightarrow> read_amp" where
  "count_extent self held_span extent =
     (let self = self\<lparr>ra_covered := Some held_span, ra_objects_touched := ra_objects_touched self + 1,
                     ra_records := ra_records self + ex_records extent\<rparr>
      in if ex_tail extent
         then self\<lparr>ra_tail_objects := ra_tail_objects self + 1,
                   ra_first_tail_base := Some (case ra_first_tail_base self of
                      None \<Rightarrow> ex_first_base extent | Some base \<Rightarrow> min base (ex_first_base extent))\<rparr>
         else if ra_first_tail_base self = None
         then self\<lparr>ra_history_objects := ra_history_objects self + 1,
                   ra_history_records := ra_history_records self + ex_records extent\<rparr>
         else self)"

fun finish_seen :: "object_key list \<Rightarrow> read_amp \<Rightarrow> (object_key \<times> extent) list \<Rightarrow> read_amp" where
  "finish_seen barred self [] = self"
| "finish_seen barred self ((key, extent) # seen) =
     (if \<not> ex_whole extent \<or> key \<in> set barred then finish_seen barred self seen
      else case ra_covered self of
             None \<Rightarrow> finish_seen barred (count_extent self (ex_first_base extent, ex_last_end extent) extent) seen
           | Some (low, high) \<Rightarrow>
               if ex_first_base extent \<noteq> high then self
               else finish_seen barred (count_extent self (low, ex_last_end extent) extent) seen)"

definition walk_finish :: "range_walk \<Rightarrow> read_amp" where
  "walk_finish self =
     (let amp = finish_seen (wk_barred self) read_amp_empty (wk_seen self)
      in amp\<lparr>ra_objects_needed := objects_needed (ra_records amp)\<rparr>)"

definition before_tail :: "read_amp \<Rightarrow> read_amp" where
  "before_tail self =
     \<lparr>ra_objects_touched = ra_history_objects self, ra_objects_needed = objects_needed (ra_history_records self),
      ra_records = ra_history_records self, ra_tail_objects = 0, ra_first_tail_base = None,
      ra_history_objects = ra_history_objects self, ra_history_records = ra_history_records self,
      ra_covered = (case (ra_covered self, ra_first_tail_base self) of
                      (Some (lo, _), Some tail_base) \<Rightarrow> if lo < tail_base then Some (lo, tail_base) else None
                    | _ \<Rightarrow> None)\<rparr>"

definition ratio :: "read_amp \<Rightarrow> rat" where
  "ratio self = (if ra_objects_needed self = 0 then 0 else of_nat (ra_objects_touched self) / of_nat (ra_objects_needed self))"

text \<open>The inner loop of the survey: the furthest end reached, and the walk.\<close>

fun visit_page :: "range_walk \<Rightarrow> offset \<Rightarrow> indexed_batch list \<Rightarrow> (offset \<times> range_walk) result" where
  "visit_page walk furthest [] = Inr (furthest, walk)"
| "visit_page walk furthest (batch # page) =
     bindR (walk_visit walk batch) (\<lambda>(reached, walk).
       case reached of
         None \<Rightarrow> Inr (furthest, walk)
       | Some object_end \<Rightarrow> visit_page walk (max furthest object_end) page)"

function survey_loop :: "index_state \<Rightarrow> pkey \<Rightarrow> offset \<Rightarrow> range_walk \<Rightarrow> offset \<Rightarrow> range_walk result" where
  "survey_loop index key end walk cursor =
     (if cursor < end then
        bindR (find_batches index key cursor u64_max) (\<lambda>page.
          if page = [] then Inr walk
          else
            bindR (visit_page walk cursor page) (\<lambda>(furthest, walk').
              if furthest \<le> cursor then Inr walk' else survey_loop index key end walk' furthest))
      else Inr walk)"
  by pat_completeness auto
termination by (relation "measure (\<lambda>(_, _, end, _, cursor). nat (end - cursor))") auto

declare survey_loop.simps [simp del]

definition survey_probe :: "index_state \<Rightarrow> pkey \<Rightarrow> offset \<Rightarrow> offset \<Rightarrow> range_walk \<Rightarrow> range_walk result" where
  "survey_probe index key start end walk =
     (if start < end then
        (case offset_new (start - 1) of
           Inl _ \<Rightarrow> Inr walk
         | Inr before \<Rightarrow>
             bindR (case find_batches index key before u64_max of
                      Inl (BelowLogStart _ _) \<Rightarrow> find_batches index key start u64_max
                    | other \<Rightarrow> other) (\<lambda>probe.
               Inr (foldl (\<lambda>walk batch. if or_base (batch_reference batch) < start
                                       then walk_bar walk (or_object (batch_reference batch)) else walk) walk probe)))
      else Inr walk)"

definition survey :: "index_state \<Rightarrow> pkey \<Rightarrow> offset \<Rightarrow> offset \<Rightarrow> read_amp result" where
  "survey index key start end =
     bindR (survey_probe index key start end (walk_over start end)) (\<lambda>walk.
     bindR (survey_loop index key end walk start) (\<lambda>walk. Inr (walk_finish walk)))"

definition read_amp_of :: "index_state \<Rightarrow> pkey \<Rightarrow> offset \<Rightarrow> offset \<Rightarrow> read_amp result" where
  "read_amp_of index key start end =
     (case survey index key start end of
        Inl (BelowLogStart asked log_start) \<Rightarrow>
          if log_start > start then bindR (offset_new log_start) (\<lambda>log_start. survey index key log_start end)
          else Inl (BelowLogStart asked log_start)
      | other \<Rightarrow> other)"

section \<open>Cost and plan (cost.rs, plan.rs)\<close>

definition COMPACTION_READ_AMP_THRESHOLD :: nat where
  "COMPACTION_READ_AMP_THRESHOLD = 12"

definition COMPACTION_PLAN_RECORDS_BUDGET :: int where
  "COMPACTION_PLAN_RECORDS_BUDGET = 524288"

record cost_estimate =
  ce_gets :: nat
  ce_puts :: nat
  ce_records_rewritten :: int

definition cost_of :: "read_amp \<Rightarrow> cost_estimate" where
  "cost_of amplification = \<lparr>ce_gets = ra_objects_touched amplification, ce_puts = ra_objects_needed amplification,
     ce_records_rewritten = ra_records amplification\<rparr>"

definition within_budget :: "cost_estimate \<Rightarrow> bool" where
  "within_budget self \<longleftrightarrow> ce_records_rewritten self \<le> COMPACTION_PLAN_RECORDS_BUDGET"

record compaction_plan =
  cp_topic :: topic_id
  cp_partition :: partition_id
  cp_start :: offset
  cp_end :: offset
  cp_amplification :: read_amp

abbreviation cp_key :: "compaction_plan \<Rightarrow> pkey" where
  "cp_key self \<equiv> (cp_topic self, cp_partition self)"

definition plan_cost :: "compaction_plan \<Rightarrow> cost_estimate" where
  "plan_cost self = cost_of (cp_amplification self)"

datatype planning = NotWorthIt | Deferred cost_estimate | Planned compaction_plan

definition plan :: "index_state \<Rightarrow> pkey \<Rightarrow> offset \<Rightarrow> offset \<Rightarrow> planning result" where
  "plan index key start end =
     bindR (read_amp_of index key start end) (\<lambda>surveyed.
       let amplification = (case ra_first_tail_base surveyed of None \<Rightarrow> surveyed | Some _ \<Rightarrow> before_tail surveyed)
       in case ra_covered amplification of
            None \<Rightarrow> Inr NotWorthIt
          | Some (start, end) \<Rightarrow>
              if ratio amplification \<le> of_nat COMPACTION_READ_AMP_THRESHOLD then Inr NotWorthIt
              else
                let cost = cost_of amplification
                in if \<not> within_budget cost then Inr (Deferred cost)
                   else Inr (Planned \<lparr>cp_topic = fst key, cp_partition = snd key, cp_start = start, cp_end = end,
                                     cp_amplification = amplification\<rparr>))"

section \<open>The inputs of a plan (layout.rs)\<close>

record planned_inputs =
  pl_plan :: compaction_plan
  pl_inputs :: "object_ref list"

text \<open>The map from object to position in the inputs: one input per object.\<close>

fun absorb_input :: "object_ref list \<Rightarrow> object_ref \<Rightarrow> object_ref list" where
  "absorb_input [] reference = [reference]"
| "absorb_input (held # inputs) reference =
     (if or_object held = or_object reference
      then \<lparr>or_object = or_object reference, or_base = min (or_base held) (or_base reference),
            or_count = min 4294967295 (or_count held + or_count reference)\<rparr> # inputs
      else held # absorb_input inputs reference)"

fun derive_page :: "offset \<Rightarrow> offset \<times> object_ref list \<Rightarrow> indexed_batch list \<Rightarrow> (offset \<times> object_ref list) result" where
  "derive_page end (furthest, inputs) [] = Inr (furthest, inputs)"
| "derive_page end (furthest, inputs) (batch # page) =
     (let reference = batch_reference batch
      in bindR (ref_end_offset reference) (\<lambda>object_end.
        if or_base reference \<ge> end then Inr (furthest, inputs)
        else derive_page end (max furthest object_end, absorb_input inputs reference) page))"

function derive_loop :: "index_state \<Rightarrow> pkey \<Rightarrow> offset \<Rightarrow> object_ref list \<Rightarrow> offset \<Rightarrow> object_ref list result" where
  "derive_loop index key end inputs cursor =
     (if cursor < end then
        (case find_batches index key cursor u64_max of
           Inl e \<Rightarrow>
             (case (case e of BelowLogStart _ log_start \<Rightarrow> if log_start > cursor then Some log_start else None | _ \<Rightarrow> None) of
                Some log_start \<Rightarrow>
                  if log_start < 0 then Inl (NegativeOffset log_start) else derive_loop index key end inputs log_start
              | None \<Rightarrow> Inl e)
         | Inr page \<Rightarrow>
             if page = [] then Inr inputs
             else
               bindR (derive_page end (cursor, inputs) page) (\<lambda>(furthest, inputs').
                 if furthest \<le> cursor then Inr inputs' else derive_loop index key end inputs' furthest))
      else Inr inputs)"
  by pat_completeness auto
termination
  by (relation "measure (\<lambda>(_, _, end, _, cursor). nat (end - cursor))") (auto split: error.splits if_splits)

declare derive_loop.simps [simp del]

definition derive :: "index_state \<Rightarrow> compaction_plan \<Rightarrow> planned_inputs result" where
  "derive index pl =
     bindR (derive_loop index (cp_key pl) (cp_end pl) [] (cp_start pl)) (\<lambda>inputs.
       Inr \<lparr>pl_plan = pl, pl_inputs = inputs\<rparr>)"

section \<open>A round (sweep.rs)\<close>

record sweep_candidate =
  ca_topic :: topic_id
  ca_partition :: partition_id
  ca_from :: offset

record sweep =
  sp_round :: "planned_inputs list"
  sp_held_over :: "pkey list"

definition sweep_one ::
  "index_state \<Rightarrow> sweep \<times> int \<times> pkey list \<Rightarrow> sweep_candidate \<Rightarrow> (sweep \<times> int \<times> pkey list) result" where
  "sweep_one index st cand =
     (case st of (swept, budget, seen) \<Rightarrow>
        let key = (ca_topic cand, ca_partition cand)
        in if key \<in> set seen then Inr (swept, budget, seen)
           else
             let seen = key # seen;
                 end = index_end_offset index key;
                 window_end = (case offset_add (ca_from cand) COMPACTION_PLAN_RECORDS_BUDGET of
                                 Inr limit \<Rightarrow> min limit end | Inl _ \<Rightarrow> end)
             in bindR (plan index key (ca_from cand) window_end) (\<lambda>planning.
                  case planning of
                    NotWorthIt \<Rightarrow> Inr (swept, budget, seen)
                  | Deferred _ \<Rightarrow> Inr (swept\<lparr>sp_held_over := sp_held_over swept @ [key]\<rparr>, budget, seen)
                  | Planned planned \<Rightarrow>
                      let cost = ce_records_rewritten (plan_cost planned)
                      in if cost > budget
                         then Inr (swept\<lparr>sp_held_over := sp_held_over swept @ [key]\<rparr>, budget, seen)
                         else bindR (derive index planned) (\<lambda>inputs.
                           Inr (swept\<lparr>sp_round := sp_round swept @ [inputs]\<rparr>, budget - cost, seen))))"

definition sweep_round :: "index_state \<Rightarrow> sweep_candidate list \<Rightarrow> sweep result" where
  "sweep_round index candidates =
     bindR (foldR (sweep_one index) (\<lparr>sp_round = [], sp_held_over = []\<rparr>, COMPACTION_PLAN_RECORDS_BUDGET, []) candidates)
       (\<lambda>(swept, _, _). Inr swept)"

end
