(* ===== verification/Bundle.thy ===== *)
theory Bundle
  imports Metadata_Segment Object_Store
begin

text \<open>
  The object one flush writes (\<open>bundle.rs\<close>, \<open>bundle/encode.rs\<close>, \<open>bundle/alg.rs\<close>, \<open>region_envelope.rs\<close>) and
  the footer that is read back from it (\<open>bundle_footer.rs\<close>): regions of many partitions' records one
  after the other, then one entry per region, then a trailer of fixed length.
\<close>

section \<open>Regions\<close>

datatype region_alg = AlgNone | Aes256Gcm

definition alg_code :: "region_alg \<Rightarrow> nat" where
  "alg_code alg = (case alg of AlgNone \<Rightarrow> 0 | Aes256Gcm \<Rightarrow> 1)"

definition alg_from_code :: "nat \<Rightarrow> region_alg result" where
  "alg_from_code code =
     (if code = 0 then Inr AlgNone else if code = 1 then Inr Aes256Gcm else Inl (UnknownRegionAlg code))"

definition MAX_KEY_ID_LEN :: nat where
  "MAX_KEY_ID_LEN = 65535"

definition MAX_WRAPPED_DEK_LEN :: nat where
  "MAX_WRAPPED_DEK_LEN = 8192"

definition NONCE_BYTES :: nat where
  "NONCE_BYTES = 12"

definition is_ascii_graphic :: "char \<Rightarrow> bool" where
  "is_ascii_graphic c \<longleftrightarrow> 33 \<le> (of_char c :: nat) \<and> (of_char c :: nat) \<le> 126"

definition key_id_new :: "string \<Rightarrow> string result" where
  "key_id_new raw =
     (if raw = [] then Inl EmptyKeyId
      else if length raw > MAX_KEY_ID_LEN then Inl (InvalidKeyId ''exceeds the maximum encoded length'')
      else if \<not> list_all is_ascii_graphic raw then Inl (InvalidKeyId ''contains a non-printable ASCII character'')
      else Inr raw)"

record region_envelope =
  ev_key_id :: string
  ev_wrapped_dek :: "byte list"
  ev_nonce :: "byte list"

definition region_envelope_new :: "string \<Rightarrow> byte list \<Rightarrow> byte list \<Rightarrow> region_envelope result" where
  "region_envelope_new key_id wrapped_dek nonce =
     (if length key_id > MAX_KEY_ID_LEN then Inl (RegionEnvelopeLength ''key id'' (length key_id))
      else if length wrapped_dek = 0 \<or> length wrapped_dek > MAX_WRAPPED_DEK_LEN
      then Inl (RegionEnvelopeLength ''wrapped data encryption key'' (length wrapped_dek))
      else Inr \<lparr>ev_key_id = key_id, ev_wrapped_dek = wrapped_dek, ev_nonce = nonce\<rparr>)"

record region =
  rg_topic :: topic_id
  rg_partition :: partition_id
  rg_bytes :: byte_range
  rg_record_count :: nat
  rg_alg :: region_alg
  rg_envelope :: "region_envelope option"

section \<open>The builder\<close>

record bundle_builder =
  bb_payload :: "byte list"
  bb_regions :: "region list"
  bb_producers :: "producer_identity option list"

record pushed_records =
  pr_count :: nat
  pr_producer :: "producer_identity option"

record sealed_region =
  sr_bytes :: "byte list"
  sr_alg :: region_alg
  sr_envelope :: region_envelope

definition builder_new :: bundle_builder where
  "builder_new = \<lparr>bb_payload = [], bb_regions = [], bb_producers = []\<rparr>"

definition MAX_TOPIC_NAME_LEN :: nat where
  "MAX_TOPIC_NAME_LEN = 65535"

definition admissible :: "topic_id \<Rightarrow> nat \<Rightarrow> unit result" where
  "admissible topic record_count =
     (if length topic > MAX_TOPIC_NAME_LEN then Inl BundleTooLarge
      else if record_count = 0 then Inl EmptyRegion
      else Inr ())"

definition builder_push ::
  "bundle_builder \<Rightarrow> topic_id \<Rightarrow> partition_id \<Rightarrow> pushed_records \<Rightarrow> byte list \<Rightarrow> bundle_builder result" where
  "builder_push self topic part pushed records =
     bindR (admissible topic (pr_count pushed)) (\<lambda>_.
     bindR (byte_range_bounded (length (bb_payload self)) (length records)) (\<lambda>bytes.
       Inr (self\<lparr>bb_payload := bb_payload self @ records,
                 bb_regions := bb_regions self @ [\<lparr>rg_topic = topic, rg_partition = part, rg_bytes = bytes,
                   rg_record_count = pr_count pushed, rg_alg = AlgNone, rg_envelope = None\<rparr>],
                 bb_producers := bb_producers self @ [pr_producer pushed]\<rparr>)))"

definition builder_push_sealed ::
  "bundle_builder \<Rightarrow> topic_id \<Rightarrow> partition_id \<Rightarrow> pushed_records \<Rightarrow> sealed_region \<Rightarrow> bundle_builder result" where
  "builder_push_sealed self topic part pushed sealed =
     bindR (admissible topic (pr_count pushed)) (\<lambda>_.
       if sr_alg sealed = AlgNone then Inl RegionNotEncrypted
       else bindR (byte_range_bounded (length (bb_payload self)) (length (sr_bytes sealed))) (\<lambda>bytes.
         Inr (self\<lparr>bb_payload := bb_payload self @ sr_bytes sealed,
                   bb_regions := bb_regions self @ [\<lparr>rg_topic = topic, rg_partition = part, rg_bytes = bytes,
                     rg_record_count = pr_count pushed, rg_alg = sr_alg sealed, rg_envelope = Some (sr_envelope sealed)\<rparr>],
                   bb_producers := bb_producers self @ [pr_producer pushed]\<rparr>)))"

definition builder_push_streamed ::
  "bundle_builder \<Rightarrow> topic_id \<Rightarrow> partition_id \<Rightarrow> pushed_records \<Rightarrow> nat \<times> nat \<Rightarrow> bundle_builder result" where
  "builder_push_streamed self topic part pushed at =
     bindR (admissible topic (pr_count pushed)) (\<lambda>_.
     bindR (byte_range_bounded (fst at) (snd at)) (\<lambda>bytes.
       Inr (self\<lparr>bb_regions := bb_regions self @ [\<lparr>rg_topic = topic, rg_partition = part, rg_bytes = bytes,
                   rg_record_count = pr_count pushed, rg_alg = AlgNone, rg_envelope = None\<rparr>],
                 bb_producers := bb_producers self @ [pr_producer pushed]\<rparr>)))"

definition builder_spans :: "bundle_builder \<Rightarrow> committed_span list" where
  "builder_spans self =
     map (\<lambda>(rg, producer). \<lparr>cs_topic = rg_topic rg, cs_partition = rg_partition rg, cs_count = rg_record_count rg,
            cs_bytes = rg_bytes rg, cs_producer = producer\<rparr>)
       (zip (bb_regions self) (bb_producers self))"

section \<open>Writing the footer\<close>

definition BUNDLE_FORMAT_VERSION :: nat where
  "BUNDLE_FORMAT_VERSION = 1"

definition TRAILER_LEN :: nat where
  "TRAILER_LEN = 9"

definition put_name :: "string writer_of" where
  "put_name out name =
     (if length name < 2 ^ 16 then Inr (out @ be_bytes 2 (length name) @ as_bytes name) else Inl BundleTooLarge)"

definition encode_envelope :: "region writer_of" where
  "encode_envelope out rg =
     (case (rg_alg rg, rg_envelope rg) of
        (AlgNone, None) \<Rightarrow> Inr out
      | (AlgNone, Some _) \<Rightarrow> Inl (RegionEnvelopeMismatch False)
      | (Aes256Gcm, None) \<Rightarrow> Inl (RegionEnvelopeMismatch True)
      | (Aes256Gcm, Some envelope) \<Rightarrow>
          bindR (put_name out (ev_key_id envelope)) (\<lambda>out.
            if length (ev_wrapped_dek envelope) < 2 ^ 32
            then Inr (out @ be_bytes 4 (length (ev_wrapped_dek envelope)) @ ev_wrapped_dek envelope @ ev_nonce envelope)
            else Inl BundleTooLarge))"

definition encode_region :: "region writer_of" where
  "encode_region out rg =
     bindR (put_name out (rg_topic rg)) (\<lambda>out.
     bindR (put_uint 4 out (nat \<bar>rg_partition rg\<bar>)) (\<lambda>out.
     bindR (put_uint 4 out (rg_record_count rg)) (\<lambda>out.
       case rg_bytes rg of
         Full \<Rightarrow> Inl UnboundedRegion
       | Bounded off len \<Rightarrow>
           bindR (put_uint 8 out off) (\<lambda>out.
           bindR (put_uint 8 out len) (\<lambda>out.
           bindR (put_uint 1 out (alg_code (rg_alg rg))) (\<lambda>out. encode_envelope out rg))))))"

definition encode_footer :: "region list \<Rightarrow> byte list \<Rightarrow> byte list result" where
  "encode_footer regions out =
     bindR (foldR encode_region out regions) (\<lambda>written.
       let footer_len = length written - length out
       in if footer_len < 2 ^ 32
          then if length regions < 2 ^ 32
               then Inr (written @ be_bytes 4 (length regions) @ be_bytes 1 BUNDLE_FORMAT_VERSION @ be_bytes 4 footer_len)
               else Inl BundleTooLarge
          else Inl BundleTooLarge)"

definition into_footer :: "bundle_builder \<Rightarrow> (byte list \<times> committed_span list) result" where
  "into_footer self =
     (if bb_regions self = [] then Inl EmptyBundle
      else bindR (encode_footer (bb_regions self) []) (\<lambda>footer. Inr (footer, builder_spans self)))"

record sealed_bundle =
  sb_payload :: "byte list"
  sb_regions :: "region list"
  sb_spans :: "committed_span list"

definition builder_seal :: "bundle_builder \<Rightarrow> sealed_bundle result" where
  "builder_seal self =
     (if bb_regions self = [] then Inl EmptyBundle
      else bindR (encode_footer (bb_regions self) (bb_payload self)) (\<lambda>payload.
        Inr \<lparr>sb_payload = payload, sb_regions = bb_regions self, sb_spans = builder_spans self\<rparr>))"

section \<open>Reading the footer\<close>

definition ft_take :: "nat \<Rightarrow> byte list reader_of" where
  "ft_take n self =
     (let end = cur_at self + n
      in if end \<le> length (cur_bytes self)
         then Inr (take n (drop (cur_at self) (cur_bytes self)), self\<lparr>cur_at := end\<rparr>)
         else Inl (MalformedBundleFooter (cur_at self)))"

definition ft_uint :: "nat \<Rightarrow> nat reader_of" where
  "ft_uint width self = bindR (ft_take width self) (\<lambda>(raw, self). Inr (of_be raw, self))"

definition ft_utf8 :: "nat \<Rightarrow> byte list \<Rightarrow> string result" where
  "ft_utf8 at raw = (case from_utf8 raw of Some s \<Rightarrow> Inr s | None \<Rightarrow> Inl (MalformedBundleFooter at))"

definition ft_envelope :: "region_envelope reader_of" where
  "ft_envelope self =
     bindR (ft_uint 2 self) (\<lambda>(key_len, self).
     bindR (ft_take key_len self) (\<lambda>(raw, self').
     bindR (ft_utf8 (cur_at self) raw) (\<lambda>name.
     bindR (map_errR (\<lambda>_. MalformedBundleFooter (cur_at self)) (key_id_new name)) (\<lambda>key_id.
     bindR (ft_uint 4 self') (\<lambda>(wrapped_len, self).
       if wrapped_len = 0 \<or> wrapped_len > MAX_WRAPPED_DEK_LEN then Inl (MalformedBundleFooter (cur_at self))
       else
         bindR (ft_take wrapped_len self) (\<lambda>(wrapped, self).
         bindR (ft_take NONCE_BYTES self) (\<lambda>(nonce, self).
         bindR (map_errR (\<lambda>_. MalformedBundleFooter (cur_at self)) (region_envelope_new key_id wrapped nonce)) (\<lambda>envelope.
           Inr (envelope, self)))))))))"

definition ft_region :: "region reader_of" where
  "ft_region self =
     bindR (ft_uint 2 self) (\<lambda>(name_len, self).
     bindR (ft_take name_len self) (\<lambda>(raw, self').
     bindR (ft_utf8 (cur_at self) raw) (\<lambda>name.
     bindR (topic_id_new name) (\<lambda>topic.
     bindR (ft_uint 4 self') (\<lambda>(part, self).
     bindR (if int part \<le> i32_max then Inr (int part) else Inl (MalformedBundleFooter (cur_at self))) (\<lambda>part.
     bindR (partition_id_new part) (\<lambda>part.
     bindR (ft_uint 4 self) (\<lambda>(record_count, self).
     bindR (ft_uint 8 self) (\<lambda>(off, self).
     bindR (ft_uint 8 self) (\<lambda>(len, self).
     bindR (byte_range_bounded off len) (\<lambda>bytes.
     bindR (ft_uint 1 self) (\<lambda>(code, self).
     bindR (alg_from_code code) (\<lambda>alg.
     bindR (case alg of
              AlgNone \<Rightarrow> Inr (None, self)
            | Aes256Gcm \<Rightarrow> bindR (ft_envelope self) (\<lambda>(envelope, self). Inr (Some envelope, self))) (\<lambda>(envelope, self).
       Inr (\<lparr>rg_topic = topic, rg_partition = part, rg_bytes = bytes, rg_record_count = record_count, rg_alg = alg,
             rg_envelope = envelope\<rparr>, self)))))))))))))))"

definition short_tail_or_corrupt :: "nat \<Rightarrow> nat \<Rightarrow> nat \<Rightarrow> error" where
  "short_tail_or_corrupt got needed object_size =
     (if object_size < needed then MalformedBundleFooter 0 else BundleTailTooShort got needed)"

fun check_from :: "region list \<Rightarrow> nat \<Rightarrow> nat \<Rightarrow> nat \<Rightarrow> unit result" where
  "check_from [] index next_free payload_end =
     (if next_free \<noteq> payload_end then Inl (MalformedBundleFooter index) else Inr ())"
| "check_from (rg # regions) index next_free payload_end =
     (case rg_bytes rg of
        Full \<Rightarrow> Inl (MalformedBundleFooter index)
      | Bounded off len \<Rightarrow>
          if rg_record_count rg = 0 then Inl (MalformedBundleFooter index)
          else if off + len > u64_max then Inl (MalformedBundleFooter index)
          else if off \<noteq> next_free \<or> off + len > payload_end then Inl (MalformedBundleFooter index)
          else check_from regions (Suc index) (off + len) payload_end)"

definition check_regions :: "region list \<Rightarrow> nat \<Rightarrow> unit result" where
  "check_regions regions payload_end = check_from regions 0 0 payload_end"

definition parse_footer :: "byte list \<Rightarrow> nat \<Rightarrow> region list result" where
  "parse_footer tail object_size =
     (if length tail < TRAILER_LEN then Inl (short_tail_or_corrupt (length tail) TRAILER_LEN object_size)
      else
        let trailer_at = length tail - TRAILER_LEN;
            trailer = drop trailer_at tail;
            count = of_be (take 4 trailer);
            version = of_be (take 1 (drop 4 trailer))
        in if version \<noteq> BUNDLE_FORMAT_VERSION then Inl (UnknownBundleFormat version)
           else if count = 0 then Inl EmptyBundle
           else
             let footer_len = of_be (take 4 (drop 5 trailer))
             in if trailer_at < footer_len
                then Inl (short_tail_or_corrupt (length tail) (min u64_max (footer_len + TRAILER_LEN)) object_size)
                else
                  bindR (cur_repeat ft_region count
                      \<lparr>cur_bytes = take footer_len (drop (trailer_at - footer_len) tail), cur_at = 0\<rparr>) (\<lambda>(regions, cursor).
                    if cur_at cursor \<noteq> length (cur_bytes cursor) then Inl (MalformedBundleFooter (cur_at cursor))
                    else if object_size < footer_len + TRAILER_LEN then Inl (MalformedBundleFooter 0)
                    else bindR (check_regions regions (object_size - (footer_len + TRAILER_LEN))) (\<lambda>_. Inr regions)))"

section \<open>Regions read back\<close>

lemma ft_take_ok [simp]: "ft_take n c = Inr p \<longleftrightarrow> cur_take n c = Inr p"
  by (simp add: ft_take_def cur_take_def Let_def)

lemma ft_uint_ok [simp]: "ft_uint w c = Inr p \<longleftrightarrow> cur_uint w c = Inr p"
  by (auto simp: ft_uint_def cur_uint_def bindR_Inr_iff)

lemma put_name_ok [simp]: "put_name out s = Inr out' \<longleftrightarrow> put_str out s = Inr out'"
  by (simp add: put_name_def put_str_def)

lemma ft_utf8_iff: "ft_utf8 at raw = Inr s \<longleftrightarrow> from_utf8 raw = Some s"
  by (simp add: ft_utf8_def split: option.splits)

lemma cur_string_iff:
  "cur_string c = Inr (s, d) \<longleftrightarrow> (\<exists>n b raw. cur_u16 c = Inr (n, b) \<and> cur_take n b = Inr (raw, d) \<and> from_utf8 raw = Some s)"
  by (auto simp: cur_string_def bindR_Inr_iff split: option.splits) force+

lemma cur_blob_iff: "cur_blob c = Inr (raw, d) \<longleftrightarrow> (\<exists>n b. cur_u32 c = Inr (n, b) \<and> cur_take n b = Inr (raw, d))"
  by (auto simp: cur_blob_def bindR_Inr_iff)

lemma take_length: "cur_take n c = Inr (raw, c') \<Longrightarrow> length raw = n"
  using take_consumed by blast

definition valid_key_id :: "string \<Rightarrow> bool" where
  "valid_key_id s \<longleftrightarrow> s \<noteq> [] \<and> length s \<le> MAX_KEY_ID_LEN \<and> list_all is_ascii_graphic s"

lemma key_id_new_iff [simp]: "key_id_new s = Inr k \<longleftrightarrow> k = s \<and> valid_key_id s"
  by (auto simp: key_id_new_def valid_key_id_def)

definition valid_envelope :: "region_envelope \<Rightarrow> bool" where
  "valid_envelope e \<longleftrightarrow>
     utf8 (ev_key_id e) \<and> valid_key_id (ev_key_id e) \<and>
     0 < length (ev_wrapped_dek e) \<and> length (ev_wrapped_dek e) \<le> MAX_WRAPPED_DEK_LEN \<and> length (ev_nonce e) = NONCE_BYTES"

definition valid_region :: "region \<Rightarrow> bool" where
  "valid_region r \<longleftrightarrow>
     valid_name (rg_topic r) \<and> 0 \<le> rg_partition r \<and> rg_partition r \<le> i32_max \<and> fits_u 4 (rg_record_count r) \<and>
     rg_bytes r \<noteq> Full \<and> valid_bytes (rg_bytes r) \<and>
     (rg_alg r = AlgNone \<longleftrightarrow> rg_envelope r = None) \<and> (\<forall>e. rg_envelope r = Some e \<longrightarrow> valid_envelope e)"

lemma key_id_codec:
  "codec put_str (\<lambda>c. bindR (cur_string c) (\<lambda>(x, c). bindR (cur_checked c (key_id_new x)) (\<lambda>y. Inr (y, c))))
     (\<lambda>k. utf8 k \<and> valid_key_id k)"
  by (rule codec_checkedI [OF str.codec_axioms, of key_id_new "\<lambda>k. k"])
    auto

definition wrapped_new :: "byte list \<Rightarrow> byte list result" where
  "wrapped_new w = (if 0 < length w \<and> length w \<le> MAX_WRAPPED_DEK_LEN then Inr w
     else Inl (RegionEnvelopeLength ''wrapped data encryption key'' (length w)))"

lemma wrapped_codec:
  "codec put_blob (\<lambda>c. bindR (cur_blob c) (\<lambda>(x, c). bindR (cur_checked c (wrapped_new x)) (\<lambda>y. Inr (y, c))))
     (\<lambda>w. 0 < length w \<and> length w \<le> MAX_WRAPPED_DEK_LEN)"
  by (rule codec_checkedI [OF blob_codec, where check = wrapped_new and raw_of = "\<lambda>k. k"])
    (auto simp: wrapped_new_def split: if_splits)

lemma wrapped_new_iff: "wrapped_new w = Inr v \<longleftrightarrow> v = w \<and> 0 < length w \<and> length w \<le> MAX_WRAPPED_DEK_LEN"
  by (auto simp: wrapped_new_def)

lemma ft_envelope_iff:
  "ft_envelope c = Inr (e, c') \<longleftrightarrow>
     (\<exists>d b. cur_string c = Inr (ev_key_id e, d) \<and> valid_key_id (ev_key_id e) \<and>
        cur_blob d = Inr (ev_wrapped_dek e, b) \<and> 0 < length (ev_wrapped_dek e) \<and>
        length (ev_wrapped_dek e) \<le> MAX_WRAPPED_DEK_LEN \<and> cur_take NONCE_BYTES b = Inr (ev_nonce e, c'))"
proof
  assume "ft_envelope c = Inr (e, c')"
  then obtain n b raw d s k m d' wrapped b' nonce
    where r: "cur_u16 c = Inr (n, b)" "cur_take n b = Inr (raw, d)" "from_utf8 raw = Some s" "key_id_new s = Inr k"
      "cur_u32 d = Inr (m, d')" "m \<noteq> 0" "m \<le> MAX_WRAPPED_DEK_LEN" "cur_take m d' = Inr (wrapped, b')"
      "cur_take NONCE_BYTES b' = Inr (nonce, c')" "region_envelope_new k wrapped nonce = Inr e"
    unfolding ft_envelope_def by (auto simp: bindR_Inr_iff ft_utf8_iff split: if_splits)
  from r(10) have e: "e = \<lparr>ev_key_id = k, ev_wrapped_dek = wrapped, ev_nonce = nonce\<rparr>"
    by (auto simp: region_envelope_new_def split: if_splits)
  with r show "\<exists>d b. cur_string c = Inr (ev_key_id e, d) \<and> valid_key_id (ev_key_id e) \<and>
      cur_blob d = Inr (ev_wrapped_dek e, b) \<and> 0 < length (ev_wrapped_dek e) \<and>
      length (ev_wrapped_dek e) \<le> MAX_WRAPPED_DEK_LEN \<and> cur_take NONCE_BYTES b = Inr (ev_nonce e, c')"
    using take_length [OF r(8)] by (intro exI [of _ d] exI [of _ b']) (auto simp: cur_string_iff cur_blob_iff)
next
  assume "\<exists>d b. cur_string c = Inr (ev_key_id e, d) \<and> valid_key_id (ev_key_id e) \<and>
      cur_blob d = Inr (ev_wrapped_dek e, b) \<and> 0 < length (ev_wrapped_dek e) \<and>
      length (ev_wrapped_dek e) \<le> MAX_WRAPPED_DEK_LEN \<and> cur_take NONCE_BYTES b = Inr (ev_nonce e, c')"
  then obtain n b raw d m d' b'
    where r: "cur_u16 c = Inr (n, b)" "cur_take n b = Inr (raw, d)" "from_utf8 raw = Some (ev_key_id e)"
      "valid_key_id (ev_key_id e)" "cur_u32 d = Inr (m, d')" "cur_take m d' = Inr (ev_wrapped_dek e, b')"
      "0 < length (ev_wrapped_dek e)" "length (ev_wrapped_dek e) \<le> MAX_WRAPPED_DEK_LEN"
      "cur_take NONCE_BYTES b' = Inr (ev_nonce e, c')" by (auto simp: cur_string_iff cur_blob_iff)
  have "region_envelope_new (ev_key_id e) (ev_wrapped_dek e) (ev_nonce e) = Inr e"
    using r(4,7,8) by (auto simp: region_envelope_new_def valid_key_id_def split: if_splits)
  with r take_length [OF r(6)] show "ft_envelope c = Inr (e, c')"
    unfolding ft_envelope_def by (auto simp: bindR_Inr_iff ft_utf8_iff)
qed

lemma envelope_codec:
  "codec (\<lambda>out e. bindR (put_name out (ev_key_id e)) (\<lambda>out.
       if length (ev_wrapped_dek e) < 2 ^ 32
       then Inr (out @ be_bytes 4 (length (ev_wrapped_dek e)) @ ev_wrapped_dek e @ ev_nonce e) else Inl BundleTooLarge))
     ft_envelope valid_envelope"
proof -
  have "codec (\<lambda>out e. bindR (put_str out (ev_key_id e)) (\<lambda>out.
        bindR (put_blob out (ev_wrapped_dek e)) (\<lambda>out. put_raw out (ev_nonce e))))
      (\<lambda>c. bindR (cur_string c) (\<lambda>(s, c). bindR (cur_checked c (key_id_new s)) (\<lambda>key.
        bindR (cur_blob c) (\<lambda>(x, c). bindR (cur_checked c (wrapped_new x)) (\<lambda>wrapped.
        bindR (cur_take NONCE_BYTES c) (\<lambda>(nonce, c).
          Inr (\<lparr>ev_key_id = key, ev_wrapped_dek = wrapped, ev_nonce = nonce\<rparr>, c))))))) valid_envelope"
    by (rule codec_recordI [OF key_id_codec codec_pair [OF wrapped_codec raw_codec [of NONCE_BYTES]],
          where build = "\<lambda>key (wrapped, nonce). \<lparr>ev_key_id = key, ev_wrapped_dek = wrapped, ev_nonce = nonce\<rparr>"
            and fst_of = ev_key_id and snd_of = "\<lambda>e. (ev_wrapped_dek e, ev_nonce e)"])
      (auto simp: valid_envelope_def bindR_assoc split_def)
  then show ?thesis
  proof (rule codec_same_ok)
    show "\<forall>out e y. valid_envelope e \<longrightarrow> (bindR (put_name out (ev_key_id e)) (\<lambda>out.
         if length (ev_wrapped_dek e) < 2 ^ 32
         then Inr (out @ be_bytes 4 (length (ev_wrapped_dek e)) @ ev_wrapped_dek e @ ev_nonce e) else Inl BundleTooLarge) = Inr y \<longleftrightarrow>
       bindR (put_str out (ev_key_id e)) (\<lambda>out. bindR (put_blob out (ev_wrapped_dek e)) (\<lambda>out. put_raw out (ev_nonce e))) = Inr y)"
      by (auto simp: valid_envelope_def MAX_WRAPPED_DEK_LEN_def put_blob_def put_len32_def put_raw_def bindR_Inr_iff)
    show "\<forall>c e c'. ft_envelope c = Inr (e, c') \<longleftrightarrow>
      bindR (cur_string c) (\<lambda>(s, c). bindR (cur_checked c (key_id_new s)) (\<lambda>key.
        bindR (cur_blob c) (\<lambda>(x, c). bindR (cur_checked c (wrapped_new x)) (\<lambda>wrapped.
        bindR (cur_take NONCE_BYTES c) (\<lambda>(nonce, c).
          Inr (\<lparr>ev_key_id = key, ev_wrapped_dek = wrapped, ev_nonce = nonce\<rparr>, c)))))) = Inr (e, c')"
    proof (intro allI)
      fix c e c'
      obtain key wrapped nonce where e: "e = \<lparr>ev_key_id = key, ev_wrapped_dek = wrapped, ev_nonce = nonce\<rparr>" by (cases e)
      show "ft_envelope c = Inr (e, c') \<longleftrightarrow>
      bindR (cur_string c) (\<lambda>(s, c). bindR (cur_checked c (key_id_new s)) (\<lambda>key.
        bindR (cur_blob c) (\<lambda>(x, c). bindR (cur_checked c (wrapped_new x)) (\<lambda>wrapped.
        bindR (cur_take NONCE_BYTES c) (\<lambda>(nonce, c).
          Inr (\<lparr>ev_key_id = key, ev_wrapped_dek = wrapped, ev_nonce = nonce\<rparr>, c)))))) = Inr (e, c')"
        unfolding ft_envelope_iff e by (simp add: bindR_Inr_iff wrapped_new_iff) blast
    qed
  qed
qed

definition partition_from :: "nat \<Rightarrow> partition_id result" where
  "partition_from n = (if int n \<le> i32_max then Inr (int n) else Inl (NegativePartitionId (int n)))"

lemma partition_from_codec:
  "codec (\<lambda>out p. put_uint 4 out (nat \<bar>p\<bar>))
     (\<lambda>c. bindR (cur_u32 c) (\<lambda>(n, c). bindR (cur_checked c (partition_from n)) (\<lambda>p. Inr (p, c))))
     (\<lambda>p. 0 \<le> p \<and> p \<le> i32_max)"
  by (rule codec_checkedI [OF uint.codec_axioms [of 4], where check = partition_from and raw_of = "\<lambda>p. nat \<bar>p\<bar>"])
    (auto simp: partition_from_def split: if_splits)

definition put_protection :: "region_envelope option writer_of" where
  "put_protection out env =
     (case env of
        None \<Rightarrow> put_uint 1 out 0
      | Some e \<Rightarrow> bindR (put_uint 1 out 1) (\<lambda>out. bindR (put_name out (ev_key_id e)) (\<lambda>out.
          if length (ev_wrapped_dek e) < 2 ^ 32
          then Inr (out @ be_bytes 4 (length (ev_wrapped_dek e)) @ ev_wrapped_dek e @ ev_nonce e) else Inl BundleTooLarge)))"

definition cur_protection :: "region_envelope option reader_of" where
  "cur_protection c =
     bindR (cur_u8 c) (\<lambda>(tag, c). if tag = 0 then Inr (None, c)
       else if tag = 1 then bindR (ft_envelope c) (\<lambda>(e, c). Inr (Some e, c)) else Inl (cur_malformed c))"

lemma protection_codec: "codec put_protection cur_protection (\<lambda>x. \<forall>e. x = Some e \<longrightarrow> valid_envelope e)"
  by (rule codec_optionI [OF envelope_codec]) (simp_all add: put_protection_def cur_protection_def)

definition region_of :: "topic_id \<Rightarrow> partition_id \<times> nat \<times> byte_range \<times> region_envelope option \<Rightarrow> region" where
  "region_of topic rest = (case rest of (part, records, bytes, env) \<Rightarrow>
     \<lparr>rg_topic = topic, rg_partition = part, rg_bytes = bytes, rg_record_count = records,
      rg_alg = (case env of None \<Rightarrow> AlgNone | Some _ \<Rightarrow> Aes256Gcm), rg_envelope = env\<rparr>)"

lemma region_of_same:
  "region_of (rg_topic r) (rg_partition r, rg_record_count r, rg_bytes r, rg_envelope r) = r \<longleftrightarrow>
     (rg_alg r = AlgNone \<longleftrightarrow> rg_envelope r = None)"
  by (cases r; cases "rg_alg r"; cases "rg_envelope r") (auto simp: region_of_def)

lemma alg_from_code_iff: "alg_from_code n = Inr alg \<longleftrightarrow> n = alg_code alg"
  by (cases alg) (auto simp: alg_from_code_def alg_code_def)

lemma cur_topic_iff: "cur_topic c = Inr (s, d) \<longleftrightarrow> cur_string c = Inr (s, d) \<and> topic_id_new s = Inr s"
  by (auto simp: cur_topic_def topic_id_new_def bindR_Inr_iff split: if_splits)

lemma topic_id_new_iff: "topic_id_new s = Inr t \<longleftrightarrow> t = s \<and> s \<noteq> []"
  by (auto simp: topic_id_new_def)

lemma cur_protection_iff:
  "cur_protection c = Inr (env, c') \<longleftrightarrow>
     (\<exists>alg d. cur_u8 c = Inr (alg_code alg, d) \<and>
        (case alg of AlgNone \<Rightarrow> Inr (None, d) | Aes256Gcm \<Rightarrow> bindR (ft_envelope d) (\<lambda>(e, c). Inr (Some e, c))) = Inr (env, c'))"
proof -
  have "(\<exists>alg. P alg) \<longleftrightarrow> P AlgNone \<or> P Aes256Gcm" for P by (metis region_alg.exhaust)
  then show ?thesis by (auto simp: cur_protection_def bindR_Inr_iff alg_code_def split: if_splits)
qed

text \<open>The same fields in the same order, with the protection as one optional field.\<close>

definition put_region_fields :: "region writer_of" where
  "put_region_fields out r =
     bindR (put_str out (rg_topic r)) (\<lambda>out.
     bindR (put_uint 4 out (nat \<bar>rg_partition r\<bar>)) (\<lambda>out.
     bindR (put_uint 4 out (rg_record_count r)) (\<lambda>out.
     bindR (bindR (put_uint 8 out (br_offset (rg_bytes r))) (\<lambda>out. put_uint 8 out (br_length (rg_bytes r)))) (\<lambda>out.
       put_protection out (rg_envelope r)))))"

definition get_region_fields :: "region reader_of" where
  "get_region_fields c =
     bindR (cur_topic c) (\<lambda>(topic, c).
     bindR (cur_u32 c) (\<lambda>(n, c). bindR (cur_checked c (partition_from n)) (\<lambda>part.
     bindR (cur_u32 c) (\<lambda>(records, c).
     bindR (cur_u64 c) (\<lambda>(off, c). bindR (cur_u64 c) (\<lambda>(len, c).
     bindR (cur_checked c (byte_range_bounded off len)) (\<lambda>bytes.
     bindR (cur_protection c) (\<lambda>(env, c). Inr (region_of topic (part, records, bytes, env), c)))))))))"

lemma region_fields_codec: "codec put_region_fields get_region_fields valid_region"
proof (rule codec_checkedI [OF codec_pair [OF topic_codec codec_pair [OF partition_from_codec
          codec_pair [OF uint.codec_axioms [of 4] codec_pair [OF bounded_codec protection_codec]]]],
        where check = "\<lambda>p. Inr (region_of (fst p) (snd p))"
          and raw_of = "\<lambda>r. (rg_topic r, rg_partition r, rg_record_count r, rg_bytes r, rg_envelope r)"])
qed (auto simp: put_region_fields_def get_region_fields_def bindR_assoc split_def valid_region_def region_of_same,
    auto simp: region_of_def split_def)

lemma encode_region_fields:
  assumes v: "valid_region r"
  shows "encode_region out r = Inr y \<longleftrightarrow> put_region_fields out r = Inr y"
proof -
  from v obtain off len where b: "rg_bytes r = Bounded off len" by (cases "rg_bytes r") (auto simp: valid_region_def)
  from v have "rg_alg r = (case rg_envelope r of None \<Rightarrow> AlgNone | Some _ \<Rightarrow> Aes256Gcm)"
    by (cases "rg_alg r") (auto simp: valid_region_def split: option.splits)
  with b show ?thesis
    by (cases "rg_envelope r")
      (simp_all add: put_region_fields_def encode_region_def encode_envelope_def put_protection_def alg_code_def
        put_uint_def bindR_Inr_iff)
qed

lemma ft_region_fields: "ft_region c = Inr (r, c') \<longleftrightarrow> get_region_fields c = Inr (r, c')"
proof
  assume "ft_region c = Inr (r, c')"
  then obtain n b raw d s m d1 k d2 off d3 len d4 bytes alg d5 env
    where "cur_u16 c = Inr (n, b)" "cur_take n b = Inr (raw, d)" "from_utf8 raw = Some s" "s \<noteq> []"
      "cur_u32 d = Inr (m, d1)" "int m \<le> i32_max" "cur_u32 d1 = Inr (k, d2)" "cur_u64 d2 = Inr (off, d3)"
      "cur_u64 d3 = Inr (len, d4)" "byte_range_bounded off len = Inr bytes" "cur_u8 d4 = Inr (alg_code alg, d5)"
      "(case alg of AlgNone \<Rightarrow> Inr (None, d5) | Aes256Gcm \<Rightarrow> bindR (ft_envelope d5) (\<lambda>(e, c). Inr (Some e, c))) = Inr (env, c')"
      and r: "r = \<lparr>rg_topic = s, rg_partition = int m, rg_bytes = bytes, rg_record_count = k, rg_alg = alg, rg_envelope = env\<rparr>"
    unfolding ft_region_def
    by (auto simp: bindR_Inr_iff ft_utf8_iff topic_id_new_iff partition_id_new_def alg_from_code_iff split: if_splits)
  moreover from this(12) have "r = region_of s (int m, k, bytes, env)"
    by (cases alg) (auto simp: r region_of_def bindR_Inr_iff)
  moreover have "cur_protection d4 = Inr (env, c')" using calculation(11,12) unfolding cur_protection_iff by blast
  moreover have "cur_topic c = Inr (s, d)"
    using calculation(1-4) by (auto simp: cur_topic_iff cur_string_iff topic_id_new_iff)
  ultimately show "get_region_fields c = Inr (r, c')" by (simp add: get_region_fields_def partition_from_def)
next
  assume "get_region_fields c = Inr (r, c')"
  then obtain s d m d1 k d2 off d3 len d4 bytes env
    where g: "cur_topic c = Inr (s, d)" "cur_u32 d = Inr (m, d1)" "int m \<le> i32_max" "cur_u32 d1 = Inr (k, d2)"
      "cur_u64 d2 = Inr (off, d3)" "cur_u64 d3 = Inr (len, d4)" "byte_range_bounded off len = Inr bytes"
      "cur_protection d4 = Inr (env, c')" "r = region_of s (int m, k, bytes, env)"
    unfolding get_region_fields_def by (auto simp: bindR_Inr_iff partition_from_def split: if_splits)
  from g(8) obtain alg d5 where p: "cur_u8 d4 = Inr (alg_code alg, d5)"
      "(case alg of AlgNone \<Rightarrow> Inr (None, d5) | Aes256Gcm \<Rightarrow> bindR (ft_envelope d5) (\<lambda>(e, c). Inr (Some e, c))) = Inr (env, c')"
    unfolding cur_protection_iff by blast
  from g(1) obtain n b raw where t: "cur_u16 c = Inr (n, b)" "cur_take n b = Inr (raw, d)" "from_utf8 raw = Some s" "s \<noteq> []"
    by (auto simp: cur_topic_iff cur_string_iff topic_id_new_iff)
  from p(2) g(9) have "r = \<lparr>rg_topic = s, rg_partition = int m, rg_bytes = bytes, rg_record_count = k, rg_alg = alg, rg_envelope = env\<rparr>"
    by (cases alg) (auto simp: region_of_def bindR_Inr_iff)
  with g(2-7) p t show "ft_region c = Inr (r, c')"
    unfolding ft_region_def
    by (auto simp: bindR_Inr_iff ft_utf8_iff topic_id_new_iff partition_id_new_def alg_from_code_iff)
qed

lemma region_codec: "codec encode_region ft_region valid_region"
  by (rule codec_same_ok [OF region_fields_codec]) (simp_all add: encode_region_fields ft_region_fields)

section \<open>The footer read back\<close>

lemma footer_written:
  assumes "\<forall>r\<in>set regions. valid_region r" "encode_footer regions out = Inr payload"
  obtains body where "payload = out @ body @ be_bytes 4 (length regions) @ be_bytes 1 BUNDLE_FORMAT_VERSION @ be_bytes 4 (length body)"
    "length regions < 2 ^ 32" "length body < 2 ^ 32" "reads (cur_repeat ft_region (length regions)) regions body"
proof -
  from assms(2) obtain written where w: "foldR encode_region out regions = Inr written"
    by (auto simp: encode_footer_def bindR_Inr_iff)
  then have "is_ok (foldR encode_region out regions)" by simp
  from codec.elements_read_back [OF region_codec assms(1) this] obtain body
    where b: "\<forall>out. foldR encode_region out regions = Inr (out @ body)" "reads (cur_repeat ft_region (length regions)) regions body"
    by blast
  with w have "written = out @ body" by simp
  with assms(2) w b(2) show thesis
    by (intro that [of body]) (auto simp: encode_footer_def Let_def split: if_splits)
qed

lemma parse_trailer:
  assumes "n < 2 ^ 32" "m < 2 ^ 32"
  shows "parse_footer (pre @ be_bytes 4 n @ be_bytes 1 BUNDLE_FORMAT_VERSION @ be_bytes 4 m) osize =
    (if n = 0 then Inl EmptyBundle
     else if length pre < m
     then Inl (short_tail_or_corrupt (length pre + TRAILER_LEN) (m + TRAILER_LEN) osize)
     else bindR (cur_repeat ft_region n \<lparr>cur_bytes = drop (length pre - m) pre, cur_at = 0\<rparr>) (\<lambda>(regions, cursor).
       if cur_at cursor \<noteq> length (cur_bytes cursor) then Inl (MalformedBundleFooter (cur_at cursor))
       else if osize < m + TRAILER_LEN then Inl (MalformedBundleFooter 0)
       else bindR (check_regions regions (osize - (m + TRAILER_LEN))) (\<lambda>_. Inr regions)))"
proof -
  let ?t = "be_bytes 4 n @ be_bytes 1 BUNDLE_FORMAT_VERSION @ be_bytes 4 m"
  have t: "length ?t = TRAILER_LEN" "of_be (take 4 ?t) = n" "of_be (take 1 (drop 4 ?t)) = BUNDLE_FORMAT_VERSION"
    "of_be (take 4 (drop 5 ?t)) = m"
    using assms by (simp_all add: TRAILER_LEN_def BUNDLE_FORMAT_VERSION_def del: be_bytes.simps)
  have "take m (drop (length pre - m) (pre @ ?t)) = drop (length pre - m) pre" if "m \<le> length pre"
    using that by simp
  moreover have "min u64_max (m + TRAILER_LEN) = m + TRAILER_LEN" using assms(2) by (simp add: TRAILER_LEN_def)
  ultimately show ?thesis using t
    by (simp add: parse_footer_def Let_def not_less del: be_bytes.simps)
qed

lemma parse_written:
  assumes "reads (cur_repeat ft_region (length regions)) regions body" "length regions < 2 ^ 32" "length body < 2 ^ 32"
    and "regions \<noteq> []"
  shows "parse_footer (pre @ body @ be_bytes 4 (length regions) @ be_bytes 1 BUNDLE_FORMAT_VERSION @ be_bytes 4 (length body)) osize =
    (if osize < length body + TRAILER_LEN then Inl (MalformedBundleFooter 0)
     else bindR (check_regions regions (osize - (length body + TRAILER_LEN))) (\<lambda>_. Inr regions))"
proof -
  have "cur_repeat ft_region (length regions) \<lparr>cur_bytes = body, cur_at = 0\<rparr> =
      Inr (regions, \<lparr>cur_bytes = body, cur_at = length body\<rparr>)"
    using assms(1) [unfolded reads_def, rule_format, of "[]" "[]"] by simp
  with parse_trailer [OF assms(2,3), of "pre @ body" osize] assms(4) show ?thesis by simp
qed

end
