(* ===== verification/Bundle_Round_Trip.thy ===== *)
theory Bundle_Round_Trip
  imports Bundle
begin

text \<open>
  A sealed bundle and its footer: what was pushed is what a reader gets, from any tail that holds the
  footer; whatever the parser accepts cuts the payload into regions that do not overlap.
\<close>

section \<open>What a builder holds\<close>

text \<open>One call of \<open>push\<close> or \<open>push_sealed\<close>.\<close>

datatype bundle_push =
    Plain topic_id partition_id pushed_records "byte list"
  | SealedPush topic_id partition_id pushed_records sealed_region

fun push_one :: "bundle_builder \<Rightarrow> bundle_push \<Rightarrow> bundle_builder result" where
  "push_one self (Plain topic part pushed records) = builder_push self topic part pushed records"
| "push_one self (SealedPush topic part pushed sealed) = builder_push_sealed self topic part pushed sealed"

definition builder_of :: "bundle_push list \<Rightarrow> bundle_builder result" where
  "builder_of pushes = foldR push_one builder_new pushes"

fun pushed_bytes :: "bundle_push \<Rightarrow> byte list" where
  "pushed_bytes (Plain _ _ _ records) = records"
| "pushed_bytes (SealedPush _ _ _ sealed) = sr_bytes sealed"

fun pushed_producer :: "bundle_push \<Rightarrow> producer_identity option" where
  "pushed_producer (Plain _ _ pushed _) = pr_producer pushed"
| "pushed_producer (SealedPush _ _ pushed _) = pr_producer pushed"

fun pushed_region :: "nat \<Rightarrow> bundle_push \<Rightarrow> region" where
  "pushed_region off (Plain topic part pushed records) =
     \<lparr>rg_topic = topic, rg_partition = part, rg_bytes = Bounded off (length records), rg_record_count = pr_count pushed,
      rg_alg = AlgNone, rg_envelope = None\<rparr>"
| "pushed_region off (SealedPush topic part pushed sealed) =
     \<lparr>rg_topic = topic, rg_partition = part, rg_bytes = Bounded off (length (sr_bytes sealed)),
      rg_record_count = pr_count pushed, rg_alg = sr_alg sealed, rg_envelope = Some (sr_envelope sealed)\<rparr>"

text \<open>What the types of the arguments promise: identifiers that their constructors made, counts and
  partitions in range.\<close>

fun valid_push :: "bundle_push \<Rightarrow> bool" where
  "valid_push (Plain topic part pushed records) \<longleftrightarrow>
     valid_name topic \<and> 0 \<le> part \<and> part \<le> i32_max \<and> fits_u 4 (pr_count pushed)"
| "valid_push (SealedPush topic part pushed sealed) \<longleftrightarrow>
     valid_name topic \<and> 0 \<le> part \<and> part \<le> i32_max \<and> fits_u 4 (pr_count pushed) \<and> valid_envelope (sr_envelope sealed)"

fun regions_from :: "nat \<Rightarrow> bundle_push list \<Rightarrow> region list" where
  "regions_from off [] = []"
| "regions_from off (p # ps) = pushed_region off p # regions_from (off + length (pushed_bytes p)) ps"

abbreviation payload_of :: "bundle_push list \<Rightarrow> byte list" where
  "payload_of ps \<equiv> concat (map pushed_bytes ps)"

lemma push_one_iff:
  "push_one b p = Inr b' \<Longrightarrow>
     bb_payload b' = bb_payload b @ pushed_bytes p \<and>
     bb_regions b' = bb_regions b @ [pushed_region (length (bb_payload b)) p] \<and>
     bb_producers b' = bb_producers b @ [pushed_producer p] \<and>
     0 < length (pushed_bytes p) \<and> 0 < rg_record_count (pushed_region 0 p) \<and>
     (\<forall>topic part pushed sealed. p = SealedPush topic part pushed sealed \<longrightarrow> sr_alg sealed = Aes256Gcm)"
  by (cases p) (auto simp: builder_push_def builder_push_sealed_def byte_range_bounded_def admissible_def bindR_Inr_iff
      split: if_splits intro: region_alg.exhaust)

lemma regions_from_append: "regions_from off (ps @ qs) = regions_from off ps @ regions_from (off + length (payload_of ps)) qs"
  by (induction ps arbitrary: off) (simp_all add: add.assoc)

lemma length_regions_from [simp]: "length (regions_from off ps) = length ps"
  by (induction ps arbitrary: off) simp_all

lemma builder_of_snoc: "builder_of (ps @ [p]) = bindR (builder_of ps) (\<lambda>b. push_one b p)"
  by (simp add: builder_of_def foldR_snoc)

lemma builder_of_state:
  "builder_of ps = Inr b \<Longrightarrow>
     bb_payload b = payload_of ps \<and> bb_regions b = regions_from 0 ps \<and> bb_producers b = map pushed_producer ps \<and>
     (\<forall>p\<in>set ps. 0 < length (pushed_bytes p) \<and> 0 < rg_record_count (pushed_region 0 p) \<and>
        (\<forall>topic part pushed sealed. p = SealedPush topic part pushed sealed \<longrightarrow> sr_alg sealed = Aes256Gcm))"
proof (induction ps arbitrary: b rule: rev_induct)
  case Nil
  then show ?case by (auto simp: builder_of_def builder_new_def)
next
  case (snoc p ps)
  then obtain b0 where b0: "builder_of ps = Inr b0" "push_one b0 p = Inr b"
    by (auto simp: builder_of_snoc bindR_Inr_iff)
  from snoc.IH [OF b0(1)] push_one_iff [OF b0(2)] show ?case by (simp add: regions_from_append)
qed

lemma regions_from_valid:
  assumes "\<forall>p\<in>set ps. valid_push p \<and> 0 < length (pushed_bytes p) \<and>
      (\<forall>topic part pushed sealed. p = SealedPush topic part pushed sealed \<longrightarrow> sr_alg sealed = Aes256Gcm)"
    and "off + length (payload_of ps) \<le> u64_max" "r \<in> set (regions_from off ps)"
  shows "valid_region r"
  using assms
proof (induction ps arbitrary: off)
  case (Cons p ps)
  have "valid_region (pushed_region off p)"
    using Cons.prems(1,2) by (cases p) (auto simp: valid_region_def valid_bytes_def)
  moreover have "valid_region r" if "r \<in> set (regions_from (off + length (pushed_bytes p)) ps)"
    using Cons.IH [OF _ _ that] Cons.prems(1,2) by (simp add: add.assoc)
  ultimately show ?case using Cons.prems(3) by auto
qed simp

lemma check_regions_from:
  assumes "\<forall>p\<in>set ps. 0 < rg_record_count (pushed_region 0 p)" "off + length (payload_of ps) \<le> u64_max"
  shows "check_from (regions_from off ps) i off (off + length (payload_of ps)) = Inr ()"
  using assms
proof (induction ps arbitrary: off i)
  case (Cons p ps)
  from Cons.IH [of "off + length (pushed_bytes p)" "Suc i"] Cons.prems show ?case
    by (cases p) (simp_all add: add.assoc)
qed simp

lemma regions_from_slices:
  "map (\<lambda>r. slice_range key (pre @ payload_of ps @ post) (rg_bytes r)) (regions_from (length pre) ps) =
     map (\<lambda>p. Inr (pushed_bytes p)) ps"
proof (induction ps arbitrary: pre)
  case (Cons p ps)
  from Cons.IH [of "pre @ pushed_bytes p"] show ?case by (cases p) (simp_all add: slice_range_def)
qed simp

lemma sealed_payload:
  assumes "builder_of ps = Inr b" "\<forall>p\<in>set ps. valid_push p" "builder_seal b = Inr s" "length (payload_of ps) \<le> u64_max"
  obtains body where "sb_payload s = payload_of ps @ body @ be_bytes 4 (length ps) @ be_bytes 1 BUNDLE_FORMAT_VERSION @ be_bytes 4 (length body)"
    "sb_regions s = regions_from 0 ps" "ps \<noteq> []" "length ps < 2 ^ 32" "length body < 2 ^ 32"
    "reads (cur_repeat ft_region (length ps)) (regions_from 0 ps) body"
    "check_regions (regions_from 0 ps) (length (payload_of ps)) = Inr ()"
proof -
  note b = builder_of_state [OF assms(1)]
  from assms(3) b have seal: "regions_from 0 ps \<noteq> []" "encode_footer (regions_from 0 ps) (payload_of ps) = Inr (sb_payload s)"
    "sb_regions s = regions_from 0 ps" by (auto simp: builder_seal_def bindR_Inr_iff split: if_splits)
  from assms(2,4) b have "\<forall>r\<in>set (regions_from 0 ps). valid_region r" using regions_from_valid [of ps 0] by auto
  from footer_written [OF this seal(2)] obtain body
    where body: "sb_payload s = payload_of ps @ body @ be_bytes 4 (length ps) @ be_bytes 1 BUNDLE_FORMAT_VERSION @ be_bytes 4 (length body)"
      "length ps < 2 ^ 32" "length body < 2 ^ 32" "reads (cur_repeat ft_region (length ps)) (regions_from 0 ps) body"
    by auto
  have "check_regions (regions_from 0 ps) (length (payload_of ps)) = Inr ()"
    using check_regions_from [of ps 0 0] b assms(4) by (simp add: check_regions_def)
  moreover have "ps \<noteq> []" using seal(1) by auto
  ultimately show thesis using that body seal(3) by blast
qed

lemma sealed_reads_back:
  assumes "builder_of ps = Inr b" "\<forall>p\<in>set ps. valid_push p" "builder_seal b = Inr s" "length (payload_of ps) \<le> u64_max"
    and "k \<le> length (payload_of ps)"
  shows "parse_footer (drop k (sb_payload s)) (length (sb_payload s)) = Inr (sb_regions s) \<and>
    sb_regions s = regions_from 0 ps \<and>
    map (\<lambda>r. slice_range key (sb_payload s) (rg_bytes r)) (sb_regions s) = map (\<lambda>p. Inr (pushed_bytes p)) ps \<and>
    map (\<lambda>c. (cs_topic c, cs_partition c, cs_count c, cs_bytes c)) (sb_spans s) =
      map (\<lambda>r. (rg_topic r, rg_partition r, rg_record_count r, rg_bytes r)) (sb_regions s)"
proof -
  from sealed_payload [OF assms(1-4)] obtain body
    where s: "sb_payload s = payload_of ps @ body @ be_bytes 4 (length ps) @ be_bytes 1 BUNDLE_FORMAT_VERSION @ be_bytes 4 (length body)"
      "sb_regions s = regions_from 0 ps" "ps \<noteq> []" "length ps < 2 ^ 32" "length body < 2 ^ 32"
      "reads (cur_repeat ft_region (length ps)) (regions_from 0 ps) body"
      "check_regions (regions_from 0 ps) (length (payload_of ps)) = Inr ()" by blast
  have "drop k (sb_payload s) = drop k (payload_of ps) @ body @ be_bytes 4 (length ps) @ be_bytes 1 BUNDLE_FORMAT_VERSION @ be_bytes 4 (length body)"
    unfolding s(1) using assms(5) by simp
  moreover have "length (sb_payload s) = length (payload_of ps) + (length body + TRAILER_LEN)"
    unfolding s(1) by (simp add: TRAILER_LEN_def del: be_bytes.simps)
  ultimately have "parse_footer (drop k (sb_payload s)) (length (sb_payload s)) = Inr (sb_regions s)"
    using parse_written [of "regions_from 0 ps" body "drop k (payload_of ps)" "length (sb_payload s)"] s(2-7)
    by (cases ps) (simp_all del: be_bytes.simps)
  moreover have "map (\<lambda>r. slice_range key (sb_payload s) (rg_bytes r)) (sb_regions s) = map (\<lambda>p. Inr (pushed_bytes p)) ps"
    using regions_from_slices [of key "[]" ps] unfolding s(1,2) by simp
  moreover have "sb_spans s = builder_spans b" using assms(3) by (auto simp: builder_seal_def bindR_Inr_iff split: if_splits)
  then have "map (\<lambda>c. (cs_topic c, cs_partition c, cs_count c, cs_bytes c)) (sb_spans s) =
      map (\<lambda>r. (rg_topic r, rg_partition r, rg_record_count r, rg_bytes r)) (sb_regions s)"
    using builder_of_state [OF assms(1)] s(2)
    by (intro nth_equalityI) (simp_all add: builder_spans_def)
  ultimately show ?thesis using s(2) by blast
qed

text \<open>C12. A bundle reads back.  From the last bytes of a sealed bundle, as few as its footer and trailer or as
  many as all of it, the footer parser recovers exactly the regions that were pushed, in order; each
  region's range in the object holds exactly the bytes that were pushed for it, sealed or not; and the
  spans handed to the coordinator name the same partitions, counts and ranges.\<close>

theorem bundle_reads_back:
  assumes "builder_of ps = Inr b" "\<forall>p\<in>set ps. valid_push p" "builder_seal b = Inr s" "length (payload_of ps) \<le> u64_max"
    and "k \<le> length (payload_of ps)"
  shows "parse_footer (drop k (sb_payload s)) (length (sb_payload s)) = Inr (sb_regions s) \<and>
    sb_regions s = regions_from 0 ps \<and>
    map (\<lambda>r. slice_range key (sb_payload s) (rg_bytes r)) (sb_regions s) = map (\<lambda>p. Inr (pushed_bytes p)) ps \<and>
    map (\<lambda>c. (cs_topic c, cs_partition c, cs_count c, cs_bytes c)) (sb_spans s) =
      map (\<lambda>r. (rg_topic r, rg_partition r, rg_record_count r, rg_bytes r)) (sb_regions s)"
  by (rule sealed_reads_back [OF assms])

definition example_pushes :: "bundle_push list" where
  "example_pushes =
     [Plain ''t'' 0 \<lparr>pr_count = 2, pr_producer = None\<rparr> [1, 2, 3],
      SealedPush ''u'' 1 \<lparr>pr_count = 1, pr_producer = None\<rparr>
        \<lparr>sr_bytes = [4, 5], sr_alg = Aes256Gcm,
         sr_envelope = \<lparr>ev_key_id = ''k'', ev_wrapped_dek = [7], ev_nonce = replicate 12 0\<rparr>\<rparr>]"

lemma example_pushes_valid: "\<forall>p\<in>set example_pushes. valid_push p"
proof -
  have "utf8 ''t''" "utf8 ''u''" "utf8 ''k''" by (rule utf8_ascii, simp add: as_bytes_def)+
  then show ?thesis
    by (simp add: example_pushes_def valid_envelope_def valid_key_id_def is_ascii_graphic_def MAX_KEY_ID_LEN_def
        MAX_WRAPPED_DEK_LEN_def NONCE_BYTES_def)
qed

lemma example_bundle:
  obtains b s where "builder_of example_pushes = Inr b" "builder_seal b = Inr s"
proof -
  have "is_ok (bindR (builder_of example_pushes) builder_seal)"
    by (simp add: example_pushes_def builder_of_def builder_new_def builder_push_def builder_push_sealed_def admissible_def
        MAX_TOPIC_NAME_LEN_def byte_range_bounded_def builder_seal_def encode_footer_def encode_region_def encode_envelope_def
        put_name_def put_uint_def Let_def)
  then show thesis using that by (auto simp: is_ok_iff bindR_Inr_iff)
qed

theorem bundle_reads_back_witness:
  "\<exists>s. bindR (builder_of example_pushes) builder_seal = Inr s \<and>
     parse_footer (drop 5 (sb_payload s)) (length (sb_payload s)) = Inr (regions_from 0 example_pushes) \<and>
     map (\<lambda>r. slice_range ''o'' (sb_payload s) (rg_bytes r)) (regions_from 0 example_pushes) = [Inr [1, 2, 3], Inr [4, 5]]"
proof -
  obtain b s where bs: "builder_of example_pushes = Inr b" "builder_seal b = Inr s" by (rule example_bundle)
  have "length (payload_of example_pushes) \<le> u64_max" "5 \<le> length (payload_of example_pushes)"
    by (simp_all add: example_pushes_def)
  note r = bundle_reads_back [OF bs(1) example_pushes_valid bs(2) this, of "''o''"]
  then have "map (\<lambda>r. slice_range ''o'' (sb_payload s) (rg_bytes r)) (regions_from 0 example_pushes) =
      map (\<lambda>p. Inr (pushed_bytes p)) example_pushes" by (elim conjE) simp
  also have "\<dots> = [Inr [1, 2, 3], Inr [4, 5]]" by (simp add: example_pushes_def)
  finally show ?thesis using r bs by (intro exI [of _ s]) simp
qed

section \<open>What the parser accepts\<close>

definition in_region :: "region \<Rightarrow> nat \<Rightarrow> bool" where
  "in_region r j = (case rg_bytes r of Full \<Rightarrow> True | Bounded off len \<Rightarrow> off \<le> j \<and> j < off + len)"

fun tiled :: "nat \<Rightarrow> region list \<Rightarrow> nat \<Rightarrow> bool" where
  "tiled start [] end \<longleftrightarrow> start = end"
| "tiled start (r # rs) end \<longleftrightarrow>
     (\<exists>len. rg_bytes r = Bounded start len \<and> 0 < rg_record_count r \<and> tiled (start + len) rs end)"

lemma checked_tiled: "check_from rs i start end = Inr () \<Longrightarrow> tiled start rs end"
  by (induction rs i start "end" rule: check_from.induct) (auto split: byte_range.splits if_splits)

lemma tiled_le: "tiled start rs end \<Longrightarrow> start \<le> end"
  by (induction start rs "end" rule: tiled.induct) fastforce+

lemma tiled_cover: "tiled start rs end \<Longrightarrow> (\<exists>i<length rs. in_region (rs ! i) j) \<longleftrightarrow> start \<le> j \<and> j < end"
proof (induction start rs "end" rule: tiled.induct)
  case (2 start r rs "end")
  then obtain len where len: "rg_bytes r = Bounded start len" "tiled (start + len) rs end" by auto
  then have "in_region r j \<longleftrightarrow> start \<le> j \<and> j < start + len" by (simp add: in_region_def)
  with 2(1) [OF len(2)] tiled_le [OF len(2)] show ?case by (auto simp: Ex_less_Suc2)
qed auto

lemma tiled_disjoint:
  "tiled start rs end \<Longrightarrow> i < k \<Longrightarrow> k < length rs \<Longrightarrow> in_region (rs ! i) j \<Longrightarrow> \<not> in_region (rs ! k) j"
proof (induction start rs "end" arbitrary: i k rule: tiled.induct)
  case (2 start r rs "end")
  then obtain len where len: "rg_bytes r = Bounded start len" "tiled (start + len) rs end" by auto
  show ?case
  proof (cases i)
    case 0
    with 2(5) len(1) have "j < start + len" by (simp add: in_region_def)
    moreover from 2(3,4) obtain k' where "k = Suc k'" "k' < length rs" using 0 by (cases k) auto
    ultimately show ?thesis using tiled_cover [OF len(2), of j] by auto
  next
    case (Suc i')
    with 2(3,4) obtain k' where "k = Suc k'" "i' < k'" "k' < length rs" by (cases k) auto
    with 2(1) [OF len(2), of i' k'] 2(5) Suc show ?thesis by simp
  qed
qed simp

lemma parsed_tiled:
  assumes "parse_footer bytes osize = Inr regions"
  obtains payload_end where "payload_end + TRAILER_LEN \<le> osize" "tiled 0 regions payload_end" "regions \<noteq> []"
proof -
  from assms obtain m n c c' where r: "\<not> osize < m + TRAILER_LEN" "check_regions regions (osize - (m + TRAILER_LEN)) = Inr ()"
      "cur_repeat ft_region n c = Inr (regions, c')" "n \<noteq> 0" "cur_at c \<le> length (cur_bytes c)"
    by (auto simp: parse_footer_def Let_def bindR_Inr_iff split: if_splits)
  from codec.elements_written_back [OF region_codec r(3,5)] r(4) have "regions \<noteq> []" by auto
  with r(1,2) show thesis
    by (intro that [of "osize - (m + TRAILER_LEN)"]) (auto simp: check_regions_def dest: checked_tiled)
qed

lemma tiled_counts: "tiled start rs end \<Longrightarrow> list_all (\<lambda>r. 0 < rg_record_count r) rs"
  by (induction start rs "end" rule: tiled.induct) auto



text \<open>A tail that is too short is never called corruption.  On any suffix of a sealed bundle that does not
  reach back to the footer's first byte, the parser answers that the tail is too short and names a number
  of bytes the object has; once the suffix holds the trailer, it is exactly the number that is enough.\<close>

lemma short_tail_is_told_how_much:
  assumes "builder_of ps = Inr b" "\<forall>p\<in>set ps. valid_push p" "builder_seal b = Inr s" "length (payload_of ps) \<le> u64_max"
    and "length (payload_of ps) < k" "k \<le> length (sb_payload s)"
  shows "parse_footer (drop k (sb_payload s)) (length (sb_payload s)) =
    Inl (BundleTailTooShort (length (sb_payload s) - k)
      (if length (sb_payload s) - k < TRAILER_LEN then TRAILER_LEN else length (sb_payload s) - length (payload_of ps)))"
proof -
  from sealed_payload [OF assms(1-4)] obtain body
    where s: "sb_payload s = payload_of ps @ body @ be_bytes 4 (length ps) @ be_bytes 1 BUNDLE_FORMAT_VERSION @ be_bytes 4 (length body)"
      "ps \<noteq> []" "length ps < 2 ^ 32" "length body < 2 ^ 32" by blast
  have total: "length (sb_payload s) = length (payload_of ps) + (length body + TRAILER_LEN)"
    unfolding s(1) by (simp add: TRAILER_LEN_def del: be_bytes.simps)
  show ?thesis
  proof (cases "length (sb_payload s) - k < TRAILER_LEN")
    case True
    then show ?thesis using total by (simp add: parse_footer_def short_tail_or_corrupt_def)
  next
    case False
    define cut where "cut = k - length (payload_of ps)"
    have cut: "0 < cut" "cut \<le> length body" using False assms(5,6) total by (auto simp: cut_def)
    have "drop k (sb_payload s) = drop cut body @ be_bytes 4 (length ps) @ be_bytes 1 BUNDLE_FORMAT_VERSION @ be_bytes 4 (length body)"
      unfolding s(1) cut_def using assms(5) cut(2) by (simp add: cut_def del: be_bytes.simps)
    moreover have "length (drop cut body) < length body" using cut by simp
    moreover have "length (drop cut body) + TRAILER_LEN = length (sb_payload s) - k"
      "length body + TRAILER_LEN = length (sb_payload s) - length (payload_of ps)"
      using cut total assms(5) by (simp_all add: cut_def)
    ultimately show ?thesis
      using parse_trailer [OF s(3,4), of "drop cut body" "length (sb_payload s)"] s(2) False
      by (simp only: short_tail_or_corrupt_def if_True if_False length_0_conv) simp
  qed
qed


end
