(* ===== verification/Bundle_Stream.thy ===== *)
theory Bundle_Stream
  imports Bundle_Round_Trip
begin

text \<open>
  Assembling a bundled object without holding it (\<open>bundle_stream.rs\<close>): bytes go to a multipart writer in
  parts as they fill, the footer goes last.  The trait \<open>MultipartWriter\<close> of \<open>store.rs\<close> is the locale
  \<open>multipart_writer\<close>, interpreted on the writer of \<open>store/fake.rs\<close> with the faults it can show.
\<close>

section \<open>The writer\<close>

locale multipart_writer =
  fixes contents :: "'w \<Rightarrow> byte list"
    and write_part :: "'w \<Rightarrow> byte list \<Rightarrow> unit result \<times> 'w"
  assumes part_appends: "write_part w part = (Inr (), w') \<Longrightarrow> contents w' = contents w @ part"

text \<open>The fake's writer, with the answers its fault schedule will give.\<close>

record fake_writer =
  fw_parts :: "byte list"
  fw_poisoned :: bool
  fw_storms :: "error option list"

definition fake_write_part :: "fake_writer \<Rightarrow> byte list \<Rightarrow> unit result \<times> fake_writer" where
  "fake_write_part self part =
     (if fw_poisoned self then (Inl Permanent, self)
      else case fw_storms self of
             Some e # storms \<Rightarrow> (Inl e, self\<lparr>fw_poisoned := True, fw_storms := storms\<rparr>)
           | None # storms \<Rightarrow> (Inr (), self\<lparr>fw_parts := fw_parts self @ part, fw_storms := storms\<rparr>)
           | [] \<Rightarrow> (Inr (), self\<lparr>fw_parts := fw_parts self @ part\<rparr>))"

definition fake_finish :: "object_key \<Rightarrow> store \<Rightarrow> fake_writer \<Rightarrow> (nat \<times> store) result" where
  "fake_finish key slots self =
     (if fw_poisoned self then Inl Permanent
      else if fw_parts self = [] then Inl EmptyBundle
      else case store_put slots key (fw_parts self) None of
             (Inl e, _) \<Rightarrow> Inl e
           | (Inr token, slots') \<Rightarrow> Inr (token, slots'))"

interpretation fake_writer: multipart_writer fw_parts fake_write_part
  by unfold_locales (auto simp: fake_write_part_def split: if_splits list.splits option.splits)

section \<open>The stream\<close>

definition BUNDLE_PART_BYTES :: nat where
  "BUNDLE_PART_BYTES = 8388608"

record 'w bundle_stream =
  bs_writer :: 'w
  bs_regions :: bundle_builder
  bs_buffer :: "byte list"
  bs_written :: nat
  bs_parts :: nat

definition stream_open :: "'w \<Rightarrow> 'w bundle_stream" where
  "stream_open writer = \<lparr>bs_writer = writer, bs_regions = builder_new, bs_buffer = [], bs_written = 0, bs_parts = 0\<rparr>"

lemma part_positive [simp]: "0 < BUNDLE_PART_BYTES"
  by (simp add: BUNDLE_PART_BYTES_def)

function flush_parts ::
  "('w \<Rightarrow> byte list \<Rightarrow> unit result \<times> 'w) \<Rightarrow> 'w bundle_stream \<Rightarrow> unit result \<times> 'w bundle_stream" where
  "flush_parts write_part self =
     (if length (bs_buffer self) \<ge> BUNDLE_PART_BYTES
      then let part = take BUNDLE_PART_BYTES (bs_buffer self);
               self = self\<lparr>bs_buffer := drop BUNDLE_PART_BYTES (bs_buffer self)\<rparr>
           in case write_part (bs_writer self) part of
                (Inl e, writer) \<Rightarrow> (Inl e, self\<lparr>bs_writer := writer\<rparr>)
              | (Inr _, writer) \<Rightarrow> flush_parts write_part (self\<lparr>bs_writer := writer, bs_parts := bs_parts self + 1\<rparr>)
      else (Inr (), self))"
  by pat_completeness auto
termination
  by (relation "measure (\<lambda>(_, self). length (bs_buffer self))") (auto simp: BUNDLE_PART_BYTES_def)

declare flush_parts.simps [simp del]

definition stream_push ::
  "('w \<Rightarrow> byte list \<Rightarrow> unit result \<times> 'w) \<Rightarrow> 'w bundle_stream \<Rightarrow> topic_id \<Rightarrow> partition_id \<Rightarrow> pushed_records \<Rightarrow>
     byte list \<Rightarrow> unit result \<times> 'w bundle_stream" where
  "stream_push write_part self topic part pushed records =
     (case builder_push_streamed (bs_regions self) topic part pushed (bs_written self, length records) of
        Inl e \<Rightarrow> (Inl e, self)
      | Inr regions \<Rightarrow>
          flush_parts write_part (self\<lparr>bs_regions := regions, bs_buffer := bs_buffer self @ records,
            bs_written := min u64_max (bs_written self + length records)\<rparr>))"

definition stream_push_sealed ::
  "('w \<Rightarrow> byte list \<Rightarrow> unit result \<times> 'w) \<Rightarrow> 'w bundle_stream \<Rightarrow> topic_id \<Rightarrow> partition_id \<Rightarrow> pushed_records \<Rightarrow>
     sealed_region \<Rightarrow> unit result \<times> 'w bundle_stream" where
  "stream_push_sealed write_part self topic part pushed sealed =
     (case builder_push_sealed (bs_regions self) topic part pushed sealed of
        Inl e \<Rightarrow> (Inl e, self)
      | Inr regions \<Rightarrow>
          flush_parts write_part (self\<lparr>bs_regions := regions, bs_buffer := bs_buffer self @ sr_bytes sealed,
            bs_written := min u64_max (bs_written self + length (sr_bytes sealed))\<rparr>))"

record written =
  wr_bytes :: nat
  wr_parts :: nat

definition stream_finish ::
  "('w \<Rightarrow> byte list \<Rightarrow> unit result \<times> 'w) \<Rightarrow> ('w \<Rightarrow> 'm result) \<Rightarrow> 'w bundle_stream \<Rightarrow>
     (committed_span list \<times> written \<times> 'm) result" where
  "stream_finish write_part finish self =
     bindR (into_footer (bs_regions self)) (\<lambda>(footer, spans).
       case write_part (bs_writer self) (bs_buffer self @ footer) of
         (Inl e, _) \<Rightarrow> Inl e
       | (Inr _, writer) \<Rightarrow>
           bindR (finish writer) (\<lambda>meta.
             Inr (spans, \<lparr>wr_bytes = bs_written self, wr_parts = bs_parts self + 1\<rparr>, meta)))"

section \<open>What a stream has written\<close>

fun stream_one ::
  "('w \<Rightarrow> byte list \<Rightarrow> unit result \<times> 'w) \<Rightarrow> 'w bundle_stream \<Rightarrow> bundle_push \<Rightarrow> unit result \<times> 'w bundle_stream" where
  "stream_one write_part self (Plain topic part pushed records) = stream_push write_part self topic part pushed records"
| "stream_one write_part self (SealedPush topic part pushed sealed) = stream_push_sealed write_part self topic part pushed sealed"

fun stream_all ::
  "('w \<Rightarrow> byte list \<Rightarrow> unit result \<times> 'w) \<Rightarrow> 'w bundle_stream \<Rightarrow> bundle_push list \<Rightarrow> unit result \<times> 'w bundle_stream" where
  "stream_all write_part self [] = (Inr (), self)"
| "stream_all write_part self (p # ps) =
     (case stream_one write_part self p of
        (Inl e, self) \<Rightarrow> (Inl e, self)
      | (Inr _, self) \<Rightarrow> stream_all write_part self ps)"

fun is_sealed :: "bundle_push \<Rightarrow> bool" where
  "is_sealed (Plain _ _ _ _) \<longleftrightarrow> False"
| "is_sealed (SealedPush _ _ _ _) \<longleftrightarrow> True"

definition one_kind :: "bundle_push list \<Rightarrow> bool" where
  "one_kind ps \<longleftrightarrow> list_all is_sealed ps \<or> list_all (\<lambda>p. \<not> is_sealed p) ps"

context multipart_writer
begin

definition flushed :: "byte list \<Rightarrow> 'w bundle_stream \<Rightarrow> bool" where
  "flushed sent self \<longleftrightarrow>
     contents (bs_writer self) @ bs_buffer self = sent \<and> length (contents (bs_writer self)) = bs_parts self * BUNDLE_PART_BYTES"

lemma flush_keeps:
  "flush_parts write_part self = (Inr (), self') \<Longrightarrow> flushed sent self \<Longrightarrow>
     flushed sent self' \<and> length (bs_buffer self') < BUNDLE_PART_BYTES \<and>
     bs_regions self' = bs_regions self \<and> bs_written self' = bs_written self"
proof (induction "length (bs_buffer self)" arbitrary: self rule: less_induct)
  case less
  show ?case
  proof (cases "length (bs_buffer self) \<ge> BUNDLE_PART_BYTES")
    case False
    with less.prems show ?thesis by (auto simp: flush_parts.simps)
  next
    case True
    let ?part = "take BUNDLE_PART_BYTES (bs_buffer self)"
    from True less.prems(1) obtain w where w: "write_part (bs_writer self) ?part = (Inr (), w)"
      by (cases "write_part (bs_writer self) ?part"; cases "fst (write_part (bs_writer self) ?part)")
        (auto simp: flush_parts.simps [of _ self] Let_def)
    let ?next = "self\<lparr>bs_buffer := drop BUNDLE_PART_BYTES (bs_buffer self), bs_writer := w, bs_parts := bs_parts self + 1\<rparr>"
    have "flush_parts write_part ?next = (Inr (), self')"
      using True less.prems(1) w by (simp add: flush_parts.simps [of _ self] Let_def)
    moreover have "flushed sent ?next"
      using less.prems(2) part_appends [OF w] True by (simp add: flushed_def)
    moreover have "length (bs_buffer ?next) < length (bs_buffer self)" using True by (simp add: BUNDLE_PART_BYTES_def)
    ultimately show ?thesis using less.hyps [of ?next] by simp
  qed
qed

text \<open>After the pushes \<open>ps\<close>.\<close>

definition holds :: "bundle_push list \<Rightarrow> 'w bundle_stream \<Rightarrow> bool" where
  "holds ps self \<longleftrightarrow>
     flushed (payload_of ps) self \<and> length (bs_buffer self) < BUNDLE_PART_BYTES \<and> bs_written self = length (payload_of ps) \<and>
     bb_regions (bs_regions self) = regions_from 0 ps \<and> bb_producers (bs_regions self) = map pushed_producer ps \<and>
     bb_payload (bs_regions self) = payload_of (filter is_sealed ps)"

lemma holds_open: "contents w = [] \<Longrightarrow> holds [] (stream_open w)"
  by (simp add: holds_def flushed_def stream_open_def builder_new_def)

lemma one_kind_sealed:
  assumes "one_kind (ps @ [p])" "is_sealed p"
  shows "filter is_sealed ps = ps"
  using assms by (auto simp: one_kind_def list_all_iff filter_id_conv)

lemma stream_one_holds:
  assumes "stream_one write_part self p = (Inr (), self')" "holds ps self" "one_kind (ps @ [p])"
    and "length (payload_of (ps @ [p])) \<le> u64_max"
  shows "holds (ps @ [p]) self'"
proof -
  note h = assms(2) [unfolded holds_def]
  have fits: "min u64_max (bs_written self + length (pushed_bytes p)) = length (payload_of (ps @ [p]))"
    using assms(4) h by simp
  obtain mid where mid: "flush_parts write_part mid = (Inr (), self')" "flushed (payload_of (ps @ [p])) mid"
      "bs_written mid = length (payload_of (ps @ [p]))"
      "bb_regions (bs_regions mid) = regions_from 0 (ps @ [p])" "bb_producers (bs_regions mid) = map pushed_producer (ps @ [p])"
      "bb_payload (bs_regions mid) = payload_of (filter is_sealed (ps @ [p]))"
  proof (cases p)
    case (Plain topic part pushed records)
    with assms(1) obtain regions where r: "builder_push_streamed (bs_regions self) topic part pushed (bs_written self, length records) = Inr regions"
      "flush_parts write_part (self\<lparr>bs_regions := regions, bs_buffer := bs_buffer self @ records,
            bs_written := min u64_max (bs_written self + length records)\<rparr>) = (Inr (), self')"
      by (auto simp: stream_push_def split: sum.splits)
    from r(1) h Plain fits show thesis
      by (intro that [OF r(2)])
        (auto simp: flushed_def builder_push_streamed_def bindR_Inr_iff byte_range_bounded_def regions_from_append split: if_splits)
  next
    case (SealedPush topic part pushed sealed)
    with assms(1) obtain regions where r: "builder_push_sealed (bs_regions self) topic part pushed sealed = Inr regions"
      "flush_parts write_part (self\<lparr>bs_regions := regions, bs_buffer := bs_buffer self @ sr_bytes sealed,
            bs_written := min u64_max (bs_written self + length (sr_bytes sealed))\<rparr>) = (Inr (), self')"
      by (auto simp: stream_push_sealed_def split: sum.splits)
    have "filter is_sealed ps = ps" using one_kind_sealed [OF assms(3)] SealedPush by simp
    with r(1) h SealedPush fits show thesis
      by (intro that [OF r(2)])
        (auto simp: flushed_def builder_push_sealed_def bindR_Inr_iff byte_range_bounded_def regions_from_append split: if_splits)
  qed
  from flush_keeps [OF mid(1,2)] mid(3-) show ?thesis by (simp add: holds_def)
qed

lemma stream_all_holds:
  assumes "stream_all write_part self ps = (Inr (), self')" "holds sent self" "one_kind (sent @ ps)"
    and "length (payload_of (sent @ ps)) \<le> u64_max"
  shows "holds (sent @ ps) self'"
  using assms
proof (induction ps arbitrary: self sent)
  case (Cons p ps)
  then obtain mid where mid: "stream_one write_part self p = (Inr (), mid)" "stream_all write_part mid ps = (Inr (), self')"
    by (auto split: prod.splits sum.splits)
  have "one_kind (sent @ [p])" using Cons.prems(3) by (auto simp: one_kind_def)
  from stream_one_holds [OF mid(1) Cons.prems(2) this] Cons.prems(4) have "holds (sent @ [p]) mid" by simp
  from Cons.IH [OF mid(2) this] Cons.prems(3,4) show ?case by simp
qed simp

text \<open>A push that the builder accepts is refused by the writer only.\<close>

lemma flush_refused:
  "flush_parts write_part self = (Inl e, self') \<Longrightarrow> \<exists>w part. fst (write_part w part) = Inl e"
proof (induction "length (bs_buffer self)" arbitrary: self rule: less_induct)
  case less
  then have full: "length (bs_buffer self) \<ge> BUNDLE_PART_BYTES" by (auto simp: flush_parts.simps split: if_splits)
  let ?part = "take BUNDLE_PART_BYTES (bs_buffer self)"
  obtain r w where w: "write_part (bs_writer self) ?part = (r, w)" by fastforce
  show ?case
  proof (cases r)
    case (Inl e')
    with less.prems full w have "fst (write_part (bs_writer self) ?part) = Inl e" by (simp add: flush_parts.simps [of _ self] Let_def)
    then show ?thesis by blast
  next
    case (Inr u)
    let ?next = "self\<lparr>bs_buffer := drop BUNDLE_PART_BYTES (bs_buffer self), bs_writer := w, bs_parts := bs_parts self + 1\<rparr>"
    have "length (bs_buffer ?next) < length (bs_buffer self)" using full by (simp add: BUNDLE_PART_BYTES_def)
    from less.hyps [OF this] less.prems full w Inr show ?thesis by (simp add: flush_parts.simps [of _ self] Let_def)
  qed
qed

lemma stream_one_refused:
  assumes "stream_one write_part self p = (Inl e, self')" "push_one b p = Inr b'"
  shows "\<exists>w part. fst (write_part w part) = Inl e"
proof (cases p)
  case (Plain topic part pushed records)
  with assms(2) have "is_ok (builder_push_streamed (bs_regions self) topic part pushed (bs_written self, length records))"
    by (auto simp: builder_push_def builder_push_streamed_def byte_range_bounded_def is_ok_iff bindR_Inr_iff split: if_splits)
  with Plain assms(1) show ?thesis by (auto simp: is_ok_iff stream_push_def dest: flush_refused)
next
  case (SealedPush topic part pushed sealed)
  with assms(2) have "is_ok (builder_push_sealed (bs_regions self) topic part pushed sealed)"
    by (auto simp: builder_push_sealed_def byte_range_bounded_def is_ok_iff bindR_Inr_iff split: if_splits)
  with SealedPush assms(1) show ?thesis by (auto simp: is_ok_iff stream_push_sealed_def dest: flush_refused)
qed

lemma stream_all_refused:
  assumes "stream_all write_part self ps = (Inl e, self')" "foldR push_one b ps = Inr b'"
  shows "\<exists>w part. fst (write_part w part) = Inl e"
  using assms
proof (induction ps arbitrary: b self)
  case (Cons p ps)
  then obtain b1 where b1: "push_one b p = Inr b1" "foldR push_one b1 ps = Inr b'" by (auto simp: bindR_Inr_iff)
  obtain r mid where mid: "stream_one write_part self p = (r, mid)" by fastforce
  show ?case
  proof (cases r)
    case (Inl e')
    with stream_one_refused [of self p e' mid b b1] b1(1) mid Cons.prems(1) show ?thesis by simp
  next
    case (Inr u)
    with Cons.IH [OF _ b1(2), of mid] mid Cons.prems(1) show ?thesis by simp
  qed
qed simp

end

section \<open>The streamed object\<close>

text \<open>A whole stream: open, every push, finish; the object is what the writer has taken.\<close>

definition streamed ::
  "('w \<Rightarrow> byte list) \<Rightarrow> ('w \<Rightarrow> byte list \<Rightarrow> unit result \<times> 'w) \<Rightarrow> 'w \<Rightarrow> bundle_push list \<Rightarrow>
     (committed_span list \<times> written \<times> byte list) result" where
  "streamed contents write_part w ps =
     (case stream_all write_part (stream_open w) ps of
        (Inl e, _) \<Rightarrow> Inl e
      | (Inr _, self) \<Rightarrow> stream_finish write_part (\<lambda>w. Inr (contents w)) self)"

lemma encode_footer_out:
  assumes "\<forall>r\<in>set regions. valid_region r" "encode_footer regions out = Inr payload"
  obtains footer where "encode_footer regions [] = Inr footer" "payload = out @ footer"
proof -
  from assms(2) have "is_ok (foldR encode_region out regions)" by (auto simp: encode_footer_def bindR_Inr_iff is_ok_iff)
  from codec.elements_read_back [OF region_codec assms(1) this] obtain body
    where b: "\<forall>out. foldR encode_region out regions = Inr (out @ body)" by blast
  with assms(2) show thesis by (intro that) (auto simp: encode_footer_def Let_def split: if_splits)
qed

lemma streamed_sealed:
  assumes "multipart_writer contents write_part" "contents w = []"
    and "one_kind ps" "\<forall>p\<in>set ps. valid_push p" "length (payload_of ps) \<le> u64_max"
    and "builder_of ps = Inr b" "builder_seal b = Inr s"
  shows "case streamed contents write_part w ps of
      Inl e \<Rightarrow> (\<exists>w part. fst (write_part w part) = Inl e)
    | Inr (spans, wr, object) \<Rightarrow> object = sb_payload s \<and> spans = sb_spans s \<and>
        wr = \<lparr>wr_bytes = length (payload_of ps), wr_parts = length (payload_of ps) div BUNDLE_PART_BYTES + 1\<rparr>"
proof -
  note b = builder_of_state [OF assms(6)]
  have valid: "\<forall>r\<in>set (regions_from 0 ps). valid_region r" using regions_from_valid [of ps 0] assms(4,5) b by auto
  from assms(7) b have seal: "regions_from 0 ps \<noteq> []" "encode_footer (regions_from 0 ps) (payload_of ps) = Inr (sb_payload s)"
    "sb_spans s = builder_spans b" by (auto simp: builder_seal_def bindR_Inr_iff split: if_splits)
  obtain footer where footer: "encode_footer (regions_from 0 ps) [] = Inr footer" "sb_payload s = payload_of ps @ footer"
    by (rule encode_footer_out [OF valid seal(2)])
  obtain r self where run: "stream_all write_part (stream_open w) ps = (r, self)" by fastforce
  show ?thesis
  proof (cases r)
    case (Inl e)
    with run multipart_writer.stream_all_refused [OF assms(1), of "stream_open w" ps e self builder_new b] assms(6)
    show ?thesis by (simp add: streamed_def builder_of_def)
  next
    case (Inr u)
    with run multipart_writer.stream_all_holds [OF assms(1), of "stream_open w" ps self "[]"]
      multipart_writer.holds_open [OF assms(1,2)] assms(3,5)
    have h: "multipart_writer.holds contents ps self" by simp
    note h = h [unfolded multipart_writer.holds_def [OF assms(1)] multipart_writer.flushed_def [OF assms(1)]]
    have "length (payload_of ps) = bs_parts self * BUNDLE_PART_BYTES + length (bs_buffer self)"
      using h by (metis length_append)
    then have parts: "length (payload_of ps) div BUNDLE_PART_BYTES = bs_parts self" using h by simp
    have "builder_spans (bs_regions self) = builder_spans b" using h b by (simp add: builder_spans_def)
    with h seal footer have into: "into_footer (bs_regions self) = Inr (footer, sb_spans s)" by (simp add: into_footer_def)
    obtain r' w' where wp: "write_part (bs_writer self) (bs_buffer self @ footer) = (r', w')" by fastforce
    show ?thesis
    proof (cases r')
      case (Inl e)
      with run Inr into wp show ?thesis
        by (auto simp: streamed_def stream_finish_def intro!: exI [of _ "bs_writer self"] exI [of _ "bs_buffer self @ footer"])
    next
      case (Inr u)
      with multipart_writer.part_appends [OF assms(1)] wp have "contents w' = contents (bs_writer self) @ bs_buffer self @ footer"
        by simp
      with h have "contents w' = sb_payload s" by (metis append_assoc footer(2))
      with run \<open>r = Inr _\<close> into wp Inr parts h show ?thesis by (simp add: streamed_def stream_finish_def)
    qed
  qed
qed

text \<open>A push the stream accepts is one the builder accepts.\<close>

lemma stream_one_accepted:
  assumes "stream_one write_part self p = (Inr (), self')"
  shows "is_ok (push_one b p)"
proof (cases p)
  case (Plain topic part pushed records)
  with assms show ?thesis
    by (auto simp: stream_push_def builder_push_def builder_push_streamed_def byte_range_bounded_def is_ok_iff bindR_Inr_iff
        split: if_splits sum.splits)
next
  case (SealedPush topic part pushed sealed)
  with assms show ?thesis
    by (auto simp: stream_push_sealed_def builder_push_sealed_def byte_range_bounded_def is_ok_iff bindR_Inr_iff
        split: if_splits sum.splits)
qed

lemma stream_all_accepted:
  "stream_all write_part self ps = (Inr (), self') \<Longrightarrow> is_ok (foldR push_one b ps)"
proof (induction ps arbitrary: self b)
  case (Cons p ps)
  then obtain mid where mid: "stream_one write_part self p = (Inr (), mid)" "stream_all write_part mid ps = (Inr (), self')"
    by (auto split: prod.splits sum.splits)
  from stream_one_accepted [OF mid(1), of b] obtain b' where "push_one b p = Inr b'" by (auto simp: is_ok_iff)
  with Cons.IH [OF mid(2), of b'] show ?case by simp
qed simp

lemma stream_all_append:
  "stream_all write_part self ps = (Inr (), mid) \<Longrightarrow> stream_all write_part self (ps @ qs) = stream_all write_part mid qs"
  by (induction ps arbitrary: self) (auto split: prod.splits sum.splits)

lemma streamed_seals:
  assumes "multipart_writer contents write_part" "contents w = []"
    and "one_kind ps" "\<forall>p\<in>set ps. valid_push p" "length (payload_of ps) \<le> u64_max"
    and "streamed contents write_part w ps = Inr (spans, wr, object)"
  obtains b s where "builder_of ps = Inr b" "builder_seal b = Inr s" "object = sb_payload s" "spans = sb_spans s"
    "wr = \<lparr>wr_bytes = length (payload_of ps), wr_parts = length (payload_of ps) div BUNDLE_PART_BYTES + 1\<rparr>"
proof -
  from assms(6) obtain self where run: "stream_all write_part (stream_open w) ps = (Inr (), self)"
      "is_ok (into_footer (bs_regions self))"
    by (cases "stream_all write_part (stream_open w) ps"; cases "fst (stream_all write_part (stream_open w) ps)")
      (auto simp: streamed_def stream_finish_def is_ok_iff bindR_Inr_iff)
  from stream_all_accepted [OF run(1), of builder_new] obtain b where b: "builder_of ps = Inr b"
    by (auto simp: builder_of_def is_ok_iff)
  note state = builder_of_state [OF b]
  have valid: "\<forall>r\<in>set (regions_from 0 ps). valid_region r" using regions_from_valid [of ps 0] assms(4,5) state by auto
  have "multipart_writer.holds contents ps self"
    using multipart_writer.stream_all_holds [OF assms(1) run(1), of "[]"] multipart_writer.holds_open [OF assms(1,2)] assms(3,5)
    by simp
  then have "bb_regions (bs_regions self) = regions_from 0 ps" by (simp add: multipart_writer.holds_def [OF assms(1)])
  with run(2) have ok: "is_ok (encode_footer (regions_from 0 ps) [])" "regions_from 0 ps \<noteq> []"
    by (auto simp: into_footer_def is_ok_iff bindR_Inr_iff split: if_splits)
  then have "is_ok (foldR encode_region [] (regions_from 0 ps))" by (auto simp: encode_footer_def bindR_Inr_iff is_ok_iff)
  from codec.elements_read_back [OF region_codec valid this] obtain body
    where body: "\<forall>out. foldR encode_region out (regions_from 0 ps) = Inr (out @ body)" by blast
  with ok(1) have "is_ok (encode_footer (regions_from 0 ps) (payload_of ps))"
    by (auto simp: encode_footer_def Let_def is_ok_iff split: if_splits)
  with ok(2) state obtain s where s: "builder_seal b = Inr s" by (auto simp: builder_seal_def is_ok_iff)
  from streamed_sealed [OF assms(1-5) b s] assms(6) b s that show thesis by simp
qed





end
