(* ===== verification/Object_Names.thy ===== *)
theory Object_Names
  imports Object_Store
begin

text \<open>
  Naming the objects that are written without a precondition: flushed bundles (\<open>bundle_name.rs\<close>) and
  compacted objects (\<open>oqueue-compact/src/namer.rs\<close>).  What both promise is the locale \<open>key_namer\<close>: a key
  is a function of the writer's identity and of a sequence that never goes back.
\<close>

section \<open>The two namers\<close>

record bundle_namer =
  bn_writer :: string
  bn_next :: nat

definition bundle_namer_new :: "string \<Rightarrow> bundle_namer result" where
  "bundle_namer_new writer =
     (if writer = [] then Inl EmptyObjectKey
      else if CHR ''/'' \<in> set writer then Inl MalformedWriterId
      else Inr \<lparr>bn_writer = writer, bn_next = 0\<rparr>)"

definition bundle_next_key :: "bundle_namer \<Rightarrow> object_key result \<times> bundle_namer" where
  "bundle_next_key self =
     (let sequence = bn_next self
      in if sequence + 1 > u64_max then (Inl BundleSequenceExhausted, self)
         else (object_key_new (seq_key ''bundles'' (bn_writer self) sequence), self\<lparr>bn_next := sequence + 1\<rparr>))"

definition COMPACTED_PREFIX :: string where
  "COMPACTED_PREFIX = ''compacted''"

record compaction_namer =
  cn_writer :: string
  cn_next :: nat

definition compaction_namer_new :: "string \<Rightarrow> compaction_namer result" where
  "compaction_namer_new writer =
     (if writer = [] then Inl EmptyObjectKey
      else if CHR ''/'' \<in> set writer then Inl MalformedWriterId
      else Inr \<lparr>cn_writer = writer, cn_next = 0\<rparr>)"

definition compaction_next_key :: "compaction_namer \<Rightarrow> object_key result \<times> compaction_namer" where
  "compaction_next_key self =
     (let sequence = cn_next self
      in if sequence + 1 > u64_max then (Inl BundleSequenceExhausted, self)
         else (object_key_new (seq_key COMPACTED_PREFIX (cn_writer self) sequence), self\<lparr>cn_next := sequence + 1\<rparr>))"

section \<open>Keys are never reused\<close>

text \<open>Several writers, each with its namer, asked in any order.\<close>

fun mint_all :: "('n \<Rightarrow> object_key result \<times> 'n) \<Rightarrow> ('i \<Rightarrow> 'n) \<Rightarrow> 'i list \<Rightarrow> object_key list" where
  "mint_all next_key namers [] = []"
| "mint_all next_key namers (i # is) =
     (case next_key (namers i) of
        (Inl _, namer) \<Rightarrow> mint_all next_key (namers(i := namer)) is
      | (Inr key, namer) \<Rightarrow> key # mint_all next_key (namers(i := namer)) is)"

lemma slash_split:
  assumes "CHR ''/'' \<notin> set u" "CHR ''/'' \<notin> set v"
  shows "u @ CHR ''/'' # x = v @ CHR ''/'' # y \<longleftrightarrow> u = v \<and> x = y"
proof
  assume "u @ CHR ''/'' # x = v @ CHR ''/'' # y"
  then show "u = v \<and> x = y" using assms
    by (induction u arbitrary: v) (case_tac v; auto)+
qed simp

lemma seq_key_writer_inject:
  assumes "CHR ''/'' \<notin> set u" "CHR ''/'' \<notin> set v"
  shows "seq_key prefix u m = seq_key prefix v n \<longleftrightarrow> u = v \<and> m = n"
  using slash_split [OF assms] by (auto simp: seq_key_def pad20_inject)

locale key_namer =
  fixes next_key :: "'n \<Rightarrow> object_key result \<times> 'n"
    and writer :: "'n \<Rightarrow> string"
    and sequence :: "'n \<Rightarrow> nat"
    and key_of :: "string \<Rightarrow> nat \<Rightarrow> object_key"
  assumes minted: "next_key n = (Inr key, n') \<Longrightarrow>
      key = key_of (writer n) (sequence n) \<and> writer n' = writer n \<and> sequence n' = Suc (sequence n)"
    and refused: "next_key n = (Inl e, n') \<Longrightarrow> n' = n"
    and key_of_inject: "CHR ''/'' \<notin> set u \<Longrightarrow> CHR ''/'' \<notin> set v \<Longrightarrow> key_of u k = key_of v l \<longleftrightarrow> u = v \<and> k = l"
begin

lemma minted_names:
  "key \<in> set (mint_all next_key namers is) \<Longrightarrow> \<exists>i k. sequence (namers i) \<le> k \<and> key = key_of (writer (namers i)) k"
proof (induction "is" arbitrary: namers)
  case (Cons i "is")
  obtain r n where step: "next_key (namers i) = (r, n)" by fastforce
  have later: "\<exists>j k. sequence (namers j) \<le> k \<and> key = key_of (writer (namers j)) k"
    if "key \<in> set (mint_all next_key (namers(i := n)) is)"
    using Cons.IH [OF that] refused [of "namers i" _ n] minted [of "namers i" _ n] step
    by (cases r) (auto split: if_splits dest: Suc_leD)
  show ?case
  proof (cases r)
    case (Inl e)
    with Cons.prems step later show ?thesis by simp
  next
    case (Inr k)
    with Cons.prems step later minted [of "namers i" k n] show ?thesis by auto
  qed
qed simp

lemma minted_distinct:
  assumes "inj (\<lambda>i. writer (namers i))" "\<And>i. CHR ''/'' \<notin> set (writer (namers i))"
  shows "distinct (mint_all next_key namers is)"
  using assms
proof (induction "is" arbitrary: namers)
  case (Cons i "is")
  obtain r n where step: "next_key (namers i) = (r, n)" by fastforce
  have same: "writer ((namers(i := n)) j) = writer (namers j)" for j
    using refused [of "namers i" _ n] minted [of "namers i" _ n] step by (cases r) auto
  have rest: "distinct (mint_all next_key (namers(i := n)) is)"
    using Cons.IH [of "namers(i := n)", unfolded same] Cons.prems by blast
  show ?case
  proof (cases r)
    case (Inl e)
    with rest step show ?thesis by simp
  next
    case (Inr key)
    with step minted [of "namers i" key n] have m: "key = key_of (writer (namers i)) (sequence (namers i))"
      "sequence n = Suc (sequence (namers i))" by auto
    have "key \<notin> set (mint_all next_key (namers(i := n)) is)"
    proof
      assume "key \<in> set (mint_all next_key (namers(i := n)) is)"
      from minted_names [OF this] obtain j k where j: "sequence ((namers(i := n)) j) \<le> k"
          "key = key_of (writer (namers j)) k" by (auto simp only: same)
      with m(1) key_of_inject [OF Cons.prems(2) Cons.prems(2)]
      have "writer (namers i) = writer (namers j)" "k = sequence (namers i)" by auto
      with injD [OF Cons.prems(1)] j(1) m(2) show False by fastforce
    qed
    with rest step Inr show ?thesis by simp
  qed
qed simp

end

interpretation bundles: key_namer bundle_next_key bn_writer bn_next "seq_key ''bundles''"
  by unfold_locales (auto simp: bundle_next_key_def Let_def seq_key_writer_inject split: if_splits)

interpretation compacted: key_namer compaction_next_key cn_writer cn_next "seq_key COMPACTED_PREFIX"
  by unfold_locales (auto simp: compaction_next_key_def Let_def seq_key_writer_inject split: if_splits)

lemma prefixes_apart: "seq_key ''bundles'' u m \<noteq> seq_key COMPACTED_PREFIX v n"
  by (simp add: seq_key_def COMPACTED_PREFIX_def)

text \<open>C23. No two attempts share a key.  Any number of flushing brokers and of compactors, each with an
  identity that its constructor accepts and that no other of its kind has, asked for keys in any order
  and as often as one likes, mint pairwise distinct keys; no compacted object has the name of a bundle.\<close>

theorem minted_keys_are_distinct:
  assumes "\<And>i. is_ok (bundle_namer_new (bn_writer (brokers i)))" "inj (\<lambda>i. bn_writer (brokers i))"
    and "\<And>j. is_ok (compaction_namer_new (cn_writer (compactors j)))" "inj (\<lambda>j. cn_writer (compactors j))"
  shows "distinct (mint_all bundle_next_key brokers is @ mint_all compaction_next_key compactors js)"
proof -
  have "CHR ''/'' \<notin> set (bn_writer (brokers i))" for i
    using assms(1) [of i] by (auto simp: bundle_namer_new_def split: if_splits)
  from bundles.minted_distinct [OF assms(2) this] have "distinct (mint_all bundle_next_key brokers is)" .
  moreover have "CHR ''/'' \<notin> set (cn_writer (compactors j))" for j
    using assms(3) [of j] by (auto simp: compaction_namer_new_def split: if_splits)
  from compacted.minted_distinct [OF assms(4) this] have "distinct (mint_all compaction_next_key compactors js)" .
  ultimately show ?thesis
    by (auto dest!: bundles.minted_names compacted.minted_names simp: prefixes_apart [symmetric])
qed

theorem minted_keys_are_distinct_witness:
  "distinct (mint_all bundle_next_key (\<lambda>i. \<lparr>bn_writer = if i then ''a'' else ''b'', bn_next = 0\<rparr>) [True, False, True] @
     mint_all compaction_next_key (\<lambda>j. \<lparr>cn_writer = if j then ''a'' else ''b'', cn_next = 7\<rparr>) [False, True, True])"
  by (rule minted_keys_are_distinct) (auto simp: bundle_namer_new_def compaction_namer_new_def inj_def)

end
