(* ===== verification/Compaction_Merge.thy ===== *)
theory Compaction_Merge
  imports Compaction_Plan Bundle_Stream Object_Names "HOL-Library.Product_Lexorder"
begin

text \<open>
  Running a compaction (\<open>oqueue-compact/src/merge.rs\<close>, \<open>merge_round\<close> of \<open>layout.rs\<close>) in a key domain
  (\<open>key_domain.rs\<close>, \<open>region_resealer.rs\<close>): the inputs of a plan are read once each, in offset order, their
  regions for the plan's partition go to one new object.  The object store is the record of the four calls
  the code makes of it; the re-sealer of a customer's regions is a function of the request.
\<close>

section \<open>Key domains\<close>

datatype key_domain = DefaultDomain | CustomerDomain string

definition requires_sealing :: "key_domain \<Rightarrow> bool" where
  "requires_sealing self = (case self of DefaultDomain \<Rightarrow> False | CustomerDomain _ \<Rightarrow> True)"

definition domain_key_id :: "key_domain \<Rightarrow> string option" where
  "domain_key_id self = (case self of DefaultDomain \<Rightarrow> None | CustomerDomain key_id \<Rightarrow> Some key_id)"

definition validate_region :: "key_domain \<Rightarrow> region \<Rightarrow> unit result" where
  "validate_region self rg =
     (let expected_sealed = requires_sealing self
      in if (rg_alg rg \<noteq> AlgNone) \<noteq> expected_sealed then Inl (RegionKeyDomainMismatch expected_sealed)
         else case domain_key_id self of
                None \<Rightarrow> Inr ()
              | Some expected_key \<Rightarrow>
                  if (case rg_envelope rg of None \<Rightarrow> True | Some envelope \<Rightarrow> ev_key_id envelope \<noteq> expected_key)
                  then Inl (RegionKeyDomainMismatch expected_sealed)
                  else Inr ())"

record resealed_region =
  rr_bytes :: "byte list"
  rr_alg :: region_alg
  rr_envelope :: region_envelope

definition as_sealed_region :: "resealed_region \<Rightarrow> sealed_region" where
  "as_sealed_region self = \<lparr>sr_bytes = rr_bytes self, sr_alg = rr_alg self, sr_envelope = rr_envelope self\<rparr>"

definition validate_domain :: "resealed_region \<Rightarrow> key_domain \<Rightarrow> unit result" where
  "validate_domain self key_dom =
     (let expected_sealed = requires_sealing key_dom
      in if (rr_alg self \<noteq> AlgNone) \<noteq> expected_sealed \<or>
            (case domain_key_id key_dom of None \<Rightarrow> False | Some expected \<Rightarrow> ev_key_id (rr_envelope self) \<noteq> expected)
         then Inl (RegionKeyDomainMismatch expected_sealed)
         else Inr ())"

record reseal_request =
  rq_domain :: key_domain
  rq_topic :: topic_id
  rq_partition :: partition_id
  rq_output_region_index :: nat
  rq_region :: region
  rq_bytes :: "byte list"

record compaction_domain =
  cd_domain :: key_domain
  cd_resealer :: "(reseal_request \<Rightarrow> resealed_region result) option"

definition default_security :: compaction_domain where
  "default_security = \<lparr>cd_domain = DefaultDomain, cd_resealer = None\<rparr>"

definition customer_security :: "string \<Rightarrow> (reseal_request \<Rightarrow> resealed_region result) \<Rightarrow> compaction_domain" where
  "customer_security key_id resealer = \<lparr>cd_domain = CustomerDomain key_id, cd_resealer = Some resealer\<rparr>"

section \<open>The store a merge runs over\<close>

record ('w, 'm) merge_store =
  ms_get :: "object_key \<Rightarrow> byte list result"
  ms_open_multipart :: "object_key \<Rightarrow> 'w result"
  ms_write_part :: "'w \<Rightarrow> byte list \<Rightarrow> unit result \<times> 'w"
  ms_finish :: "'w \<Rightarrow> 'm result"

text \<open>The operator \<open>?\<close> on a call that updates the stream: on an error the stream is dropped.\<close>

definition tried :: "unit result \<times> 's \<Rightarrow> 's result" where
  "tried answer = (case answer of (Inl e, _) \<Rightarrow> Inl e | (Inr _, s) \<Rightarrow> Inr s)"

section \<open>Reading and copying one input (merge.rs)\<close>

definition append_region ::
  "('w, 'm) merge_store \<Rightarrow> compaction_domain \<Rightarrow> compaction_plan \<Rightarrow> 'w bundle_stream \<Rightarrow> pushed_records \<Rightarrow> region \<Rightarrow>
     byte list \<Rightarrow> nat \<Rightarrow> 'w bundle_stream result" where
  "append_region st security pl stream pushed rg sliced output_region_index =
     (if \<not> requires_sealing (cd_domain security)
      then tried (stream_push (ms_write_part st) stream (cp_topic pl) (cp_partition pl) pushed sliced)
      else case cd_resealer security of
             None \<Rightarrow> Inl (RegionKeyDomainMismatch True)
           | Some reseal \<Rightarrow>
               bindR (reseal \<lparr>rq_domain = cd_domain security, rq_topic = cp_topic pl, rq_partition = cp_partition pl,
                         rq_output_region_index = output_region_index, rq_region = rg, rq_bytes = sliced\<rparr>) (\<lambda>output.
               bindR (validate_domain output (cd_domain security)) (\<lambda>_.
                 tried (stream_push_sealed (ms_write_part st) stream (cp_topic pl) (cp_partition pl) pushed
                   (as_sealed_region output)))))"

definition saturating_u32 :: "nat \<Rightarrow> nat" where
  "saturating_u32 n = min 4294967295 n"

fun take_each ::
  "('w, 'm) merge_store \<Rightarrow> compaction_domain \<Rightarrow> compaction_plan \<Rightarrow> byte list \<Rightarrow> 'w bundle_stream \<times> nat \<times> nat \<Rightarrow> region list \<Rightarrow>
     ('w bundle_stream \<times> nat \<times> nat) result" where
  "take_each st security pl bytes acc [] = Inr acc"
| "take_each st security pl bytes (stream, next_output_region, taken) (rg # regions) =
     (if rg_topic rg \<noteq> cp_topic pl \<or> rg_partition rg \<noteq> cp_partition pl
      then take_each st security pl bytes (stream, next_output_region, taken) regions
      else
        bindR (validate_region (cd_domain security) rg) (\<lambda>_.
          case rg_bytes rg of
            Full \<Rightarrow> Inl UnboundedRegion
          | Bounded start len \<Rightarrow>
              let stop = min u64_max (start + len)
              in if stop > length bytes then Inl (MalformedBundleFooter start)
                 else
                   bindR (append_region st security pl stream \<lparr>pr_count = rg_record_count rg, pr_producer = None\<rparr> rg
                            (take (stop - start) (drop start bytes)) next_output_region) (\<lambda>stream.
                     take_each st security pl bytes
                       (stream, saturating_u32 (next_output_region + 1), saturating_u32 (taken + rg_record_count rg)) regions)))"

definition take_regions ::
  "('w, 'm) merge_store \<Rightarrow> compaction_domain \<Rightarrow> byte list \<Rightarrow> compaction_plan \<Rightarrow> object_ref \<Rightarrow> 'w bundle_stream \<Rightarrow> nat \<Rightarrow>
     (nat \<times> 'w bundle_stream \<times> nat) result" where
  "take_regions st security bytes pl reference stream next_output_region =
     bindR (parse_footer bytes (length bytes)) (\<lambda>regions.
     bindR (take_each st security pl bytes (stream, next_output_region, 0) regions) (\<lambda>(stream, next_output_region, taken).
       if taken \<noteq> or_count reference then Inl IndexObjectMismatch
       else Inr (taken, stream, next_output_region)))"

section \<open>The inputs that tile a plan (merge.rs)\<close>

fun touching :: "compaction_plan \<Rightarrow> object_ref list \<Rightarrow> object_ref list result" where
  "touching pl [] = Inr []"
| "touching pl (reference # ordered) =
     bindR (ref_end_offset reference) (\<lambda>object_end.
     bindR (touching pl ordered) (\<lambda>rest.
       Inr (if object_end \<le> cp_start pl \<or> or_base reference \<ge> cp_end pl then rest else reference # rest)))"

definition tiling :: "object_ref list \<Rightarrow> compaction_plan \<Rightarrow> object_ref list result" where
  "tiling ordered pl =
     bindR (touching pl ordered) (\<lambda>covering.
     bindR (contiguous_span covering) (\<lambda>held.
       let reached = (case held of None \<Rightarrow> (cp_start pl, cp_start pl) | Some ends \<Rightarrow> ends)
       in if reached \<noteq> (cp_start pl, cp_end pl) then Inl IndexObjectMismatch else Inr covering))"

definition gather_one ::
  "('w, 'm) merge_store \<Rightarrow> compaction_domain \<Rightarrow> compaction_plan \<Rightarrow> nat \<times> int \<times> 'w bundle_stream \<times> nat \<Rightarrow> object_ref \<Rightarrow>
     (nat \<times> int \<times> 'w bundle_stream \<times> nat) result" where
  "gather_one st security pl acc reference =
     (case acc of (gets, records, stream, next_output_region) \<Rightarrow>
        bindR (ms_get st (or_object reference)) (\<lambda>bytes.
        bindR (take_regions st security bytes pl reference stream next_output_region) (\<lambda>(taken, stream, next_output_region).
          Inr (gets + 1, records + int taken, stream, next_output_region))))"

definition gather ::
  "('w, 'm) merge_store \<Rightarrow> compaction_plan \<Rightarrow> object_ref list \<Rightarrow> 'w bundle_stream \<Rightarrow> compaction_domain \<Rightarrow>
     (nat \<times> int \<times> 'w bundle_stream) result" where
  "gather st pl inputs stream security =
     (let ordered = sort_key or_base inputs
      in bindR (tiling ordered pl) (\<lambda>covering.
         bindR (foldR (gather_one st security pl) (0, 0, stream, 0) covering) (\<lambda>(gets, records, stream, _).
           Inr (gets, records, stream))))"

section \<open>Merging a plan\<close>

text \<open>The outcome, with what the store's \<open>finish\<close> reported of the sealed object.\<close>

record 'm merge_outcome =
  mo_gets :: nat
  mo_puts :: nat
  mo_records :: int
  mo_spans :: "committed_span list"
  mo_written :: written
  mo_object :: "object_key option"
  mo_sealed :: "'m option"

definition outcome_empty :: "'m merge_outcome" where
  "outcome_empty = \<lparr>mo_gets = 0, mo_puts = 0, mo_records = 0, mo_spans = [], mo_written = \<lparr>wr_bytes = 0, wr_parts = 0\<rparr>,
     mo_object = None, mo_sealed = None\<rparr>"

definition merge_in_domain ::
  "('w, 'm) merge_store \<Rightarrow> compaction_plan \<Rightarrow> object_ref list \<Rightarrow> compaction_namer \<Rightarrow> compaction_domain \<Rightarrow>
     'm merge_outcome result \<times> compaction_namer" where
  "merge_in_domain st pl inputs namer security =
     (case compaction_next_key namer of (minted, namer) \<Rightarrow>
       (bindR minted (\<lambda>output.
        bindR (ms_open_multipart st output) (\<lambda>writer.
        bindR (gather st pl inputs (stream_open writer) security) (\<lambda>(gets, records, stream).
        bindR (stream_finish (ms_write_part st) (ms_finish st) stream) (\<lambda>(spans, written, sealed).
          Inr \<lparr>mo_gets = gets, mo_puts = 1, mo_records = records, mo_spans = spans, mo_written = written,
               mo_object = Some output, mo_sealed = Some sealed\<rparr>)))), namer))"

definition merge ::
  "('w, 'm) merge_store \<Rightarrow> compaction_plan \<Rightarrow> object_ref list \<Rightarrow> compaction_namer \<Rightarrow> 'm merge_outcome result \<times> compaction_namer" where
  "merge st pl inputs namer = merge_in_domain st pl inputs namer default_security"

definition merge_with_resealer ::
  "('w, 'm) merge_store \<Rightarrow> compaction_plan \<Rightarrow> object_ref list \<Rightarrow> compaction_namer \<Rightarrow> compaction_domain \<Rightarrow>
     'm merge_outcome result \<times> compaction_namer" where
  "merge_with_resealer st pl inputs namer security = merge_in_domain st pl inputs namer security"

section \<open>Merging a round (layout.rs)\<close>

definition saturating_i64 :: "int \<Rightarrow> int" where
  "saturating_i64 n = max (- i64_max - 1) (min i64_max n)"

fun admissible_from :: "int \<Rightarrow> compaction_plan option \<Rightarrow> planned_inputs list \<Rightarrow> int result" where
  "admissible_from records previous [] = Inr records"
| "admissible_from records previous (planned # ordered) =
     (let pl = pl_plan planned
      in if (case previous of None \<Rightarrow> False | Some lst \<Rightarrow> cp_key lst = cp_key pl \<and> cp_start pl < cp_end lst)
         then Inl OverlappingCompactionPlans
         else admissible_from (saturating_i64 (records + ce_records_rewritten (plan_cost pl))) (Some pl) ordered)"

definition round_admissible :: "planned_inputs list \<Rightarrow> unit result" where
  "round_admissible ordered =
     bindR (admissible_from 0 None ordered) (\<lambda>records.
       if records > COMPACTION_PLAN_RECORDS_BUDGET
       then Inl (CompactionRoundTooLarge records COMPACTION_PLAN_RECORDS_BUDGET)
       else Inr ())"

definition round_order :: "planned_inputs list \<Rightarrow> planned_inputs list" where
  "round_order plans =
     sort_key (\<lambda>planned. (cp_topic (pl_plan planned), cp_partition (pl_plan planned), cp_start (pl_plan planned))) plans"

definition gather_plan ::
  "('w, 'm) merge_store \<Rightarrow> nat \<times> int \<times> 'w bundle_stream \<Rightarrow> planned_inputs \<Rightarrow> (nat \<times> int \<times> 'w bundle_stream) result" where
  "gather_plan st acc planned =
     (case acc of (gets, records, stream) \<Rightarrow>
        bindR (gather st (pl_plan planned) (pl_inputs planned) stream default_security) (\<lambda>(read, moved, stream).
          Inr (gets + read, records + moved, stream)))"

definition merge_round ::
  "('w, 'm) merge_store \<Rightarrow> planned_inputs list \<Rightarrow> compaction_namer \<Rightarrow> 'm merge_outcome result \<times> compaction_namer" where
  "merge_round st plans namer =
     (if plans = [] then (Inr outcome_empty, namer)
      else let ordered = round_order plans
           in case round_admissible ordered of
                Inl e \<Rightarrow> (Inl e, namer)
              | Inr _ \<Rightarrow>
                  (case compaction_next_key namer of (minted, namer) \<Rightarrow>
                    (bindR minted (\<lambda>output.
                     bindR (ms_open_multipart st output) (\<lambda>writer.
                     bindR (foldR (gather_plan st) (0, 0, stream_open writer) ordered) (\<lambda>(gets, records, stream).
                     bindR (stream_finish (ms_write_part st) (ms_finish st) stream) (\<lambda>(spans, written, sealed).
                       Inr \<lparr>mo_gets = gets, mo_puts = 1, mo_records = records, mo_spans = spans, mo_written = written,
                            mo_object = Some output, mo_sealed = Some sealed\<rparr>)))), namer)))"

end
