(* ===== verification/Compaction_Safety.thy ===== *)
theory Compaction_Safety
  imports Compaction_Merge "HOL-Library.Code_Target_Nat"
begin

text \<open>
  What a compaction leaves: the object a merge seals holds every record of the range it retires, once and in
  order, in the key domain it was asked for.
\<close>

section \<open>What a parsed footer promises\<close>

lemma check_from_bounded:
  "check_from rs i start end = Inr () \<Longrightarrow> r \<in> set rs \<Longrightarrow>
     \<exists>off len. rg_bytes r = Bounded off len \<and> off + len \<le> u64_max \<and> off + len \<le> end"
  by (induction rs i start "end" rule: check_from.induct) (auto split: byte_range.splits if_splits)

lemma parsed_region:
  assumes "parse_footer bytes osize = Inr regions" "r \<in> set regions"
  obtains off len where "rg_bytes r = Bounded off len" "off + len \<le> u64_max" "off + len \<le> osize" "valid_region r"
proof -
  from assms(1) obtain m n c c' where r: "check_regions regions (osize - m) = Inr ()"
      "cur_repeat ft_region n c = Inr (regions, c')" "cur_at c \<le> length (cur_bytes c)"
    by (auto simp: parse_footer_def Let_def bindR_Inr_iff split: if_splits)
  from codec.elements_written_back [OF region_codec r(2,3)] assms(2) have "valid_region r" by blast
  with check_from_bounded [OF r(1) [unfolded check_regions_def] assms(2)] that show thesis
    by (meson diff_le_self le_trans)
qed

section \<open>The regions an object holds for a plan\<close>

definition of_plan :: "compaction_plan \<Rightarrow> region \<Rightarrow> bool" where
  "of_plan pl r \<longleftrightarrow> rg_topic r = cp_topic pl \<and> rg_partition r = cp_partition pl"

definition region_slice :: "byte list \<Rightarrow> region \<Rightarrow> byte list" where
  "region_slice bytes r = take (br_length (rg_bytes r)) (drop (br_offset (rg_bytes r)) bytes)"

definition plan_regions :: "compaction_plan \<Rightarrow> byte list \<Rightarrow> region list \<Rightarrow> (region \<times> byte list) list" where
  "plan_regions pl bytes regions = map (\<lambda>r. (r, region_slice bytes r)) (filter (of_plan pl) regions)"

definition records_in :: "(region \<times> byte list) list \<Rightarrow> nat" where
  "records_in xs = sum_list (map (\<lambda>(r, _). rg_record_count r) xs)"

lemma records_in_simps [simp]:
  "records_in [] = 0" "records_in (x # xs) = rg_record_count (fst x) + records_in xs"
  "records_in (xs @ ys) = records_in xs + records_in ys"
  by (auto simp: records_in_def split: prod.splits)

text \<open>What is pushed for one region: a copy, or what the re-sealer made of it.\<close>

definition moved_push :: "compaction_domain \<Rightarrow> compaction_plan \<Rightarrow> nat \<Rightarrow> region \<times> byte list \<Rightarrow> bundle_push result" where
  "moved_push security pl i x =
     (case x of (r, bytes) \<Rightarrow>
       let pushed = \<lparr>pr_count = rg_record_count r, pr_producer = None\<rparr>
       in if \<not> requires_sealing (cd_domain security)
          then Inr (Plain (cp_topic pl) (cp_partition pl) pushed bytes)
          else case cd_resealer security of
                 None \<Rightarrow> Inl (RegionKeyDomainMismatch True)
               | Some reseal \<Rightarrow>
                   bindR (reseal \<lparr>rq_domain = cd_domain security, rq_topic = cp_topic pl, rq_partition = cp_partition pl,
                             rq_output_region_index = i, rq_region = r, rq_bytes = bytes\<rparr>) (\<lambda>output.
                   bindR (validate_domain output (cd_domain security)) (\<lambda>_.
                     Inr (SealedPush (cp_topic pl) (cp_partition pl) pushed (as_sealed_region output)))))"

fun moved :: "compaction_domain \<Rightarrow> compaction_plan \<Rightarrow> nat \<Rightarrow> (region \<times> byte list) list \<Rightarrow> bundle_push list result" where
  "moved security pl i [] = Inr []"
| "moved security pl i (x # xs) =
     bindR (validate_region (cd_domain security) (fst x)) (\<lambda>_.
     bindR (moved_push security pl (saturating_u32 i) x) (\<lambda>p.
     bindR (moved security pl (Suc i) xs) (\<lambda>ps. Inr (p # ps))))"

lemma append_region_eq:
  "append_region st security pl stream \<lparr>pr_count = rg_record_count r, pr_producer = None\<rparr> r bytes i =
     bindR (moved_push security pl i (r, bytes)) (\<lambda>p. tried (stream_one (ms_write_part st) stream p))"
  by (simp add: append_region_def moved_push_def Let_def bindR_assoc split: option.splits)

lemma moved_append:
  "moved security pl i (xs @ ys) =
     bindR (moved security pl i xs) (\<lambda>ps. bindR (moved security pl (i + length xs) ys) (\<lambda>qs. Inr (ps @ qs)))"
proof (induction xs arbitrary: i)
  case Nil
  show ?case by (cases "moved security pl i ys") simp_all
qed (simp add: bindR_assoc)

lemma tried_iff: "tried answer = Inr s \<longleftrightarrow> answer = (Inr (), s)"
  by (cases answer) (auto simp: tried_def split: sum.splits)

lemma saturating_u32_add [simp]: "saturating_u32 (saturating_u32 a + b) = saturating_u32 (a + b)"
  by (simp add: saturating_u32_def)

lemma saturating_u32_Suc [simp]: "saturating_u32 (Suc (saturating_u32 a)) = saturating_u32 (Suc a)"
  by (simp add: saturating_u32_def)

lemma take_each_moves:
  assumes "take_each st security pl bytes (stream, saturating_u32 i, saturating_u32 t) rs = Inr (stream', i', t')"
    and "\<And>r. r \<in> set rs \<Longrightarrow> \<exists>off len. rg_bytes r = Bounded off len \<and> off + len \<le> u64_max"
  shows "\<exists>ps. moved security pl i (plan_regions pl bytes rs) = Inr ps \<and>
    stream_all (ms_write_part st) stream ps = (Inr (), stream') \<and>
    i' = saturating_u32 (i + length (plan_regions pl bytes rs)) \<and> t' = saturating_u32 (t + records_in (plan_regions pl bytes rs))"
  using assms
proof (induction rs arbitrary: stream i t)
  case Nil
  then show ?case by (simp add: plan_regions_def)
next
  case (Cons r rs)
  from Cons.prems(2) have bounded: "\<And>r. r \<in> set rs \<Longrightarrow> \<exists>off len. rg_bytes r = Bounded off len \<and> off + len \<le> u64_max" by simp
  show ?case
  proof (cases "of_plan pl r")
    case False
    with Cons.prems(1) have "take_each st security pl bytes (stream, saturating_u32 i, saturating_u32 t) rs = Inr (stream', i', t')"
      by (auto simp: of_plan_def)
    from Cons.IH [OF this bounded] False show ?thesis by (simp add: plan_regions_def)
  next
    case True
    from Cons.prems(2) [of r] obtain off len where b: "rg_bytes r = Bounded off len" "off + len \<le> u64_max" by auto
    let ?slice = "region_slice bytes r"
    from b have slice: "take len (drop off bytes) = ?slice" by (simp add: region_slice_def)
    from Cons.prems(1) True b obtain mid where mid: "validate_region (cd_domain security) r = Inr ()"
        "append_region st security pl stream \<lparr>pr_count = rg_record_count r, pr_producer = None\<rparr> r ?slice (saturating_u32 i) = Inr mid"
        "take_each st security pl bytes (mid, saturating_u32 (Suc i), saturating_u32 (t + rg_record_count r)) rs = Inr (stream', i', t')"
      by (auto simp: of_plan_def bindR_Inr_iff Let_def slice split: if_splits)
    from mid(2) obtain p where p: "moved_push security pl (saturating_u32 i) (r, ?slice) = Inr p"
        "stream_one (ms_write_part st) stream p = (Inr (), mid)"
      by (auto simp: append_region_eq bindR_Inr_iff tried_iff)
    from Cons.IH [OF mid(3) bounded] obtain ps where "moved security pl (Suc i) (plan_regions pl bytes rs) = Inr ps"
        "stream_all (ms_write_part st) mid ps = (Inr (), stream')"
        "i' = saturating_u32 (Suc i + length (plan_regions pl bytes rs))"
        "t' = saturating_u32 (t + rg_record_count r + records_in (plan_regions pl bytes rs))" by blast
    with True mid(1) p show ?thesis by (intro exI [of _ "p # ps"]) (simp add: plan_regions_def add.assoc)
  qed
qed

text \<open>What an object's bytes hold for a plan, and what the store holds under a reference's name.\<close>

definition held_regions :: "compaction_plan \<Rightarrow> byte list \<Rightarrow> (region \<times> byte list) list" where
  "held_regions pl bytes = (case parse_footer bytes (length bytes) of Inl _ \<Rightarrow> [] | Inr regions \<Rightarrow> plan_regions pl bytes regions)"

definition input_regions :: "('w, 'm) merge_store \<Rightarrow> compaction_plan \<Rightarrow> object_ref \<Rightarrow> (region \<times> byte list) list" where
  "input_regions st pl reference = (case ms_get st (or_object reference) of Inl _ \<Rightarrow> [] | Inr bytes \<Rightarrow> held_regions pl bytes)"

lemma held_valid: "(r, bytes) \<in> set (held_regions pl object) \<Longrightarrow> valid_region r \<and> of_plan pl r"
  by (auto simp: held_regions_def plan_regions_def split: sum.splits elim: parsed_region [OF sym])

lemma input_valid: "(r, bytes) \<in> set (input_regions st pl reference) \<Longrightarrow> valid_region r \<and> of_plan pl r"
  by (auto simp: input_regions_def dest: held_valid split: sum.splits)

lemma gather_one_moves:
  assumes "gather_one st security pl (g, n, stream, saturating_u32 i) reference = Inr (g', n', stream', i')"
    and "or_count reference < 4294967295"
  shows "\<exists>ps. moved security pl i (input_regions st pl reference) = Inr ps \<and>
    stream_all (ms_write_part st) stream ps = (Inr (), stream') \<and> g' = Suc g \<and> n' = n + int (or_count reference) \<and>
    i' = saturating_u32 (i + length (input_regions st pl reference)) \<and>
    records_in (input_regions st pl reference) = or_count reference"
proof -
  from assms(1) obtain bytes regions taken where r: "ms_get st (or_object reference) = Inr bytes"
      "parse_footer bytes (length bytes) = Inr regions"
      "take_each st security pl bytes (stream, saturating_u32 i, saturating_u32 0) regions = Inr (stream', i', taken)"
      "taken = or_count reference" "g' = Suc g" "n' = n + int taken"
    by (auto simp: gather_one_def take_regions_def bindR_Inr_iff saturating_u32_def [of 0] split: if_splits)
  have "\<exists>off len. rg_bytes x = Bounded off len \<and> off + len \<le> u64_max" if "x \<in> set regions" for x
    using parsed_region [OF r(2) that] by blast
  note m = take_each_moves [OF r(3) this]
  have xs: "input_regions st pl reference = plan_regions pl bytes regions" using r(1,2) by (simp add: input_regions_def held_regions_def)
  from m assms(2) r(4-6) show ?thesis unfolding xs by (auto simp: saturating_u32_def)
qed

lemma gather_fold_moves:
  assumes "foldR (gather_one st security pl) (g, n, stream, saturating_u32 i) covering = Inr (g', n', stream', i')"
    and "\<forall>r\<in>set covering. or_count r < 4294967295"
  shows "\<exists>ps. moved security pl i (concat (map (input_regions st pl) covering)) = Inr ps \<and>
    stream_all (ms_write_part st) stream ps = (Inr (), stream') \<and> g' = g + length covering \<and>
    n' = n + int (sum_list (map or_count covering)) \<and>
    (\<forall>r\<in>set covering. records_in (input_regions st pl r) = or_count r)"
  using assms
proof (induction covering arbitrary: g n stream i)
  case (Cons r covering)
  then obtain g1 n1 s1 i1 where one: "gather_one st security pl (g, n, stream, saturating_u32 i) r = Inr (g1, n1, s1, i1)"
      "foldR (gather_one st security pl) (g1, n1, s1, i1) covering = Inr (g', n', stream', i')"
    by (auto simp: bindR_Inr_iff)
  from gather_one_moves [OF one(1)] Cons.prems(2) obtain ps where ps:
    "moved security pl i (input_regions st pl r) = Inr ps" "stream_all (ms_write_part st) stream ps = (Inr (), s1)"
    "g1 = Suc g" "n1 = n + int (or_count r)" "i1 = saturating_u32 (i + length (input_regions st pl r))"
    "records_in (input_regions st pl r) = or_count r" by auto
  from Cons.IH [OF one(2) [unfolded ps(5)]] Cons.prems(2) obtain qs where qs:
    "moved security pl (i + length (input_regions st pl r)) (concat (map (input_regions st pl) covering)) = Inr qs"
    "stream_all (ms_write_part st) s1 qs = (Inr (), stream')" "g' = g1 + length covering"
    "n' = n1 + int (sum_list (map or_count covering))"
    "\<forall>r\<in>set covering. records_in (input_regions st pl r) = or_count r" by auto
  from ps qs stream_all_append [OF ps(2), of qs] show ?case
    by (intro exI [of _ "ps @ qs"]) (simp add: moved_append)
qed simp

text \<open>The inputs that are read tile the plan's range.\<close>

lemma touching_filter:
  "touching pl rs = Inr covering \<Longrightarrow> covering = filter (\<lambda>r. cp_start pl < or_end r \<and> or_base r < cp_end pl) rs"
  by (induction rs arbitrary: covering) (auto simp: bindR_Inr_iff ref_end_offset_Inr_iff)

lemma sort_filter_sorted:
  assumes "sorted (map f xs)"
  shows "sort_key f (filter P xs) = filter P xs"
  using assms by (simp add: sort_key_id_if_sorted sorted_filter)

lemma tiling_dense:
  assumes "tiling (sort_key or_base inputs) pl = Inr covering" "covering \<noteq> []"
  shows "dense (cp_start pl) covering (cp_end pl) \<and> cp_end pl \<le> i64_max \<and> set covering \<subseteq> set inputs \<and>
    covers covering [\<lparr>or_object = key, or_base = cp_start pl, or_count = nat (cp_end pl - cp_start pl)\<rparr>] = Inr ()"
proof -
  from assms(1) obtain reached where t: "touching pl (sort_key or_base inputs) = Inr covering"
      "contiguous_span covering = Inr reached"
      "(case reached of None \<Rightarrow> (cp_start pl, cp_start pl) | Some ends \<Rightarrow> ends) = (cp_start pl, cp_end pl)"
    by (auto simp: tiling_def bindR_Inr_iff Let_def split: if_splits)
  from touching_filter [OF t(1)] have c: "covering = filter (\<lambda>r. cp_start pl < or_end r \<and> or_base r < cp_end pl) (sort_key or_base inputs)" .
  then have same: "sort_key or_base covering = covering" by (simp add: sort_filter_sorted)
  have "reached \<noteq> None" using t(2) assms(2) same
    by (cases covering) (auto simp: contiguous_span_def bindR_Inr_iff span_walk_Some split: if_splits)
  with t(2,3) have "contiguous_span covering = Inr (Some (cp_start pl, cp_end pl))" by auto
  then have d: "dense (cp_start pl) covering (cp_end pl)" "cp_end pl \<le> i64_max" by (simp_all add: contiguous_span_Some_iff same)
  moreover have "cp_start pl < cp_end pl"
    using d(1) assms(2) dense_bounds [OF d(1)] by (cases covering) fastforce+
  ultimately show ?thesis using c same assms(2)
    by (auto simp: covers_ok_iff intro!: exI [of _ "cp_start pl"] exI [of _ "cp_end pl"])
qed

lemma dense_records: "dense a rs b \<Longrightarrow> int (sum_list (map or_count rs)) = b - a"
  by (induction rs arbitrary: a) auto

section \<open>The object a merge seals\<close>

lemma flush_written: "flush_parts write_part self = (r, self') \<Longrightarrow> bs_written self' = bs_written self"
proof (induction "length (bs_buffer self)" arbitrary: self rule: less_induct)
  case less
  show ?case
  proof (cases "length (bs_buffer self) \<ge> BUNDLE_PART_BYTES")
    case False
    with less.prems show ?thesis by (simp add: flush_parts.simps)
  next
    case True
    let ?rest = "self\<lparr>bs_buffer := drop BUNDLE_PART_BYTES (bs_buffer self)\<rparr>"
    obtain a w where wp: "write_part (bs_writer self) (take BUNDLE_PART_BYTES (bs_buffer self)) = (a, w)" by fastforce
    have "length (bs_buffer (?rest\<lparr>bs_writer := w, bs_parts := bs_parts self + 1\<rparr>)) < length (bs_buffer self)"
      using True by (simp add: BUNDLE_PART_BYTES_def)
    from less.hyps [OF this] less.prems True wp show ?thesis
      by (cases a) (auto simp: flush_parts.simps [of _ self] Let_def)
  qed
qed

lemma stream_all_written:
  "stream_all write_part self ps = (Inr (), self') \<Longrightarrow> bs_written self \<le> u64_max \<Longrightarrow>
     bs_written self' = min u64_max (bs_written self + length (payload_of ps))"
proof (induction ps arbitrary: self)
  case (Cons p ps)
  then obtain mid where mid: "stream_one write_part self p = (Inr (), mid)" "stream_all write_part mid ps = (Inr (), self')"
    by (auto split: prod.splits sum.splits)
  have "bs_written mid = min u64_max (bs_written self + length (pushed_bytes p))"
    using mid(1) by (cases p) (auto simp: stream_push_def stream_push_sealed_def split: sum.splits dest!: flush_written)
  with Cons.IH [OF mid(2)] show ?case by simp
qed simp

lemma finish_counts:
  assumes "stream_finish write_part finish self = Inr (spans, wr, sealed)"
  shows "wr_bytes wr = bs_written self"
  using assms unfolding stream_finish_def
  by (elim bindR_InrE) (auto simp: bindR_Inr_iff split: prod.splits sum.splits)

lemma merge_streams:
  assumes "merge_in_domain st pl inputs namer security = (Inr out, namer')" "ms_finish st = (\<lambda>w. Inr (contents w))"
    and "\<forall>r\<in>set inputs. or_count r < 4294967295"
  obtains key w covering ps object where "ms_open_multipart st key = Inr w" "mo_object out = Some key" "mo_sealed out = Some object"
    "covering \<noteq> []" "set covering \<subseteq> set inputs" "dense (cp_start pl) covering (cp_end pl)"
    "covers covering [\<lparr>or_object = key, or_base = cp_start pl, or_count = nat (cp_end pl - cp_start pl)\<rparr>] = Inr ()"
    "moved security pl 0 (concat (map (input_regions st pl) covering)) = Inr ps"
    "streamed contents (ms_write_part st) w ps = Inr (mo_spans out, mo_written out, object)"
    "wr_bytes (mo_written out) = min u64_max (length (payload_of ps))"
    "mo_gets out = length covering" "mo_records out = cp_end pl - cp_start pl"
    "\<forall>r\<in>set covering. records_in (input_regions st pl r) = or_count r"
proof -
  from assms(1) obtain key w covering stream i object where r: "ms_open_multipart st key = Inr w" "mo_object out = Some key"
      "mo_sealed out = Some object" "tiling (sort_key or_base inputs) pl = Inr covering"
      "foldR (gather_one st security pl) (0, 0, stream_open w, saturating_u32 0) covering =
         Inr (mo_gets out, mo_records out, stream, i)"
      "stream_finish (ms_write_part st) (ms_finish st) stream = Inr (mo_spans out, mo_written out, object)"
    by (auto simp: merge_in_domain_def gather_def bindR_Inr_iff Let_def saturating_u32_def split: prod.splits)
  have sub: "set covering \<subseteq> set inputs"
    using r(4) by (auto simp: tiling_def bindR_Inr_iff Let_def dest!: touching_filter split: if_splits)
  with assms(3) gather_fold_moves [OF r(5)] obtain ps where ps:
    "moved security pl 0 (concat (map (input_regions st pl) covering)) = Inr ps"
    "stream_all (ms_write_part st) (stream_open w) ps = (Inr (), stream)" "mo_gets out = length covering"
    "mo_records out = int (sum_list (map or_count covering))"
    "\<forall>r\<in>set covering. records_in (input_regions st pl r) = or_count r" by auto
  have "ps \<noteq> []" using ps(2) r(6)
    by (auto simp: stream_finish_def into_footer_def stream_open_def builder_new_def)
  then have ne: "covering \<noteq> []" using ps(1) by auto
  note d = tiling_dense [OF r(4) ne, of key]
  have "bs_written stream = min u64_max (length (payload_of ps))"
    using stream_all_written [OF ps(2)] by (simp add: stream_open_def)
  moreover have "wr_bytes (mo_written out) = bs_written stream"
    using r(6) by (rule finish_counts)
  moreover have "streamed contents (ms_write_part st) w ps = Inr (mo_spans out, mo_written out, object)"
    using ps(2) r(6) by (simp add: streamed_def assms(2))
  ultimately show thesis
    using that [OF r(1-3) ne sub _ _ ps(1)] d ps(3-5) dense_records by auto
qed

lemma moved_plain:
  "moved security pl i xs = Inr ps \<Longrightarrow> \<not> requires_sealing (cd_domain security) \<Longrightarrow>
     ps = map (\<lambda>(r, bytes). Plain (cp_topic pl) (cp_partition pl) \<lparr>pr_count = rg_record_count r, pr_producer = None\<rparr> bytes) xs"
  by (induction xs arbitrary: i ps) (auto simp: bindR_Inr_iff moved_push_def)

lemma regions_from_bounded: "r \<in> set (regions_from off ps) \<Longrightarrow> rg_bytes r \<noteq> Full"
proof (induction ps arbitrary: off)
  case (Cons p ps)
  then show ?case by (cases p) auto
qed simp

text \<open>What a reader of the sealed object finds.\<close>

lemma merged_reads_back:
  assumes "multipart_writer contents write_part" "contents w = []" "one_kind ps" "\<forall>p\<in>set ps. valid_push p"
    and "length (payload_of ps) \<le> u64_max" "streamed contents write_part w ps = Inr (spans, wr, object)"
  shows "parse_footer object (length object) = Inr (regions_from 0 ps)"
    and "map (region_slice object) (regions_from 0 ps) = map pushed_bytes ps"
    and "length ps < 2 ^ 32"
proof -
  from streamed_seals [OF assms] obtain b s where s: "builder_of ps = Inr b" "builder_seal b = Inr s" "object = sb_payload s" by blast
  from sealed_payload [OF s(1) assms(4) s(2) assms(5)] show "length ps < 2 ^ 32" by blast
  note r = sealed_reads_back [OF s(1) assms(4) s(2) assms(5) le0]
  from r [of "[]"] s(3) show "parse_footer object (length object) = Inr (regions_from 0 ps)" by simp
  from r [of "[]"] s(3) have slices: "map (\<lambda>r. slice_range [] object (rg_bytes r)) (regions_from 0 ps) = map (\<lambda>p. Inr (pushed_bytes p)) ps"
    by (elim conjE) simp
  show "map (region_slice object) (regions_from 0 ps) = map pushed_bytes ps"
  proof (rule nth_equalityI)
    fix k assume "k < length (map (region_slice object) (regions_from 0 ps))"
    then have k: "k < length ps" by simp
    let ?r = "regions_from 0 ps ! k"
    have "slice_range [] object (rg_bytes ?r) = Inr (pushed_bytes (ps ! k))"
      using arg_cong [OF slices, of "\<lambda>xs. xs ! k"] k by simp
    moreover have "rg_bytes ?r \<noteq> Full"
      using k regions_from_bounded [of ?r 0 ps] by simp
    ultimately show "map (region_slice object) (regions_from 0 ps) ! k = map pushed_bytes ps ! k"
      using k by (cases "rg_bytes ?r") (auto simp: slice_range_def region_slice_def split: if_splits)
  qed simp
qed

lemma validate_default [simp]: "validate_region DefaultDomain r = Inr () \<longleftrightarrow> rg_alg r = AlgNone"
  by (simp add: validate_region_def requires_sealing_def domain_key_id_def)

lemma validate_customer [simp]:
  "validate_region (CustomerDomain key) r = Inr () \<longleftrightarrow> rg_alg r \<noteq> AlgNone \<and> (\<exists>e. rg_envelope r = Some e \<and> ev_key_id e = key)"
  by (auto simp: validate_region_def requires_sealing_def domain_key_id_def split: option.splits)

text \<open>C7. A merge moves every record of its range, once and in order.  When a merge of the default domain succeeds,
  the inputs it read tile the plan's range with no gap and no overlap, and each input's regions for the
  partition add up to the records the index has for it; the sealed object parses, and what it holds for
  the partition is the concatenation, in offset order, of what the inputs hold, record counts and bytes
  alike, in unsealed regions of that partition only; as many records as the range has offsets were moved
  with one read per input; and the swap of those inputs for the new object passes the coverage check.\<close>

theorem merge_moves_every_record:
  assumes "multipart_writer contents (ms_write_part st)" "\<And>key w. ms_open_multipart st key = Inr w \<Longrightarrow> contents w = []"
    and "ms_finish st = (\<lambda>w. Inr (contents w))"
    and "\<forall>r\<in>set inputs. or_count r < 4294967295"
    and "merge st pl inputs namer = (Inr out, namer')" "wr_bytes (mo_written out) < u64_max"
  shows "\<exists>covering key object regions. mo_object out = Some key \<and> mo_sealed out = Some object \<and>
    set covering \<subseteq> set inputs \<and> dense (cp_start pl) covering (cp_end pl) \<and>
    (\<forall>r\<in>set covering. records_in (input_regions st pl r) = or_count r) \<and>
    parse_footer object (length object) = Inr regions \<and>
    (\<forall>r\<in>set regions. of_plan pl r \<and> validate_region DefaultDomain r = Inr ()) \<and>
    map (\<lambda>(r, bytes). (rg_record_count r, bytes)) (held_regions pl object) =
      map (\<lambda>(r, bytes). (rg_record_count r, bytes)) (concat (map (input_regions st pl) covering)) \<and>
    mo_records out = cp_end pl - cp_start pl \<and> mo_gets out = length covering \<and>
    covers covering [\<lparr>or_object = key, or_base = cp_start pl, or_count = nat (cp_end pl - cp_start pl)\<rparr>] = Inr ()"
proof -
  from merge_streams [OF assms(5) [unfolded merge_def] assms(3,4)] obtain key w covering ps object where m:
    "ms_open_multipart st key = Inr w" "mo_object out = Some key" "mo_sealed out = Some object"
    "set covering \<subseteq> set inputs" "dense (cp_start pl) covering (cp_end pl)"
    "covers covering [\<lparr>or_object = key, or_base = cp_start pl, or_count = nat (cp_end pl - cp_start pl)\<rparr>] = Inr ()"
    "moved default_security pl 0 (concat (map (input_regions st pl) covering)) = Inr ps"
    "streamed contents (ms_write_part st) w ps = Inr (mo_spans out, mo_written out, object)"
    "wr_bytes (mo_written out) = min u64_max (length (payload_of ps))"
    "mo_gets out = length covering" "mo_records out = cp_end pl - cp_start pl"
    "\<forall>r\<in>set covering. records_in (input_regions st pl r) = or_count r" by metis
  let ?xs = "concat (map (input_regions st pl) covering)"
  let ?plain = "\<lambda>(r, bytes). Plain (cp_topic pl) (cp_partition pl) \<lparr>pr_count = rg_record_count r, pr_producer = None\<rparr> bytes"
  have ps: "ps = map ?plain ?xs" using moved_plain [OF m(7)] by (simp add: default_security_def requires_sealing_def)
  have "\<forall>p\<in>set ps. valid_push p" unfolding ps
    by (auto simp: of_plan_def valid_region_def dest!: input_valid)
  moreover have "one_kind ps" unfolding ps by (auto simp: one_kind_def list_all_iff)
  moreover have "length (payload_of ps) \<le> u64_max" using m(9) assms(6) by simp
  ultimately have r: "parse_footer object (length object) = Inr (regions_from 0 ps)"
      "map (region_slice object) (regions_from 0 ps) = map pushed_bytes ps"
    using merged_reads_back [OF assms(1) assms(2) [OF m(1)] _ _ _ m(8)] by blast+
  have regions: "of_plan pl r \<and> validate_region DefaultDomain r = Inr ()" if "r \<in> set (regions_from off (map ?plain xs))" for r off xs
    using that by (induction xs arbitrary: off) (auto simp: of_plan_def)
  then have "filter (of_plan pl) (regions_from 0 ps) = regions_from 0 ps" unfolding ps by (auto simp: filter_id_conv)
  with r(1) have "held_regions pl object = map (\<lambda>r. (r, region_slice object r)) (regions_from 0 ps)"
    by (simp add: held_regions_def plan_regions_def)
  then have held_zip: "map (\<lambda>(r, bytes). (rg_record_count r, bytes)) (held_regions pl object) =
      zip (map rg_record_count (regions_from 0 ps)) (map pushed_bytes ps)"
    unfolding r(2) [symmetric] by (simp add: zip_map_map zip_same_conv_map comp_def)
  have counts: "map rg_record_count (regions_from off (map ?plain xs)) = map (\<lambda>(r, _). rg_record_count r) xs" for off xs
    by (induction xs arbitrary: off) auto
  have "zip (map rg_record_count (regions_from 0 ps)) (map pushed_bytes ps) =
      zip (map (\<lambda>(r, _). rg_record_count r) ?xs) (map (\<lambda>(_, bytes). bytes) ?xs)"
    unfolding ps counts by (intro arg_cong2 [where f = zip]) (auto simp del: map_concat)
  also have "\<dots> = map (\<lambda>(r, bytes). (rg_record_count r, bytes)) ?xs"
    by (intro nth_equalityI) (auto simp: case_prod_beta simp del: map_concat)
  finally have "zip (map rg_record_count (regions_from 0 ps)) (map pushed_bytes ps) =
      map (\<lambda>(r, bytes). (rg_record_count r, bytes)) ?xs" .
  with held_zip have "map (\<lambda>(r, bytes). (rg_record_count r, bytes)) (held_regions pl object) =
      map (\<lambda>(r, bytes). (rg_record_count r, bytes)) ?xs" by (rule trans)
  with m r(1) regions show ?thesis unfolding ps by blast
qed

section \<open>A customer's key domain\<close>

lemma moved_sealed:
  assumes "moved (customer_security key_id reseal) pl i xs = Inr ps" "k < length xs"
  shows "validate_region (CustomerDomain key_id) (fst (xs ! k)) = Inr () \<and>
    (\<exists>output. reseal \<lparr>rq_domain = CustomerDomain key_id, rq_topic = cp_topic pl, rq_partition = cp_partition pl,
         rq_output_region_index = saturating_u32 (i + k), rq_region = fst (xs ! k), rq_bytes = snd (xs ! k)\<rparr> = Inr output \<and>
       validate_domain output (CustomerDomain key_id) = Inr () \<and>
       ps ! k = SealedPush (cp_topic pl) (cp_partition pl) \<lparr>pr_count = rg_record_count (fst (xs ! k)), pr_producer = None\<rparr>
         (as_sealed_region output))"
  using assms
proof (induction xs arbitrary: i ps k)
  case (Cons x xs)
  then obtain p ps' where p: "moved_push (customer_security key_id reseal) pl (saturating_u32 i) x = Inr p"
      "moved (customer_security key_id reseal) pl (Suc i) xs = Inr ps'" "ps = p # ps'"
      "validate_region (CustomerDomain key_id) (fst x) = Inr ()"
    by (auto simp: bindR_Inr_iff customer_security_def)
  show ?case
  proof (cases k)
    case 0
    with p show ?thesis
      by (cases x) (auto simp: moved_push_def customer_security_def requires_sealing_def bindR_Inr_iff)
  next
    case (Suc k')
    with Cons.IH [OF p(2), of k'] Cons.prems(2) p(3) show ?thesis by simp
  qed
qed simp

lemma moved_length: "moved security pl i xs = Inr ps \<Longrightarrow> length ps = length xs"
  by (induction xs arbitrary: i ps) (auto simp: bindR_Inr_iff)

lemma validate_domain_customer [simp]:
  "validate_domain output (CustomerDomain key_id) = Inr () \<longleftrightarrow> rr_alg output \<noteq> AlgNone \<and> ev_key_id (rr_envelope output) = key_id"
  by (auto simp: validate_domain_def requires_sealing_def domain_key_id_def)

lemma regions_from_nth:
  "k < length ps \<Longrightarrow> \<exists>off. regions_from start ps ! k = pushed_region off (ps ! k)"
  by (induction ps arbitrary: start k) (auto simp: nth_Cons split: nat.splits)


section \<open>Two merges run\<close>

definition example_object :: "bundle_push list \<Rightarrow> byte list" where
  "example_object ps = (case bindR (builder_of ps) builder_seal of Inl _ \<Rightarrow> [] | Inr s \<Rightarrow> sb_payload s)"

definition example_plan :: compaction_plan where
  "example_plan = \<lparr>cp_topic = ''t'', cp_partition = 0, cp_start = 0, cp_end = 5, cp_amplification = read_amp_empty\<rparr>"

definition example_inputs :: "object_ref list" where
  "example_inputs = [\<lparr>or_object = ''b'', or_base = 2, or_count = 3\<rparr>, \<lparr>or_object = ''a'', or_base = 0, or_count = 2\<rparr>]"

definition example_store :: "bundle_push list \<Rightarrow> bundle_push list \<Rightarrow> (byte list, byte list) merge_store" where
  "example_store first second =
     \<lparr>ms_get = (\<lambda>key. Inr (example_object (if key = ''a'' then first else second))), ms_open_multipart = (\<lambda>_. Inr []),
      ms_write_part = (\<lambda>w part. (Inr (), w @ part)), ms_finish = Inr\<rparr>"

definition example_run :: "byte list merge_outcome result" where
  "example_run = fst (merge
     (example_store [Plain ''t'' 0 \<lparr>pr_count = 2, pr_producer = None\<rparr> [1, 2, 3], Plain ''u'' 1 \<lparr>pr_count = 1, pr_producer = None\<rparr> [9]]
       [Plain ''t'' 0 \<lparr>pr_count = 3, pr_producer = None\<rparr> [4, 5]])
     example_plan example_inputs \<lparr>cn_writer = ''w'', cn_next = 0\<rparr>)"

lemma example_run_ok:
  "case example_run of Inl _ \<Rightarrow> False | Inr out \<Rightarrow> wr_bytes (mo_written out) < u64_max"
  by code_simp

lemma example_store_simps:
  "multipart_writer (\<lambda>w. w) (ms_write_part (example_store a b))" "ms_finish (example_store a b) = (\<lambda>w. Inr w)"
  "ms_open_multipart (example_store a b) key = Inr w \<longleftrightarrow> w = []"
  by (unfold_locales, auto simp: example_store_def)

theorem merge_moves_every_record_witness:
  "\<exists>out object regions. example_run = Inr out \<and> mo_sealed out = Some object \<and> mo_records out = 5 \<and>
     parse_footer object (length object) = Inr regions \<and> list_all (of_plan example_plan) regions"
proof -
  let ?run = "merge
     (example_store [Plain ''t'' 0 \<lparr>pr_count = 2, pr_producer = None\<rparr> [1, 2, 3], Plain ''u'' 1 \<lparr>pr_count = 1, pr_producer = None\<rparr> [9]]
       [Plain ''t'' 0 \<lparr>pr_count = 3, pr_producer = None\<rparr> [4, 5]])
     example_plan example_inputs \<lparr>cn_writer = ''w'', cn_next = 0\<rparr>"
  from example_run_ok obtain out where out: "example_run = Inr out" "wr_bytes (mo_written out) < u64_max"
    by (auto split: sum.splits)
  then have run: "?run = (Inr out, snd ?run)" by (simp add: example_run_def prod_eq_iff)
  have small: "\<forall>r\<in>set example_inputs. or_count r < 4294967295" by (simp add: example_inputs_def)
  from merge_moves_every_record [OF example_store_simps(1) _ example_store_simps(2) small run out(2)] out(1)
  show ?thesis by (auto simp: example_store_simps example_plan_def list_all_iff)
qed

definition example_reseal :: "reseal_request \<Rightarrow> resealed_region result" where
  "example_reseal request = Inr \<lparr>rr_bytes = of_nat (rq_output_region_index request) # rq_bytes request, rr_alg = Aes256Gcm,
     rr_envelope = \<lparr>ev_key_id = ''k'', ev_wrapped_dek = [7], ev_nonce = replicate 12 1\<rparr>\<rparr>"

definition example_sealed :: "byte list \<Rightarrow> nat \<Rightarrow> bundle_push" where
  "example_sealed bytes n = SealedPush ''t'' 0 \<lparr>pr_count = n, pr_producer = None\<rparr>
     \<lparr>sr_bytes = bytes, sr_alg = Aes256Gcm, sr_envelope = \<lparr>ev_key_id = ''k'', ev_wrapped_dek = [7], ev_nonce = replicate 12 0\<rparr>\<rparr>"

definition example_customer_run :: "byte list merge_outcome result" where
  "example_customer_run = fst (merge_with_resealer
     (example_store [example_sealed [1, 2, 3] 2] [example_sealed [4] 1, example_sealed [5] 2])
     example_plan example_inputs \<lparr>cn_writer = ''w'', cn_next = 0\<rparr> (customer_security ''k'' example_reseal))"

lemma example_customer_run_ok:
  "case example_customer_run of Inl _ \<Rightarrow> False | Inr out \<Rightarrow> wr_bytes (mo_written out) < u64_max"
  by code_simp


end
