(* ===== verification/Compaction_Round.thy ===== *)
theory Compaction_Round
  imports Compaction_Merge "HOL-Library.Code_Target_Nat"
begin

text \<open>
  The round a sweep builds is one that \<open>merge_round\<close> admits: its plans are for different partitions and
  their records fit the budget.
\<close>

section \<open>What is counted is not negative\<close>

abbreviation counted :: "range_walk \<Rightarrow> bool" where
  "counted walk \<equiv> \<forall>e\<in>snd ` set (wk_seen walk). 0 \<le> ex_records e"

lemma update_values: "snd ` set (AList.update k v xs) \<subseteq> insert v (snd ` set xs)"
  by (induction xs) auto

lemma walk_visit_counted:
  assumes "walk_visit walk batch = Inr (r, walk')" "counted walk"
  shows "counted walk'"
proof -
  let ?ref = "batch_reference batch"
  from assms(1) obtain e where e: "wk_seen walk' = AList.update (or_object ?ref) e (wk_seen walk)"
      "ex_records e = (case map_of (wk_seen walk) (or_object ?ref) of None \<Rightarrow> 0 | Some x \<Rightarrow> ex_records x) + int (or_count ?ref)"
    by (auto simp: walk_visit_def Let_def bindR_Inr_iff ref_end_offset_Inr_iff split: option.splits)
  moreover have "0 \<le> ex_records e"
    unfolding e(2) using assms(2) by (auto split: option.splits dest!: map_of_SomeD)
  moreover have "snd ` set (wk_seen walk') \<subseteq> insert e (snd ` set (wk_seen walk))" unfolding e(1) by (rule update_values)
  ultimately show ?thesis using assms(2) by blast
qed

lemma visit_page_counted: "visit_page walk furthest page = Inr (f, walk') \<Longrightarrow> counted walk \<Longrightarrow> counted walk'"
proof (induction page arbitrary: walk furthest)
  case (Cons batch page)
  then obtain r mid where mid: "walk_visit walk batch = Inr (r, mid)"
      "(case r of None \<Rightarrow> Inr (furthest, mid) | Some object_end \<Rightarrow> visit_page mid (max furthest object_end) page) = Inr (f, walk')"
    by (auto simp: bindR_Inr_iff)
  from walk_visit_counted [OF mid(1) Cons.prems(2)] mid(2) Cons.IH [of mid] show ?case by (cases r) auto
qed simp

lemma survey_loop_counted: "survey_loop index key end walk cursor = Inr walk' \<Longrightarrow> counted walk \<Longrightarrow> counted walk'"
proof (induction index key "end" walk cursor rule: survey_loop.induct)
  case (1 index key "end" walk cursor)
  show ?case
  proof (cases "cursor < end")
    case False
    with 1(2,3) show ?thesis by (simp add: survey_loop.simps)
  next
    case True
    with 1(2) obtain page where page: "find_batches index key cursor u64_max = Inr page"
      by (auto simp: survey_loop.simps [of index] bindR_Inr_iff)
    show ?thesis
    proof (cases "page = []")
      case False
      with True 1(2) page obtain furthest mid where mid: "visit_page walk cursor page = Inr (furthest, mid)"
        by (auto simp: survey_loop.simps [of index] bindR_Inr_iff)
      from visit_page_counted [OF mid 1(3)] have "counted mid" .
      with 1(1) [OF True False, of furthest mid] 1(2) True False page mid show ?thesis
        by (auto simp: survey_loop.simps [of index key "end" walk] split: if_splits)
    qed (use 1(2,3) True page in \<open>simp add: survey_loop.simps [of index]\<close>)
  qed
qed

lemma finish_seen_counted:
  "\<forall>e\<in>snd ` set seen. 0 \<le> ex_records e \<Longrightarrow> 0 \<le> ra_records amp \<Longrightarrow> 0 \<le> ra_history_records amp \<Longrightarrow>
     0 \<le> ra_records (finish_seen barred amp seen) \<and> 0 \<le> ra_history_records (finish_seen barred amp seen)"
proof (induction barred amp seen rule: finish_seen.induct)
  case (2 barred self key extent seen)
  have step: "0 \<le> ra_records (count_extent self s extent)" "0 \<le> ra_history_records (count_extent self s extent)" for s
    using 2 by (auto simp: count_extent_def Let_def)
  from 2 step show ?case by (auto split: option.splits)
qed simp

lemma bar_seen: "wk_seen (foldl (\<lambda>walk batch. if P batch then walk_bar walk (f batch) else walk) walk page) = wk_seen walk"
  by (induction page arbitrary: walk) (auto simp: walk_bar_def)

lemma survey_counted: "survey index key start end = Inr amp \<Longrightarrow> 0 \<le> ra_records amp \<and> 0 \<le> ra_history_records amp"
proof -
  assume "survey index key start end = Inr amp"
  then obtain w0 w where w: "survey_probe index key start end (walk_over start end) = Inr w0"
      "survey_loop index key end w0 start = Inr w" "amp = walk_finish w"
    by (auto simp: survey_def bindR_Inr_iff)
  from w(1) have "wk_seen w0 = []"
    by (auto simp: survey_probe_def walk_over_def bindR_Inr_iff bar_seen split: if_splits sum.splits)
  with survey_loop_counted [OF w(2)] have "counted w" by simp
  with finish_seen_counted [of "wk_seen w" read_amp_empty "wk_barred w"] show ?thesis
    by (simp add: w(3) walk_finish_def Let_def read_amp_empty_def)
qed

lemma read_amp_counted: "read_amp_of index key start end = Inr amp \<Longrightarrow> 0 \<le> ra_records amp \<and> 0 \<le> ra_history_records amp"
  by (auto simp: read_amp_of_def bindR_Inr_iff split: sum.splits error.splits if_splits dest!: survey_counted)

lemma plan_planned:
  assumes "plan index key start end = Inr (Planned pl)"
  shows "cp_key pl = key" "0 \<le> ce_records_rewritten (plan_cost pl)" "within_budget (plan_cost pl)"
proof -
  from assms obtain surveyed where surveyed: "read_amp_of index key start end = Inr surveyed"
    and rest: "(let amplification = (case ra_first_tail_base surveyed of None \<Rightarrow> surveyed | Some _ \<Rightarrow> before_tail surveyed)
       in case ra_covered amplification of
            None \<Rightarrow> Inr NotWorthIt
          | Some (start, end) \<Rightarrow>
              if ratio amplification \<le> of_nat COMPACTION_READ_AMP_THRESHOLD then Inr NotWorthIt
              else let cost = cost_of amplification
                   in if \<not> within_budget cost then Inr (Deferred cost)
                      else Inr (Planned \<lparr>cp_topic = fst key, cp_partition = snd key, cp_start = start, cp_end = end,
                                        cp_amplification = amplification\<rparr>)) = (Inr (Planned pl) :: planning result)"
    unfolding plan_def by (rule bindR_InrE)
  define amp where amp: "amp = (case ra_first_tail_base surveyed of None \<Rightarrow> surveyed | Some _ \<Rightarrow> before_tail surveyed)"
  from rest have s: "cp_amplification pl = amp \<and> cp_key pl = key \<and> within_budget (cost_of amp)"
    unfolding amp [symmetric] Let_def by (cases "ra_covered amp") (auto split: prod.splits if_splits)
  then show "cp_key pl = key" "within_budget (plan_cost pl)" by (simp_all add: plan_cost_def)
  from read_amp_counted [OF surveyed] s amp show "0 \<le> ce_records_rewritten (plan_cost pl)"
    by (auto simp: plan_cost_def cost_of_def before_tail_def split: option.splits)
qed

section \<open>The round of a sweep\<close>

abbreviation rewritten :: "planned_inputs \<Rightarrow> int" where
  "rewritten planned \<equiv> ce_records_rewritten (plan_cost (pl_plan planned))"

definition planned_key :: "planned_inputs \<Rightarrow> pkey" where
  "planned_key planned = cp_key (pl_plan planned)"

definition sweeping :: "sweep \<times> int \<times> pkey list \<Rightarrow> bool" where
  "sweeping st \<longleftrightarrow> (case st of (swept, budget, seen) \<Rightarrow>
     0 \<le> budget \<and> budget + sum_list (map rewritten (sp_round swept)) = COMPACTION_PLAN_RECORDS_BUDGET \<and>
     (\<forall>planned\<in>set (sp_round swept). 0 \<le> rewritten planned) \<and>
     distinct (map planned_key (sp_round swept) @ sp_held_over swept) \<and>
     set (map planned_key (sp_round swept) @ sp_held_over swept) \<subseteq> set seen)"

lemma sweep_one_keeps:
  assumes "sweep_one index st cand = Inr st'" "sweeping st"
  shows "sweeping st' \<and> set (snd (snd st')) = insert (ca_topic cand, ca_partition cand) (set (snd (snd st)))"
proof (cases st)
  case (fields swept budget seen)
  let ?key = "(ca_topic cand, ca_partition cand)"
  show ?thesis
  proof (cases "?key \<in> set seen")
    case True
    with assms fields show ?thesis by (auto simp: sweep_one_def Let_def)
  next
    case False
    with assms(1) fields obtain start "end" planning where p: "plan index ?key start end = Inr planning"
        "(case planning of
            NotWorthIt \<Rightarrow> Inr (swept, budget, ?key # seen)
          | Deferred _ \<Rightarrow> Inr (swept\<lparr>sp_held_over := sp_held_over swept @ [?key]\<rparr>, budget, ?key # seen)
          | Planned planned \<Rightarrow>
              if ce_records_rewritten (plan_cost planned) > budget
              then Inr (swept\<lparr>sp_held_over := sp_held_over swept @ [?key]\<rparr>, budget, ?key # seen)
              else bindR (derive index planned) (\<lambda>inputs.
                Inr (swept\<lparr>sp_round := sp_round swept @ [inputs]\<rparr>, budget - ce_records_rewritten (plan_cost planned), ?key # seen))) =
          Inr st'"
      by (auto simp: sweep_one_def Let_def bindR_Inr_iff)
    have fresh: "?key \<notin> planned_key ` set (sp_round swept)" "?key \<notin> set (sp_held_over swept)"
      using assms(2) fields False by (auto simp: sweeping_def)
    show ?thesis
    proof (cases planning)
      case (Planned pl)
      note pl = plan_planned [OF p(1) [unfolded Planned]]
      have key: "planned_key \<lparr>pl_plan = pl, pl_inputs = inputs\<rparr> = ?key" for inputs using pl(1) by (simp add: planned_key_def)
      show ?thesis
      proof (cases "ce_records_rewritten (plan_cost pl) > budget")
        case True
        with p(2) Planned have "st' = (swept\<lparr>sp_held_over := sp_held_over swept @ [?key]\<rparr>, budget, ?key # seen)" by simp
        with assms(2) fields fresh show ?thesis by (simp add: sweeping_def subset_insertI2)
      next
        case False
        with p(2) Planned obtain inputs where "st' = (swept\<lparr>sp_round := sp_round swept @ [\<lparr>pl_plan = pl, pl_inputs = inputs\<rparr>]\<rparr>,
            budget - ce_records_rewritten (plan_cost pl), ?key # seen)"
          by (auto simp: bindR_Inr_iff derive_def)
        with assms(2) fields fresh pl(2) False show ?thesis by (simp add: sweeping_def subset_insertI2 key)
      qed
    next
      case NotWorthIt
      with p(2) have "st' = (swept, budget, ?key # seen)" by simp
      with assms(2) fields show ?thesis by (simp add: sweeping_def subset_insertI2)
    next
      case (Deferred cost)
      with p(2) have "st' = (swept\<lparr>sp_held_over := sp_held_over swept @ [?key]\<rparr>, budget, ?key # seen)" by simp
      with assms(2) fields fresh show ?thesis by (simp add: sweeping_def subset_insertI2)
    qed
  qed
qed

lemma sweep_round_sweeping:
  assumes "sweep_round index candidates = Inr swept"
  obtains budget seen where "sweeping (swept, budget, seen)"
    "set seen = (\<lambda>cand. (ca_topic cand, ca_partition cand)) ` set candidates"
proof -
  let ?start = "(\<lparr>sp_round = [], sp_held_over = []\<rparr>, COMPACTION_PLAN_RECORDS_BUDGET, []) :: sweep \<times> int \<times> pkey list"
  have "sweeping st' \<and> set (snd (snd st')) = set (snd (snd st)) \<union> (\<lambda>cand. (ca_topic cand, ca_partition cand)) ` set cs"
    if "foldR (sweep_one index) st cs = Inr st'" "sweeping st" for st st' cs
    using that
  proof (induction cs arbitrary: st)
    case (Cons cand cs)
    then obtain mid where mid: "sweep_one index st cand = Inr mid" "foldR (sweep_one index) mid cs = Inr st'"
      by (auto simp: bindR_Inr_iff)
    from sweep_one_keeps [OF mid(1) Cons.prems(2)] Cons.IH [OF mid(2)] show ?case by auto
  qed simp
  moreover from assms obtain budget seen where "foldR (sweep_one index) ?start candidates = Inr (swept, budget, seen)"
    by (auto simp: sweep_round_def bindR_Inr_iff)
  moreover have "sweeping ?start" by (simp add: sweeping_def COMPACTION_PLAN_RECORDS_BUDGET_def)
  ultimately show thesis using that by fastforce
qed

section \<open>The round is admitted\<close>

lemma admissible_distinct:
  assumes "distinct (map planned_key ordered)" "\<And>lst. previous = Some lst \<Longrightarrow> cp_key lst \<notin> planned_key ` set ordered"
    and "\<forall>planned\<in>set ordered. 0 \<le> rewritten planned" "0 \<le> records"
    and "records + sum_list (map rewritten ordered) \<le> i64_max"
  shows "admissible_from records previous ordered = Inr (records + sum_list (map rewritten ordered))"
  using assms
proof (induction ordered arbitrary: records previous)
  case (Cons planned ordered)
  have "0 \<le> sum_list (map rewritten ordered)" using Cons.prems(3) by (intro sum_list_nonneg) auto
  with Cons.prems(3-5) have "saturating_i64 (records + rewritten planned) = records + rewritten planned"
    by (simp add: saturating_i64_def)
  moreover have "\<not> (case previous of None \<Rightarrow> False | Some lst \<Rightarrow> cp_key lst = cp_key (pl_plan planned) \<and> cp_start (pl_plan planned) < cp_end lst)"
    using Cons.prems(2) by (auto simp: planned_key_def split: option.splits)
  moreover have "admissible_from (records + rewritten planned) (Some (pl_plan planned)) ordered =
      Inr (records + rewritten planned + sum_list (map rewritten ordered))"
    by (rule Cons.IH) (use Cons.prems in \<open>auto simp: planned_key_def\<close>)
  ultimately show ?case by (simp add: Let_def planned_key_def)
qed simp

text \<open>C22. A swept round is one the merge admits.  Whatever the index and the candidates, the plans of a sweep are
  for pairwise different partitions among the candidates, none of them also held over, the records they
  rewrite are together within the budget of a round, and the checks \<open>merge_round\<close> makes before it mints
  a key, overlap and size, both pass, in the order it sorts the plans to.\<close>

theorem swept_round_is_admitted:
  assumes "sweep_round index candidates = Inr swept"
  shows "distinct (map planned_key (sp_round swept) @ sp_held_over swept) \<and>
    set (map planned_key (sp_round swept) @ sp_held_over swept) \<subseteq> (\<lambda>cand. (ca_topic cand, ca_partition cand)) ` set candidates \<and>
    sum_list (map rewritten (sp_round swept)) \<le> COMPACTION_PLAN_RECORDS_BUDGET \<and>
    round_admissible (round_order (sp_round swept)) = Inr ()"
proof -
  from sweep_round_sweeping [OF assms] obtain budget seen where s: "sweeping (swept, budget, seen)"
      "set seen = (\<lambda>cand. (ca_topic cand, ca_partition cand)) ` set candidates" .
  let ?ordered = "round_order (sp_round swept)"
  have same: "mset ?ordered = mset (sp_round swept)" by (simp add: round_order_def)
  have "sum_list (map rewritten xs) = sum_mset (image_mset rewritten (mset xs))" for xs
    by (simp flip: sum_mset_sum_list)
  then have sums: "sum_list (map rewritten ?ordered) = sum_list (map rewritten (sp_round swept))" by (simp add: same)
  have "distinct (map planned_key ?ordered)"
  proof -
    have "mset (map planned_key ?ordered) = mset (map planned_key (sp_round swept))" using same by simp
    from mset_eq_imp_distinct_iff [OF this] s(1) show ?thesis by (simp add: sweeping_def)
  qed
  moreover have "\<forall>planned\<in>set ?ordered. 0 \<le> rewritten planned"
    using s(1) mset_eq_setD [OF same] by (simp add: sweeping_def)
  moreover have "sum_list (map rewritten ?ordered) \<le> COMPACTION_PLAN_RECORDS_BUDGET"
    using s(1) by (simp add: sums sweeping_def)
  ultimately have "round_admissible ?ordered = Inr ()"
    using admissible_distinct [of ?ordered None 0] by (simp add: round_admissible_def COMPACTION_PLAN_RECORDS_BUDGET_def)
  with s show ?thesis by (simp add: sweeping_def)
qed

definition example_amplified :: index_state where
  "example_amplified = index_new\<lparr>ix_partitions := (\<lambda>key. if key = (''t'', 0)
     then Some (partition_default\<lparr>pi_end := 14,
       pi_history := map (\<lambda>i. \<lparr>or_object = replicate (Suc i) CHR ''a'', or_base = int i, or_count = 1\<rparr>) [0..<14]\<rparr>)
     else None)\<rparr>"

definition example_candidates :: "sweep_candidate list" where
  "example_candidates = [\<lparr>ca_topic = ''t'', ca_partition = 0, ca_from = 0\<rparr>, \<lparr>ca_topic = ''u'', ca_partition = 1, ca_from = 3\<rparr>,
     \<lparr>ca_topic = ''t'', ca_partition = 0, ca_from = 2\<rparr>]"

lemma example_sweep:
  "(case sweep_round example_amplified example_candidates of Inl _ \<Rightarrow> None
    | Inr swept \<Rightarrow> Some (map (\<lambda>planned. (planned_key planned, length (pl_inputs planned))) (sp_round swept))) =
   Some [((''t'', 0), 14)]"
  by code_simp

theorem swept_round_is_admitted_witness:
  "\<exists>swept. sweep_round example_amplified example_candidates = Inr swept \<and> map planned_key (sp_round swept) = [(''t'', 0)] \<and>
     round_admissible (round_order (sp_round swept)) = Inr ()"
proof -
  from example_sweep obtain swept where swept: "sweep_round example_amplified example_candidates = Inr swept"
      "map (\<lambda>planned. (planned_key planned, length (pl_inputs planned))) (sp_round swept) = [((''t'', 0), 14)]"
    by (auto split: sum.splits)
  from arg_cong [OF swept(2), of "map fst"] have "map planned_key (sp_round swept) = [(''t'', 0)]" by (simp add: comp_def)
  moreover from swept_round_is_admitted [OF swept(1)] have "round_admissible (round_order (sp_round swept)) = Inr ()"
    by (elim conjE)
  ultimately show ?thesis using swept(1) by (intro exI [of _ swept] conjI)
qed

end
