(* ===== verification/Spec2Isabelle.thy ===== *)
theory Spec2Isabelle
  imports Staleness Lease_Safety Metadata_Object_Log Group_Object_Log Retention_Safety Compaction_Safety Compaction_Round
begin

text \<open>
  oqueue is a Kafka-compatible broker whose only storage is an object store.  Brokers pack the
  records of many partitions into one object (a bundle) and put it; a coordinator then assigns
  offsets to the bundle's spans by appending one entry to a metadata log, and folds the log into an
  index that answers fetches with object names and byte ranges.  The metadata log is itself a run of
  objects in the store, and a lease in the store elects the one coordinator that may append.  A
  standby folds the same log and takes over by finishing the fold.

  The development models that metadata path, from the bytes of a log segment to the answer a
  producer and a consumer get, and proves what each part promises to the next.  Results are the sum
  type \<open>error + 'a\<close> with the variants of \<open>error.rs\<close>; state is passed explicitly; code over the object
  store is a program of type \<open>io\<close>, one effect at a time, so that other tasks and crashes come between
  any two of its requests.

  \<^bold>\<open>Prelude, Core_Types.\<close>  Results, fallible folds, association lists; the checked arithmetic of
  offsets, versions, byte ranges and time spans, object references, and the coverage check of
  compaction (\<open>offset.rs\<close>, \<open>commit_version.rs\<close>, \<open>byte_range.rs\<close>, \<open>time_span.rs\<close>, \<open>object_ref.rs\<close>,
  \<open>coverage.rs\<close>).  \<open>covers\<close> accepts a replacement exactly when it names the same offsets.

  \<^bold>\<open>Metadata_Log.\<close>  The records, entries and the \<open>MetadataLog\<close> trait (\<open>metadata_record.rs\<close>,
  \<open>metadata_log.rs\<close>) as the locale \<open>metadata_log\<close>, interpreted on the in-memory log and, in
  Metadata_Object_Log, on the log in object storage.  Applier, Coordinator_Replay and their
  successors prove their theorems inside the locale.

  \<^bold>\<open>Partition_Index, Index_State, Index_Fold, Index_Accounting, Index_Read, Index_Effects,
  Index_Fetch, Materialized_Index.\<close>  The offset index (\<open>index_state.rs\<close> and its directory).
  \<open>partition_index\<close> is one partition's tail window and history; \<open>index_apply\<close> is
  \<open>IndexState::apply\<close>: it reads a page of entries, stages and projects every effect, checks the
  quota, and installs all of it or nothing.  The abstract specification is \<open>log_run\<close>, one entry at a
  time on partitions; Index_Fold proves the page fold refines it, so how a log is cut into pages does
  not matter.  Index_Accounting carries the invariant (every offset once, reference counts and tier
  counts exact, the quota); the others state what commits, trims, swaps, publications and fetches do.

  \<^bold>\<open>Applier, Staleness.\<close>  The log applier's catch-up loop (\<open>oqueue-index/src/applier.rs\<close>) and the
  admission of cached reads (\<open>staleness.rs\<close>).

  \<^bold>\<open>Allocator, Allocation, Admission, Allocation_Replay.\<close>  The coordinator's allocator, its producer
  table and idempotent admission (\<open>oqueue-coordinator/src/allocator.rs\<close>, \<open>allocator/\<close>): which offsets
  a commit gets, which retries are answered from the table, and that replaying the log rebuilds the
  same allocator.

  \<^bold>\<open>Coordinator, Coordinator_Replay, Coordinator_Invariant, Coordinator_Safety,
  Coordinator_Guarantees.\<close>  The coordinator's loop (\<open>coordinator.rs\<close>, \<open>serve.rs\<close>,
  \<open>serve/leadership.rs\<close>, \<open>standby.rs\<close>): opening and rebuilding by replay, every request handler
  with its leadership checks before and after the append, publication, the hot standby.  \<open>run_one\<close>
  serves one request; the invariant \<open>co_ready\<close> is kept by every request, whatever the log and the
  lease answer.

  \<^bold>\<open>Bytes, Codec, Segment_Frame, Metadata_Segment.\<close>  The segment format (\<open>metadata_segment.rs\<close>) over 8-bit words.
  The locale \<open>codec\<close> is the contract of a writer and a reader; combinators build the codec of a record
  from those of its fields, Segment_Frame adds tags, the frame and refusals, and
  \<open>segment_round_trip\<close> follows.

  \<^bold>\<open>Object_Store.\<close>  The store with conditional puts (\<open>store/fake.rs\<close>), the faults it may show
  (\<open>fault.rs\<close>), and programs over it: \<open>io_run\<close> runs one alone, \<open>io_step\<close> is one effect with every
  fault.

  \<^bold>\<open>Lease, Lease_Safety.\<close>  The leadership lease (\<open>lease.rs\<close>) as a step relation of nodes with their
  own clocks over one store.  The proof is rely-guarantee: each step of \<open>acquire\<close> and \<open>renew\<close> is safe
  under what any other node may do, and at no reachable state do two nodes hold the lease.  It rests
  on: one lease call at a time per node, as the keeper task makes them; clocks that never go back and
  never differ by more than \<open>LEASE_SKEW_MS\<close>; a request has its effect before its caller gives up on
  it.

  \<^bold>\<open>Segment_Log, Segment_Durability, Log_Durability, Opened_Log, Metadata_Object_Log.\<close>  The log in object storage
  (\<open>object_store_log.rs\<close>, \<open>object_store_log/base.rs\<close>), generic over the segment format: the locale
  \<open>segment_codec\<close> asks that what is encoded decodes.  \<open>log_at\<close> says what a store holds, \<open>view_of\<close> what
  a handle that may have lost an answer still knows; every step of an append or a checkpoint keeps
  both.  \<open>log_reachable\<close> is any history of operations, faults, crashes and restarts of one writer at a
  time.

  \<^bold>\<open>Consumer_Groups, Group_Log, Group_Replay, Group_Segment, Group_Object_Log.\<close>  Consumer groups: the
  group state machine, the coordinator of all groups, the election of a leader and protocol
  (\<open>group_state.rs\<close>, \<open>group_coordinator.rs\<close>, \<open>group_protocol.rs\<close>), the fence of group requests, the
  actor that makes every transition durable before it applies it, and the committed offsets
  (\<open>oqueue-broker/src/fencing.rs\<close>, \<open>group_transitions.rs\<close>, \<open>offset_commit.rs\<close>).  The locale \<open>group_log\<close>
  is the trait \<open>GroupMetadataLog\<close>; it is interpreted on the in-memory log and on the opened
  object-store log, whose segments (\<open>group_segment.rs\<close>) are a second \<open>segment_codec\<close>.  Inside it the
  live coordinator is always the replay of the log.

  \<^bold>\<open>Bundle, Bundle_Round_Trip, Bundle_Stream.\<close>  The objects records are stored in: the builder and the
  footer that names each partition's region (\<open>bundle.rs\<close>, \<open>bundle/encode.rs\<close>, \<open>region_envelope.rs\<close>), the
  footer parser (\<open>bundle_footer.rs\<close>), and the assembly of an object too large to hold
  (\<open>bundle_stream.rs\<close>) over the trait \<open>MultipartWriter\<close>, the locale \<open>multipart_writer\<close>.  What is sealed
  parses back region by region from any tail that holds the footer, an accepted footer tiles the
  payload, and a stream of one kind of push leaves the object the builder would have sealed.

  \<^bold>\<open>Object_Lifecycle, Deletion_Safety, Expiry_Heap, Retention, Retention_Safety.\<close>  Expiry and deletion
  (\<open>oqueue-compact/src/lifecycle.rs\<close>, \<open>gc.rs\<close>, \<open>retention.rs\<close>; \<open>oqueue-broker/src/retention.rs\<close>): the
  lifecycle of an object the index stopped naming, over the delete of the store (the locale
  \<open>object_deleter\<close>), the heap of retention deadlines, and the task that follows the log with an index of
  its own, trims, releases and sweeps.  The lifecycle's theorems are about histories of releases and sweeps;
  the task's rounds are shown to be such histories, so they hold of the task: nothing is deleted that the
  index has named within the deletion delay, and nothing that was released is lost.

  \<^bold>\<open>Object_Names, Compaction_Plan, Compaction_Merge, Compaction_Safety, Compaction_Round.\<close>  Compaction
  (\<open>oqueue-compact\<close>): the survey of how many objects a range is spread over, the plan, the inputs read off
  the index and the sweep that fills a round (\<open>read_amp.rs\<close>, \<open>read_amp/\<close>, \<open>cost.rs\<close>, \<open>plan.rs\<close>,
  \<open>sweep.rs\<close>, \<open>layout.rs\<close>); the merge of a plan or a round into one object, in the default domain or in a
  customer's key domain (\<open>merge.rs\<close>, \<open>key_domain.rs\<close>, \<open>region_resealer.rs\<close>); the names of written
  objects (\<open>namer.rs\<close>, \<open>bundle_name.rs\<close>, the locale \<open>key_namer\<close>).  A merge over any \<open>multipart_writer\<close>
  is a stream of pushes, so what is known of streams gives what the sealed object holds: every record of
  the range, once and in order, or what the re-sealer made of it.  The store's answers are the fields of
  \<open>merge_store\<close>.

  \<^bold>\<open>Bounds.\<close>  Machine integers are nat or int with the checked and saturating operations written out
  (\<open>u64_max\<close>, \<open>i64_max\<close>); counts of elements in memory are unbounded.  The loops over a log
  (\<open>applier_loop\<close>, \<open>fold_pages\<close>, \<open>rebuild_loop\<close>, \<open>standby_loop\<close>) are partial functions with the value
  None when they do not return, and are proved to return.  \<open>SEARCH_PROBES\<close> is the code's own bound of
  128, proved enough for \<open>2 ^ 63\<close> generations.  \<open>segments_open\<close> has as many turns as its argument
  says; alone on the store one is enough.  Histories are of at most \<open>2 ^ 63\<close> operations.

  \<^bold>\<open>Not modelled.\<close>  The broker's request handlers and the network, the Kafka wire codec, the
  partition manifests, composite objects, the topic catalog, quotas per principal, encryption,
  the S3 and GCS clients, the executor and its channels, and the binary.  Debug, Display and metrics
  are left out throughout.
\<close>

end
